(* ===== verification/Prelude.thy ===== *)
theory Prelude
  imports Main "HOL-Library.Word"
begin

unbundle bit_operations_syntax

text \<open>
  Shared vocabulary of the msgsrvd development: the C integer types of
  \<^verbatim>\<open>src/core/types.h\<close> as machine words, little-endian byte codecs (the wire
  protocol and the log are memcpy-decoded on a little-endian machine), the memory
  splice that models \<^verbatim>\<open>mem_copy\<close> into a buffer, and the list lemmas the
  components share.
\<close>

section \<open>Types\<close>

type_synonym u8 = "8 word"
type_synonym u16 = "16 word"
type_synonym u32 = "32 word"
type_synonym u64 = "64 word"
type_synonym bytes = "8 word list"

named_theorems codec_simps \<open>lengths and round trips of the byte codecs\<close>
named_theorems mem_simps \<open>reading back what was written into a buffer\<close>

section \<open>Little-endian integers\<close>

text \<open>\<open>le_enc n w\<close> is the \<open>n\<close> bytes memcpy writes for the integer \<open>w\<close>,
  least significant first; \<open>le_dec\<close> reads them back.\<close>

primrec le_enc :: "nat \<Rightarrow> 'a::len word \<Rightarrow> bytes" where
  "le_enc 0 w = []"
| "le_enc (Suc n) w = ucast w # le_enc n (drop_bit 8 w)"

primrec le_dec :: "bytes \<Rightarrow> 'a::len word" where
  "le_dec [] = 0"
| "le_dec (b # bs) = or (ucast b) (push_bit 8 (le_dec bs))"

lemma length_le_enc [simp, codec_simps]: "length (le_enc n w) = n"
  by (induction n arbitrary: w) auto

lemma le_dec_le_enc_take:
  "8 \<le> LENGTH('a) \<Longrightarrow> le_dec (le_enc n (w :: 'a::len word)) = take_bit (8 * n) w"
proof (induction n arbitrary: w)
  case 0
  then show ?case by simp
next
  case (Suc n)
  show ?case
    by (rule bit_word_eqI)
      (auto simp: Suc.IH [OF Suc.prems] bit_simps not_less
        dest: le_Suc_ex simp flip: add.assoc)
qed

lemma le_dec_le_enc16 [simp, codec_simps]: "le_dec (le_enc 2 (w :: u16)) = w"
  by (simp add: le_dec_le_enc_take take_bit_word_eq_self)

lemma le_dec_le_enc32 [simp, codec_simps]: "le_dec (le_enc 4 (w :: u32)) = w"
  by (simp add: le_dec_le_enc_take take_bit_word_eq_self)

lemma le_dec_le_enc64 [simp, codec_simps]: "le_dec (le_enc 8 (w :: u64)) = w"
  by (simp add: le_dec_le_enc_take take_bit_word_eq_self)

lemma le_dec_high: "8 * length bs \<le> k \<Longrightarrow> \<not> bit (le_dec bs :: 'a::len word) k"
proof (induction bs arbitrary: k)
  case Nil
  then show ?case by simp
next
  case (Cons b bs)
  then have "\<not> bit (le_dec bs :: 'a word) (k - 8)" by simp
  with Cons.prems show ?case by (auto simp: bit_simps dest: bit_imp_le_length)
qed

lemma le_enc_le_dec:
  "8 * length bs \<le> LENGTH('a) \<Longrightarrow> le_enc (length bs) (le_dec bs :: 'a::len word) = bs"
proof (induction bs)
  case Nil
  then show ?case by simp
next
  case (Cons b bs)
  let ?w = "le_dec bs :: 'a word"
  have high: "\<not> bit ?w k" if "LENGTH('a) - 8 \<le> k" for k
    using that Cons.prems by (intro le_dec_high) simp
  have "ucast (ucast b OR push_bit 8 ?w) = b"
    using Cons.prems by (intro bit_word_eqI) (auto simp: bit_simps)
  moreover have "drop_bit 8 (ucast b OR push_bit 8 ?w) = ?w"
    using Cons.prems high
    by (intro bit_word_eqI) (auto simp: bit_simps not_less dest: bit_imp_le_length; fastforce)
  ultimately show ?case using Cons by simp
qed

lemma le_enc_le_dec4: "length bs = 4 \<Longrightarrow> le_enc 4 (le_dec bs :: u32) = bs"
  using le_enc_le_dec [of bs, where 'a = 32] by simp

lemma le_dec4_inj: "length xs = 4 \<Longrightarrow> length ys = 4 \<Longrightarrow> (le_dec xs :: u32) = le_dec ys \<Longrightarrow> xs = ys"
  by (metis le_enc_le_dec4)

section \<open>Words and naturals\<close>

lemma unat_of_nat64: "n < 2 ^ 64 \<Longrightarrow> unat (of_nat n :: u64) = n"
  by (simp add: unsigned_of_nat take_bit_nat_eq_self)

lemma unat_less64: "unat (w :: u64) < 2 ^ 64"
  using unsigned_less [of w] by simp

lemma unat_add1_64: "unat w + 1 < 2 ^ 64 \<Longrightarrow> unat (w + 1 :: u64) = unat w + 1"
  using unat_of_nat64 [of "unat w + 1"] by (simp add: add.commute)

lemma word_pred_less: "(x :: u64) \<noteq> 0 \<Longrightarrow> x - 1 < x"
  by (simp add: word_less_nat_alt unat_minus_one word_neq_0_conv)

lemma word_less_succ: "(x :: u64) \<noteq> - 1 \<Longrightarrow> x < x + 1"
  using word_pred_less [of "x + 1"] by (metis add_diff_cancel_right' add_eq_0_iff2)

lemma word_le_pred: "(x :: u64) < y \<Longrightarrow> x \<le> y - 1"
  by (cases "y = 0") (auto simp: word_less_nat_alt word_le_nat_alt unat_minus_one)

end
