(* ===== verification/Core_Mem.thy ===== *)
theory Core_Mem
  imports Prelude
begin

text \<open>
  \<^verbatim>\<open>src/core/types.h\<close>, \<^verbatim>\<open>src/core/mem.h\<close> and \<^verbatim>\<open>src/core/arena.h\<close>: index-based spans,
  the byte loops that replace libc's memory functions, and the bump allocator.

  C's \<open>int32_t\<close> values are \<open>int\<close>; where the source adds two of them the sum is
  written \<open>add32\<close>, the two's-complement result of the machine addition, so that the
  places where a bounds check itself can overflow stay visible. A pointer into a buffer
  is its offset, and a NULL result is \<open>None\<close>.
\<close>

unbundle bit_operations_syntax

section \<open>Spans and results (types.h)\<close>

definition add32 :: "int \<Rightarrow> int \<Rightarrow> int" where
  "add32 a b = signed_take_bit 31 (a + b)"

record span_t =
  off :: int
  len :: int

definition SPAN :: "int \<Rightarrow> int \<Rightarrow> span_t" where
  "SPAN o' l = \<lparr>off = signed_take_bit 31 o', len = signed_take_bit 31 l\<rparr>"

definition SPAN_NULL :: span_t where
  "SPAN_NULL = \<lparr>off = 0, len = 0\<rparr>"

definition span_ptr :: "int \<Rightarrow> span_t \<Rightarrow> int option" where
  "span_ptr base_len s =
     (if off s < 0 \<or> len s < 0 \<or> add32 (off s) (len s) > base_len then None
      else Some (off s))"

definition span_cptr :: "int \<Rightarrow> span_t \<Rightarrow> int option" where
  "span_cptr base_len s =
     (if off s < 0 \<or> len s < 0 \<or> add32 (off s) (len s) > base_len then None
      else Some (off s))"

definition span_empty :: "span_t \<Rightarrow> bool" where
  "span_empty s \<longleftrightarrow> len s \<le> 0"

definition span_sub :: "span_t \<Rightarrow> int \<Rightarrow> int \<Rightarrow> span_t" where
  "span_sub parent o' l =
     (if o' < 0 \<or> l < 0 \<or> add32 o' l > len parent then SPAN_NULL
      else SPAN (add32 (off parent) o') l)"

text \<open>Error categories of \<^verbatim>\<open>types.h\<close>; a result is \<open>Ok\<close> or a code with its detail.\<close>

datatype err_code = ERR_SYSCALL | ERR_NOMEM | ERR_OVERFLOW | ERR_INVALID | ERR_EOF
  | ERR_PROTOCOL | ERR_STORAGE | ERR_AGAIN

datatype result_t = RESULT_OK | RESULT_ERR err_code int

definition result_ok :: "result_t \<Rightarrow> bool" where
  "result_ok r \<longleftrightarrow> r = RESULT_OK"

lemma result_ok_simps [simp]:
  "result_ok RESULT_OK" "\<not> result_ok (RESULT_ERR c d)"
  by (simp_all add: result_ok_def)

section \<open>Memory loops (mem.h)\<close>

text \<open>\<open>mem_copy_in n m d s\<close> is the loop of \<^verbatim>\<open>mem_copy\<close> when source and destination lie
  in the same object \<open>m\<close>: it copies upward, one element at a time. \<open>mem_copy\<close> is
  the same loop over two objects.\<close>

primrec mem_copy_in :: "nat \<Rightarrow> 'a list \<Rightarrow> nat \<Rightarrow> nat \<Rightarrow> 'a list" where
  "mem_copy_in 0 m d s = m"
| "mem_copy_in (Suc n) m d s = mem_copy_in n (m[d := m ! s]) (Suc d) (Suc s)"

primrec mem_copy :: "nat \<Rightarrow> 'a list \<Rightarrow> nat \<Rightarrow> 'a list \<Rightarrow> nat \<Rightarrow> 'a list" where
  "mem_copy 0 dst d src s = dst"
| "mem_copy (Suc n) dst d src s = mem_copy n (dst[d := src ! s]) (Suc d) src (Suc s)"

primrec mem_set :: "nat \<Rightarrow> 'a list \<Rightarrow> nat \<Rightarrow> 'a \<Rightarrow> 'a list" where
  "mem_set 0 dst d v = dst"
| "mem_set (Suc n) dst d v = mem_set n (dst[d := v]) (Suc d) v"

definition mem_zero :: "nat \<Rightarrow> bytes \<Rightarrow> nat \<Rightarrow> bytes" where
  "mem_zero n dst d = mem_set n dst d 0"

fun mem_cmp :: "bytes \<Rightarrow> bytes \<Rightarrow> nat \<Rightarrow> int" where
  "mem_cmp a b 0 = 0"
| "mem_cmp (x # a) (y # b) (Suc n) =
     (if x \<noteq> y then (if x < y then -1 else 1) else mem_cmp a b n)"
| "mem_cmp _ _ _ = 0"

definition span_cmp :: "bytes \<Rightarrow> span_t \<Rightarrow> bytes \<Rightarrow> span_t \<Rightarrow> int" where
  "span_cmp base_a a base_b b =
     (case (span_cptr (int (length base_a)) a, span_cptr (int (length base_b)) b) of
        (Some pa, Some pb) \<Rightarrow>
          (let min_len = (if len a < len b then len a else len b);
               r = mem_cmp (drop (nat pa) base_a) (drop (nat pb) base_b) (nat min_len)
           in if r \<noteq> 0 then r
              else if len a < len b then -1 else if len a > len b then 1 else 0)
      | (Some pa, None) \<Rightarrow> 1
      | (None, Some pb) \<Rightarrow> -1
      | (None, None) \<Rightarrow> 0)"

definition span_copy :: "bytes \<Rightarrow> span_t \<Rightarrow> bytes \<Rightarrow> span_t \<Rightarrow> bytes option" where
  "span_copy dst_base dst src_base src =
     (if len dst < len src then None
      else case (span_ptr (int (length dst_base)) dst, span_cptr (int (length src_base)) src) of
        (Some dp, Some sp) \<Rightarrow> Some (mem_copy (nat (len src)) dst_base (nat dp) src_base (nat sp))
      | _ \<Rightarrow> None)"

section \<open>The arena allocator (arena.h)\<close>

record arena_t =
  capacity :: int
  used :: int

definition arena_init :: "int \<Rightarrow> arena_t" where
  "arena_init cap = \<lparr>capacity = cap, used = 0\<rparr>"

definition arena_alloc :: "arena_t \<Rightarrow> int \<Rightarrow> span_t \<times> arena_t" where
  "arena_alloc a sz =
     (if sz \<le> 0 then (SPAN_NULL, a)
      else let aligned = add32 sz 7 AND NOT 7
           in if add32 (used a) aligned > capacity a then (SPAN_NULL, a)
              else (SPAN (used a) sz, a\<lparr>used := add32 (used a) aligned\<rparr>))"

definition arena_alloc_raw :: "arena_t \<Rightarrow> int \<Rightarrow> span_t \<times> arena_t" where
  "arena_alloc_raw a sz =
     (if sz \<le> 0 \<or> add32 (used a) sz > capacity a then (SPAN_NULL, a)
      else (SPAN (used a) sz, a\<lparr>used := add32 (used a) sz\<rparr>))"

definition arena_reset :: "arena_t \<Rightarrow> arena_t" where
  "arena_reset a = a\<lparr>used := 0\<rparr>"

definition arena_remaining :: "arena_t \<Rightarrow> int" where
  "arena_remaining a = capacity a - used a"

definition arena_ptr :: "arena_t \<Rightarrow> span_t \<Rightarrow> int option" where
  "arena_ptr a s = span_ptr (capacity a) s"

text \<open>Successive allocations, keeping the spans that were granted.\<close>

fun arena_run :: "arena_t \<Rightarrow> int list \<Rightarrow> span_t list \<times> arena_t" where
  "arena_run a [] = ([], a)"
| "arena_run a (n # ns) =
     (let (s, a1) = arena_alloc a n; (ss, a2) = arena_run a1 ns
      in (if s = SPAN_NULL then ss else s # ss, a2))"

section \<open>Lemmas\<close>

lemma add32_exact: "- (2 ^ 31) \<le> a + b \<Longrightarrow> a + b < 2 ^ 31 \<Longrightarrow> add32 a b = a + b"
  by (simp add: add32_def signed_take_bit_int_eq_self)

lemma and_not_7: "(x :: int) AND NOT 7 = x div 8 * 8"
proof -
  have "x AND NOT 7 = x AND NOT (mask 3)"
    by (simp add: mask_eq_exp_minus_1)
  also have "\<dots> = push_bit 3 (drop_bit 3 x)"
    by (rule bit_eqI) (auto simp: bit_simps)
  finally show ?thesis
    by (simp add: push_bit_eq_mult drop_bit_eq_div)
qed

lemma and_minus_8 [simp]: "(x :: int) AND - 8 = x div 8 * 8"
  using and_not_7 [of x] by simp

lemma mem_copy_in_splice:
  "d \<le> s \<Longrightarrow> s + n \<le> length m \<Longrightarrow>
     mem_copy_in n m d s = take d m @ take n (drop s m) @ drop (d + n) m"
proof (induction n arbitrary: m d s)
  case 0
  then show ?case by simp
next
  case (Suc n)
  have d: "d < length m" and s: "s < length m" using Suc.prems by auto
  have "mem_copy_in (Suc n) m d s =
      take (Suc d) (m[d := m ! s]) @ take n (drop (Suc s) (m[d := m ! s])) @
      drop (Suc d + n) (m[d := m ! s])"
    using Suc.prems by (simp add: Suc.IH)
  also have "take (Suc d) (m[d := m ! s]) = take d m @ [m ! s]"
    using d by (simp add: take_Suc_conv_app_nth)
  also have "drop (Suc s) (m[d := m ! s]) = drop (Suc s) m"
    using Suc.prems(1) by simp
  also have "drop (Suc d + n) (m[d := m ! s]) = drop (d + Suc n) m"
    by simp
  finally show ?case
    using s by (simp add: Cons_nth_drop_Suc [symmetric])
qed

lemma length_mem_copy [simp]: "length (mem_copy n dst d src s) = length dst"
  by (induction n arbitrary: dst d s) simp_all

lemma mem_copy_splice:
  "s + n \<le> length src \<Longrightarrow> d + n \<le> length dst \<Longrightarrow>
     mem_copy n dst d src s = take d dst @ take n (drop s src) @ drop (d + n) dst"
proof (induction n arbitrary: dst d s)
  case 0
  then show ?case by simp
next
  case (Suc n)
  then have "mem_copy (Suc n) dst d src s =
      take (Suc d) (dst[d := src ! s]) @ take n (drop (Suc s) src) @ drop (Suc d + n) (dst[d := src ! s])"
    by simp
  also have "take (Suc d) (dst[d := src ! s]) = take d dst @ [src ! s]"
    using Suc.prems by (simp add: take_Suc_conv_app_nth)
  finally show ?case
    using Suc.prems by (simp add: Cons_nth_drop_Suc [symmetric])
qed

lemma mem_set_splice:
  "d + n \<le> length dst \<Longrightarrow> mem_set n dst d v = take d dst @ replicate n v @ drop (d + n) dst"
proof (induction n arbitrary: dst d)
  case 0
  then show ?case by simp
next
  case (Suc n)
  then show ?case by (simp add: take_Suc_conv_app_nth)
qed

lemma SPAN_exact [simp]:
  "0 \<le> x \<Longrightarrow> x < 2 ^ 31 \<Longrightarrow> 0 \<le> y \<Longrightarrow> y < 2 ^ 31 \<Longrightarrow> SPAN x y = \<lparr>off = x, len = y\<rparr>"
  by (simp add: SPAN_def signed_take_bit_int_eq_self)

text \<open>The sizes an arena can be asked for without the 32-bit sums overflowing.\<close>

definition arena_sizes_ok :: "arena_t \<Rightarrow> int list \<Rightarrow> bool" where
  "arena_sizes_ok a ns \<longleftrightarrow> (\<forall>n \<in> set ns. capacity a + n + 7 < 2 ^ 31)"

definition arena_wf :: "arena_t \<Rightarrow> bool" where
  "arena_wf a \<longleftrightarrow> 0 \<le> used a \<and> used a \<le> capacity a \<and> capacity a < 2 ^ 31 \<and> used a mod 8 = 0"

lemma arena_alloc_step:
  assumes wf: "arena_wf a" and n: "capacity a + n + 7 < 2 ^ 31"
    and eq: "arena_alloc a n = (s, a1)"
  shows "arena_wf a1 \<and> capacity a1 = capacity a \<and>
    (if s = SPAN_NULL then a1 = a
     else off s = used a \<and> len s = n \<and> 0 < n \<and> used a + n \<le> used a1)"
proof (cases "n \<le> 0")
  case True
  with wf eq show ?thesis by (auto simp: arena_alloc_def)
next
  case False
  let ?al = "(n + 7) div 8 * 8"
  have al: "add32 n 7 = n + 7" "n \<le> ?al" "?al \<le> n + 7" "?al mod 8 = 0"
    using False n wf by (auto simp: add32_exact arena_wf_def)
  have sum: "add32 (used a) ?al = used a + ?al"
    using False n wf al by (intro add32_exact) (auto simp: arena_wf_def)
  have span: "SPAN (used a) n = \<lparr>off = used a, len = n\<rparr>"
    using False n wf by (intro SPAN_exact) (auto simp: arena_wf_def)
  show ?thesis
  proof (cases "used a + ?al > capacity a")
    case True
    with False eq wf show ?thesis by (auto simp: arena_alloc_def al(1) sum Let_def)
  next
    case fits: False
    have eqs: "s = \<lparr>off = used a, len = n\<rparr>" "a1 = a\<lparr>used := used a + ?al\<rparr>"
      using False fits eq by (auto simp: arena_alloc_def al(1) sum span Let_def)
    have "(used a + ?al) mod 8 = 0"
      using wf al(4) by (simp add: arena_wf_def mod_add_eq [symmetric])
    with eqs False fits wf al(2) show ?thesis
      by (auto simp: arena_wf_def SPAN_NULL_def)
  qed
qed

lemma arena_run_inv:
  "arena_wf a \<Longrightarrow> arena_sizes_ok a ns \<Longrightarrow> arena_run a ns = (ss, a') \<Longrightarrow>
     arena_wf a' \<and> capacity a' = capacity a \<and> used a \<le> used a' \<and>
     (\<forall>s \<in> set ss. used a \<le> off s \<and> off s mod 8 = 0 \<and> 0 < len s \<and> off s + len s \<le> used a') \<and>
     sorted_wrt (\<lambda>s t. off s + len s \<le> off t) ss"
proof (induction ns arbitrary: a ss)
  case Nil
  then show ?case by simp
next
  case (Cons n ns)
  obtain s a1 where al: "arena_alloc a n = (s, a1)" by (cases "arena_alloc a n")
  obtain ss1 where run: "arena_run a1 ns = (ss1, a')"
    using Cons.prems(3) al by (auto split: prod.splits)
  have n: "capacity a + n + 7 < 2 ^ 31" using Cons.prems(2) by (simp add: arena_sizes_ok_def)
  note step = arena_alloc_step [OF Cons.prems(1) n al]
  then have wf1: "arena_wf a1" and sz1: "arena_sizes_ok a1 ns"
    using Cons.prems(2) by (auto simp: arena_sizes_ok_def)
  note IH = Cons.IH [OF wf1 sz1 run]
  have ss: "ss = (if s = SPAN_NULL then ss1 else s # ss1)"
    using Cons.prems(3) al run by auto
  show ?case
    using step IH ss Cons.prems(1) by (force simp: arena_wf_def)
qed

text \<open>C27. A run of allocations hands out spans that are 8-byte aligned, lie inside the
  backing buffer below the watermark, and do not overlap: each ends before the next one
  starts. The sizes are those whose 32-bit sums do not overflow.\<close>

theorem arena_spans_disjoint:
  assumes "0 \<le> cap" "cap < 2 ^ 31" "\<forall>n \<in> set ns. cap + n + 7 < 2 ^ 31"
    and "arena_run (arena_init cap) ns = (ss, a)"
  shows "(\<forall>s \<in> set ss. arena_ptr a s = Some (off s) \<and> off s mod 8 = 0 \<and> off s + len s \<le> used a)
    \<and> used a \<le> cap \<and> sorted_wrt (\<lambda>s t. off s + len s \<le> off t) ss"
proof -
  have "arena_wf (arena_init cap)" "arena_sizes_ok (arena_init cap) ns"
    using assms(1-3) by (auto simp: arena_wf_def arena_sizes_ok_def arena_init_def)
  from arena_run_inv [OF this assms(4)] show ?thesis
    using assms(2)
    by (auto simp: arena_ptr_def span_ptr_def arena_init_def arena_wf_def add32_exact)
qed

theorem arena_spans_disjoint_witness:
  "map off (fst (arena_run (arena_init 64) [5, 16, 100, 8])) = [0, 8, 24] \<and>
   used (snd (arena_run (arena_init 64) [5, 16, 100, 8])) \<le> 64"
proof -
  have run: "arena_run (arena_init 64) [5, 16, 100, 8] =
      ([\<lparr>off = 0, len = 5\<rparr>, \<lparr>off = 8, len = 16\<rparr>, \<lparr>off = 24, len = 8\<rparr>], \<lparr>capacity = 64, used = 32\<rparr>)"
    by code_simp
  show ?thesis
    using arena_spans_disjoint [OF _ _ _ run] unfolding run by simp
qed

end
