(* ===== verification/Err_Stack.thy ===== *)
theory Err_Stack
  imports Core_Mem
begin

text \<open>
  \<^verbatim>\<open>src/core/err.h\<close>: the fixed-size error stack. Frames closest to the origin fill the
  bottom half of the array from its end, later callers fill the top half from its start,
  and once both halves are full the last top slot is overwritten and the drop counted.
\<close>

definition ERR_MAX_FRAMES :: nat where
  "ERR_MAX_FRAMES = 8"

datatype err_detail_t = ERR_DTL_NONE | ERR_DTL_ERRNO int | ERR_DTL_FD int
  | ERR_DTL_OFFSET u64 | ERR_DTL_SPAN span_t | ERR_DTL_INT int

record err_frame_t =
  fr_file :: "string option"
  fr_func :: "string option"
  fr_line :: u32
  fr_code :: int
  fr_detail :: err_detail_t

record err_t =
  frames :: "err_frame_t list"
  top_count :: nat
  bottom_count :: nat
  dropped :: nat

definition err_frame_empty :: err_frame_t where
  "err_frame_empty = \<lparr>fr_file = None, fr_func = None, fr_line = 0, fr_code = 0,
     fr_detail = ERR_DTL_NONE\<rparr>"

definition err_init :: err_t where
  "err_init = \<lparr>frames = replicate ERR_MAX_FRAMES err_frame_empty, top_count = 0,
     bottom_count = 0, dropped = 0\<rparr>"

definition err_push_frame :: "err_t \<Rightarrow> err_frame_t \<Rightarrow> err_t" where
  "err_push_frame e f =
     (let half = ERR_MAX_FRAMES div 2 in
      if top_count e = 0 \<and> bottom_count e = 0 then
        e\<lparr>frames := (frames e)[ERR_MAX_FRAMES - 1 := f], bottom_count := 1\<rparr>
      else if bottom_count e < half then
        e\<lparr>frames := (frames e)[ERR_MAX_FRAMES - 1 - bottom_count e := f],
          bottom_count := bottom_count e + 1\<rparr>
      else if top_count e < half then
        e\<lparr>frames := (frames e)[top_count e := f], top_count := top_count e + 1\<rparr>
      else
        e\<lparr>frames := (frames e)[half - 1 := f], dropped := dropped e + 1\<rparr>)"

definition err_has_error :: "err_t \<Rightarrow> bool" where
  "err_has_error e \<longleftrightarrow> top_count e > 0 \<or> bottom_count e > 0"

definition err_frame_count :: "err_t \<Rightarrow> nat" where
  "err_frame_count e = top_count e + bottom_count e"

definition err_frame_at :: "err_t \<Rightarrow> int \<Rightarrow> err_frame_t option" where
  "err_frame_at e idx =
     (if idx < 0 then None
      else if idx < int (top_count e) then Some (frames e ! nat idx)
      else let idx = idx - int (top_count e) in
        if idx < int (bottom_count e)
        then Some (frames e ! nat (int ERR_MAX_FRAMES - int (bottom_count e) + idx))
        else None)"

definition err_push_all :: "err_frame_t list \<Rightarrow> err_t" where
  "err_push_all fs = foldl err_push_frame err_init fs"

section \<open>Layout of the array after any number of pushes\<close>

definition err_layout :: "err_frame_t list \<Rightarrow> err_frame_t list" where
  "err_layout fs =
     take 4 (drop 4 (take 7 fs) @ (if length fs < 8 then [] else [last fs])
       @ replicate (8 - length fs) err_frame_empty)
     @ replicate (4 - length fs) err_frame_empty @ rev (take 4 fs)"

lemma err_push_all_snoc: "err_push_all (fs @ [f]) = err_push_frame (err_push_all fs) f"
  by (simp add: err_push_all_def)

lemma err_push_simps:
  "err_push_frame e f =
     (if top_count e = 0 \<and> bottom_count e = 0 then
        e\<lparr>frames := (frames e)[7 := f], bottom_count := 1\<rparr>
      else if bottom_count e < 4 then
        e\<lparr>frames := (frames e)[7 - bottom_count e := f], bottom_count := bottom_count e + 1\<rparr>
      else if top_count e < 4 then
        e\<lparr>frames := (frames e)[top_count e := f], top_count := top_count e + 1\<rparr>
      else e\<lparr>frames := (frames e)[3 := f], dropped := dropped e + 1\<rparr>)"
  by (simp add: err_push_frame_def ERR_MAX_FRAMES_def)

lemma err_push_all_layout:
  "err_push_all fs = \<lparr>frames = err_layout fs, top_count = min 4 (length fs - 4),
     bottom_count = min 4 (length fs), dropped = length fs - 8\<rparr>"
proof (induction fs rule: rev_induct)
  case Nil
  show ?case
    by (simp add: err_push_all_def err_init_def err_layout_def ERR_MAX_FRAMES_def numeral_eq_Suc)
next
  case (snoc f fs)
  show ?case
  proof (cases "length fs < 8")
    case True
    then have "length fs \<in> {0, 1, 2, 3, 4, 5, 6, 7}" unfolding insert_iff empty_iff by linarith
    then obtain a b c d e g h where
      "fs \<in> {[], [a], [a, b], [a, b, c], [a, b, c, d], [a, b, c, d, e], [a, b, c, d, e, g],
        [a, b, c, d, e, g, h]}"
      by (elim insertE emptyE) (force simp: length_Suc_conv eval_nat_numeral)+
    then show ?thesis
      unfolding err_push_all_snoc snoc.IH
      by (elim insertE emptyE) (simp_all add: err_push_simps err_layout_def eval_nat_numeral)
  next
    case False
    then obtain a b c d e g h i rest where fs: "fs = a # b # c # d # e # g # h # i # rest"
      by (auto simp: eval_nat_numeral not_less Suc_le_length_iff)
    show ?thesis
      unfolding err_push_all_snoc snoc.IH
      by (simp add: err_push_simps err_layout_def fs eval_nat_numeral)
  qed
qed

lemma length_err_layout [simp]: "length (err_layout fs) = 8"
  by (auto simp: err_layout_def min_def)

lemma err_layout_bottom:
  assumes "k < 4" "k < length fs"
  shows "err_layout fs ! (7 - k) = fs ! k"
proof -
  define P where "P = take 4 (drop 4 (take 7 fs) @ (if length fs < 8 then [] else [last fs])
       @ replicate (8 - length fs) err_frame_empty) @ replicate (4 - length fs) err_frame_empty"
  have "length P = 8 - min 4 (length fs)"
    by (auto simp: P_def min_def)
  moreover have "err_layout fs = P @ rev (take 4 fs)"
    by (simp add: err_layout_def P_def)
  ultimately have "err_layout fs ! (7 - k) = rev (take 4 fs) ! (7 - k - (8 - min 4 (length fs)))"
    using assms by (simp add: nth_append)
  also have "7 - k - (8 - min 4 (length fs)) = min 4 (length fs) - Suc k"
    using assms by linarith
  also have "rev (take 4 fs) ! (min 4 (length fs) - Suc k) = fs ! k"
    using assms by (subst rev_nth) (auto simp: min_def)
  finally show ?thesis .
qed

text \<open>C28. However many frames are pushed, the stack holds \<open>min n 8\<close> of them, counts
  the rest as dropped, and never loses the two ends: the last entry in iteration order is
  the origin (the first frame pushed), the three above it are the next three callers, and
  the most recent frame pushed is still stored.\<close>

theorem err_keeps_origin_and_latest:
  assumes "fs \<noteq> []"
  defines "e \<equiv> err_push_all fs"
  shows "err_frame_count e = min 8 (length fs) \<and> dropped e = length fs - 8
    \<and> err_frame_at e (int (err_frame_count e) - 1) = Some (hd fs)
    \<and> (\<forall>k < min 4 (length fs). err_frame_at e (int (err_frame_count e) - 1 - int k) = Some (fs ! k))
    \<and> last fs \<in> set (frames e)"
proof -
  have at: "err_frame_at e (int (err_frame_count e) - 1 - int k) = Some (fs ! k)"
    if k: "k < min 4 (length fs)" for k
  proof -
    have n7: "nat (7 - int k) = 7 - k" using k by simp
    have "err_frame_at e (int (err_frame_count e) - 1 - int k) = Some (err_layout fs ! (7 - k))"
      using k by (auto simp: e_def err_push_all_layout err_frame_at_def err_frame_count_def
          ERR_MAX_FRAMES_def min_def n7)
    then show ?thesis using k by (simp add: err_layout_bottom)
  qed
  have "last fs \<in> set (err_layout fs)"
  proof (cases "length fs \<le> 4")
    case True
    with assms(1) show ?thesis by (simp add: err_layout_def)
  next
    case False
    show ?thesis
    proof (cases "length fs < 8")
      case True
      with False have "last fs \<in> set (drop 4 fs)"
        by (metis last_drop last_in_set drop_eq_Nil not_le)
      with True show ?thesis by (simp add: err_layout_def)
    next
      case ge8: False
      then show ?thesis by (simp add: err_layout_def)
    qed
  qed
  moreover have "err_frame_count e = min 8 (length fs) \<and> dropped e = length fs - 8"
    by (auto simp: e_def err_push_all_layout err_frame_count_def)
  ultimately show ?thesis
    using at at [of 0] assms(1) by (simp add: e_def err_push_all_layout hd_conv_nth)
qed

definition err_sample :: "int \<Rightarrow> err_frame_t" where
  "err_sample c = err_frame_empty\<lparr>fr_code := c\<rparr>"

theorem err_keeps_origin_and_latest_witness:
  "let e = err_push_all (map err_sample [1, 2, 3, 4, 5, 6, 7, 8, 9, 10]) in
   err_frame_count e = 8 \<and> dropped e = 2 \<and>
   err_frame_at e (int (err_frame_count e) - 1) = Some (err_sample 1)"
proof -
  let ?fs = "map err_sample [1, 2, 3, 4, 5, 6, 7, 8, 9, 10]"
  have ne: "?fs \<noteq> []" and n: "length ?fs = 10" and h: "hd ?fs = err_sample 1" by simp_all
  show ?thesis using err_keeps_origin_and_latest [OF ne] unfolding n h Let_def by auto
qed

text \<open>The iterator is documented as running from the most recent caller (index 0) to
  the origin. Once the top half is in use it does not: index 0 is the fifth frame pushed,
  whatever came after it, because the top half is filled and read in the same direction.\<close>

theorem err_frame_at_zero_is_fifth:
  assumes "5 \<le> length fs" "length fs < 8"
  shows "err_frame_at (err_push_all fs) 0 = Some (fs ! 4)"
proof -
  have "err_layout fs ! 0 = fs ! 4"
    using assms by (auto simp: err_layout_def nth_append)
  then show ?thesis
    using assms by (auto simp: err_push_all_layout err_frame_at_def)
qed

theorem err_frame_at_zero_is_fifth_witness:
  "err_frame_at (err_push_all (map err_sample [1..6])) 0 = Some (err_sample 5)
   \<and> last (map err_sample [1..6]) = err_sample 6"
  using err_frame_at_zero_is_fifth [of "map err_sample [1..6]"] by (simp add: upto.simps)

end
