(* ===== verification/Crc32c.thy ===== *)
theory Crc32c
  imports Prelude
begin

text \<open>
  \<^verbatim>\<open>src/core/crc32c.c\<close>: the checksum on every log record. The two SSE4.2 instructions are
  modelled by the shift register they implement: \<open>crc_bit\<close> is one step of the
  bit-reflected division by the Castagnoli polynomial, the byte form runs it eight times,
  the quadword form sixty-four times on a 64-bit register. \<open>crc32c\<close> is the routine of
  the source: quadwords first, then the tail byte by byte. The lemmas show that the two
  instructions agree, that the routine therefore equals a plain byte fold, that checksums
  of chunks compose, and that one corrupted byte always changes the checksum.
\<close>

unbundle bit_operations_syntax

section \<open>The instructions and the routine\<close>

definition CRC_POLY :: "'a::len word" where
  "CRC_POLY = 0x82F63B78"

definition crc_bit :: "'a::len word \<Rightarrow> 'a word" where
  "crc_bit x = (if bit x 0 then drop_bit 1 x XOR CRC_POLY else drop_bit 1 x)"

primrec crc_bits :: "nat \<Rightarrow> 'a::len word \<Rightarrow> 'a word" where
  "crc_bits 0 x = x"
| "crc_bits (Suc n) x = crc_bits n (crc_bit x)"

definition ia32_crc32qi :: "u32 \<Rightarrow> u8 \<Rightarrow> u32" where
  "ia32_crc32qi c b = crc_bits 8 (c XOR ucast b)"

definition ia32_crc32di :: "u32 \<Rightarrow> u64 \<Rightarrow> u32" where
  "ia32_crc32di c chunk = ucast (crc_bits 64 (ucast c XOR chunk))"

primrec crc_tail :: "u32 \<Rightarrow> bytes \<Rightarrow> u32" where
  "crc_tail c [] = c"
| "crc_tail c (b # bs) = crc_tail (ia32_crc32qi c b) bs"

function crc_chunks :: "u32 \<Rightarrow> bytes \<Rightarrow> u32" where
  "crc_chunks c bs =
     (if 8 \<le> length bs then crc_chunks (ia32_crc32di c (le_dec (take 8 bs))) (drop 8 bs)
      else crc_tail c bs)"
  by pat_completeness auto
termination
  by (relation "measure (\<lambda>(c, bs). length bs)") auto

declare crc_chunks.simps [simp del]

definition crc32c :: "u32 \<Rightarrow> bytes \<Rightarrow> u32" where
  "crc32c crc bs = (if bs = [] then crc else NOT (crc_chunks (NOT crc) bs))"

section \<open>The register is linear\<close>

lemma crc_bit_xor: "crc_bit (x XOR y) = crc_bit x XOR crc_bit y"
  by (rule bit_word_eqI) (auto simp: crc_bit_def bit_simps)

lemma crc_bits_xor: "crc_bits n (x XOR y) = crc_bits n x XOR crc_bits n y"
  by (induction n arbitrary: x y) (auto simp: crc_bit_xor)

lemma crc_bits_add: "crc_bits (m + n) x = crc_bits n (crc_bits m x)"
  by (induction m arbitrary: x) auto

lemma crc_bit_push:
  assumes "\<And>k. LENGTH('a) - Suc n \<le> k \<Longrightarrow> \<not> bit x k"
  shows "crc_bit (push_bit (Suc n) (x :: 'a::len word)) = push_bit n x"
proof (rule bit_word_eqI)
  fix m
  have "Suc m < LENGTH('a)" if "m < LENGTH('a)" "n \<le> m" "bit x (m - n)"
    using that assms [of "m - n"] by (cases "Suc m = LENGTH('a)") auto
  then show "bit (crc_bit (push_bit (Suc n) x)) m = bit (push_bit n x) m" if "m < LENGTH('a)"
    using that by (auto simp: crc_bit_def bit_simps simp del: push_bit_Suc)
qed

lemma crc_bits_push:
  "(\<And>k. LENGTH('a) - n \<le> k \<Longrightarrow> \<not> bit x k) \<Longrightarrow>
     crc_bits n (push_bit n (x :: 'a::len word)) = x"
proof (induction n)
  case 0
  then show ?case by simp
next
  case (Suc n)
  have "crc_bits (Suc n) (push_bit (Suc n) x) = crc_bits n (push_bit n x)"
    using crc_bit_push [OF Suc.prems] by (simp del: push_bit_Suc)
  also have "\<dots> = x"
    using Suc.prems by (intro Suc.IH) auto
  finally show ?case .
qed

lemma word_xor_cancel: "x XOR y = x XOR z \<Longrightarrow> y = (z :: 'a::len word)"
proof -
  assume "x XOR y = x XOR z"
  then have "x XOR (x XOR y) = x XOR (x XOR z)" by simp
  then show "y = z" by (simp flip: xor.assoc)
qed

lemma word_xor_cancel_right: "y XOR x = z XOR x \<Longrightarrow> y = (z :: 'a::len word)"
  using word_xor_cancel [of x y z] by (simp add: xor.commute)

lemma ucast_up_down [simp]: "ucast (ucast (x :: u32) :: u64) = x"
  by (rule bit_word_eqI) (simp add: bit_simps)

lemma ucast_u8_up [simp]: "ucast (ucast (x :: u8) :: u32) = (ucast x :: u64)"
  by (rule bit_word_eqI) (auto simp: bit_simps dest: bit_imp_le_length)

lemma ucast_u8_inj: "(ucast a :: u32) = ucast b \<Longrightarrow> a = (b :: u8)"
proof -
  assume "(ucast a :: u32) = ucast b"
  then have "(ucast (ucast a :: u32) :: u8) = ucast (ucast b :: u32)" by simp
  moreover have "ucast (ucast x :: u32) = x" for x :: u8
    by (rule bit_word_eqI) (simp add: bit_simps)
  ultimately show "a = b" by simp
qed

text \<open>Reading a narrower register inside a wider one.\<close>

lemma ucast_crc_bit: "ucast (crc_bit (x :: u32)) = crc_bit (ucast x :: u64)"
proof -
  have "(ucast (CRC_POLY :: u32) :: u64) = CRC_POLY"
    by (simp add: CRC_POLY_def)
  moreover have "(ucast (drop_bit 1 x) :: u64) = drop_bit 1 (ucast x)"
    by (rule bit_word_eqI) (auto simp: bit_simps dest: bit_imp_le_length)
  moreover have "bit (ucast x :: u64) 0 = bit x 0"
    by (simp add: bit_simps)
  ultimately show ?thesis by (simp add: crc_bit_def unsigned_xor_eq)
qed

lemma ucast_crc_bits: "ucast (crc_bits n (x :: u32)) = crc_bits n (ucast x :: u64)"
  by (induction n arbitrary: x) (auto simp: ucast_crc_bit)

section \<open>The quadword instruction is eight byte instructions\<close>

lemma le_dec_Cons_xor: "length bs < 8 \<Longrightarrow>
    (le_dec (b # bs) :: u64) = ucast b XOR push_bit 8 (le_dec bs)"
  by (rule bit_word_eqI) (auto simp: bit_simps dest: bit_imp_le_length)

lemma crc_bits_le_dec:
  "length bs \<le> 8 \<Longrightarrow>
     crc_bits (8 * length bs) (ucast c XOR le_dec bs) = (ucast (crc_tail c bs) :: u64)"
proof (induction bs arbitrary: c)
  case Nil
  then show ?case by simp
next
  case (Cons b bs)
  have push: "crc_bits 8 (push_bit 8 (le_dec bs :: u64)) = le_dec bs"
    using Cons.prems by (intro crc_bits_push le_dec_high) auto
  have byte: "crc_bits 8 (ucast c XOR ucast b) = (ucast (ia32_crc32qi c b) :: u64)"
    by (simp only: ia32_crc32qi_def ucast_crc_bits) (simp add: unsigned_xor_eq)
  have "crc_bits (8 * length (b # bs)) (ucast c XOR le_dec (b # bs) :: u64) =
      crc_bits (8 * length bs) (crc_bits 8 ((ucast c XOR ucast b) XOR push_bit 8 (le_dec bs)))"
    using Cons.prems
    by (simp add: le_dec_Cons_xor crc_bits_add [symmetric] xor.assoc del: crc_bits.simps le_dec.simps)
  also have "\<dots> = crc_bits (8 * length bs) (ucast (ia32_crc32qi c b) XOR le_dec bs)"
    by (simp only: crc_bits_xor [of 8 "ucast c XOR ucast b"] byte push)
  finally show ?case using Cons by simp
qed

lemma ia32_crc32di_bytes: "length bs = 8 \<Longrightarrow> ia32_crc32di c (le_dec bs) = crc_tail c bs"
  using crc_bits_le_dec [of bs c] by (simp add: ia32_crc32di_def)

lemma crc_tail_append: "crc_tail c (xs @ ys) = crc_tail (crc_tail c xs) ys"
  by (induction xs arbitrary: c) auto

lemma crc_chunks_eq_tail: "crc_chunks c bs = crc_tail c bs"
proof (induction c bs rule: crc_chunks.induct)
  case (1 c bs)
  show ?case
  proof (cases "8 \<le> length bs")
    case True
    then have "crc_chunks c bs = crc_tail (ia32_crc32di c (le_dec (take 8 bs))) (drop 8 bs)"
      using 1 by (simp add: crc_chunks.simps [of c bs])
    also have "\<dots> = crc_tail c (take 8 bs @ drop 8 bs)"
      using True by (simp add: ia32_crc32di_bytes crc_tail_append del: append_take_drop_id)
    finally show ?thesis by simp
  next
    case False
    then show ?thesis by (simp add: crc_chunks.simps [of c bs])
  qed
qed

text \<open>C25. The checksum routine, which consumes quadwords and then single bytes, computes
  the same value as the plain byte-at-a-time register, and feeding a buffer in two calls
  gives the checksum of the concatenation: the running-value contract of
  \<^verbatim>\<open>crc32c.h\<close>.\<close>

theorem crc32c_fold_and_compose:
  "crc32c crc bs = NOT (crc_tail (NOT crc) bs) \<and>
   crc32c (crc32c crc xs) ys = crc32c crc (xs @ ys)"
  by (auto simp: crc32c_def crc_chunks_eq_tail crc_tail_append)

lemma crc32c_eq: "crc32c crc bs = NOT (crc_tail (NOT crc) bs)"
  by (auto simp: crc32c_def crc_chunks_eq_tail)

section \<open>A corrupted byte is always seen\<close>

lemma crc_bit_inj: "crc_bit x = crc_bit y \<Longrightarrow> x = (y :: u32)"
proof -
  assume eq: "crc_bit x = crc_bit y"
  have top: "bit (crc_bit z) 31 = bit z 0" for z :: u32
    by (auto simp: crc_bit_def CRC_POLY_def bit_simps dest: bit_imp_le_length)
  have "bit x 0 = bit y 0" using top [of x] top [of y] eq by simp
  with eq have "drop_bit 1 x = drop_bit 1 y"
    by (auto simp: crc_bit_def dest: word_xor_cancel_right split: if_splits)
  then have "bit x (Suc n) = bit y (Suc n)" for n
    using bit_drop_bit_eq [of 1 x] bit_drop_bit_eq [of 1 y] by (metis plus_1_eq_Suc comp_def)
  with \<open>bit x 0 = bit y 0\<close> show "x = y"
    by (intro bit_word_eqI) (metis not0_implies_Suc)
qed

lemma crc_bits_inj: "crc_bits n x = crc_bits n y \<Longrightarrow> x = (y :: u32)"
  by (induction n arbitrary: x y) (auto dest: crc_bit_inj)

lemma ia32_crc32qi_inj1: "ia32_crc32qi c b = ia32_crc32qi d b \<Longrightarrow> c = d"
  unfolding ia32_crc32qi_def
  by (drule crc_bits_inj) (simp add: xor.commute [of _ "ucast b"] word_xor_cancel)

lemma ia32_crc32qi_inj2: "ia32_crc32qi c a = ia32_crc32qi c b \<Longrightarrow> a = b"
  unfolding ia32_crc32qi_def by (drule crc_bits_inj) (blast dest: word_xor_cancel ucast_u8_inj)

lemma crc_tail_inj: "crc_tail c bs = crc_tail d bs \<Longrightarrow> c = d"
  by (induction bs arbitrary: c d) (auto dest: ia32_crc32qi_inj1)

lemma crc32c_byte_differs:
  assumes "a \<noteq> b"
  shows "crc32c crc (xs @ a # ys) \<noteq> crc32c crc (xs @ b # ys)"
proof
  assume "crc32c crc (xs @ a # ys) = crc32c crc (xs @ b # ys)"
  then have "crc_tail (crc_tail (NOT crc) xs) (a # ys) = crc_tail (crc_tail (NOT crc) xs) (b # ys)"
    by (simp add: crc32c_eq crc_tail_append)
  then have "a = b"
    by (auto dest!: crc_tail_inj ia32_crc32qi_inj2)
  with assms show False ..
qed

section \<open>Evaluation\<close>

lemma crc32c_update_differs:
  assumes "i < length bs" "b \<noteq> bs ! i"
  shows "crc32c crc (bs[i := b]) \<noteq> crc32c crc bs"
  using crc32c_byte_differs [OF assms(2), of crc "take i bs" "drop (Suc i) bs"] assms(1)
  by (simp add: upd_conv_take_nth_drop id_take_nth_drop [symmetric])

lemma crc_bits_numeral: "crc_bits (numeral k) x = crc_bits (pred_numeral k) (crc_bit x)"
  by (simp add: numeral_eq_Suc)

lemmas crc_eval = crc32c_eq ia32_crc32qi_def crc_bits_numeral crc_bit_def CRC_POLY_def

text \<open>The published check value of CRC32C, over the ASCII digits 1 to 9.\<close>

lemma crc32c_check_value:
  "crc32c 0 [0x31, 0x32, 0x33, 0x34, 0x35, 0x36, 0x37, 0x38, 0x39] = 0xE3069283"
  by (simp add: crc_eval)

end
