(* ===== verification/Msg.thy ===== *)
theory Msg
  imports Core_Mem
begin

text \<open>
  \<^verbatim>\<open>src/proto/msg.h\<close>: the wire protocol. Header and payload structs are records; their
  codecs are the memcpy of the struct, that is, its fields little-endian at the offsets
  the source documents. Every codec is an instance of the interface \<open>codec\<close>, from which
  the bounds-checked \<open>get\<close> and \<open>put\<close> functions inherit their round trips.
  A buffer and its length are one list; \<open>None\<close> is the FALSE return.
\<close>

section \<open>Constants\<close>

abbreviation MSG_MAGIC :: u32 where "MSG_MAGIC \<equiv> 0x4D534756"
abbreviation MSG_VERSION :: u16 where "MSG_VERSION \<equiv> 2"
abbreviation MSG_VERSION_MIN :: u16 where "MSG_VERSION_MIN \<equiv> 2"
abbreviation MSG_HEADER_SIZE :: nat where "MSG_HEADER_SIZE \<equiv> 32"
abbreviation MSG_MAX_PAYLOAD :: nat where "MSG_MAX_PAYLOAD \<equiv> 1048576"
abbreviation MSG_MAX_NAME :: nat where "MSG_MAX_NAME \<equiv> 64"
abbreviation MSG_MAX_ERR_TEXT :: nat where "MSG_MAX_ERR_TEXT \<equiv> 64"

abbreviation MSG_OP_WRITE :: u16 where "MSG_OP_WRITE \<equiv> 1"
abbreviation MSG_OP_READ :: u16 where "MSG_OP_READ \<equiv> 2"
abbreviation MSG_OP_DELETE :: u16 where "MSG_OP_DELETE \<equiv> 3"
abbreviation MSG_OP_SUBSCRIBE :: u16 where "MSG_OP_SUBSCRIBE \<equiv> 4"
abbreviation MSG_OP_NOTIFY :: u16 where "MSG_OP_NOTIFY \<equiv> 5"
abbreviation MSG_OP_ACK :: u16 where "MSG_OP_ACK \<equiv> 6"
abbreviation MSG_OP_ERR :: u16 where "MSG_OP_ERR \<equiv> 7"
abbreviation MSG_OP_PING :: u16 where "MSG_OP_PING \<equiv> 8"
abbreviation MSG_OP_PONG :: u16 where "MSG_OP_PONG \<equiv> 9"
abbreviation MSG_OP_HELLO :: u16 where "MSG_OP_HELLO \<equiv> 10"
abbreviation MSG_OP_REPL_START :: u16 where "MSG_OP_REPL_START \<equiv> 11"
abbreviation MSG_OP_REPL_DATA :: u16 where "MSG_OP_REPL_DATA \<equiv> 12"
abbreviation MSG_OP_REPL_ACK :: u16 where "MSG_OP_REPL_ACK \<equiv> 13"
abbreviation MSG_OP_MIN :: u16 where "MSG_OP_MIN \<equiv> MSG_OP_WRITE"
abbreviation MSG_OP_MAX :: u16 where "MSG_OP_MAX \<equiv> MSG_OP_REPL_ACK"

abbreviation MSG_RECORD_NONE :: u16 where "MSG_RECORD_NONE \<equiv> 0"

abbreviation MSG_ERR_BAD_MAGIC :: u16 where "MSG_ERR_BAD_MAGIC \<equiv> 1"
abbreviation MSG_ERR_BAD_VERSION :: u16 where "MSG_ERR_BAD_VERSION \<equiv> 2"
abbreviation MSG_ERR_BAD_OP :: u16 where "MSG_ERR_BAD_OP \<equiv> 3"
abbreviation MSG_ERR_PAYLOAD_TOO_BIG :: u16 where "MSG_ERR_PAYLOAD_TOO_BIG \<equiv> 4"
abbreviation MSG_ERR_NOT_LEADER :: u16 where "MSG_ERR_NOT_LEADER \<equiv> 5"
abbreviation MSG_ERR_BEHIND :: u16 where "MSG_ERR_BEHIND \<equiv> 6"
abbreviation MSG_ERR_NO_SESSION :: u16 where "MSG_ERR_NO_SESSION \<equiv> 7"
abbreviation MSG_ERR_SESSION_UNKNOWN :: u16 where "MSG_ERR_SESSION_UNKNOWN \<equiv> 8"
abbreviation MSG_ERR_UNSUPPORTED :: u16 where "MSG_ERR_UNSUPPORTED \<equiv> 9"
abbreviation MSG_ERR_NO_REPLICAS :: u16 where "MSG_ERR_NO_REPLICAS \<equiv> 10"
abbreviation MSG_ERR_NO_HISTORY :: u16 where "MSG_ERR_NO_HISTORY \<equiv> 11"
abbreviation MSG_ERR_STORAGE :: u16 where "MSG_ERR_STORAGE \<equiv> 12"

abbreviation MSG_FLAG_ACK_REQ :: u16 where "MSG_FLAG_ACK_REQ \<equiv> 1"
abbreviation MSG_FLAG_SYNC :: u16 where "MSG_FLAG_SYNC \<equiv> 2"
abbreviation MSG_FLAG_REPLICATED :: u16 where "MSG_FLAG_REPLICATED \<equiv> 4"
abbreviation MSG_FLAG_ALLOW_DEGRADED :: u16 where "MSG_FLAG_ALLOW_DEGRADED \<equiv> 8"
abbreviation MSG_FLAG_DEGRADED :: u16 where "MSG_FLAG_DEGRADED \<equiv> 16"
abbreviation MSG_FLAG_LAST :: u16 where "MSG_FLAG_LAST \<equiv> 32"
abbreviation MSG_FLAG_ALL_KEYS :: u16 where "MSG_FLAG_ALL_KEYS \<equiv> 64"

section \<open>Structs\<close>

record msg_header_t =
  h_magic :: u32
  h_version :: u16
  h_flags :: u16
  h_op :: u16
  h_record_type :: u16
  h_payload_len :: u32
  h_partition_key :: u64
  h_sequence :: u64

record msg_hello_t =
  hello_session :: u64
  hello_name_len :: u16
  hello_pad0 :: u16
  hello_pad1 :: u32

record msg_ack_t =
  ack_client_seq :: u64

record msg_err_payload_t =
  err_code :: u16
  err_text_len :: u16
  err_pad :: u32

record msg_read_t =
  read_min_seq :: u64

record msg_subscribe_t =
  sub_min_seq :: u64
  sub_from_seq :: u64

abbreviation MSG_HELLO_SIZE :: nat where "MSG_HELLO_SIZE \<equiv> 16"
abbreviation MSG_ACK_SIZE :: nat where "MSG_ACK_SIZE \<equiv> 8"
abbreviation MSG_ERR_SIZE :: nat where "MSG_ERR_SIZE \<equiv> 8"
abbreviation MSG_READ_SIZE :: nat where "MSG_READ_SIZE \<equiv> 8"
abbreviation MSG_SUBSCRIBE_SIZE :: nat where "MSG_SUBSCRIBE_SIZE \<equiv> 16"

section \<open>Struct images in memory\<close>

definition field :: "nat \<Rightarrow> nat \<Rightarrow> bytes \<Rightarrow> 'a::len word" where
  "field o' n bs = le_dec (take n (drop o' bs))"

definition header_image :: "msg_header_t \<Rightarrow> bytes" where
  "header_image h = le_enc 4 (h_magic h) @ le_enc 2 (h_version h) @ le_enc 2 (h_flags h)
     @ le_enc 2 (h_op h) @ le_enc 2 (h_record_type h) @ le_enc 4 (h_payload_len h)
     @ le_enc 8 (h_partition_key h) @ le_enc 8 (h_sequence h)"

definition header_of :: "bytes \<Rightarrow> msg_header_t" where
  "header_of bs = \<lparr>h_magic = field 0 4 bs, h_version = field 4 2 bs, h_flags = field 6 2 bs,
     h_op = field 8 2 bs, h_record_type = field 10 2 bs, h_payload_len = field 12 4 bs,
     h_partition_key = field 16 8 bs, h_sequence = field 24 8 bs\<rparr>"

definition hello_image :: "msg_hello_t \<Rightarrow> bytes" where
  "hello_image h = le_enc 8 (hello_session h) @ le_enc 2 (hello_name_len h)
     @ le_enc 2 (hello_pad0 h) @ le_enc 4 (hello_pad1 h)"

definition hello_of :: "bytes \<Rightarrow> msg_hello_t" where
  "hello_of bs = \<lparr>hello_session = field 0 8 bs, hello_name_len = field 8 2 bs,
     hello_pad0 = field 10 2 bs, hello_pad1 = field 12 4 bs\<rparr>"

definition ack_image :: "msg_ack_t \<Rightarrow> bytes" where
  "ack_image a = le_enc 8 (ack_client_seq a)"

definition ack_of :: "bytes \<Rightarrow> msg_ack_t" where
  "ack_of bs = \<lparr>ack_client_seq = field 0 8 bs\<rparr>"

definition err_image :: "msg_err_payload_t \<Rightarrow> bytes" where
  "err_image p = le_enc 2 (err_code p) @ le_enc 2 (err_text_len p) @ le_enc 4 (err_pad p)"

definition err_of :: "bytes \<Rightarrow> msg_err_payload_t" where
  "err_of bs = \<lparr>err_code = field 0 2 bs, err_text_len = field 2 2 bs, err_pad = field 4 4 bs\<rparr>"

definition read_image :: "msg_read_t \<Rightarrow> bytes" where
  "read_image r = le_enc 8 (read_min_seq r)"

definition read_of :: "bytes \<Rightarrow> msg_read_t" where
  "read_of bs = \<lparr>read_min_seq = field 0 8 bs\<rparr>"

definition subscribe_image :: "msg_subscribe_t \<Rightarrow> bytes" where
  "subscribe_image s = le_enc 8 (sub_min_seq s) @ le_enc 8 (sub_from_seq s)"

definition subscribe_of :: "bytes \<Rightarrow> msg_subscribe_t" where
  "subscribe_of bs = \<lparr>sub_min_seq = field 0 8 bs, sub_from_seq = field 8 8 bs\<rparr>"

section \<open>Operations\<close>

definition msg_decode_header :: "bytes \<Rightarrow> msg_header_t option" where
  "msg_decode_header buf =
     (if length buf < MSG_HEADER_SIZE then None
      else let hdr = header_of buf in
        if h_magic hdr \<noteq> MSG_MAGIC then None else Some hdr)"

definition msg_encode_header :: "nat \<Rightarrow> msg_header_t \<Rightarrow> bytes option" where
  "msg_encode_header buf_len hdr =
     (if buf_len < MSG_HEADER_SIZE then None else Some (header_image hdr))"

definition msg_header_new ::
    "u16 \<Rightarrow> u16 \<Rightarrow> u16 \<Rightarrow> u32 \<Rightarrow> u64 \<Rightarrow> u64 \<Rightarrow> msg_header_t" where
  "msg_header_new op record_type flags payload_len partition_key sequence =
     \<lparr>h_magic = MSG_MAGIC, h_version = MSG_VERSION, h_flags = flags, h_op = op,
      h_record_type = record_type, h_payload_len = payload_len,
      h_partition_key = partition_key, h_sequence = sequence\<rparr>"

definition msg_header_valid :: "msg_header_t \<Rightarrow> bool" where
  "msg_header_valid hdr =
     (if h_magic hdr \<noteq> MSG_MAGIC then False
      else if h_version hdr < MSG_VERSION_MIN \<or> h_version hdr > MSG_VERSION then False
      else if h_op hdr < MSG_OP_MIN \<or> h_op hdr > MSG_OP_MAX then False
      else if h_payload_len hdr > of_nat MSG_MAX_PAYLOAD then False
      else True)"

text \<open>The total is an \<open>int32_t\<close> sum, so a payload length of \<open>2 ^ 31\<close> or more counts
  as negative.\<close>

definition msg_complete_size :: "bytes \<Rightarrow> int" where
  "msg_complete_size buf =
     (case msg_decode_header buf of
        None \<Rightarrow> 0
      | Some hdr \<Rightarrow>
          let total = add32 (int MSG_HEADER_SIZE) (sint (h_payload_len hdr))
          in if total > int (length buf) then 0 else total)"

definition msg_payload_ptr :: "bytes \<Rightarrow> bytes option" where
  "msg_payload_ptr buf =
     (if length buf < MSG_HEADER_SIZE then None else Some (drop MSG_HEADER_SIZE buf))"

definition msg_payload_get :: "(bytes \<Rightarrow> 'a) \<Rightarrow> bytes \<Rightarrow> nat \<Rightarrow> 'a option" where
  "msg_payload_get of_bytes buf sz = (if length buf < sz then None else Some (of_bytes (take sz buf)))"

definition msg_payload_put :: "('a \<Rightarrow> bytes) \<Rightarrow> nat \<Rightarrow> 'a \<Rightarrow> nat \<Rightarrow> bytes option" where
  "msg_payload_put img buf_len x sz = (if buf_len < sz then None else Some (img x))"

definition msg_decode_hello :: "bytes \<Rightarrow> msg_hello_t option" where
  "msg_decode_hello buf = msg_payload_get hello_of buf MSG_HELLO_SIZE"

definition msg_encode_hello :: "nat \<Rightarrow> msg_hello_t \<Rightarrow> bytes option" where
  "msg_encode_hello buf_len x = msg_payload_put hello_image buf_len x MSG_HELLO_SIZE"

definition msg_decode_ack :: "bytes \<Rightarrow> msg_ack_t option" where
  "msg_decode_ack buf = msg_payload_get ack_of buf MSG_ACK_SIZE"

definition msg_encode_ack :: "nat \<Rightarrow> msg_ack_t \<Rightarrow> bytes option" where
  "msg_encode_ack buf_len x = msg_payload_put ack_image buf_len x MSG_ACK_SIZE"

definition msg_decode_err :: "bytes \<Rightarrow> msg_err_payload_t option" where
  "msg_decode_err buf = msg_payload_get err_of buf MSG_ERR_SIZE"

definition msg_encode_err :: "nat \<Rightarrow> msg_err_payload_t \<Rightarrow> bytes option" where
  "msg_encode_err buf_len x = msg_payload_put err_image buf_len x MSG_ERR_SIZE"

definition msg_decode_read :: "bytes \<Rightarrow> msg_read_t option" where
  "msg_decode_read buf = msg_payload_get read_of buf MSG_READ_SIZE"

definition msg_encode_read :: "nat \<Rightarrow> msg_read_t \<Rightarrow> bytes option" where
  "msg_encode_read buf_len x = msg_payload_put read_image buf_len x MSG_READ_SIZE"

definition msg_decode_subscribe :: "bytes \<Rightarrow> msg_subscribe_t option" where
  "msg_decode_subscribe buf = msg_payload_get subscribe_of buf MSG_SUBSCRIBE_SIZE"

definition msg_encode_subscribe :: "nat \<Rightarrow> msg_subscribe_t \<Rightarrow> bytes option" where
  "msg_encode_subscribe buf_len x = msg_payload_put subscribe_image buf_len x MSG_SUBSCRIBE_SIZE"

definition msg_hello_valid :: "msg_hello_t \<Rightarrow> nat \<Rightarrow> bool" where
  "msg_hello_valid h payload_len =
     (if payload_len < MSG_HELLO_SIZE then False
      else if unat (hello_name_len h) > MSG_MAX_NAME then False
      else if unat (hello_name_len h) \<noteq> payload_len - MSG_HELLO_SIZE then False
      else True)"

definition msg_hello_name :: "bytes \<Rightarrow> bytes option" where
  "msg_hello_name payload =
     (if length payload \<le> MSG_HELLO_SIZE then None else Some (drop MSG_HELLO_SIZE payload))"

definition msg_err_valid :: "msg_err_payload_t \<Rightarrow> nat \<Rightarrow> bool" where
  "msg_err_valid p payload_len =
     (if payload_len < MSG_ERR_SIZE then False
      else if unat (err_text_len p) > MSG_MAX_ERR_TEXT then False
      else if unat (err_text_len p) \<noteq> payload_len - MSG_ERR_SIZE then False
      else True)"

definition msg_err_text :: "bytes \<Rightarrow> bytes option" where
  "msg_err_text payload =
     (if length payload \<le> MSG_ERR_SIZE then None else Some (drop MSG_ERR_SIZE payload))"

section \<open>The codec interface\<close>

locale codec =
  fixes img :: "'a \<Rightarrow> bytes" and of_bytes :: "bytes \<Rightarrow> 'a" and sz :: nat
  assumes img_length [simp]: "length (img x) = sz"
    and of_image: "of_bytes (img x @ rest) = x"
begin

lemma of_image_exact: "of_bytes (img x) = x"
  using of_image [of x "[]"] by simp

lemma get_put:
  assumes "sz \<le> cap"
  shows "\<exists>bs. msg_payload_put img cap x sz = Some bs \<and> length bs = sz
    \<and> msg_payload_get of_bytes (bs @ rest) sz = Some x"
  using assms by (simp add: msg_payload_put_def msg_payload_get_def of_image_exact)

lemma get_short: "length bs < sz \<Longrightarrow> msg_payload_get of_bytes bs sz = None"
  by (simp add: msg_payload_get_def)

lemma img_inj: "img x @ xs = img y @ ys \<Longrightarrow> x = y \<and> xs = ys"
  by (metis append_eq_append_conv img_length of_image_exact)

end

lemma field_step:
  "n \<le> o' \<Longrightarrow> field o' k (le_enc n w @ bs) = field (o' - n) k bs"
  by (simp add: field_def)

lemma field_here:
  "field 0 2 (le_enc 2 (w :: u16) @ bs) = w" "field 0 4 (le_enc 4 (v :: u32) @ bs) = v"
  "field 0 8 (le_enc 8 (u :: u64) @ bs) = u" "field 0 8 (le_enc 8 (u :: u64)) = u"
  by (simp_all add: field_def)

lemmas image_defs = header_image_def hello_image_def ack_image_def err_image_def read_image_def
  subscribe_image_def
lemmas of_defs = header_of_def hello_of_def ack_of_def err_of_def read_of_def subscribe_of_def
lemmas field_simps' = field_step field_here

interpretation header_codec: codec header_image header_of MSG_HEADER_SIZE
  by unfold_locales (simp_all add: image_defs of_defs field_simps')

interpretation hello_codec: codec hello_image hello_of MSG_HELLO_SIZE
  by unfold_locales (simp_all add: image_defs of_defs field_simps')

interpretation ack_codec: codec ack_image ack_of MSG_ACK_SIZE
  by unfold_locales (simp_all add: image_defs of_defs field_simps')

interpretation err_codec: codec err_image err_of MSG_ERR_SIZE
  by unfold_locales (simp_all add: image_defs of_defs field_simps')

interpretation read_codec: codec read_image read_of MSG_READ_SIZE
  by unfold_locales (simp_all add: image_defs of_defs field_simps')

interpretation subscribe_codec: codec subscribe_image subscribe_of MSG_SUBSCRIBE_SIZE
  by unfold_locales (simp_all add: image_defs of_defs field_simps')

section \<open>Properties\<close>

text \<open>C29. Encoding a header with the protocol's magic into any buffer that holds it writes
  32 bytes, and decoding those bytes, whatever follows them, gives the header back; a
  buffer shorter than a header is refused in both directions.\<close>

theorem msg_header_roundtrip:
  assumes "h_magic h = MSG_MAGIC" "MSG_HEADER_SIZE \<le> cap"
  shows "(\<exists>bs. msg_encode_header cap h = Some bs \<and> length bs = MSG_HEADER_SIZE
      \<and> msg_decode_header (bs @ rest) = Some h)
    \<and> (\<forall>n bs. n < MSG_HEADER_SIZE \<and> length bs < MSG_HEADER_SIZE \<longrightarrow>
        msg_encode_header n h = None \<and> msg_decode_header bs = None)"
  using assms by (simp add: msg_encode_header_def msg_decode_header_def header_codec.of_image)

theorem msg_header_roundtrip_witness:
  "\<exists>bs. msg_encode_header 40 (msg_header_new MSG_OP_WRITE 0 3 5 7 9) = Some bs
     \<and> msg_decode_header (bs @ [1, 2]) = Some (msg_header_new MSG_OP_WRITE 0 3 5 7 9)"
proof -
  have "h_magic (msg_header_new MSG_OP_WRITE 0 3 5 7 9) = MSG_MAGIC"
    by (simp add: msg_header_new_def)
  from msg_header_roundtrip [OF this, of 40 "[1, 2]"] show ?thesis by auto
qed

text \<open>C30. Every fixed payload (HELLO, ACK, ERR, READ, SUBSCRIBE) survives the trip through
  its encoder and decoder when the buffer has room, with any bytes after it.\<close>

theorem msg_payload_roundtrips:
  "(\<exists>bs. msg_encode_hello (MSG_HELLO_SIZE + n) hello = Some bs \<and> msg_decode_hello (bs @ rest) = Some hello)
   \<and> (\<exists>bs. msg_encode_ack (MSG_ACK_SIZE + n) ack = Some bs \<and> msg_decode_ack (bs @ rest) = Some ack)
   \<and> (\<exists>bs. msg_encode_err (MSG_ERR_SIZE + n) err = Some bs \<and> msg_decode_err (bs @ rest) = Some err)
   \<and> (\<exists>bs. msg_encode_read (MSG_READ_SIZE + n) rd = Some bs \<and> msg_decode_read (bs @ rest) = Some rd)
   \<and> (\<exists>bs. msg_encode_subscribe (MSG_SUBSCRIBE_SIZE + n) sb = Some bs
        \<and> msg_decode_subscribe (bs @ rest) = Some sb)"
  unfolding msg_encode_hello_def msg_decode_hello_def msg_encode_ack_def msg_decode_ack_def
    msg_encode_err_def msg_decode_err_def msg_encode_read_def msg_decode_read_def
    msg_encode_subscribe_def msg_decode_subscribe_def
  using hello_codec.get_put [of "MSG_HELLO_SIZE + n" hello rest]
    ack_codec.get_put [of "MSG_ACK_SIZE + n" ack rest]
    err_codec.get_put [of "MSG_ERR_SIZE + n" err rest]
    read_codec.get_put [of "MSG_READ_SIZE + n" rd rest]
    subscribe_codec.get_put [of "MSG_SUBSCRIBE_SIZE + n" sb rest]
  by auto

text \<open>\<open>msg_complete_size\<close> is documented to give the message size, or 0 when the
  message is incomplete or invalid. It never looks at the payload cap, and a length of
  \<open>2 ^ 31\<close> or more turns negative in the 32-bit sum, passes the comparison and is
  returned as a "size" smaller than the header.\<close>

theorem msg_complete_size_wraps:
  assumes "h_magic h = MSG_MAGIC" "2 ^ 31 \<le> unat (h_payload_len h)"
  shows "msg_complete_size (header_image h @ rest) = int (unat (h_payload_len h)) + 32 - 2 ^ 32
    \<and> msg_complete_size (header_image h @ rest) < int MSG_HEADER_SIZE
    \<and> \<not> msg_header_valid h"
proof -
  let ?w = "h_payload_len h"
  have lt: "unat ?w < 2 ^ 32" using unsigned_less [of ?w] by simp
  have "int (2 ^ 31) \<le> int (unat ?w)" "int (unat ?w) < int (2 ^ 32)"
    using assms(2) lt unfolding of_nat_le_iff of_nat_less_iff by blast+
  then have u: "2147483648 \<le> uint ?w" "uint ?w < 4294967296" by simp_all
  then have "uint ?w div 2147483648 = 1"
    using div_pos_pos_trivial [of "uint ?w - 2147483648" 2147483648]
      div_add_self1 [of 2147483648 "uint ?w - 2147483648"] by simp
  then have "bit (uint ?w) 31" by (simp add: bit_iff_odd)
  then have "sint ?w = int (unat ?w) - 2 ^ 32"
    using u by (simp add: sint_uint signed_take_bit_eq_take_bit_minus take_bit_int_eq_self)
  moreover have "of_nat MSG_MAX_PAYLOAD < ?w"
    using assms(2) by (simp add: word_less_nat_alt)
  ultimately show ?thesis
    using assms(1) u
    by (auto simp: msg_complete_size_def msg_decode_header_def header_codec.of_image
        msg_header_valid_def add32_exact)
qed

theorem msg_complete_size_wraps_witness:
  "msg_complete_size (header_image (msg_header_new MSG_OP_PING 0 0 0xFFFFFFFF 0 0)) = 31"
  using msg_complete_size_wraps [of "msg_header_new MSG_OP_PING 0 0 0xFFFFFFFF 0 0" "[]"]
  by (simp add: msg_header_new_def)

end
