(* ===== verification/Conn.thy ===== *)
theory Conn
  imports Core_Mem Msg
begin

text \<open>
  \<^verbatim>\<open>src/proto/conn.c\<close>: the framing state machine of a connection. The receive buffer is
  its whole memory (\<open>buf\<close>, \<open>buf_cap\<close> bytes), of which \<open>buf_len\<close> bytes are received
  and \<open>buf_off\<close> of those already parsed. A FRAME action carries the offset of its payload
  inside the buffer, as the pointer of the source does, so that how long a payload stays
  readable is a statement about the buffer and not built into the model.
\<close>

section \<open>State and actions\<close>

datatype conn_mode = CONN_MODE_CLIENT | CONN_MODE_INTERNAL

datatype conn_action_t =
    CONN_ACTION_FRAME msg_header_t "nat option" nat
  | CONN_ACTION_REPLY_ERR u16 u64
  | CONN_ACTION_CLOSE

record conn_t =
  buf :: bytes
  buf_cap :: nat
  buf_len :: nat
  buf_off :: nat
  closed :: bool
  mode :: conn_mode
  opened :: bool

definition conn_init :: "bytes \<Rightarrow> nat \<Rightarrow> conn_mode \<Rightarrow> conn_t" where
  "conn_init b cap m = \<lparr>buf = b, buf_cap = cap, buf_len = 0, buf_off = 0, closed = False,
     mode = m, opened = False\<rparr>"

section \<open>Receiving\<close>

definition conn_compact :: "conn_t \<Rightarrow> conn_t" where
  "conn_compact c =
     (if buf_off c = 0 then c
      else let tail = buf_len c - buf_off c
           in c\<lparr>buf := (if tail > 0 then mem_copy_in tail (buf c) 0 (buf_off c) else buf c),
                buf_len := tail, buf_off := 0\<rparr>)"

definition conn_recv_append :: "conn_t \<Rightarrow> bytes \<Rightarrow> nat \<times> conn_t" where
  "conn_recv_append c src =
     (if closed c \<or> src = [] then (0, c)
      else let c = conn_compact c;
               space = buf_cap c - buf_len c;
               take' = (if length src < space then length src else space)
           in if take' = 0 then (0, c)
              else (take', c\<lparr>buf := mem_copy take' (buf c) (buf_len c) src 0,
                             buf_len := buf_len c + take'\<rparr>))"

definition conn_recv_space :: "conn_t \<Rightarrow> nat" where
  "conn_recv_space c = buf_cap c - buf_len c"

definition conn_recv_ptr :: "conn_t \<Rightarrow> nat" where
  "conn_recv_ptr c = buf_len c"

definition conn_recv_commit :: "conn_t \<Rightarrow> nat \<Rightarrow> nat \<times> conn_t" where
  "conn_recv_commit c n =
     (if closed c \<or> n = 0 then (0, c)
      else let space = buf_cap c - buf_len c;
               n = (if n > space then space else n)
           in (n, c\<lparr>buf_len := buf_len c + n\<rparr>))"

section \<open>Parsing\<close>

definition emit_fatal :: "conn_t \<Rightarrow> nat \<Rightarrow> u16 \<Rightarrow> u64 \<Rightarrow> conn_action_t list \<times> conn_t" where
  "emit_fatal c out_cap code echo_seq =
     ((if 0 < out_cap then [CONN_ACTION_REPLY_ERR code echo_seq] else [])
      @ (if 1 < out_cap then [CONN_ACTION_CLOSE] else []),
      c\<lparr>closed := True\<rparr>)"

definition opening_op :: "u16 \<Rightarrow> bool" where
  "opening_op op \<longleftrightarrow> op = MSG_OP_HELLO \<or> op = MSG_OP_REPL_START"

text \<open>The tests a decoded header has to pass, in the source's order: \<open>Some\<close> of the
  error code and the sequence to echo for the first one that fails.\<close>

definition header_fault :: "conn_t \<Rightarrow> msg_header_t \<Rightarrow> (u16 \<times> u64) option" where
  "header_fault c hdr =
     (if h_magic hdr \<noteq> MSG_MAGIC then Some (MSG_ERR_BAD_MAGIC, 0)
      else if h_version hdr < MSG_VERSION_MIN \<or> h_version hdr > MSG_VERSION then
        Some (MSG_ERR_BAD_VERSION, h_sequence hdr)
      else if h_op hdr < MSG_OP_MIN \<or> h_op hdr > MSG_OP_MAX then
        Some (MSG_ERR_BAD_OP, h_sequence hdr)
      else if h_payload_len hdr > of_nat MSG_MAX_PAYLOAD
          \<or> h_payload_len hdr > word_of_int (int (buf_cap c) - int MSG_HEADER_SIZE) then
        Some (MSG_ERR_PAYLOAD_TOO_BIG, h_sequence hdr)
      else if mode c = CONN_MODE_CLIENT
          \<and> (opening_op (h_op hdr) \<and> opened c \<or> \<not> opening_op (h_op hdr) \<and> \<not> opened c) then
        Some (MSG_ERR_NO_SESSION, h_sequence hdr)
      else None)"

text \<open>One turn of the parsing loop per unit of \<open>room\<close>, the action slots left. A fatal
  error moves the cursor to the end of the received bytes, which discards them.\<close>

primrec conn_feed_loop :: "nat \<Rightarrow> conn_t \<Rightarrow> nat \<Rightarrow> conn_action_t list \<times> conn_t \<times> nat" where
  "conn_feed_loop 0 c cursor = ([], c, cursor)"
| "conn_feed_loop (Suc room) c cursor =
     (let avail = buf_len c - cursor in
      if avail < MSG_HEADER_SIZE then ([], c, cursor)
      else let hdr = header_of (drop cursor (buf c)) in
      case header_fault c hdr of
        Some (code, seq) \<Rightarrow>
          (let (as, c) = emit_fatal c (Suc room) code seq in (as, c, buf_len c))
      | None \<Rightarrow>
          (let plen = unat (h_payload_len hdr); total = MSG_HEADER_SIZE + plen in
           if avail < total then ([], c, cursor)
           else let frame = CONN_ACTION_FRAME hdr
                      (if plen > 0 then Some (cursor + MSG_HEADER_SIZE) else None) plen;
                    c = (if opening_op (h_op hdr) then c\<lparr>opened := True\<rparr> else c);
                    (as, c, cur) = conn_feed_loop room c (cursor + total)
                in (frame # as, c, cur)))"

definition conn_feed :: "conn_t \<Rightarrow> nat \<Rightarrow> conn_action_t list \<times> conn_t" where
  "conn_feed c out_cap =
     (if closed c \<or> out_cap = 0 then ([], c)
      else let (as, c, cursor) = conn_feed_loop out_cap c (buf_off c)
           in (as, c\<lparr>buf_off := cursor\<rparr>))"

text \<open>What a payload pointer reads from the buffer.\<close>

definition payload_bytes :: "conn_t \<Rightarrow> nat option \<Rightarrow> nat \<Rightarrow> bytes" where
  "payload_bytes c p n = (case p of None \<Rightarrow> [] | Some o' \<Rightarrow> take n (drop o' (buf c)))"

section \<open>Invariant\<close>

definition conn_inv :: "conn_t \<Rightarrow> bool" where
  "conn_inv c \<longleftrightarrow> length (buf c) = buf_cap c \<and> buf_off c \<le> buf_len c \<and> buf_len c \<le> buf_cap c"

definition unparsed :: "conn_t \<Rightarrow> bytes" where
  "unparsed c = drop (buf_off c) (take (buf_len c) (buf c))"

lemma conn_inv_init: "length b = cap \<Longrightarrow> conn_inv (conn_init b cap m)"
  by (simp add: conn_inv_def conn_init_def)

lemma conn_compact_inv:
  assumes "conn_inv c"
  shows "conn_inv (conn_compact c) \<and> unparsed (conn_compact c) = unparsed c
    \<and> buf_off (conn_compact c) = 0 \<and> closed (conn_compact c) = closed c
    \<and> opened (conn_compact c) = opened c \<and> mode (conn_compact c) = mode c
    \<and> buf_cap (conn_compact c) = buf_cap c"
  using assms
  by (auto simp: conn_compact_def conn_inv_def unparsed_def Let_def mem_copy_in_splice
      take_drop min_def)

lemma conn_recv_append_inv:
  assumes "conn_inv c" "conn_recv_append c src = (n, c')"
  shows "conn_inv c' \<and> n \<le> length src \<and> unparsed c' = unparsed c @ take n src
    \<and> (\<not> closed c \<longrightarrow> n = min (length src) (buf_cap c - length (unparsed c)))"
proof (cases "closed c \<or> src = []")
  case True
  with assms show ?thesis by (auto simp: conn_recv_append_def)
next
  case False
  define d where "d = conn_compact c"
  note cd = conn_compact_inv [OF assms(1), folded d_def]
  have d: "length (buf d) = buf_cap d" "buf_len d \<le> buf_cap d" "buf_off d = 0"
    "unparsed c = take (buf_len d) (buf d)" "buf_cap d = buf_cap c"
    using cd by (auto simp: conn_inv_def unparsed_def)
  define k where "k = min (length src) (buf_cap d - buf_len d)"
  have kk: "(if length src < buf_cap d - buf_len d then length src else buf_cap d - buf_len d) = k"
    by (simp add: k_def)
  have eq: "(n, c') = (if k = 0 then (0, d)
      else (k, d\<lparr>buf := mem_copy k (buf d) (buf_len d) src 0, buf_len := buf_len d + k\<rparr>))"
    using assms(2) [symmetric] False
    by (simp add: conn_recv_append_def Let_def d_def [symmetric] kk)
  have cp: "mem_copy k (buf d) (buf_len d) src 0 =
      take (buf_len d) (buf d) @ take k src @ drop (buf_len d + k) (buf d)"
    using d by (subst mem_copy_splice) (auto simp: k_def)
  have len: "length (unparsed c) = buf_len d" and kle: "k \<le> length src" "buf_len d + k \<le> buf_cap d"
    using d by (auto simp: k_def)
  show ?thesis
  proof (cases "k = 0")
    case True
    with eq cd len d(5) show ?thesis by (simp add: k_def)
  next
    case k0: False
    then have n: "n = k" and c': "c' = d\<lparr>buf := take (buf_len d) (buf d) @ take k src
        @ drop (buf_len d + k) (buf d), buf_len := buf_len d + k\<rparr>"
      using eq by (simp_all add: cp)
    have "conn_inv c'" using d kle by (simp add: c' conn_inv_def)
    moreover have "unparsed c' = unparsed c @ take k src"
      using d kle by (simp add: c' unparsed_def)
    ultimately show ?thesis using n kle len d(5) by (simp add: k_def)
  qed
qed

section \<open>Parsing keeps the buffer\<close>

definition action_in_bounds :: "conn_t \<Rightarrow> conn_action_t \<Rightarrow> bool" where
  "action_in_bounds c a =
     (case a of CONN_ACTION_FRAME h p n \<Rightarrow>
        n = unat (h_payload_len h) \<and> (case p of None \<Rightarrow> n = 0 | Some o' \<Rightarrow> o' + n \<le> buf_len c)
      | _ \<Rightarrow> True)"

lemma emit_fatal_inv:
  "emit_fatal c n code q = (as, c') \<Longrightarrow>
     c' = c\<lparr>closed := True\<rparr> \<and> length as \<le> n \<and> (\<forall>a \<in> set as. action_in_bounds d a)"
  by (auto simp: emit_fatal_def action_in_bounds_def)

text \<open>How one turn of the loop ends: nothing complete, a fatal header, or a frame.\<close>

abbreviation frame_at :: "conn_t \<Rightarrow> nat \<Rightarrow> msg_header_t" where
  "frame_at c cursor \<equiv> header_of (drop cursor (buf c))"

lemma conn_feed_loop_cases:
  assumes "conn_feed_loop (Suc room) c cursor = (as, c', cur)"
  obtains (stop) "as = []" "c' = c" "cur = cursor"
    | (fatal) code q where "emit_fatal c (Suc room) code q = (as, c')" "cur = buf_len c" "cursor < buf_len c"
    | (frame) as' plen where "header_fault c (frame_at c cursor) = None"
        "plen = unat (h_payload_len (frame_at c cursor))"
        "cursor + (MSG_HEADER_SIZE + plen) \<le> buf_len c"
        "conn_feed_loop room (if opening_op (h_op (frame_at c cursor)) then c\<lparr>opened := True\<rparr> else c)
           (cursor + (MSG_HEADER_SIZE + plen)) = (as', c', cur)"
        "as = CONN_ACTION_FRAME (frame_at c cursor)
           (if plen > 0 then Some (cursor + MSG_HEADER_SIZE) else None) plen # as'"
proof (cases "buf_len c - cursor < MSG_HEADER_SIZE")
  case True
  with assms show ?thesis by (intro stop) simp_all
next
  case avail: False
  show ?thesis
  proof (cases "header_fault c (frame_at c cursor)")
    case (Some f)
    obtain code q where f: "f = (code, q)" by (cases f)
    have "emit_fatal c (Suc room) code q = (as, c')" "cur = buf_len c" "cursor < buf_len c"
      using assms avail Some f by (simp_all add: emit_fatal_def split: prod.splits)
    then show ?thesis by (rule fatal)
  next
    case None
    show ?thesis
    proof (cases "buf_len c - cursor < MSG_HEADER_SIZE + unat (h_payload_len (frame_at c cursor))")
      case True
      with assms avail None show ?thesis by (intro stop) (simp_all add: Let_def)
    next
      case False
      with assms avail None show ?thesis
        by (intro frame [OF None refl, of "tl as"]) (auto simp: Let_def split: prod.splits)
    qed
  qed
qed

lemma conn_feed_loop_inv:
  "conn_feed_loop room c cursor = (as, c', cur) \<Longrightarrow> cursor \<le> buf_len c \<Longrightarrow>
     buf c' = buf c \<and> buf_cap c' = buf_cap c \<and> buf_len c' = buf_len c \<and> buf_off c' = buf_off c
     \<and> mode c' = mode c \<and> cursor \<le> cur \<and> cur \<le> buf_len c \<and> length as \<le> room
     \<and> (\<forall>a \<in> set as. action_in_bounds c a)"
proof (induction room arbitrary: c cursor as)
  case 0
  then show ?case by simp
next
  case (Suc room)
  from Suc.prems(1) show ?case
  proof (cases rule: conn_feed_loop_cases)
    case stop
    with Suc.prems show ?thesis by simp
  next
    case (fatal code q)
    with emit_fatal_inv [OF fatal(1), of c] Suc.prems(2) show ?thesis by simp
  next
    case (frame as' plen)
    have "action_in_bounds (if p then c\<lparr>opened := True\<rparr> else c) a = action_in_bounds c a" for p a
      by (auto simp: action_in_bounds_def split: conn_action_t.splits option.splits)
    with frame Suc.IH [OF frame(4)] show ?thesis
      by (auto simp: action_in_bounds_def [of c "CONN_ACTION_FRAME _ _ _"] split: if_splits)
  qed
qed

lemma conn_feed_inv:
  assumes "conn_inv c" "conn_feed c out_cap = (as, c')"
  shows "conn_inv c' \<and> buf c' = buf c \<and> buf_len c' = buf_len c \<and> buf_off c \<le> buf_off c'
    \<and> length as \<le> out_cap \<and> (\<forall>a \<in> set as. action_in_bounds c' a)"
proof (cases "closed c \<or> out_cap = 0")
  case True
  with assms show ?thesis by (auto simp: conn_feed_def)
next
  case False
  obtain c1 cur where loop: "conn_feed_loop out_cap c (buf_off c) = (as, c1, cur)"
    and c': "c' = c1\<lparr>buf_off := cur\<rparr>"
    using assms(2) False by (auto simp: conn_feed_def split: prod.splits)
  have "buf_off c \<le> buf_len c" using assms(1) by (simp add: conn_inv_def)
  note inv = conn_feed_loop_inv [OF loop this]
  then have "action_in_bounds c' a = action_in_bounds c a" for a
    by (auto simp: action_in_bounds_def c' split: conn_action_t.splits option.splits)
  with inv assms(1) show ?thesis by (auto simp: conn_inv_def c')
qed

text \<open>C22. Every operation on a connection keeps its buffer indices in order
  (parsed \<open>\<le>\<close> received \<open>\<le>\<close> capacity). Parsing never moves or changes the received
  bytes, never steps back, never emits more actions than there is room for, and every
  payload it points at lies inside the received bytes.\<close>

theorem conn_feed_safe:
  assumes "conn_inv c" "conn_feed c out_cap = (as, c')"
  shows "conn_inv c' \<and> buf c' = buf c \<and> buf_len c' = buf_len c \<and> buf_off c \<le> buf_off c'
    \<and> length as \<le> out_cap \<and> (\<forall>a \<in> set as. action_in_bounds c' a)"
  by (rule conn_feed_inv [OF assms])

section \<open>A stream of well-formed frames comes out as it went in\<close>

type_synonym frame = "msg_header_t \<times> bytes"

definition frame_bytes :: "frame \<Rightarrow> bytes" where
  "frame_bytes f = header_image (fst f) @ snd f"

definition frame_ok :: "nat \<Rightarrow> frame \<Rightarrow> bool" where
  "frame_ok cap f \<longleftrightarrow> msg_header_valid (fst f) \<and> unat (h_payload_len (fst f)) = length (snd f)
     \<and> MSG_HEADER_SIZE + length (snd f) \<le> cap"

definition frame_opens :: "frame \<Rightarrow> bool" where
  "frame_opens f = opening_op (h_op (fst f))"

text \<open>The opening frame comes first and once; a connection between nodes has no such rule.\<close>

definition order_ok :: "conn_mode \<Rightarrow> bool \<Rightarrow> frame list \<Rightarrow> bool" where
  "order_ok m op fs \<longleftrightarrow> m = CONN_MODE_INTERNAL \<or>
     (if op then \<forall>f \<in> set fs. \<not> frame_opens f
      else fs = [] \<or> frame_opens (hd fs) \<and> (\<forall>f \<in> set (tl fs). \<not> frame_opens f))"

definition resolve :: "conn_t \<Rightarrow> conn_action_t \<Rightarrow> frame option" where
  "resolve c a = (case a of CONN_ACTION_FRAME h p n \<Rightarrow> Some (h, payload_bytes c p n) | _ \<Rightarrow> None)"

lemma resolve_frame [simp]: "resolve c (CONN_ACTION_FRAME h p n) = Some (h, payload_bytes c p n)"
  by (simp add: resolve_def)

lemma length_frame_bytes [simp]: "length (frame_bytes f) = MSG_HEADER_SIZE + length (snd f)"
  by (simp add: frame_bytes_def)

lemma header_fault_None:
  assumes ok: "frame_ok (buf_cap c) f" and cap: "buf_cap c < 2 ^ 31"
    and ord: "order_ok (mode c) (opened c) (f # fs)"
  shows "header_fault c (fst f) = None"
proof -
  have valid: "msg_header_valid (fst f)" and len: "unat (h_payload_len (fst f)) = length (snd f)"
    and room: "MSG_HEADER_SIZE + length (snd f) \<le> buf_cap c"
    using ok by (simp_all add: frame_ok_def)
  have "word_of_int (int (buf_cap c) - int MSG_HEADER_SIZE) = (of_nat (buf_cap c - MSG_HEADER_SIZE) :: u32)"
    using room by (simp add: of_nat_diff)
  then have "unat (word_of_int (int (buf_cap c) - int MSG_HEADER_SIZE) :: u32) = buf_cap c - MSG_HEADER_SIZE"
    using cap by (simp add: unsigned_of_nat take_bit_nat_eq_self)
  then have "\<not> h_payload_len (fst f) > word_of_int (int (buf_cap c) - int MSG_HEADER_SIZE)"
    using len room by (simp add: word_less_nat_alt)
  with valid ord show ?thesis
    by (auto simp: header_fault_def msg_header_valid_def order_ok_def frame_opens_def
        split: if_splits)
qed

lemma drop_received:
  assumes "conn_inv c" "cursor \<le> buf_len c"
  shows "drop cursor (buf c) = drop cursor (take (buf_len c) (buf c)) @ drop (buf_len c) (buf c)"
  using assms by (subst append_take_drop_id [of "buf_len c" "buf c", symmetric])
    (simp add: conn_inv_def del: append_take_drop_id)

lemma header_of_prefix:
  "MSG_HEADER_SIZE \<le> k \<Longrightarrow> header_of (take k (frame_bytes g) @ rest) = fst g"
proof -
  assume "MSG_HEADER_SIZE \<le> k"
  then have "take k (frame_bytes g) = header_image (fst g) @ take (k - MSG_HEADER_SIZE) (snd g)"
    by (simp add: frame_bytes_def)
  then show ?thesis by (simp add: header_codec.of_image)
qed

lemma conn_feed_loop_frames:
  "conn_inv c \<Longrightarrow> buf_cap c < 2 ^ 31 \<Longrightarrow> cursor \<le> buf_len c \<Longrightarrow>
   drop cursor (take (buf_len c) (buf c)) = concat (map frame_bytes fs) @ take k (frame_bytes g) \<Longrightarrow>
   k < length (frame_bytes g) \<Longrightarrow> \<forall>f \<in> set (fs @ [g]). frame_ok (buf_cap c) f \<Longrightarrow>
   order_ok (mode c) (opened c) (fs @ [g]) \<Longrightarrow>
   \<exists>as. conn_feed_loop room c cursor =
       (as, c\<lparr>opened := opened c \<or> (\<exists>f \<in> set (take room fs). frame_opens f)\<rparr>,
        cursor + length (concat (map frame_bytes (take room fs))))
     \<and> map (resolve c) as = map Some (take room fs)"
proof (induction room arbitrary: fs c cursor)
  case 0
  then show ?case by simp
next
  case (Suc room)
  note inv = Suc.prems(1) and at = Suc.prems(4)
  note mem0 = drop_received [OF inv Suc.prems(3), unfolded at]
  have avail: "buf_len c - cursor = length (concat (map frame_bytes fs)) + k"
    using Suc.prems(1,3,5) arg_cong [OF at, of length] by (auto simp: conn_inv_def min_def split: if_splits)
  show ?case
  proof (cases fs)
    case Nil
    have "conn_feed_loop (Suc room) c cursor = ([], c, cursor)"
    proof (cases "k < MSG_HEADER_SIZE")
      case True
      with avail Nil show ?thesis by simp
    next
      case False
      then have hdr: "header_of (drop cursor (buf c)) = fst g"
        using mem0 Nil by (simp add: header_of_prefix)
      have ok: "frame_ok (buf_cap c) g" using Suc.prems(6) by simp
      then have plen: "unat (h_payload_len (fst g)) = length (snd g)" by (simp add: frame_ok_def)
      have "header_fault c (fst g) = None"
        using ok Suc.prems(2,7) Nil by (intro header_fault_None) auto
      with False avail Nil Suc.prems(5) hdr plen show ?thesis by (simp add: Let_def)
    qed
    with Nil show ?thesis by simp
  next
    case (Cons f gs)
    define rest where "rest = concat (map frame_bytes gs) @ take k (frame_bytes g)"
    have mem: "drop cursor (buf c) = header_image (fst f) @ snd f @ rest @ drop (buf_len c) (buf c)"
      using mem0 by (simp add: Cons rest_def frame_bytes_def [of f])
    define c1 where "c1 = (if frame_opens f then c\<lparr>opened := True\<rparr> else c)"
    have c1: "buf c1 = buf c" "buf_cap c1 = buf_cap c" "buf_len c1 = buf_len c" "mode c1 = mode c"
      "conn_inv c1" "buf_off c1 = buf_off c" "opened c1 = (opened c \<or> frame_opens f)"
      "resolve c1 = resolve c"
      using inv by (auto simp: c1_def conn_inv_def resolve_def payload_bytes_def fun_eq_iff
          split: conn_action_t.splits option.splits)
    have hdr: "header_of (drop cursor (buf c)) = fst f"
      by (simp add: mem header_codec.of_image)
    have ok: "frame_ok (buf_cap c) f" using Suc.prems(6) Cons by simp
    then have plen: "unat (h_payload_len (fst f)) = length (snd f)" by (simp add: frame_ok_def)
    have nofault: "header_fault c (fst f) = None"
      using ok Suc.prems(2,7) Cons by (intro header_fault_None) auto
    let ?cur = "cursor + (MSG_HEADER_SIZE + length (snd f))"
    have le: "?cur \<le> buf_len c" using avail Suc.prems(3) Cons by simp
    have at1: "drop ?cur (take (buf_len c1) (buf c1)) = concat (map frame_bytes gs) @ take k (frame_bytes g)"
      using arg_cong [OF at, of "drop (MSG_HEADER_SIZE + length (snd f))"] Cons
      by (simp add: c1 add.commute [of cursor] add.assoc)
    have ord1: "order_ok (mode c1) (opened c1) (gs @ [g])"
      using Suc.prems(7) Cons by (auto simp: c1 order_ok_def split: if_splits)
    obtain as where loop: "conn_feed_loop room c1 ?cur =
        (as, c1\<lparr>opened := opened c1 \<or> (\<exists>f \<in> set (take room gs). frame_opens f)\<rparr>,
         ?cur + length (concat (map frame_bytes (take room gs))))"
      and res: "map (resolve c1) as = map Some (take room gs)"
      using Suc.IH [of c1 ?cur gs] c1 Suc.prems Cons le at1 ord1 by auto
    have pay: "payload_bytes c (if length (snd f) > 0 then Some (cursor + MSG_HEADER_SIZE) else None)
        (length (snd f)) = snd f"
    proof -
      have "drop (cursor + MSG_HEADER_SIZE) (buf c) = snd f @ rest @ drop (buf_len c) (buf c)"
        using arg_cong [OF mem, of "drop MSG_HEADER_SIZE"] by (simp add: add.commute)
      then show ?thesis by (simp add: payload_bytes_def)
    qed
    have "conn_feed_loop (Suc room) c cursor =
        (CONN_ACTION_FRAME (fst f)
           (if length (snd f) > 0 then Some (cursor + MSG_HEADER_SIZE) else None) (length (snd f)) # as,
         c1\<lparr>opened := opened c1 \<or> (\<exists>f \<in> set (take room gs). frame_opens f)\<rparr>,
         ?cur + length (concat (map frame_bytes (take room gs))))"
      using avail Cons le loop
      by (simp add: hdr nofault plen frame_opens_def [symmetric] c1_def [symmetric] Let_def)
    moreover have "c1\<lparr>opened := opened c1 \<or> (\<exists>f \<in> set (take room gs). frame_opens f)\<rparr> =
        c\<lparr>opened := opened c \<or> (\<exists>f \<in> set (take (Suc room) fs). frame_opens f)\<rparr>"
      by (auto simp: Cons c1_def)
    ultimately show ?thesis
      using res pay Cons by (simp add: c1 add.assoc del: conn_feed_loop.simps)
  qed
qed

text \<open>C20. A stream of well-formed frames, received in any pieces and cut anywhere in the
  next frame, comes out of the parser as it went in: the first \<open>out_cap\<close> complete
  frames are delivered in order, each payload readable from the buffer, what is left over
  stays unparsed for the next call, and nothing is reported or closed.\<close>

theorem conn_feed_frames:
  assumes "conn_inv c" "buf_cap c < 2 ^ 31" "\<not> closed c"
    and "unparsed c = concat (map frame_bytes fs) @ take k (frame_bytes g)" "k < length (frame_bytes g)"
    and "\<forall>f \<in> set (fs @ [g]). frame_ok (buf_cap c) f" "order_ok (mode c) (opened c) (fs @ [g])"
    and "conn_feed c out_cap = (as, c')"
  shows "map (resolve c') as = map Some (take out_cap fs)
    \<and> unparsed c' = concat (map frame_bytes (drop out_cap fs)) @ take k (frame_bytes g)
    \<and> \<not> closed c' \<and> order_ok (mode c') (opened c') (drop out_cap fs @ [g])"
proof (cases "out_cap = 0")
  case True
  with assms show ?thesis by (auto simp: conn_feed_def)
next
  case False
  let ?op = "opened c \<or> (\<exists>f \<in> set (take out_cap fs). frame_opens f)"
  let ?n = "length (concat (map frame_bytes (take out_cap fs)))"
  have "buf_off c \<le> buf_len c" using assms(1) by (simp add: conn_inv_def)
  from conn_feed_loop_frames [OF assms(1,2) this assms(4) [unfolded unparsed_def] assms(5-7), of out_cap]
  have as: "map (resolve c) as = map Some (take out_cap fs)"
    and c': "c' = c\<lparr>opened := ?op, buf_off := buf_off c + ?n\<rparr>"
    using assms(3,8) False by (auto simp: conn_feed_def)
  have "resolve c' = resolve c"
    by (auto simp: c' resolve_def payload_bytes_def fun_eq_iff
        split: conn_action_t.splits option.splits)
  moreover have "concat (map frame_bytes fs) =
      concat (map frame_bytes (take out_cap fs)) @ concat (map frame_bytes (drop out_cap fs))"
    by (simp flip: concat_append map_append)
  then have "drop ?n (unparsed c) = concat (map frame_bytes (drop out_cap fs)) @ take k (frame_bytes g)"
    using assms(4) by simp
  then have "unparsed c' = concat (map frame_bytes (drop out_cap fs)) @ take k (frame_bytes g)"
    by (simp add: c' unparsed_def add.commute)
  moreover have "order_ok (mode c') (opened c') (drop out_cap fs @ [g])"
    using assms(7) False by (cases fs; cases out_cap)
      (auto simp: c' order_ok_def frame_opens_def dest: in_set_dropD in_set_takeD split: if_splits)
  ultimately show ?thesis using as assms(3) by (simp add: c')
qed

definition hello_frame :: frame where
  "hello_frame = (msg_header_new MSG_OP_HELLO 0 0 2 0 1, [0x61, 0x62])"

definition ping_frame :: frame where
  "ping_frame = (msg_header_new MSG_OP_PING 0 0 0 0 2, [])"

definition conn_example :: conn_t where
  "conn_example = \<lparr>buf = frame_bytes hello_frame @ frame_bytes ping_frame @ replicate 2 0,
     buf_cap = 68, buf_len = 50, buf_off = 0, closed = False, mode = CONN_MODE_CLIENT, opened = False\<rparr>"

theorem conn_feed_safe_witness:
  "conn_inv conn_example \<and> conn_inv (snd (conn_feed conn_example 1))"
proof -
  have inv: "conn_inv conn_example" by code_simp
  with conn_feed_safe [OF inv surjective_pairing, of 1] show ?thesis by simp
qed

theorem conn_feed_frames_witness:
  "map (resolve (snd (conn_feed conn_example 8))) (fst (conn_feed conn_example 8)) = [Some hello_frame]"
proof -
  have cap: "buf_cap conn_example < 2 ^ 31" by (simp add: conn_example_def)
  have ok: "\<forall>f \<in> set ([hello_frame] @ [ping_frame]). frame_ok (buf_cap conn_example) f"
    by (simp add: frame_ok_def msg_header_valid_def hello_frame_def ping_frame_def msg_header_new_def
        conn_example_def)
  have "conn_inv conn_example" "\<not> closed conn_example"
    "unparsed conn_example = concat (map frame_bytes [hello_frame]) @ take 16 (frame_bytes ping_frame)"
    "16 < length (frame_bytes ping_frame)"
    "order_ok (mode conn_example) (opened conn_example) ([hello_frame] @ [ping_frame])"
    by code_simp+
  note this(1) cap this(2-4) ok this(5)
  from conn_feed_frames [OF this surjective_pairing, of 8] show ?thesis by simp
qed

section \<open>Fatal faults\<close>

lemma conn_closed_stops:
  "closed c \<Longrightarrow> conn_feed c n = ([], c) \<and> conn_recv_append c bs = (0, c) \<and> conn_recv_commit c m = (0, c)"
  by (simp add: conn_feed_def conn_recv_append_def conn_recv_commit_def)

text \<open>C31. A malformed header is fatal: the received bytes are dropped and the
  connection takes nothing more. The caller learns of it by an error reply and a CLOSE only
  when two action slots are free. With one slot left the reply is the only action, and the
  CLOSE that conn.h promises after it is never delivered by any later call.\<close>

theorem conn_fatal_close_needs_two_slots:
  assumes "\<not> closed c" "MSG_HEADER_SIZE \<le> buf_len c - buf_off c"
    and "header_fault c (header_of (drop (buf_off c) (buf c))) = Some (code, q)"
  shows "fst (conn_feed c (Suc (Suc n))) = [CONN_ACTION_REPLY_ERR code q, CONN_ACTION_CLOSE]
    \<and> fst (conn_feed c 1) = [CONN_ACTION_REPLY_ERR code q]
    \<and> (\<forall>m. conn_feed (snd (conn_feed c 1)) m = ([], snd (conn_feed c 1)))
    \<and> unparsed (snd (conn_feed c 1)) = []"
proof -
  have feed: "conn_feed c (Suc k) = (fst (emit_fatal c (Suc k) code q),
      c\<lparr>closed := True, buf_off := buf_len c\<rparr>)" for k
    using assms by (simp add: conn_feed_def Let_def emit_fatal_def)
  show ?thesis
    using feed [of 0] feed [of "Suc n"]
    by (simp add: emit_fatal_def conn_closed_stops unparsed_def)
qed

definition conn_bad_magic :: conn_t where
  "conn_bad_magic = \<lparr>buf = replicate 64 0, buf_cap = 64, buf_len = 40, buf_off = 0,
     closed = False, mode = CONN_MODE_CLIENT, opened = False\<rparr>"

theorem conn_fatal_close_needs_two_slots_witness:
  "fst (conn_feed conn_bad_magic 1) = [CONN_ACTION_REPLY_ERR MSG_ERR_BAD_MAGIC 0]"
proof -
  have "\<not> closed conn_bad_magic" "MSG_HEADER_SIZE \<le> buf_len conn_bad_magic - buf_off conn_bad_magic"
    "header_fault conn_bad_magic (header_of (drop (buf_off conn_bad_magic) (buf conn_bad_magic)))
       = Some (MSG_ERR_BAD_MAGIC, 0)"
    by code_simp+
  from conn_fatal_close_needs_two_slots [OF this] show ?thesis by simp
qed

section \<open>Progress\<close>

lemma conn_feed_loop_progress:
  "conn_feed_loop m c cur = (as, c', cur') \<Longrightarrow> buf_len c' = buf_len c \<and>
     (as \<noteq> [] \<longrightarrow> cur < buf_len c \<and> cur < cur' \<and> (cur' \<le> buf_len c))"
proof (induction m arbitrary: c cur as c' cur')
  case 0
  then show ?case by simp
next
  case (Suc m)
  from Suc.prems show ?case
  proof (cases rule: conn_feed_loop_cases)
    case (fatal code q)
    then show ?thesis by (auto simp: emit_fatal_def)
  next
    case (frame as' plen)
    have "as' = [] \<Longrightarrow> cur' = cur + (MSG_HEADER_SIZE + plen)"
      using frame(4) by (cases m) (auto elim!: conn_feed_loop_cases simp: emit_fatal_def simp del: conn_feed_loop.simps(2))
    with Suc.IH [OF frame(4)] frame show ?thesis by (cases "as' = []") (auto split: if_splits)
  qed simp
qed

lemma conn_feed_progress:
  assumes "conn_feed c m = (as, c')" "as \<noteq> []"
  shows "buf_len c' - buf_off c' < buf_len c - buf_off c"
proof -
  obtain c1 cur where f: "conn_feed_loop m c (buf_off c) = (as, c1, cur)" "c' = c1\<lparr>buf_off := cur\<rparr>"
    using assms by (auto simp: conn_feed_def Let_def split: if_splits prod.splits)
  from conn_feed_loop_progress [OF f(1)] assms(2) f(2) show ?thesis by auto
qed

text \<open>What the actions of one call cost: a frame at least one byte more than its payload.\<close>

definition actions_size :: "conn_action_t list \<Rightarrow> nat" where
  "actions_size as = sum_list (map (\<lambda>a. case a of CONN_ACTION_FRAME h p n \<Rightarrow> 1 + n | _ \<Rightarrow> 0) as)"

lemma actions_size_simps [simp]:
  "actions_size [] = 0" "actions_size (CONN_ACTION_FRAME h p n # as) = 1 + n + actions_size as"
  "actions_size (CONN_ACTION_REPLY_ERR code q # as) = actions_size as"
  "actions_size (CONN_ACTION_CLOSE # as) = actions_size as"
  by (simp_all add: actions_size_def)

lemma conn_feed_loop_size:
  "conn_feed_loop m c cur = (as, c', cur') \<Longrightarrow> actions_size as + (buf_len c' - cur') \<le> buf_len c - cur"
proof (induction m arbitrary: c cur as c' cur')
  case 0
  then show ?case by simp
next
  case (Suc m)
  from Suc.prems show ?case
  proof (cases rule: conn_feed_loop_cases)
    case (fatal code q)
    then show ?thesis by (auto simp: emit_fatal_def)
  next
    case (frame as' plen)
    with Suc.IH [OF frame(4)] show ?thesis by (auto split: if_splits)
  qed simp
qed

lemma conn_feed_size:
  "conn_feed c m = (as, c') \<Longrightarrow> actions_size as + (buf_len c' - buf_off c') \<le> buf_len c - buf_off c"
  using conn_feed_loop_size [of m c "buf_off c"]
  by (auto simp: conn_feed_def split: if_splits prod.splits)

definition opening_frames :: "conn_action_t list \<Rightarrow> bool" where
  "opening_frames as \<longleftrightarrow> list_ex (\<lambda>a. case a of CONN_ACTION_FRAME h p n \<Rightarrow> opening_op (h_op h) | _ \<Rightarrow> False) as"

lemma opening_frames_simps [simp]:
  "\<not> opening_frames []"
  "opening_frames (CONN_ACTION_FRAME h p n # as) \<longleftrightarrow> opening_op (h_op h) \<or> opening_frames as"
  "opening_frames (CONN_ACTION_REPLY_ERR code q # as) = opening_frames as"
  "opening_frames (CONN_ACTION_CLOSE # as) = opening_frames as"
  by (simp_all add: opening_frames_def)

lemma conn_feed_loop_opens:
  "conn_feed_loop m c cur = (as, c', cur') \<Longrightarrow> mode c = CONN_MODE_CLIENT \<Longrightarrow>
     (opened c \<longrightarrow> \<not> opening_frames as \<and> opened c') \<and> (opening_frames as \<longrightarrow> opened c')
     \<and> \<not> opening_frames (tl as) \<and> mode c' = mode c"
proof (induction m arbitrary: c cur as c' cur')
  case 0
  then show ?case by simp
next
  case (Suc m)
  from Suc.prems(1) show ?case
  proof (cases rule: conn_feed_loop_cases)
    case (fatal code q)
    then show ?thesis by (auto simp: emit_fatal_def split: if_splits)
  next
    case (frame as' plen)
    have "opening_op (h_op (frame_at c cur)) \<longleftrightarrow> \<not> opened c"
      using frame(1) Suc.prems(2) by (auto simp: header_fault_def split: if_splits)
    with Suc.IH [OF frame(4)] frame Suc.prems(2) show ?thesis by (auto split: if_splits)
  qed (use Suc.prems in simp)
qed

text \<open>On a client connection only the first frame ever parsed opens it.\<close>

lemma conn_feed_opens:
  "conn_feed c m = (as, c') \<Longrightarrow> mode c = CONN_MODE_CLIENT \<Longrightarrow>
     (opened c \<longrightarrow> \<not> opening_frames as \<and> opened c') \<and> (opening_frames as \<longrightarrow> opened c')
     \<and> \<not> opening_frames (tl as) \<and> mode c' = mode c"
  using conn_feed_loop_opens [of m c "buf_off c"]
  by (auto simp: conn_feed_def split: if_splits prod.splits)

end
