(* ===== verification/Wal_Record.thy ===== *)
theory Wal_Record
  imports Core_Mem Crc32c Msg
begin

text \<open>
  \<^verbatim>\<open>src/wal/record.c\<close>: the log record. The struct image is a \<open>codec\<close> as in
  \<^verbatim>\<open>msg.h\<close>; \<open>wal_rec_encode\<close> writes header, payload, padding and checksum into a
  buffer with the byte loops of \<^verbatim>\<open>mem.h\<close>, and returns the buffer and the updated header.
  The lemmas give the encoder's closed form, that what it wrote decodes and verifies, and
  what a changed byte does to the verifier.
\<close>

section \<open>The record\<close>

abbreviation WAL_REC_HEADER_SIZE :: nat where "WAL_REC_HEADER_SIZE \<equiv> 56"
abbreviation WAL_MAX_PAYLOAD :: nat where "WAL_MAX_PAYLOAD \<equiv> MSG_MAX_PAYLOAD"
abbreviation WAL_REC_MAX_SIZE :: nat where "WAL_REC_MAX_SIZE \<equiv> 1048632"
abbreviation CRC_OFFSET :: nat where "CRC_OFFSET \<equiv> 4"

record wal_rec_t =
  r_crc :: u32
  r_len :: u32
  r_term :: u64
  r_seq :: u64
  r_session :: u64
  r_client_seq :: u64
  r_record_type :: u16
  r_flags :: u16
  r_pad :: u32
  r_partition_key :: u64

definition rec_body_image :: "wal_rec_t \<Rightarrow> bytes" where
  "rec_body_image r = le_enc 4 (r_len r) @ le_enc 8 (r_term r) @ le_enc 8 (r_seq r)
     @ le_enc 8 (r_session r) @ le_enc 8 (r_client_seq r) @ le_enc 2 (r_record_type r)
     @ le_enc 2 (r_flags r) @ le_enc 4 (r_pad r) @ le_enc 8 (r_partition_key r)"

definition rec_image :: "wal_rec_t \<Rightarrow> bytes" where
  "rec_image r = le_enc 4 (r_crc r) @ rec_body_image r"

definition rec_of :: "bytes \<Rightarrow> wal_rec_t" where
  "rec_of bs = \<lparr>r_crc = field 0 4 bs, r_len = field 4 4 bs, r_term = field 8 8 bs,
     r_seq = field 16 8 bs, r_session = field 24 8 bs, r_client_seq = field 32 8 bs,
     r_record_type = field 40 2 bs, r_flags = field 42 2 bs, r_pad = field 44 4 bs,
     r_partition_key = field 48 8 bs\<rparr>"

section \<open>Operations\<close>

definition wal_rec_size :: "int \<Rightarrow> int" where
  "wal_rec_size payload_len =
     (if payload_len < 0 \<or> payload_len > int WAL_MAX_PAYLOAD then 0
      else let padded = (payload_len + 7) AND NOT 7 in int WAL_REC_HEADER_SIZE + padded)"

definition wal_rec_encode ::
    "bytes \<Rightarrow> wal_rec_t \<Rightarrow> bytes option \<Rightarrow> int \<times> bytes \<times> wal_rec_t" where
  "wal_rec_encode buf r payload =
     (let len = sint (r_len r) in
      if len > 0 \<and> payload = None then (0, buf, r)
      else let total = wal_rec_size len in
      if total = 0 \<or> int (length buf) < total then (0, buf, r)
      else let padded = total - int WAL_REC_HEADER_SIZE;
               r = r\<lparr>r_crc := 0, r_pad := 0\<rparr>;
               buf = mem_copy WAL_REC_HEADER_SIZE buf 0 (rec_image r) 0;
               buf = (if len > 0 then
                        mem_copy (nat len) buf WAL_REC_HEADER_SIZE (the payload) 0
                      else buf);
               buf = (if padded > len then
                        mem_zero (nat (padded - len)) buf (WAL_REC_HEADER_SIZE + nat len)
                      else buf);
               c = crc32c 0 (take (nat total - CRC_OFFSET) (drop CRC_OFFSET buf));
               r = r\<lparr>r_crc := c\<rparr>;
               buf = mem_copy 4 buf 0 (le_enc 4 c) 0
           in (total, buf, r))"

definition wal_rec_decode :: "bytes \<Rightarrow> wal_rec_t option" where
  "wal_rec_decode buf = (if length buf < WAL_REC_HEADER_SIZE then None else Some (rec_of buf))"

definition wal_rec_is_end :: "wal_rec_t \<Rightarrow> bool" where
  "wal_rec_is_end r \<longleftrightarrow> r_seq r = 0"

definition wal_rec_verify :: "bytes \<Rightarrow> wal_rec_t \<Rightarrow> bool" where
  "wal_rec_verify buf r =
     (let total = wal_rec_size (sint (r_len r)) in
      if total = 0 \<or> int (length buf) < total then False
      else let computed = crc32c 0 (take (nat total - CRC_OFFSET) (drop CRC_OFFSET buf))
           in computed = r_crc r)"

section \<open>Sizes\<close>

interpretation rec_codec: codec rec_image rec_of WAL_REC_HEADER_SIZE
  by unfold_locales (simp_all add: rec_image_def rec_body_image_def rec_of_def field_simps')

lemma length_rec_body_image [simp]: "length (rec_body_image r) = 52"
  by (simp add: rec_body_image_def)

lemma rec_body_image_crc [simp]: "rec_body_image (r\<lparr>r_crc := c\<rparr>) = rec_body_image r"
  by (simp add: rec_body_image_def)

lemma sint_small: "unat (w :: u32) < 2 ^ 31 \<Longrightarrow> sint w = int (unat w)"
proof -
  assume "unat w < 2 ^ 31"
  then have "int (unat w) < int (2 ^ 31)" unfolding of_nat_less_iff .
  then have "uint w < 2 ^ 31" by simp
  moreover have "- (2 ^ 31) \<le> uint w" by (rule order_trans [OF _ uint_ge_0]) simp
  ultimately show ?thesis by (simp add: sint_uint signed_take_bit_int_eq_self)
qed

lemma sint_nonneg: "0 \<le> sint (w :: u32) \<Longrightarrow> unat w < 2 ^ 31"
proof -
  assume "0 \<le> sint w"
  then have even: "even (uint w div 2 ^ 31)" by (simp add: sint_uint bit_iff_odd)
  have "uint w < 2 ^ 31"
  proof (rule ccontr)
    assume "\<not> uint w < 2 ^ 31"
    moreover have "uint w < 2 ^ 32" using uint_lt2p [of w] by simp
    ultimately have "uint w div 2 ^ 31 = 1"
      using int_div_pos_eq [of "uint w" "2 ^ 31" 1 "uint w - 2 ^ 31"] by simp
    with even show False by simp
  qed
  then have "int (unat w) < int (2 ^ 31)" by simp
  then show ?thesis unfolding of_nat_less_iff .
qed

lemma wal_rec_size_eq:
  assumes "unat w \<le> WAL_MAX_PAYLOAD"
  shows "wal_rec_size (sint (w :: u32)) = int (WAL_REC_HEADER_SIZE + (unat w + 7) div 8 * 8)"
proof -
  have "sint w = int (unat w)" using assms by (intro sint_small) simp
  moreover have "int (unat w) \<le> int WAL_MAX_PAYLOAD" using assms unfolding of_nat_le_iff .
  ultimately show ?thesis by (simp add: wal_rec_size_def zdiv_int)
qed

lemma wal_rec_size_zero_iff: "wal_rec_size (sint (w :: u32)) = 0 \<longleftrightarrow> WAL_MAX_PAYLOAD < unat w"
proof (cases "unat w \<le> WAL_MAX_PAYLOAD")
  case True
  with wal_rec_size_eq [OF True] show ?thesis by simp
next
  case False
  then have "sint w < 0 \<or> int WAL_MAX_PAYLOAD < sint w"
    using sint_small [of w] sint_nonneg [of w] by linarith
  with False show ?thesis by (auto simp: wal_rec_size_def)
qed

section \<open>What the encoder writes\<close>

text \<open>The record on disk, as the layout comment of \<^verbatim>\<open>record.h\<close> describes it.\<close>

definition rec_padding :: "nat \<Rightarrow> nat" where
  "rec_padding n = (n + 7) div 8 * 8 - n"

definition rec_body :: "wal_rec_t \<Rightarrow> bytes \<Rightarrow> bytes" where
  "rec_body r payload = rec_body_image (r\<lparr>r_pad := 0\<rparr>) @ payload @ replicate (rec_padding (length payload)) 0"

definition rec_bytes :: "wal_rec_t \<Rightarrow> bytes \<Rightarrow> bytes" where
  "rec_bytes r payload = le_enc 4 (crc32c 0 (rec_body r payload)) @ rec_body r payload"

definition rec_written :: "wal_rec_t \<Rightarrow> bytes \<Rightarrow> wal_rec_t" where
  "rec_written r payload = r\<lparr>r_crc := crc32c 0 (rec_body r payload), r_pad := 0\<rparr>"

definition rec_fits :: "wal_rec_t \<Rightarrow> bytes \<Rightarrow> bool" where
  "rec_fits r payload \<longleftrightarrow> unat (r_len r) = length payload \<and> length payload \<le> WAL_MAX_PAYLOAD"

lemma rec_padding_le: "rec_padding n \<le> 7" "n + rec_padding n = (n + 7) div 8 * 8"
  unfolding rec_padding_def by presburger+

lemma length_rec_body [simp]:
  "length (rec_body r payload) = 52 + (length payload + 7) div 8 * 8"
  using rec_padding_le(2) [of "length payload"] by (simp add: rec_body_def)

lemma length_rec_bytes [simp]:
  "length (rec_bytes r payload) = WAL_REC_HEADER_SIZE + (length payload + 7) div 8 * 8"
  by (simp add: rec_bytes_def)

lemma wal_rec_size_fits:
  "rec_fits r payload \<Longrightarrow> wal_rec_size (sint (r_len r)) = int (length (rec_bytes r payload))"
  by (simp add: rec_fits_def wal_rec_size_eq)

lemma rec_bytes_image:
  "rec_bytes r payload = rec_image (rec_written r payload) @ payload @ replicate (rec_padding (length payload)) 0"
  by (simp add: rec_bytes_def rec_body_def rec_image_def rec_written_def rec_body_image_def)

lemma wal_rec_encode_eq:
  assumes "rec_fits r payload" "length (rec_bytes r payload) \<le> length buf"
    and "p = Some payload \<or> payload = [] \<and> p = None"
  shows "wal_rec_encode buf r p =
     (int (length (rec_bytes r payload)), rec_bytes r payload @ drop (length (rec_bytes r payload)) buf,
      rec_written r payload)"
proof -
  define n where "n = length payload"
  define m where "m = rec_padding n"
  define r0 where "r0 = r\<lparr>r_crc := 0, r_pad := 0\<rparr>"
  have len: "sint (r_len r) = int n" using assms(1) by (simp add: rec_fits_def n_def sint_small)
  have nm: "n + m = (n + 7) div 8 * 8" by (simp add: m_def rec_padding_le)
  have sz: "wal_rec_size (sint (r_len r)) = int (56 + n + m)"
    using wal_rec_size_fits [OF assms(1)] nm by (simp add: n_def)
  have room: "56 + n + m \<le> length buf" using assms(2) nm by (simp add: n_def)
  let ?b1 = "rec_image r0 @ drop 56 buf"
  have b1: "mem_copy 56 buf 0 (rec_image r0) 0 = ?b1"
    using room by (subst mem_copy_splice) simp_all
  let ?b2 = "rec_image r0 @ payload @ drop (56 + n) buf"
  have b2: "(if int n > 0 then mem_copy (nat (int n)) ?b1 56 (the p) 0 else ?b1) = ?b2"
  proof (cases "payload = []")
    case True
    then show ?thesis by (simp add: n_def)
  next
    case False
    with assms(3) have "the p = payload" by auto
    with False room show ?thesis by (subst mem_copy_splice) (simp_all add: n_def add.commute)
  qed
  let ?b3 = "rec_image r0 @ payload @ replicate m 0 @ drop (56 + n + m) buf"
  have b3: "(if int (n + m) > int n then mem_zero (nat (int (n + m) - int n)) ?b2 (56 + nat (int n)) else ?b2) = ?b3"
    using room by (auto simp: mem_zero_def mem_set_splice n_def add.commute [of m])
  have img: "rec_image r0 = le_enc 4 (0 :: u32) @ rec_body_image (r\<lparr>r_pad := 0\<rparr>)"
    by (simp add: rec_image_def r0_def rec_body_image_def)
  have body: "take (56 + n + m - 4) (drop 4 ?b3) = rec_body r payload"
    by (simp add: img rec_body_def n_def [symmetric] m_def [symmetric])
  let ?c = "crc32c 0 (rec_body r payload)"
  have b4: "mem_copy 4 ?b3 0 (le_enc 4 ?c) 0 = rec_bytes r payload @ drop (56 + n + m) buf"
    by (subst mem_copy_splice)
      (simp_all add: img rec_bytes_def rec_body_def n_def [symmetric] m_def [symmetric])
  have guards: "(int n > 0 \<and> p = None) = False" "(int (56 + n + m) = 0 \<or> int (length buf) < int (56 + n + m)) = False"
    using assms(3) room by (auto simp: n_def)
  have pd: "int (56 + n + m) - int 56 = int (n + m)" "nat (int (56 + n + m)) = 56 + n + m" by simp_all
  have "length (rec_bytes r payload) = 56 + n + m" using nm by (simp add: n_def)
  then show ?thesis
    unfolding wal_rec_encode_def Let_def len sz [unfolded len] r0_def [symmetric] guards if_False pd
      b1 b2 b3 body b4
    by (simp add: rec_written_def r0_def add.assoc)
qed

lemma mem_copy_prefix: "at + n \<le> length p \<Longrightarrow> mem_copy n b d (p @ rest) at = mem_copy n b d p at"
  by (induction n arbitrary: b d at) (simp_all add: nth_append)

lemma wal_rec_encode_prefix:
  assumes "rec_fits r p"
  shows "wal_rec_encode b r (Some (p @ rest)) = wal_rec_encode b r (Some p)"
proof -
  have "sint (r_len r) = int (length p)" using assms by (simp add: rec_fits_def sint_small)
  then show ?thesis by (simp add: wal_rec_encode_def Let_def mem_copy_prefix)
qed

lemma wal_rec_encode_rejects:
  assumes "WAL_MAX_PAYLOAD < unat (r_len r) \<or> int (length buf) < wal_rec_size (sint (r_len r))
    \<or> p = None \<and> 0 < sint (r_len r)"
  shows "wal_rec_encode buf r p = (0, buf, r)"
  using assms by (auto simp: wal_rec_encode_def Let_def wal_rec_size_zero_iff)

lemma rec_written_fields [simp]:
  "r_len (rec_written r p) = r_len r" "r_term (rec_written r p) = r_term r"
  "r_seq (rec_written r p) = r_seq r" "r_session (rec_written r p) = r_session r"
  "r_client_seq (rec_written r p) = r_client_seq r" "r_pad (rec_written r p) = 0"
  "r_partition_key (rec_written r p) = r_partition_key r"
  "r_record_type (rec_written r p) = r_record_type r" "r_flags (rec_written r p) = r_flags r"
  by (simp_all add: rec_written_def)

lemma wal_rec_decode_bytes: "wal_rec_decode (rec_bytes r p @ rest) = Some (rec_written r p)"
  by (simp add: wal_rec_decode_def) (simp add: rec_bytes_image rec_codec.of_image)

lemma wal_rec_verify_iff:
  "wal_rec_size (sint (r_len r)) = int n \<Longrightarrow> 0 < n \<Longrightarrow> n \<le> length buf \<Longrightarrow>
     wal_rec_verify buf r \<longleftrightarrow> crc32c 0 (take (n - CRC_OFFSET) (drop CRC_OFFSET buf)) = r_crc r"
  by (simp add: wal_rec_verify_def Let_def)

lemma wal_rec_verify_bytes:
  assumes "rec_fits r p"
  shows "wal_rec_verify (rec_bytes r p @ rest) (rec_written r p)"
proof (subst wal_rec_verify_iff)
  show "wal_rec_size (sint (r_len (rec_written r p))) = int (length (rec_bytes r p))"
    using wal_rec_size_fits [OF assms] by simp
  show "crc32c 0 (take (length (rec_bytes r p) - 4) (drop 4 (rec_bytes r p @ rest))) = r_crc (rec_written r p)"
    by (simp add: rec_bytes_def rec_written_def)
qed simp_all

text \<open>C21. What the encoder writes is what a reader gets back: the header decodes to
  the one the encoder returned, the payload follows it, the checksum verifies, the size is
  the one the size function announced and a multiple of 8, and bytes after the record are
  not touched. Everything but the checksum and the pad field is the caller's header.\<close>

theorem wal_rec_roundtrip:
  assumes "rec_fits r payload" "length payload + 63 \<le> length buf"
    and "wal_rec_encode buf r (Some payload) = (n, buf', r')"
  shows "n = wal_rec_size (int (length payload)) \<and> n mod 8 = 0
    \<and> wal_rec_decode buf' = Some r' \<and> wal_rec_verify buf' r'
    \<and> take (length payload) (drop WAL_REC_HEADER_SIZE buf') = payload
    \<and> drop (nat n) buf' = drop (nat n) buf \<and> length buf' = length buf
    \<and> r' = r\<lparr>r_crc := r_crc r', r_pad := 0\<rparr>"
proof -
  let ?bs = "rec_bytes r payload"
  have room: "length ?bs \<le> length buf" using assms(2) by simp
  have eq: "n = int (length ?bs)" "buf' = ?bs @ drop (length ?bs) buf" "r' = rec_written r payload"
    using wal_rec_encode_eq [OF assms(1) room, of "Some payload"] assms(3) by simp_all
  have "sint (r_len r) = int (length payload)" using assms(1) by (simp add: rec_fits_def sint_small)
  with wal_rec_size_fits [OF assms(1)] have "wal_rec_size (int (length payload)) = int (length ?bs)"
    by simp
  moreover have "int (length ?bs) mod 8 = 0" by simp
  moreover have "take (length payload) (drop WAL_REC_HEADER_SIZE buf') = payload"
    by (simp add: eq(2) rec_bytes_image)
  ultimately show ?thesis
    using room wal_rec_decode_bytes [of r payload] wal_rec_verify_bytes [OF assms(1)]
    by (simp add: eq rec_written_def del: length_rec_bytes)
qed

definition rec_example :: wal_rec_t where
  "rec_example = \<lparr>r_crc = 0, r_len = 3, r_term = 1, r_seq = 7, r_session = 9, r_client_seq = 2,
     r_record_type = 1, r_flags = 2, r_pad = 0, r_partition_key = 5\<rparr>"

theorem wal_rec_roundtrip_witness:
  "wal_rec_decode (fst (snd (wal_rec_encode (replicate 70 1) rec_example (Some [1, 2, 3]))))
     = Some (snd (snd (wal_rec_encode (replicate 70 1) rec_example (Some [1, 2, 3]))))"
proof -
  have "rec_fits rec_example [1, 2, 3]" by (simp add: rec_fits_def rec_example_def)
  then show ?thesis
    using wal_rec_roundtrip [of rec_example "[1, 2, 3]" "replicate 70 1"]
    by (cases "wal_rec_encode (replicate 70 1) rec_example (Some [1, 2, 3])") auto
qed

section \<open>Corruption\<close>

lemma rec_corruption_detected:
  assumes "rec_fits r payload" "i < length (rec_bytes r payload)" "b \<noteq> rec_bytes r payload ! i"
    and "bad = (rec_bytes r payload @ rest)[i := b]"
    and "wal_rec_size (sint (r_len (rec_of bad))) = wal_rec_size (sint (r_len r))"
  shows "\<not> wal_rec_verify bad (rec_of bad)"
proof -
  let ?bs = "rec_bytes r payload"
  let ?n = "length ?bs"
  have bad: "bad = ?bs[i := b] @ rest" using assms(2,4) by (simp add: list_update_append)
  have n4: "4 \<le> ?n" by simp
  have size: "wal_rec_size (sint (r_len (rec_of bad))) = int ?n"
    using wal_rec_size_fits [OF assms(1)] assms(5) by simp
  have range: "take (?n - 4) (drop 4 bad) = drop 4 (?bs[i := b])"
    using n4 by (simp add: bad)
  have crc: "r_crc (rec_of bad) = le_dec (take 4 (?bs[i := b]))"
    using n4 by (simp add: rec_of_def field_def bad)
  have stored: "le_dec (take 4 ?bs) = crc32c 0 (drop 4 ?bs)" by (simp add: rec_bytes_def)
  have "crc32c 0 (drop 4 (?bs[i := b])) \<noteq> le_dec (take 4 (?bs[i := b]))"
  proof (cases "i < 4")
    case True
    then have same: "drop 4 (?bs[i := b]) = drop 4 ?bs" by simp
    have "take 4 (?bs[i := b]) \<noteq> take 4 ?bs"
      using True assms(2,3) by (metis length_list_update nth_list_update_eq nth_take)
    then have "le_dec (take 4 (?bs[i := b])) \<noteq> (le_dec (take 4 ?bs) :: u32)"
      using n4 by (auto dest: le_dec4_inj [rotated 2] simp del: take_update_swap)
    then show ?thesis using same stored by simp
  next
    case False
    then have same: "take 4 (?bs[i := b]) = take 4 ?bs" by simp
    have i: "i - 4 < length (drop 4 ?bs)" using False assms(2) n4 by simp
    have upd: "drop 4 (?bs[i := b]) = (drop 4 ?bs)[i - 4 := b]"
      using False by (simp add: drop_update_swap)
    have "crc32c 0 ((drop 4 ?bs)[i - 4 := b]) \<noteq> crc32c 0 (drop 4 ?bs)"
      using False assms(2,3) crc32c_update_differs [OF i, of b] by simp
    then show ?thesis using same stored upd by simp
  qed
  moreover have "0 < ?n" "?n \<le> length bad" using n4 by (simp_all add: bad)
  ultimately show ?thesis using wal_rec_verify_iff [OF size, of bad] range crc by simp
qed

text \<open>C24. One wrong byte anywhere in a record is caught by the verifier, as long as
  the length field still announces the same size on disk: the checksum does not match,
  whichever byte changed and whatever follows the record.\<close>

theorem wal_rec_corruption_detected:
  assumes "rec_fits r payload" "i < length (rec_bytes r payload)" "b \<noteq> rec_bytes r payload ! i"
    and "bad = (rec_bytes r payload @ rest)[i := b]"
    and "wal_rec_size (sint (r_len (rec_of bad))) = wal_rec_size (sint (r_len r))"
  shows "\<not> wal_rec_verify bad (rec_of bad)"
  by (rule rec_corruption_detected [OF assms])

theorem wal_rec_corruption_detected_witness:
  "\<not> wal_rec_verify ((rec_bytes rec_example [1, 2, 3])[10 := 0xFF])
     (rec_of ((rec_bytes rec_example [1, 2, 3])[10 := 0xFF]))"
proof -
  have "rec_fits rec_example [1, 2, 3]" by (simp add: rec_fits_def rec_example_def)
  moreover have "10 < length (rec_bytes rec_example [1, 2, 3])" by simp
  moreover have "0xFF \<noteq> rec_body rec_example [1, 2, 3] ! 6"
    "field 0 4 ((rec_body rec_example [1, 2, 3])[6 := 0xFF]) = r_len rec_example"
    by code_simp+
  then have "0xFF \<noteq> rec_bytes rec_example [1, 2, 3] ! 10"
    "r_len (rec_of ((rec_bytes rec_example [1, 2, 3] @ [])[10 := 0xFF])) = r_len rec_example"
    by (simp_all add: rec_bytes_def nth_append rec_of_def list_update_append field_step)
  ultimately show ?thesis
    using wal_rec_corruption_detected [of rec_example "[1, 2, 3]" 10 "0xFF" _ "[]"] by simp
qed

end
