(* ===== verification/Wal_Index.thy ===== *)
theory Wal_Index
  imports Wal_Record
begin

text \<open>
  \<^verbatim>\<open>src/wal/index.c\<close>: the bounded table that says where in the log a partition key
  occurs. The array of entries up to \<open>count\<close> is the list \<open>ix_keys\<close>, so \<open>count\<close> is its
  length; counters are 64-bit words. The interface \<open>key_index\<close> states what a reader
  relies on (acting on a range skips no record of the key), and the table is shown to
  provide it for every log with increasing sequences.
\<close>

abbreviation WAL_INDEX_KEYS :: nat where "WAL_INDEX_KEYS \<equiv> 1024"

record wal_index_key_t =
  k_key :: u64
  k_first :: u64
  k_last :: u64
  k_count :: u64

record wal_index_t =
  ix_keys :: "wal_index_key_t list"
  ix_unknown :: u64

definition wal_index_init :: wal_index_t where
  "wal_index_init = \<lparr>ix_keys = [], ix_unknown = 0\<rparr>"

primrec find_key :: "wal_index_key_t list \<Rightarrow> u64 \<Rightarrow> nat option" where
  "find_key [] key = None"
| "find_key (k # ks) key = (if k_key k = key then Some 0 else map_option Suc (find_key ks key))"

definition wal_index_add :: "wal_index_t \<Rightarrow> wal_rec_t \<Rightarrow> wal_index_t" where
  "wal_index_add ix r =
     (if r_seq r = 0 then ix
      else case find_key (ix_keys ix) (r_partition_key r) of
        Some i \<Rightarrow>
          (let k = ix_keys ix ! i
           in ix\<lparr>ix_keys := (ix_keys ix)[i := k\<lparr>k_last := r_seq r, k_count := k_count k + 1\<rparr>]\<rparr>)
      | None \<Rightarrow>
          (if length (ix_keys ix) \<ge> WAL_INDEX_KEYS then ix\<lparr>ix_unknown := ix_unknown ix + 1\<rparr>
           else ix\<lparr>ix_keys := ix_keys ix @ [\<lparr>k_key = r_partition_key r, k_first = r_seq r,
                                             k_last = r_seq r, k_count = 0 + 1\<rparr>]\<rparr>))"

definition wal_index_range :: "wal_index_t \<Rightarrow> u64 \<Rightarrow> u64 \<Rightarrow> (u64 \<times> u64) option" where
  "wal_index_range ix key from =
     (case find_key (ix_keys ix) key of
        None \<Rightarrow> None
      | Some i \<Rightarrow> let k = ix_keys ix ! i
                in Some (if from < k_first k then k_first k else from, k_last k))"

definition wal_index_complete :: "wal_index_t \<Rightarrow> bool" where
  "wal_index_complete ix \<longleftrightarrow> ix_unknown ix = 0"

definition wal_index_count :: "wal_index_t \<Rightarrow> nat" where
  "wal_index_count ix = length (ix_keys ix)"

definition wal_index_at :: "wal_index_t \<Rightarrow> int \<Rightarrow> wal_index_key_t option" where
  "wal_index_at ix i =
     (if i < 0 \<or> i \<ge> int (wal_index_count ix) then None else Some (ix_keys ix ! nat i))"

text \<open>The index after a log has been fed to it, as recovery and append do.\<close>

definition wal_index_build :: "wal_rec_t list \<Rightarrow> wal_index_t" where
  "wal_index_build recs = fold (\<lambda>r ix. wal_index_add ix r) recs wal_index_init"

section \<open>What the table holds\<close>

lemma find_key_None: "find_key ks key = None \<longleftrightarrow> key \<notin> k_key ` set ks"
  by (induction ks) auto

lemma find_key_Some: "find_key ks key = Some i \<Longrightarrow> i < length ks \<and> k_key (ks ! i) = key"
  by (induction ks arbitrary: i) (auto split: if_splits)

abbreviation of_key :: "u64 \<Rightarrow> wal_rec_t list \<Rightarrow> wal_rec_t list" where
  "of_key key recs \<equiv> filter (\<lambda>r. r_partition_key r = key) recs"

definition entry_ok :: "wal_rec_t list \<Rightarrow> wal_index_key_t \<Rightarrow> bool" where
  "entry_ok recs k \<longleftrightarrow>
     (let rs = of_key (k_key k) recs
      in rs \<noteq> [] \<and> k_first k = r_seq (hd rs) \<and> k_last k = r_seq (last rs)
         \<and> k_count k = of_nat (length rs))"

definition index_inv :: "wal_rec_t list \<Rightarrow> wal_index_t \<Rightarrow> bool" where
  "index_inv recs ix \<longleftrightarrow>
     (\<forall>k \<in> set (ix_keys ix). entry_ok recs k)
     \<and> distinct (map k_key (ix_keys ix)) \<and> length (ix_keys ix) \<le> WAL_INDEX_KEYS
     \<and> (length (ix_keys ix) < WAL_INDEX_KEYS \<longrightarrow>
          r_partition_key ` set recs \<subseteq> k_key ` set (ix_keys ix))
     \<and> ix_unknown ix = of_nat (length (filter (\<lambda>r. r_partition_key r \<notin> k_key ` set (ix_keys ix)) recs))"

lemma entry_ok_other:
  "r_partition_key r \<noteq> k_key k \<Longrightarrow> entry_ok (recs @ [r]) k = entry_ok recs k"
  by (simp add: entry_ok_def)

lemma entry_ok_same:
  "entry_ok recs k \<Longrightarrow> r_partition_key r = k_key k \<Longrightarrow>
     entry_ok (recs @ [r]) (k\<lparr>k_last := r_seq r, k_count := k_count k + 1\<rparr>)"
  by (simp add: entry_ok_def Let_def)

lemma wal_index_add_inv:
  assumes inv: "index_inv recs ix" and "r_seq r \<noteq> 0"
  shows "index_inv (recs @ [r]) (wal_index_add ix r)"
proof (cases "find_key (ix_keys ix) (r_partition_key r)")
  case None
  then have new: "r_partition_key r \<notin> k_key ` set (ix_keys ix)" by (simp add: find_key_None)
  have old: "\<forall>k \<in> set (ix_keys ix). entry_ok (recs @ [r]) k"
    using inv new by (auto simp: index_inv_def entry_ok_other image_iff)
  show ?thesis
  proof (cases "length (ix_keys ix) \<ge> WAL_INDEX_KEYS")
    case True
    with inv new old None assms(2) show ?thesis
      by (auto simp: index_inv_def wal_index_add_def)
  next
    case False
    have sub: "r_partition_key x \<in> k_key ` set (ix_keys ix)" if "x \<in> set recs" for x
      using inv False that by (auto simp: index_inv_def)
    with new have none: "of_key (r_partition_key r) recs = []"
      "filter (\<lambda>r. r_partition_key r \<notin> k_key ` set (ix_keys ix)) recs = []"
      unfolding filter_empty_conv by metis+
    then have z: "ix_unknown ix = 0" using inv by (simp add: index_inv_def)
    show ?thesis
      using inv new old None False assms(2) none z
      by (auto simp: index_inv_def wal_index_add_def entry_ok_def [of _ "\<lparr>k_key = _, k_first = _, k_last = _, k_count = _\<rparr>"]
          filter_empty_conv)
  qed
next
  case (Some i)
  define k where "k = ix_keys ix ! i"
  define k' where "k' = k\<lparr>k_last := r_seq r, k_count := k_count k + 1\<rparr>"
  have i: "i < length (ix_keys ix)" and key: "k_key k = r_partition_key r"
    using find_key_Some [OF Some] by (auto simp: k_def)
  have add: "wal_index_add ix r = ix\<lparr>ix_keys := (ix_keys ix)[i := k']\<rparr>"
    using Some assms(2) by (simp add: wal_index_add_def k_def k'_def Let_def)
  have keys: "map k_key ((ix_keys ix)[i := k']) = map k_key (ix_keys ix)"
    using i by (simp add: map_update k'_def k_def list_update_same_conv)
  then have img: "k_key ` set ((ix_keys ix)[i := k']) = k_key ` set (ix_keys ix)"
    by (metis list.set_map)
  have mem: "r_partition_key r \<in> k_key ` set (ix_keys ix)" using key i by (metis image_eqI k_def nth_mem)
  have "entry_ok (recs @ [r]) x" if "x \<in> set ((ix_keys ix)[i := k'])" for x
  proof -
    obtain j where j: "j < length (ix_keys ix)" "x = (ix_keys ix)[i := k'] ! j"
      using \<open>x \<in> _\<close> by (auto simp: in_set_conv_nth)
    show ?thesis
    proof (cases "j = i")
      case True
      with j i inv key show ?thesis
        by (auto simp: k'_def k_def index_inv_def intro!: entry_ok_same)
    next
      case False
      then have "k_key (ix_keys ix ! j) \<noteq> k_key (ix_keys ix ! i)"
        using inv i j by (auto simp: index_inv_def distinct_conv_nth)
      with False j inv key show ?thesis
        by (auto simp: k_def index_inv_def entry_ok_other)
    qed
  qed
  with inv mem show ?thesis
    unfolding index_inv_def add by (simp add: img keys)
qed

lemma wal_index_build_inv:
  "\<forall>r \<in> set recs. r_seq r \<noteq> 0 \<Longrightarrow> index_inv recs (wal_index_build recs)"
  by (induction recs rule: rev_induct)
    (auto simp: wal_index_build_def wal_index_add_inv, simp add: index_inv_def wal_index_init_def)

section \<open>The interface readers use\<close>

definition log_seqs_ok :: "wal_rec_t list \<Rightarrow> bool" where
  "log_seqs_ok recs \<longleftrightarrow> sorted_wrt (<) (map r_seq recs) \<and> (\<forall>r \<in> set recs. r_seq r \<noteq> 0)
     \<and> length recs < 2 ^ 64"

locale key_index =
  fixes build :: "wal_rec_t list \<Rightarrow> 'ix"
    and range :: "'ix \<Rightarrow> u64 \<Rightarrow> u64 \<Rightarrow> (u64 \<times> u64) option"
    and complete :: "'ix \<Rightarrow> bool"
  assumes range_window: "log_seqs_ok recs \<Longrightarrow> range (build recs) key from = Some (f, l) \<Longrightarrow>
      from \<le> f \<and> (\<forall>r \<in> set recs. r_partition_key r = key \<and> from \<le> r_seq r \<longrightarrow> f \<le> r_seq r \<and> r_seq r \<le> l)"
    and range_last: "log_seqs_ok recs \<Longrightarrow> range (build recs) key from = Some (f, l) \<Longrightarrow>
      \<exists>r \<in> set recs. r_partition_key r = key \<and> r_seq r = l"
    and complete_absent: "log_seqs_ok recs \<Longrightarrow> complete (build recs) \<Longrightarrow>
      range (build recs) key from = None \<Longrightarrow> r \<in> set recs \<Longrightarrow> r_partition_key r \<noteq> key"
begin

text \<open>Reading the window instead of everything from \<open>from\<close> on finds the same records.\<close>

lemma window_exact:
  assumes "log_seqs_ok recs" "range (build recs) key from = Some (f, l)"
  shows "filter (\<lambda>r. from \<le> r_seq r) (of_key key recs) =
    of_key key (filter (\<lambda>r. f \<le> r_seq r \<and> r_seq r \<le> l) recs)"
  using range_window [OF assms]
  by (auto intro!: filter_cong)

lemma absent_nothing:
  assumes "log_seqs_ok recs" "complete (build recs)" "range (build recs) key from = None"
  shows "of_key key recs = []"
  using complete_absent [OF assms] by (auto simp: filter_empty_conv)

end

lemma sorted_seq_hd_last:
  assumes "sorted_wrt (<) (map r_seq rs)" "r \<in> set rs"
  shows "r_seq (hd rs) \<le> r_seq r \<and> r_seq r \<le> r_seq (last rs)"
proof -
  have "r_seq (hd rs) \<le> r_seq r" using assms by (cases rs) auto
  moreover have "rs = butlast rs @ [last rs]" using assms(2) by (intro append_butlast_last_id [symmetric]) auto
  then have "r \<in> set (butlast rs) \<union> {last rs}" "sorted_wrt (<) (map r_seq (butlast rs @ [last rs]))"
    using assms by (metis Un_insert_right append.simps(1) list.set set_append sup_bot_right, simp)
  then have "r_seq r \<le> r_seq (last rs)" by (auto simp: sorted_wrt_append)
  ultimately show ?thesis ..
qed

interpretation wal_ix: key_index wal_index_build wal_index_range wal_index_complete
proof
  fix recs key "from" f l r
  assume ok: "log_seqs_ok recs"
  have inv: "index_inv recs (wal_index_build recs)"
    using ok by (intro wal_index_build_inv) (simp add: log_seqs_ok_def)
  {
    assume range: "wal_index_range (wal_index_build recs) key from = Some (f, l)"
    then obtain i where i: "find_key (ix_keys (wal_index_build recs)) key = Some i"
      by (auto simp: wal_index_range_def split: option.splits)
    define k where "k = ix_keys (wal_index_build recs) ! i"
    have k: "k \<in> set (ix_keys (wal_index_build recs))" "k_key k = key"
      using find_key_Some [OF i] by (auto simp: k_def)
    have fl: "f = (if from < k_first k then k_first k else from)" "l = k_last k"
      using range i by (auto simp: wal_index_range_def Let_def k_def)
    have "sorted_wrt (<) (map r_seq (of_key key recs))"
      using ok by (auto simp: log_seqs_ok_def sorted_wrt_map intro: sorted_wrt_filter)
    note bounds = sorted_seq_hd_last [OF this]
    have e: "of_key key recs \<noteq> []" "k_first k = r_seq (hd (of_key key recs))" "k_last k = r_seq (last (of_key key recs))"
      using inv k by (auto simp: index_inv_def entry_ok_def Let_def)
    show "from \<le> f \<and> (\<forall>r \<in> set recs. r_partition_key r = key \<and> from \<le> r_seq r \<longrightarrow> f \<le> r_seq r \<and> r_seq r \<le> l)"
      using fl e bounds by auto
    show "\<exists>r \<in> set recs. r_partition_key r = key \<and> r_seq r = l"
      using fl(2) e(3) last_in_set [OF e(1)] by auto
  }
  {
    assume c: "wal_index_complete (wal_index_build recs)"
      and range: "wal_index_range (wal_index_build recs) key from = None" and r: "r \<in> set recs"
    have "key \<notin> k_key ` set (ix_keys (wal_index_build recs))"
      using range by (auto simp: wal_index_range_def find_key_None [symmetric] Let_def split: option.splits)
    moreover have "length (filter (\<lambda>r. r_partition_key r \<notin> k_key ` set (ix_keys (wal_index_build recs))) recs) < 2 ^ 64"
      using ok by (intro le_less_trans [OF length_filter_le]) (simp add: log_seqs_ok_def)
    then have "filter (\<lambda>r. r_partition_key r \<notin> k_key ` set (ix_keys (wal_index_build recs))) recs = []"
      using inv c by (auto simp: index_inv_def wal_index_complete_def word_of_nat_eq_0_iff dest: nat_dvd_not_less)
    ultimately show "r_partition_key r \<noteq> key" using r by (auto simp: filter_empty_conv)
  }
qed

text \<open>C23. The index can save a reader a walk and never a record: reading only the
  window it names finds every record of the key from the asked sequence on, in order, and
  when the index knows every key of the log, a key it does not name has no record at all.
  The log has increasing non-zero sequences and fewer than \<open>2 ^ 64\<close> records.\<close>

theorem wal_index_skips_nothing:
  assumes "log_seqs_ok recs"
  shows "case wal_index_range (wal_index_build recs) key from of
      Some (f, l) \<Rightarrow> from \<le> f \<and> filter (\<lambda>r. from \<le> r_seq r) (of_key key recs) =
        of_key key (filter (\<lambda>r. f \<le> r_seq r \<and> r_seq r \<le> l) recs)
    | None \<Rightarrow> wal_index_complete (wal_index_build recs) \<longrightarrow> of_key key recs = []"
  using wal_ix.window_exact [OF assms] wal_ix.absent_nothing [OF assms] wal_ix.range_window [OF assms]
  by (auto split: option.splits)

definition rec_at :: "u64 \<Rightarrow> u64 \<Rightarrow> wal_rec_t" where
  "rec_at sq key = \<lparr>r_crc = 0, r_len = 0, r_term = 0, r_seq = sq, r_session = 0, r_client_seq = 0,
     r_record_type = 0, r_flags = 0, r_pad = 0, r_partition_key = key\<rparr>"

theorem wal_index_skips_nothing_witness:
  "filter (\<lambda>r. 2 \<le> r_seq r) (of_key 7 [rec_at 1 7, rec_at 2 8, rec_at 3 7]) =
     of_key 7 (filter (\<lambda>r. 2 \<le> r_seq r \<and> r_seq r \<le> 3) [rec_at 1 7, rec_at 2 8, rec_at 3 7])"
proof -
  have "log_seqs_ok [rec_at 1 7, rec_at 2 8, rec_at 3 7]" by (simp add: log_seqs_ok_def rec_at_def)
  moreover have "wal_index_range (wal_index_build [rec_at 1 7, rec_at 2 8, rec_at 3 7]) 7 2 = Some (2, 3)"
    by (simp add: wal_index_build_def wal_index_range_def wal_index_add_def wal_index_init_def rec_at_def)
  ultimately show ?thesis
    using wal_index_skips_nothing [of "[rec_at 1 7, rec_at 2 8, rec_at 3 7]" 7 2] by simp
qed

end
