(* ===== verification/Os.thy ===== *)
theory Os
  imports Core_Mem
begin

text \<open>
  \<^verbatim>\<open>src/sys/os.h\<close> over \<^verbatim>\<open>src/sys/syscall.h\<close>: the typed operations built on raw system
  calls. The kernel is not code of this repository, so it is a parameter: a record of
  functions on an abstract world \<open>'k\<close>, each answering with an errno (\<open>Inl\<close>) or its
  result (\<open>Inr\<close>) and the world afterwards. What is modelled is what the source does with
  the answers, in particular the two loops that turn short reads and writes into full
  ones. The error stack \<open>err_t\<close> is a diagnostic no code branches on; it is modelled in
  \<open>Err_Stack\<close> and not threaded through here.

  \<open>file_reads\<close> and \<open>file_writes\<close> name the documented behaviour of pread and pwrite on a
  regular file that later results rely on, with respect to the file contents \<open>view k fd\<close>.
\<close>

section \<open>The kernel interface\<close>

text \<open>The flag combinations the source opens files with.\<close>

datatype open_mode = OPEN_DIRECTORY | OPEN_CREATE_EXCL | OPEN_CREATE | OPEN_RDWR | OPEN_RDONLY

record 'k kernel =
  sys_openat :: "int \<Rightarrow> bytes \<Rightarrow> open_mode \<Rightarrow> 'k \<Rightarrow> (int + int) \<times> 'k"
  sys_close :: "int \<Rightarrow> 'k \<Rightarrow> (int + unit) \<times> 'k"
  sys_fsync :: "int \<Rightarrow> 'k \<Rightarrow> (int + unit) \<times> 'k"
  sys_fdatasync :: "int \<Rightarrow> 'k \<Rightarrow> (int + unit) \<times> 'k"
  sys_pread64 :: "int \<Rightarrow> nat \<Rightarrow> nat \<Rightarrow> 'k \<Rightarrow> (int + bytes) \<times> 'k"
  sys_pwrite64 :: "int \<Rightarrow> bytes \<Rightarrow> nat \<Rightarrow> 'k \<Rightarrow> (int + nat) \<times> 'k"
  sys_getdents64 :: "int \<Rightarrow> nat \<Rightarrow> 'k \<Rightarrow> (int + bytes) \<times> 'k"
  sys_unlinkat :: "int \<Rightarrow> bytes \<Rightarrow> 'k \<Rightarrow> (int + unit) \<times> 'k"
  sys_fallocate :: "int \<Rightarrow> nat \<Rightarrow> 'k \<Rightarrow> (int + unit) \<times> 'k"

section \<open>Operations\<close>

definition sys_is_err :: "int \<Rightarrow> bool" where
  "sys_is_err ret \<longleftrightarrow> ret < 0 \<and> ret \<ge> -4095"

definition sys_errno :: "int \<Rightarrow> int" where
  "sys_errno ret = (if sys_is_err ret then - ret else 0)"

definition os_openat :: "'k kernel \<Rightarrow> int \<Rightarrow> bytes \<Rightarrow> open_mode \<Rightarrow> 'k \<Rightarrow> result_t \<times> int \<times> 'k" where
  "os_openat K dir_fd path m k =
     (case sys_openat K dir_fd path m k of
        (Inl e, k) \<Rightarrow> (RESULT_ERR ERR_SYSCALL e, -1, k)
      | (Inr fd, k) \<Rightarrow> (RESULT_OK, fd, k))"

definition os_close :: "'k kernel \<Rightarrow> int \<Rightarrow> 'k \<Rightarrow> result_t \<times> 'k" where
  "os_close K fd k =
     (case sys_close K fd k of
        (Inl e, k) \<Rightarrow> (RESULT_ERR ERR_SYSCALL e, k)
      | (Inr _, k) \<Rightarrow> (RESULT_OK, k))"

definition os_fsync :: "'k kernel \<Rightarrow> int \<Rightarrow> 'k \<Rightarrow> result_t \<times> 'k" where
  "os_fsync K fd k =
     (case sys_fsync K fd k of
        (Inl e, k) \<Rightarrow> (RESULT_ERR ERR_SYSCALL e, k)
      | (Inr _, k) \<Rightarrow> (RESULT_OK, k))"

definition os_fdatasync :: "'k kernel \<Rightarrow> int \<Rightarrow> 'k \<Rightarrow> result_t \<times> 'k" where
  "os_fdatasync K fd k =
     (case sys_fdatasync K fd k of
        (Inl e, k) \<Rightarrow> (RESULT_ERR ERR_SYSCALL e, k)
      | (Inr _, k) \<Rightarrow> (RESULT_OK, k))"

text \<open>The kernel places at most \<open>count\<close> bytes, whatever the parameter answers.\<close>

definition os_pread :: "'k kernel \<Rightarrow> int \<Rightarrow> int \<Rightarrow> int \<Rightarrow> 'k \<Rightarrow> result_t \<times> bytes \<times> 'k" where
  "os_pread K fd count offset k =
     (if count < 0 \<or> offset < 0 then (RESULT_ERR ERR_INVALID 0, [], k)
      else case sys_pread64 K fd (nat count) (nat offset) k of
        (Inl e, k) \<Rightarrow> (RESULT_ERR ERR_SYSCALL e, [], k)
      | (Inr bs, k) \<Rightarrow> (RESULT_OK, take (nat count) bs, k))"

text \<open>\<open>acc\<close> is the filled part of the buffer, so \<open>done\<close> is its length.\<close>

function os_pread_full_loop ::
    "'k kernel \<Rightarrow> int \<Rightarrow> nat \<Rightarrow> nat \<Rightarrow> bytes \<Rightarrow> 'k \<Rightarrow> result_t \<times> bytes \<times> 'k" where
  "os_pread_full_loop K fd count offset acc k =
     (if length acc < count then
        (case os_pread K fd (int count - int (length acc)) (int offset + int (length acc)) k of
           (RESULT_ERR c d, _, k) \<Rightarrow> (RESULT_ERR c d, [], k)
         | (RESULT_OK, bs, k) \<Rightarrow>
             if bs = [] then (RESULT_OK, acc, k)
             else os_pread_full_loop K fd count offset (acc @ bs) k)
      else (RESULT_OK, acc, k))"
  by pat_completeness auto
termination
  by (relation "measure (\<lambda>(K, fd, count, offset, acc, k). count - length acc)")
    (auto simp flip: length_greater_0_conv)

definition os_pread_full :: "'k kernel \<Rightarrow> int \<Rightarrow> nat \<Rightarrow> nat \<Rightarrow> 'k \<Rightarrow> result_t \<times> bytes \<times> 'k" where
  "os_pread_full K fd count offset k = os_pread_full_loop K fd count offset [] k"

text \<open>The kernel reports at most as many bytes written as it was given. Counts and
  offsets are naturals here, so the guard against negative ones has no branch.\<close>

function os_pwrite_full_loop ::
    "'k kernel \<Rightarrow> int \<Rightarrow> bytes \<Rightarrow> nat \<Rightarrow> 'k \<Rightarrow> result_t \<times> 'k" where
  "os_pwrite_full_loop K fd buf offset k =
     (if buf = [] then (RESULT_OK, k)
      else case sys_pwrite64 K fd buf offset k of
        (Inl e, k) \<Rightarrow> (RESULT_ERR ERR_SYSCALL e, k)
      | (Inr r, k) \<Rightarrow>
          if r = 0 then (RESULT_ERR ERR_STORAGE 0, k)
          else os_pwrite_full_loop K fd (drop r buf) (offset + r) k)"
  by pat_completeness auto
termination
  by (relation "measure (\<lambda>(K, fd, buf, offset, k). length buf)") auto

declare os_pread_full_loop.simps [simp del] os_pwrite_full_loop.simps [simp del]

definition os_pwrite_full :: "'k kernel \<Rightarrow> int \<Rightarrow> bytes \<Rightarrow> nat \<Rightarrow> 'k \<Rightarrow> result_t \<times> 'k" where
  "os_pwrite_full K fd buf offset k =
     os_pwrite_full_loop K fd buf offset k"

definition os_getdents64 :: "'k kernel \<Rightarrow> int \<Rightarrow> nat \<Rightarrow> 'k \<Rightarrow> result_t \<times> bytes \<times> 'k" where
  "os_getdents64 K fd count k =
     (case sys_getdents64 K fd count k of
        (Inl e, k) \<Rightarrow> (RESULT_ERR ERR_SYSCALL e, [], k)
      | (Inr bs, k) \<Rightarrow> (RESULT_OK, take count bs, k))"

definition os_unlinkat :: "'k kernel \<Rightarrow> int \<Rightarrow> bytes \<Rightarrow> 'k \<Rightarrow> result_t \<times> 'k" where
  "os_unlinkat K dir_fd path k =
     (case sys_unlinkat K dir_fd path k of
        (Inl e, k) \<Rightarrow> (RESULT_ERR ERR_SYSCALL e, k)
      | (Inr _, k) \<Rightarrow> (RESULT_OK, k))"

definition os_fallocate :: "'k kernel \<Rightarrow> int \<Rightarrow> nat \<Rightarrow> 'k \<Rightarrow> result_t \<times> 'k" where
  "os_fallocate K fd n k =
     (case sys_fallocate K fd n k of
        (Inl e, k) \<Rightarrow> (RESULT_ERR ERR_SYSCALL e, k)
      | (Inr _, k) \<Rightarrow> (RESULT_OK, k))"

section \<open>Documented behaviour of files\<close>

text \<open>A read fails or returns the bytes at the offset, at least one unless at the end,
  and changes no file.\<close>

definition file_reads :: "'k kernel \<Rightarrow> ('k \<Rightarrow> int \<Rightarrow> bytes) \<Rightarrow> bool" where
  "file_reads K view \<longleftrightarrow>
     (\<forall>fd count offset k. 0 < count \<longrightarrow>
        (case sys_pread64 K fd count offset k of
           (Inl e, k') \<Rightarrow> view k' = view k
         | (Inr bs, k') \<Rightarrow> view k' = view k \<and>
             (\<exists>n. bs = take n (drop offset (view k fd)) \<and> (0 < n \<or> length (view k fd) \<le> offset))))"

definition write_at :: "nat \<Rightarrow> bytes \<Rightarrow> bytes \<Rightarrow> bytes" where
  "write_at o' bs f =
     (if bs = [] then f
      else take o' f @ replicate (o' - length f) 0 @ bs @ drop (o' + length bs) f)"

text \<open>A write fails or stores a prefix of what it was given, in that file only.\<close>

definition file_writes :: "'k kernel \<Rightarrow> ('k \<Rightarrow> int \<Rightarrow> bytes) \<Rightarrow> bool" where
  "file_writes K view \<longleftrightarrow>
     (\<forall>fd bs offset k.
        (case sys_pwrite64 K fd bs offset k of
           (Inl e, k') \<Rightarrow> view k' = view k
         | (Inr n, k') \<Rightarrow> n \<le> length bs \<and>
             view k' = (view k)(fd := write_at offset (take n bs) (view k fd))))"

lemma file_reads_cases:
  assumes "file_reads K view" "sys_pread64 K fd count offset k = (a, k')" "0 < count"
  shows "view k' = view k \<and> (case a of Inl e \<Rightarrow> True | Inr bs \<Rightarrow>
    (\<exists>n. bs = take n (drop offset (view k fd)) \<and> (0 < n \<or> length (view k fd) \<le> offset)))"
  using assms(1) [unfolded file_reads_def, THEN spec [of _ fd], THEN spec [of _ count],
      THEN spec [of _ offset], THEN spec [of _ k]] assms(2,3)
  by (auto split: sum.splits)

lemma os_pread_full_loop_exact:
  assumes "file_reads K view" "os_pread_full_loop K fd count offset acc k = (r, bs, k')"
    and "acc = take (length acc) (drop offset (view k fd))" "length acc \<le> count"
  shows "view k' = view k \<and> (r = RESULT_OK \<longrightarrow> bs = take count (drop offset (view k fd)))
    \<and> (r \<noteq> RESULT_OK \<longrightarrow> (\<exists>e. r = RESULT_ERR ERR_SYSCALL e))"
  using assms
proof (induction K fd count offset acc k rule: os_pread_full_loop.induct)
  case (1 K fd count offset acc k)
  let ?f = "view k fd" and ?a = "length acc"
  show ?case
  proof (cases "?a < count")
    case False
    with "1.prems" show ?thesis by (simp add: os_pread_full_loop.simps)
  next
    case True
    obtain a k1 where sys: "sys_pread64 K fd (count - ?a) (offset + ?a) k = (a, k1)"
      by fastforce
    have pos: "0 < count - ?a" using True by simp
    note law = file_reads_cases [OF "1.prems"(1) sys pos]
    have nats: "nat (int count - int ?a) = count - ?a" "nat (int offset + int ?a) = offset + ?a" by auto
    show ?thesis
    proof (cases a)
      case (Inl e)
      with "1.prems"(2) True sys law show ?thesis
        by (auto simp: os_pread_full_loop.simps [of K fd count offset acc k] os_pread_def nats)
    next
      case (Inr b)
      then obtain n where b: "b = take n (drop (offset + ?a) ?f)" and n: "0 < n \<or> length ?f \<le> offset + ?a"
        using law by auto
      let ?b = "take (count - ?a) b"
      have pr: "os_pread K fd (int count - int ?a) (int offset + int ?a) k = (RESULT_OK, ?b, k1)"
        using Inr sys True by (simp add: os_pread_def nats)
      have step: "os_pread_full_loop K fd count offset acc k =
          (if ?b = [] then (RESULT_OK, acc, k1) else os_pread_full_loop K fd count offset (acc @ ?b) k1)"
        using True pr by (subst os_pread_full_loop.simps) simp
      have v1: "view k1 = view k" using law by simp
      show ?thesis
      proof (cases "?b = []")
        case empty: True
        then have "length ?f \<le> offset + ?a" using n pos by (auto simp: b)
        then have "acc = take count (drop offset ?f)"
          using "1.prems"(3) True by (metis diff_le_mono length_drop le_add_diff_inverse2 nat_le_linear
              take_all le_trans add_diff_cancel_left' less_imp_le)
        with "1.prems"(2) step empty v1 show ?thesis by simp
      next
        case False
        have "acc @ ?b = take (?a + length ?b) (drop offset ?f)"
          using "1.prems"(3) by (simp add: take_add b add.commute min_def)
        then have "acc @ ?b = take (length (acc @ ?b)) (drop offset (view k1 fd))"
          unfolding v1 length_append .
        moreover have "os_pread_full_loop K fd count offset (acc @ ?b) k1 = (r, bs, k')"
          using "1.prems"(2) step False by simp
        moreover have "length (acc @ ?b) \<le> count" using True by simp
        ultimately show ?thesis
          using "1.IH" [OF True pr [symmetric] refl refl False "1.prems"(1)] unfolding v1 by blast
      qed
    qed
  qed
qed

lemma os_pread_full_exact:
  assumes "file_reads K view" "os_pread_full K fd count offset k = (r, bs, k')"
  shows "view k' = view k" "r = RESULT_OK \<Longrightarrow> bs = take count (drop offset (view k fd))"
    "r \<noteq> RESULT_OK \<Longrightarrow> \<exists>e. r = RESULT_ERR ERR_SYSCALL e"
  using os_pread_full_loop_exact [OF assms(1) assms(2) [unfolded os_pread_full_def]] by simp_all

lemma length_write_at: "bs \<noteq> [] \<Longrightarrow> length (write_at o' bs f) = max (length f) (o' + length bs)"
  by (simp add: write_at_def)

lemma write_at_split:
  assumes "0 < n" "n \<le> length bs"
  shows "write_at (o' + n) (drop n bs) (write_at o' (take n bs) f) = write_at o' bs f"
proof -
  define z where "z = take o' f @ replicate (o' - length f) (0 :: u8)"
  have lz: "length z = o'" by (simp add: z_def)
  have ne: "bs \<noteq> []" "take n bs \<noteq> []" using assms by auto
  have w: "write_at o' xs f = z @ xs @ drop (o' + length xs) f" if "xs \<noteq> []" for xs
    using that by (simp add: write_at_def z_def)
  show ?thesis
  proof (cases "n = length bs")
    case True
    then show ?thesis by (simp add: write_at_def)
  next
    case False
    then have "drop n bs \<noteq> []" using assms by simp
    then have "write_at (o' + n) (drop n bs) (write_at o' (take n bs) f) =
        take (o' + n) (z @ take n bs @ drop (o' + n) f) @ drop n bs
        @ drop (o' + n + (length bs - n)) (z @ take n bs @ drop (o' + n) f)"
      using assms ne by (simp add: w min_def) (simp add: write_at_def lz min_def)
    also have "\<dots> = z @ (take n bs @ drop n bs) @ drop (o' + length bs) f"
      using assms lz by (simp add: add.commute del: append_take_drop_id)
    also have "\<dots> = z @ bs @ drop (o' + length bs) f"
      by (simp only: append_take_drop_id)
    finally show ?thesis using w [OF ne(1)] by simp
  qed
qed

lemma file_writes_cases:
  assumes "file_writes K view" "sys_pwrite64 K fd bs offset k = (a, k')"
  shows "case a of Inl e \<Rightarrow> view k' = view k | Inr n \<Rightarrow> n \<le> length bs \<and>
    view k' = (view k)(fd := write_at offset (take n bs) (view k fd))"
  using assms(1) [unfolded file_writes_def, THEN spec [of _ fd], THEN spec [of _ bs],
      THEN spec [of _ offset], THEN spec [of _ k]] assms(2)
  by (auto split: sum.splits)

text \<open>A full write stores everything; one that fails has stored some proper prefix.\<close>

lemma os_pwrite_full_stores:
  assumes "file_writes K view" "os_pwrite_full K fd buf offset k = (r, k')"
  shows "\<exists>n \<le> length buf. view k' = (view k)(fd := write_at offset (take n buf) (view k fd))
    \<and> (r = RESULT_OK \<longrightarrow> n = length buf)"
  using assms unfolding os_pwrite_full_def
proof (induction K fd buf offset k rule: os_pwrite_full_loop.induct)
  case (1 K fd buf offset k)
  show ?case
  proof (cases "buf = []")
    case True
    with "1.prems" show ?thesis
      by (simp add: os_pwrite_full_loop.simps [of K fd "[]"] write_at_def)
  next
    case False
    obtain a k1 where sys: "sys_pwrite64 K fd buf offset k = (a, k1)" by fastforce
    note law = file_writes_cases [OF "1.prems"(1) sys]
    have step: "os_pwrite_full_loop K fd buf offset k =
        (case a of Inl e \<Rightarrow> (RESULT_ERR ERR_SYSCALL e, k1)
         | Inr n \<Rightarrow> if n = 0 then (RESULT_ERR ERR_STORAGE 0, k1)
                   else os_pwrite_full_loop K fd (drop n buf) (offset + n) k1)"
      using False sys by (subst os_pwrite_full_loop.simps) (simp split: sum.splits)
    consider (err) e where "a = Inl e" | (zero) "a = Inr 0" | (part) n where "a = Inr n" "0 < n"
      by (cases a) auto
    then show ?thesis
    proof cases
      case err
      with "1.prems"(2) step law show ?thesis
        by (intro exI [of _ 0]) (auto simp: write_at_def)
    next
      case zero
      with "1.prems"(2) step law show ?thesis
        by (intro exI [of _ 0]) (auto simp: write_at_def)
    next
      case part
      then have n: "n \<le> length buf" and v1: "view k1 = (view k)(fd := write_at offset (take n buf) (view k fd))"
        using law by auto
      have loop: "os_pwrite_full_loop K fd (drop n buf) (offset + n) k1 = (r, k')"
        using "1.prems"(2) step part by simp
      have sys': "(Inr n, k1) = sys_pwrite64 K fd buf offset k" using sys part by simp
      have "n \<noteq> 0" using part by simp
      note ih = "1.IH" [OF False sys' refl this "1.prems"(1) loop]
      obtain m where m: "m \<le> length buf - n"
        "view k' = (view k1)(fd := write_at (offset + n) (take m (drop n buf)) (view k1 fd))"
        "r = RESULT_OK \<longrightarrow> m = length buf - n"
        using ih unfolding length_drop by blast
      have "write_at (offset + n) (take m (drop n buf)) (view k1 fd) =
          write_at offset (take (n + m) buf) (view k fd)"
        using write_at_split [of n "take (n + m) buf" offset "view k fd"] part n
        by (simp add: v1 drop_take min_def)
      with m n v1 show ?thesis by (intro exI [of _ "n + m"]) auto
    qed
  qed
qed

text \<open>Flushing and closing change no contents.\<close>

definition file_flushes :: "'k kernel \<Rightarrow> ('k \<Rightarrow> int \<Rightarrow> bytes) \<Rightarrow> bool" where
  "file_flushes K view \<longleftrightarrow> (\<forall>fd k. view (snd (sys_fdatasync K fd k)) = view k)"

lemma os_fdatasync_view: "file_flushes K view \<Longrightarrow> view (snd (os_fdatasync K fd k)) = view k"
proof -
  assume "file_flushes K view"
  then have "view (snd (sys_fdatasync K fd k)) = view k" by (simp add: file_flushes_def)
  then show ?thesis by (auto simp: os_fdatasync_def split: prod.splits sum.splits)
qed

section \<open>A file system in memory\<close>

text \<open>A concrete kernel that meets the three assumptions, with which results that have
  them are run: a directory (descriptor 3) of named files, descriptor \<open>10 + i\<close> for file \<open>i\<close>.
  An unlinked file keeps its place with an empty name, as an open descriptor keeps it
  alive.\<close>

record mem_fs =
  mf_files :: "(bytes \<times> bytes) list"
  mf_listed :: bool

definition mf_index :: "int \<Rightarrow> mem_fs \<Rightarrow> nat option" where
  "mf_index fd k = (if 10 \<le> fd \<and> nat (fd - 10) < length (mf_files k) then Some (nat (fd - 10)) else None)"

definition mf_view :: "mem_fs \<Rightarrow> int \<Rightarrow> bytes" where
  "mf_view k fd = (case mf_index fd k of None \<Rightarrow> [] | Some i \<Rightarrow> snd (mf_files k ! i))"

primrec mf_find :: "bytes \<Rightarrow> (bytes \<times> bytes) list \<Rightarrow> nat \<Rightarrow> nat option" where
  "mf_find name [] i = None"
| "mf_find name (f # fs) i = (if fst f = name then Some i else mf_find name fs (Suc i))"

definition mf_store :: "nat \<Rightarrow> bytes \<Rightarrow> mem_fs \<Rightarrow> mem_fs" where
  "mf_store i bs k = k\<lparr>mf_files := (mf_files k)[i := (fst (mf_files k ! i), bs)]\<rparr>"

definition mf_dirent :: "bytes \<Rightarrow> bytes" where
  "mf_dirent name = replicate 16 0 @ le_enc 2 (of_nat (19 + length name) :: u16) @ [8] @ name"

definition mem_kernel :: "mem_fs kernel" where
  "mem_kernel = \<lparr>
     sys_openat = (\<lambda>dir name m k.
       case m of
         OPEN_DIRECTORY \<Rightarrow> (Inr 3, k)
       | OPEN_CREATE_EXCL \<Rightarrow>
           (case mf_find name (mf_files k) 0 of
              Some i \<Rightarrow> (Inl 17, k)
            | None \<Rightarrow> (Inr (10 + int (length (mf_files k))), k\<lparr>mf_files := mf_files k @ [(name, [])]\<rparr>))
       | OPEN_CREATE \<Rightarrow>
           (case mf_find name (mf_files k) 0 of
              Some i \<Rightarrow> (Inr (10 + int i), k)
            | None \<Rightarrow> (Inr (10 + int (length (mf_files k))), k\<lparr>mf_files := mf_files k @ [(name, [])]\<rparr>))
       | _ \<Rightarrow> (case mf_find name (mf_files k) 0 of
                  Some i \<Rightarrow> (Inr (10 + int i), k) | None \<Rightarrow> (Inl 2, k))),
     sys_close = (\<lambda>fd k. (Inr (), k)),
     sys_fsync = (\<lambda>fd k. (Inr (), k)),
     sys_fdatasync = (\<lambda>fd k. (Inr (), k)),
     sys_pread64 = (\<lambda>fd count o' k. (Inr (take count (drop o' (mf_view k fd))), k)),
     sys_pwrite64 = (\<lambda>fd bs o' k.
       case mf_index fd k of
         None \<Rightarrow> (Inl 9, k)
       | Some i \<Rightarrow> (Inr (length bs), mf_store i (write_at o' bs (mf_view k fd)) k)),
     sys_getdents64 = (\<lambda>fd count k.
       if mf_listed k \<or> mf_files k = [] then (Inr [], k\<lparr>mf_listed := False\<rparr>)
       else (Inr (concat (map (mf_dirent \<circ> fst) (mf_files k))), k\<lparr>mf_listed := True\<rparr>)),
     sys_unlinkat = (\<lambda>dir name k.
       case mf_find name (mf_files k) 0 of
         None \<Rightarrow> (Inl 2, k)
       | Some i \<Rightarrow> (Inr (), k\<lparr>mf_files := (mf_files k)[i := ([], snd (mf_files k ! i))]\<rparr>)),
     sys_fallocate = (\<lambda>fd n k.
       case mf_index fd k of
         None \<Rightarrow> (Inl 9, k)
       | Some i \<Rightarrow> (Inr (), mf_store i (mf_view k fd @ replicate (n - length (mf_view k fd)) 0) k))\<rparr>"

lemma mem_kernel_reads: "file_reads mem_kernel mf_view"
  by (auto simp: file_reads_def mem_kernel_def)

lemma mem_pread_full_loop:
  "os_pread_full_loop mem_kernel fd n o' acc k = (r, bs, k') \<Longrightarrow> r = RESULT_OK \<and> k' = k"
proof (induction "mem_kernel" fd n o' acc k rule: os_pread_full_loop.induct)
  case (1 fd n o' acc k)
  have pr: "os_pread mem_kernel fd (int n - int (length acc)) (int o' + int (length acc)) k =
      (RESULT_OK, take (n - length acc) (drop (o' + length acc) (mf_view k fd)), k)" if "length acc < n"
  proof -
    have "nat (int n - int (length acc)) = n - length acc" "nat (int o' + int (length acc)) = o' + length acc"
      by auto
    with that show ?thesis by (simp add: os_pread_def mem_kernel_def)
  qed
  show ?case
    using "1.prems" "1.hyps" [OF _ pr [symmetric] refl refl]
    by (auto simp: os_pread_full_loop.simps [of mem_kernel fd n o' acc k] pr split: if_splits)
qed

lemma mem_pread_full:
  "os_pread_full mem_kernel fd n o' k = (RESULT_OK, take n (drop o' (mf_view k fd)), k)"
proof -
  obtain r bs k' where run: "os_pread_full mem_kernel fd n o' k = (r, bs, k')" by (metis prod_cases3)
  then have "r = RESULT_OK" "k' = k"
    using mem_pread_full_loop [of fd n o' "[]" k r bs k'] by (simp_all add: os_pread_full_def)
  moreover have "file_reads mem_kernel mf_view" by (rule mem_kernel_reads)
  ultimately show ?thesis using os_pread_full_exact(2) [OF _ run] run by simp
qed

lemma mf_view_store:
  "mf_index fd k = Some i \<Longrightarrow> mf_view (mf_store i bs k) = (mf_view k)(fd := bs)"
  by (rule ext) (auto simp: mf_view_def mf_store_def mf_index_def nth_list_update split: if_splits)

lemma mem_kernel_writes: "file_writes mem_kernel mf_view"
  by (auto simp: file_writes_def mem_kernel_def mf_view_store split: option.splits)

lemma mem_kernel_flushes: "file_flushes mem_kernel mf_view"
  by (simp add: file_flushes_def mem_kernel_def)

end
