(* ===== verification/Wal_Segment.thy ===== *)
theory Wal_Segment
  imports Os Wal_Record
begin

text \<open>
  \<^verbatim>\<open>src/wal/segment.c\<close>: one preallocated file of records. The segment state is the
  struct of \<^verbatim>\<open>segment.h\<close>, the file is behind the kernel parameter of \<open>Os\<close>, and file
  offsets and sizes are naturals. Recovery is modelled as written: an outer loop that
  refills a scratch block and an inner loop that walks the records of a block, with the
  record callback and its context passed along. \<open>scan_ref\<close> is the specification of
  recovery, a single walk over the file with no blocks; the two are shown to agree. On top
  of it stand the results on what a segment holds after appends, syncs and a crash.
\<close>

section \<open>State\<close>

abbreviation WAL_SEG_DIGITS :: nat where "WAL_SEG_DIGITS \<equiv> 20"
abbreviation WAL_SEG_NAME_MAX :: nat where "WAL_SEG_NAME_MAX \<equiv> 25"

record wal_seg_t =
  s_fd :: int
  s_dir_fd :: int
  s_base_seq :: u64
  s_next_seq :: u64
  s_durable_seq :: u64
  s_capacity :: nat
  s_write_off :: nat
  s_synced_off :: nat

record wal_seg_scan_t =
  sc_records :: u64
  sc_last_seq :: u64
  sc_end_off :: nat
  sc_torn :: bool

section \<open>Names and opening\<close>

text \<open>The digits are written last to first; the list holds them in their final places.\<close>

primrec seg_digits :: "nat \<Rightarrow> u64 \<Rightarrow> bytes" where
  "seg_digits 0 base_seq = []"
| "seg_digits (Suc n) base_seq = seg_digits n (base_seq div 10) @ [48 + ucast (base_seq mod 10)]"

definition wal_seg_name :: "u64 \<Rightarrow> bytes" where
  "wal_seg_name base_seq = seg_digits WAL_SEG_DIGITS base_seq @ [46, 115, 101, 103, 0]"

definition seg_reset :: "int \<Rightarrow> int \<Rightarrow> u64 \<Rightarrow> nat \<Rightarrow> wal_seg_t" where
  "seg_reset fd dir_fd base_seq capacity' =
     \<lparr>s_fd = fd, s_dir_fd = dir_fd, s_base_seq = base_seq, s_next_seq = base_seq,
      s_durable_seq = base_seq - 1, s_capacity = capacity', s_write_off = 0, s_synced_off = 0\<rparr>"

definition wal_seg_create ::
    "'k kernel \<Rightarrow> wal_seg_t \<Rightarrow> int \<Rightarrow> u64 \<Rightarrow> nat \<Rightarrow> 'k \<Rightarrow> result_t \<times> wal_seg_t \<times> 'k" where
  "wal_seg_create K s dir_fd base_seq cap k =
     (if base_seq = 0 \<or> cap < WAL_REC_HEADER_SIZE then (RESULT_ERR ERR_INVALID 0, s, k)
      else let (r, fd, k) = os_openat K dir_fd (wal_seg_name base_seq) OPEN_CREATE_EXCL k in
      if \<not> result_ok r then (r, s, k)
      else let (r, k) = os_fallocate K fd cap k in
      if \<not> result_ok r then (r, s, snd (os_close K fd k))
      else let (r, k) = os_fsync K fd k in
      if \<not> result_ok r then (r, s, snd (os_close K fd k))
      else let (r, k) = os_fsync K dir_fd k in
      if \<not> result_ok r then (r, s, snd (os_close K fd k))
      else (RESULT_OK, seg_reset fd dir_fd base_seq cap, k))"

definition wal_seg_open ::
    "'k kernel \<Rightarrow> wal_seg_t \<Rightarrow> int \<Rightarrow> u64 \<Rightarrow> nat \<Rightarrow> 'k \<Rightarrow> result_t \<times> wal_seg_t \<times> 'k" where
  "wal_seg_open K s dir_fd base_seq cap k =
     (if base_seq = 0 \<or> cap < WAL_REC_HEADER_SIZE then (RESULT_ERR ERR_INVALID 0, s, k)
      else let (r, fd, k) = os_openat K dir_fd (wal_seg_name base_seq) OPEN_RDWR k in
      if \<not> result_ok r then (r, s, k)
      else (RESULT_OK, seg_reset fd dir_fd base_seq cap, k))"

section \<open>Recovery\<close>

text \<open>How the walk over one block ended: more to read, done (torn or clean), or a record
  larger than the block.\<close>

datatype scan_end = SCAN_MORE | SCAN_DONE bool | SCAN_NOMEM int

function seg_scan_block ::
    "(wal_rec_t \<Rightarrow> 'c \<Rightarrow> 'c) \<Rightarrow> bytes \<Rightarrow> nat \<Rightarrow> nat \<Rightarrow> nat \<Rightarrow> u64 \<Rightarrow> u64 \<Rightarrow> 'c
       \<Rightarrow> scan_end \<times> nat \<times> u64 \<times> u64 \<times> 'c" where
  "seg_scan_block cb block o' cap pos expected records ctx =
     (if pos + WAL_REC_HEADER_SIZE \<le> length block then
        (let r = rec_of (drop pos block) in
         if wal_rec_is_end r then (SCAN_DONE False, pos, expected, records, ctx)
         else let size' = wal_rec_size (sint (r_len r)) in
         if size' = 0 \<or> int o' + int pos + size' > int cap then
           (SCAN_DONE True, pos, expected, records, ctx)
         else if int pos + size' > int (length block) then
           (if pos = 0 then (SCAN_NOMEM size', pos, expected, records, ctx)
            else (SCAN_MORE, pos, expected, records, ctx))
         else if \<not> wal_rec_verify (drop pos block) r \<or> r_seq r \<noteq> expected then
           (SCAN_DONE True, pos, expected, records, ctx)
         else seg_scan_block cb block o' cap (pos + nat size') (expected + 1) (records + 1) (cb r ctx))
      else (SCAN_MORE, pos, expected, records, ctx))"
  by pat_completeness auto

lemma wal_rec_size_min: "wal_rec_size n \<noteq> 0 \<Longrightarrow> 56 \<le> wal_rec_size n"
  by (auto simp: wal_rec_size_def Let_def split: if_splits)

termination seg_scan_block
proof (relation "measure (\<lambda>(cb, block, o', cap, pos, e, n, c). length block - pos)", goal_cases)
  case 1
  then show ?case by simp
next
  case (2 cb block o' cap pos expected records ctx r size')
  then have "56 \<le> size'" using wal_rec_size_min by blast
  with 2 show ?case by simp
qed

declare seg_scan_block.simps [simp del]

function seg_recover_loop ::
    "'k kernel \<Rightarrow> int \<Rightarrow> nat \<Rightarrow> nat \<Rightarrow> (wal_rec_t \<Rightarrow> 'c \<Rightarrow> 'c) \<Rightarrow> nat \<Rightarrow> u64 \<Rightarrow> u64 \<Rightarrow> 'c \<Rightarrow> 'k
       \<Rightarrow> result_t \<times> nat \<times> u64 \<times> u64 \<times> bool \<times> 'c \<times> 'k" where
  "seg_recover_loop K fd scratch_len cap cb o' expected records ctx k =
     (if o' < cap then
        (let want = (if scratch_len > cap - o' then cap - o' else scratch_len);
             (r, block, k) = os_pread_full K fd want o' k in
         if \<not> result_ok r then (r, o', expected, records, False, ctx, k)
         else if length block < WAL_REC_HEADER_SIZE then
           (RESULT_OK, o', expected, records, False, ctx, k)
         else
           (case seg_scan_block cb block o' cap 0 expected records ctx of
              (SCAN_NOMEM size', pos, expected, records, ctx) \<Rightarrow>
                (RESULT_ERR ERR_NOMEM size', o', expected, records, False, ctx, k)
            | (SCAN_DONE torn, pos, expected, records, ctx) \<Rightarrow>
                (RESULT_OK, o' + pos, expected, records, torn, ctx, k)
            | (SCAN_MORE, pos, expected, records, ctx) \<Rightarrow>
                if pos = 0 then (RESULT_OK, o' + pos, expected, records, False, ctx, k)
                else seg_recover_loop K fd scratch_len cap cb (o' + pos) expected records ctx k))
      else (RESULT_OK, o', expected, records, False, ctx, k))"
  by pat_completeness auto
termination
  by (relation "measure (\<lambda>(K, fd, sl, cap, cb, o', e, n, c, k). cap - o')") auto

declare seg_recover_loop.simps [simp del]

definition wal_seg_recover ::
    "'k kernel \<Rightarrow> wal_seg_t \<Rightarrow> nat \<Rightarrow> (wal_rec_t \<Rightarrow> 'c \<Rightarrow> 'c) \<Rightarrow> 'c \<Rightarrow> 'k
       \<Rightarrow> result_t \<times> wal_seg_t \<times> wal_seg_scan_t option \<times> 'c \<times> 'k" where
  "wal_seg_recover K s scratch_len cb ctx k =
     (if scratch_len < WAL_REC_HEADER_SIZE then (RESULT_ERR ERR_INVALID 0, s, None, ctx, k)
      else let (r, o', expected, records, torn, ctx, k) =
             seg_recover_loop K (s_fd s) scratch_len (s_capacity s) cb 0 (s_base_seq s) 0 ctx k in
      if \<not> result_ok r then (r, s, None, ctx, k)
      else (RESULT_OK,
            s\<lparr>s_next_seq := expected, s_durable_seq := expected - 1, s_write_off := o',
              s_synced_off := o'\<rparr>,
            Some \<lparr>sc_records = records, sc_last_seq = expected - 1, sc_end_off = o', sc_torn = torn\<rparr>,
            ctx, k))"

section \<open>Appending\<close>

definition wal_seg_fits :: "wal_seg_t \<Rightarrow> int \<Rightarrow> bool" where
  "wal_seg_fits s payload_len =
     (let size' = wal_rec_size payload_len in
      if size' = 0 then False else int (s_write_off s) + size' \<le> int (s_capacity s))"

text \<open>\<open>scratch\<close> is the caller's encoding buffer; the record comes back with the sequence
  and checksum it was given.\<close>

definition wal_seg_append ::
    "'k kernel \<Rightarrow> wal_seg_t \<Rightarrow> wal_rec_t \<Rightarrow> bytes option \<Rightarrow> bytes \<Rightarrow> 'k
       \<Rightarrow> result_t \<times> wal_seg_t \<times> wal_rec_t \<times> 'k" where
  "wal_seg_append K s r payload scratch k =
     (let r = r\<lparr>r_seq := s_next_seq s\<rparr>;
          (total, scratch, r) = wal_rec_encode scratch r payload in
      if total = 0 then (RESULT_ERR ERR_NOMEM 0, s, r, k)
      else if int (s_write_off s) + total > int (s_capacity s) then
        (RESULT_ERR ERR_STORAGE 0, s, r, k)
      else let (res, k) = os_pwrite_full K (s_fd s) (take (nat total) scratch) (s_write_off s) k in
      if \<not> result_ok res then (res, s, r, k)
      else (RESULT_OK, s\<lparr>s_write_off := s_write_off s + nat total, s_next_seq := s_next_seq s + 1\<rparr>, r, k))"

definition wal_seg_sync :: "'k kernel \<Rightarrow> wal_seg_t \<Rightarrow> 'k \<Rightarrow> result_t \<times> wal_seg_t \<times> 'k" where
  "wal_seg_sync K s k =
     (if s_synced_off s = s_write_off s then (RESULT_OK, s, k)
      else let (r, k) = os_fdatasync K (s_fd s) k in
      if \<not> result_ok r then (r, s, k)
      else (RESULT_OK, s\<lparr>s_synced_off := s_write_off s, s_durable_seq := s_next_seq s - 1\<rparr>, k))"

definition wal_seg_close :: "'k kernel \<Rightarrow> wal_seg_t \<Rightarrow> 'k \<Rightarrow> result_t \<times> wal_seg_t \<times> 'k" where
  "wal_seg_close K s k =
     (if s_fd s < 0 then (RESULT_OK, s, k)
      else let (r, k) = os_close K (s_fd s) k in (r, s\<lparr>s_fd := -1\<rparr>, k))"

section \<open>The specification of recovery\<close>

text \<open>The records a file holds from an offset on: those that verify and carry the next
  expected sequence, up to the first unwritten or damaged place.\<close>

function scan_ref :: "bytes \<Rightarrow> nat \<Rightarrow> u64 \<Rightarrow> wal_rec_t list \<times> nat \<times> bool" where
  "scan_ref f o' expected =
     (if o' + WAL_REC_HEADER_SIZE \<le> length f then
        (let r = rec_of (drop o' f); size' = wal_rec_size (sint (r_len r)) in
         if wal_rec_is_end r then ([], o', False)
         else if size' = 0 \<or> int o' + size' > int (length f)
             \<or> \<not> wal_rec_verify (drop o' f) r \<or> r_seq r \<noteq> expected then ([], o', True)
         else (case scan_ref f (o' + nat size') (expected + 1) of
                 (rs, e, torn) \<Rightarrow> (r # rs, e, torn)))
      else ([], o', False))"
  by pat_completeness auto
termination
proof (relation "measure (\<lambda>(f, o', e). length f - o')", goal_cases)
  case 1
  then show ?case by simp
next
  case (2 f o' expected r size')
  then have "56 \<le> size'" using wal_rec_size_min by blast
  with 2(1) have "0 < nat size'" "o' < length f" by simp_all
  then show ?case by simp
qed

declare scan_ref.simps [simp del]

lemma field_take: "o' + n \<le> m \<Longrightarrow> field o' n (take m bs) = field o' n bs"
  by (simp add: field_def drop_take min_def)

lemma rec_of_take: "WAL_REC_HEADER_SIZE \<le> m \<Longrightarrow> rec_of (take m bs) = rec_of bs"
  by (simp add: rec_of_def field_take)

lemma wal_rec_verify_take:
  assumes "wal_rec_size (sint (r_len r)) \<le> int m"
  shows "wal_rec_verify (take m bs) r = wal_rec_verify bs r"
proof (cases "wal_rec_size (sint (r_len r)) = 0")
  case True
  then show ?thesis by (simp add: wal_rec_verify_def)
next
  case False
  then have "0 < wal_rec_size (sint (r_len r))" using wal_rec_size_min [OF False] by simp
  then obtain n where n: "wal_rec_size (sint (r_len r)) = int n" "0 < n"
    using zero_less_imp_eq_int by blast
  have "take (n - 4) (drop 4 (take m bs)) = take (n - 4) (drop 4 bs)"
    using assms n by (simp add: drop_take min_def)
  with n assms show ?thesis by (auto simp: wal_rec_verify_def Let_def)
qed

text \<open>The scratch buffer has room for every record the walk meets: \<open>B\<close> holds the offsets it can
  stand at. A buffer for the largest record there is, or for the whole file, always has.\<close>

definition scan_room :: "bytes \<Rightarrow> nat \<Rightarrow> nat set \<Rightarrow> bool" where
  "scan_room f scratch_len B \<longleftrightarrow> (\<forall>a \<in> B. a + WAL_REC_HEADER_SIZE \<le> length f \<longrightarrow>
     (let r = rec_of (drop a f); size' = wal_rec_size (sint (r_len r)) in
      \<not> wal_rec_is_end r \<longrightarrow> size' \<noteq> 0 \<longrightarrow> int a + size' \<le> int (length f) \<longrightarrow>
      size' \<le> int scratch_len \<and> (wal_rec_verify (drop a f) r \<longrightarrow> a + nat size' \<in> B)))"

lemma wal_rec_size_max: "wal_rec_size n \<le> int WAL_REC_MAX_SIZE"
  by (auto simp: wal_rec_size_def Let_def)

lemma scan_room_max:
  assumes "WAL_REC_MAX_SIZE \<le> scratch_len \<or> length f \<le> scratch_len"
  shows "scan_room f scratch_len UNIV"
proof -
  have "z \<le> int scratch_len" if "z \<le> int WAL_REC_MAX_SIZE" "int a + z \<le> int (length f)" for a z
    using assms that by linarith
  then show ?thesis using wal_rec_size_max by (simp add: scan_room_def Let_def)
qed

text \<open>Walking a block is walking the file, as far as the block reaches.\<close>

lemma seg_scan_block_ref:
  assumes "seg_scan_block cb block o' (length f) pos expected records ctx = (st, pos', expected', records', ctx')"
    and "block = take n (drop o' f)" "o' + n \<le> length f" "pos \<le> n" "scan_room f sl B" "o' + pos \<in> B"
  shows "\<exists>rs. pos \<le> pos' \<and> pos' \<le> n \<and> expected' = expected + of_nat (length rs)
    \<and> records' = records + of_nat (length rs) \<and> ctx' = fold cb rs ctx \<and> o' + pos' \<in> B
    \<and> scan_ref f (o' + pos) expected =
        (case scan_ref f (o' + pos') expected' of (rs', e, t) \<Rightarrow> (rs @ rs', e, t))
    \<and> (case st of SCAN_DONE t \<Rightarrow> scan_ref f (o' + pos') expected' = ([], o' + pos', t)
       | SCAN_MORE \<Rightarrow> (pos' = 0 \<longrightarrow> n < WAL_REC_HEADER_SIZE)
       | SCAN_NOMEM z \<Rightarrow> pos' = 0 \<and> z \<le> int sl \<and> int n < z \<and> int o' + z \<le> int (length f))"
  using assms
proof (induction cb block o' "length f" pos expected records ctx rule: seg_scan_block.induct)
  case (1 cb block o' pos expected records ctx)
  define r where "r = rec_of (drop pos block)"
  define z where "z = wal_rec_size (sint (r_len r))"
  have lb: "length block = n" using "1.prems"(2,3) by simp
  show ?case
  proof (cases "pos + 56 \<le> n")
    case False
    with "1.prems"(1,4,6) lb show ?thesis
      by (intro exI [of _ "[]"]) (auto simp: seg_scan_block.simps [of cb block])
  next
    case True
    have at: "drop pos block = take (n - pos) (drop (o' + pos) f)"
      using "1.prems"(2) by (simp add: drop_take add.commute)
    have r: "r = rec_of (drop (o' + pos) f)"
      using True by (simp add: r_def at rec_of_take)
    have ref: "scan_ref f (o' + pos) expected =
        (if wal_rec_is_end r then ([], o' + pos, False)
         else if z = 0 \<or> int (o' + pos) + z > int (length f)
             \<or> \<not> wal_rec_verify (drop (o' + pos) f) r \<or> r_seq r \<noteq> expected then ([], o' + pos, True)
         else (case scan_ref f (o' + pos + nat z) (expected + 1) of (rs, e, t) \<Rightarrow> (r # rs, e, t)))"
      using True "1.prems"(3) by (subst scan_ref.simps) (simp add: r [symmetric] z_def Let_def)
    have blk: "seg_scan_block cb block o' (length f) pos expected records ctx =
        (if wal_rec_is_end r then (SCAN_DONE False, pos, expected, records, ctx)
         else if z = 0 \<or> int (o' + pos) + z > int (length f) then (SCAN_DONE True, pos, expected, records, ctx)
         else if int pos + z > int n then
           (if pos = 0 then (SCAN_NOMEM z, pos, expected, records, ctx)
            else (SCAN_MORE, pos, expected, records, ctx))
         else if \<not> wal_rec_verify (drop pos block) r \<or> r_seq r \<noteq> expected then
           (SCAN_DONE True, pos, expected, records, ctx)
         else seg_scan_block cb block o' (length f) (pos + nat z) (expected + 1) (records + 1) (cb r ctx))"
      using True lb by (subst seg_scan_block.simps) (simp add: r_def z_def Let_def)
    have ver: "wal_rec_verify (drop pos block) r = wal_rec_verify (drop (o' + pos) f) r" if "int pos + z \<le> int n"
      using that True unfolding at z_def by (intro wal_rec_verify_take) simp
    have room: "z \<le> int sl \<and> (wal_rec_verify (drop (o' + pos) f) r \<longrightarrow> o' + (pos + nat z) \<in> B)"
      if "\<not> wal_rec_is_end r" "z \<noteq> 0" "int (o' + pos) + z \<le> int (length f)"
      using that "1.prems"(3,5,6) True unfolding scan_room_def r z_def by (fastforce simp: Let_def add.assoc)
    consider (stop) t where "st = SCAN_DONE t" "pos' = pos" "expected' = expected" "records' = records" "ctx' = ctx"
        "scan_ref f (o' + pos) expected = ([], o' + pos, t)"
      | (full) "\<not> wal_rec_is_end r" "z \<noteq> 0" "int (o' + pos) + z \<le> int (length f)" "int pos + z > int n"
      | (step) "\<not> wal_rec_is_end r" "z \<noteq> 0" "int (o' + pos) + z \<le> int (length f)" "int pos + z \<le> int n"
          "wal_rec_verify (drop pos block) r" "r_seq r = expected"
      using "1.prems"(1) blk ref ver by (fastforce split: if_splits)
    then show ?thesis
    proof cases
      case stop
      with "1.prems"(4,6) show ?thesis by (intro exI [of _ "[]"]) simp
    next
      case full
      with "1.prems"(1,4,6) blk room show ?thesis
        by (intro exI [of _ "[]"]) (auto split: if_splits)
    next
      case step
      have z56: "56 \<le> z" using step(2) wal_rec_size_min by (simp add: z_def)
      have loop: "seg_scan_block cb block o' (length f) (pos + nat z) (expected + 1) (records + 1) (cb r ctx)
          = (st, pos', expected', records', ctx')"
        using "1.prems"(1) blk step by simp
      have rec1: "scan_ref f (o' + pos) expected =
          (case scan_ref f (o' + (pos + nat z)) (expected + 1) of (rs, e, t) \<Rightarrow> (r # rs, e, t))"
        using ref step ver by (simp add: add.assoc)
      have le: "pos + nat z \<le> n" using step(4) z56 by linarith
      have inB: "o' + (pos + nat z) \<in> B" using room step ver by simp
      from "1.hyps" [OF _ r_def _ z_def _ _ _ loop "1.prems"(2,3) le "1.prems"(5) inB] step lb True
      obtain rs where rs: "pos + nat z \<le> pos' \<and> pos' \<le> n \<and> expected' = expected + 1 + of_nat (length rs)
        \<and> records' = records + 1 + of_nat (length rs) \<and> ctx' = fold cb rs (cb r ctx) \<and> o' + pos' \<in> B
        \<and> scan_ref f (o' + (pos + nat z)) (expected + 1) =
            (case scan_ref f (o' + pos') expected' of (rs', e, t) \<Rightarrow> (rs @ rs', e, t))
        \<and> (case st of SCAN_DONE t \<Rightarrow> scan_ref f (o' + pos') expected' = ([], o' + pos', t)
           | SCAN_MORE \<Rightarrow> (pos' = 0 \<longrightarrow> n < WAL_REC_HEADER_SIZE)
           | SCAN_NOMEM z \<Rightarrow> pos' = 0 \<and> z \<le> int sl \<and> int n < z \<and> int o' + z \<le> int (length f))"
        by auto
      then show ?thesis
        using rec1 by (intro exI [of _ "r # rs"]) (auto split: prod.splits)
    qed
  qed
qed

lemma seg_recover_loop_ref:
  assumes "file_reads K view" "scan_room (take cap (view k fd)) scratch_len B" "cap \<le> length (view k fd)"
    and "WAL_REC_HEADER_SIZE \<le> scratch_len" "o' \<in> B"
    and "seg_recover_loop K fd scratch_len cap cb o' expected records ctx k
      = (r, o1, expected1, records1, torn, ctx1, k1)"
  shows "view k1 = view k \<and> (r = RESULT_OK \<longrightarrow> (\<exists>rs. scan_ref (take cap (view k fd)) o' expected = (rs, o1, torn)
      \<and> expected1 = expected + of_nat (length rs) \<and> records1 = records + of_nat (length rs)
      \<and> ctx1 = fold cb rs ctx))
    \<and> (r \<noteq> RESULT_OK \<longrightarrow> (\<exists>e. r = RESULT_ERR ERR_SYSCALL e))"
  using assms
proof (induction K fd scratch_len cap cb o' expected records ctx k rule: seg_recover_loop.induct)
  case (1 K fd scratch_len cap cb o' expected records ctx k)
  let ?f = "take cap (view k fd)"
  have lf: "length ?f = cap" using "1.prems"(3) by simp
  define n where "n = (if scratch_len > cap - o' then cap - o' else scratch_len)"
  obtain r0 block k0 where pr: "os_pread_full K fd n o' k = (r0, block, k0)" by (metis prod_cases3)
  note rd = os_pread_full_exact [OF "1.prems"(1) pr]
  show ?case
  proof (cases "o' < cap")
    case False
    then have "scan_ref ?f o' expected = ([], o', False)" using lf by (simp add: scan_ref.simps)
    with "1.prems"(6) False show ?thesis by (simp add: seg_recover_loop.simps [of K])
  next
    case lt: True
    show ?thesis
    proof (cases "r0 = RESULT_OK")
      case False
      with "1.prems"(6) lt pr rd show ?thesis
        by (auto simp: seg_recover_loop.simps [of K] n_def [symmetric] result_ok_def Let_def)
    next
      case ok: True
      have block: "block = take n (drop o' ?f)" and on: "o' + n \<le> length ?f"
        using rd(2) [OF ok] lt lf by (auto simp: n_def drop_take min_def)
      have lb: "length block = n" using lf on by (simp add: block min_absorb2)
      show ?thesis
      proof (cases "n < 56")
        case True
        then have "cap - o' < 56" using "1.prems"(4) lt by (auto simp: n_def split: if_splits)
        then have "scan_ref ?f o' expected = ([], o', False)"
          using lf by (subst scan_ref.simps) auto
        with "1.prems"(6) lt pr ok lb True rd(1) show ?thesis
          by (auto simp: seg_recover_loop.simps [of K] n_def [symmetric] Let_def)
      next
        case n56: False
        obtain st pos e1 rc1 c1 where sb: "seg_scan_block cb block o' cap 0 expected records ctx = (st, pos, e1, rc1, c1)"
          by (metis prod_cases5)
        have o0: "o' + 0 \<in> B" using "1.prems"(5) by simp
        from seg_scan_block_ref [of cb block o' ?f 0, unfolded lf, OF sb block on [unfolded lf] _ "1.prems"(2) o0]
        obtain rs where inB: "o' + pos \<in> B" and rs: "e1 = expected + of_nat (length rs)" "rc1 = records + of_nat (length rs)"
          "c1 = fold cb rs ctx"
          "scan_ref ?f o' expected = (case scan_ref ?f (o' + pos) e1 of (rs', e, t) \<Rightarrow> (rs @ rs', e, t))"
          and st: "case st of SCAN_DONE t \<Rightarrow> scan_ref ?f (o' + pos) e1 = ([], o' + pos, t)
             | SCAN_MORE \<Rightarrow> (pos = 0 \<longrightarrow> n < 56)
             | SCAN_NOMEM z \<Rightarrow> pos = 0 \<and> z \<le> int scratch_len \<and> int n < z \<and> int o' + z \<le> int cap"
          by auto
        have step: "seg_recover_loop K fd scratch_len cap cb o' expected records ctx k =
          (case st of SCAN_NOMEM z \<Rightarrow> (RESULT_ERR ERR_NOMEM z, o', e1, rc1, False, c1, k0)
           | SCAN_DONE t \<Rightarrow> (RESULT_OK, o' + pos, e1, rc1, t, c1, k0)
           | SCAN_MORE \<Rightarrow> if pos = 0 then (RESULT_OK, o' + pos, e1, rc1, False, c1, k0)
               else seg_recover_loop K fd scratch_len cap cb (o' + pos) e1 rc1 c1 k0)"
          using lt pr ok lb n56 sb
          by (subst seg_recover_loop.simps) (simp add: n_def [symmetric] Let_def split: scan_end.splits)
        show ?thesis
        proof (cases st)
          case (SCAN_DONE t)
          with "1.prems"(6) step st rs rd(1) show ?thesis by simp
        next
          case (SCAN_NOMEM z)
          then have False using st by (auto simp: n_def split: if_splits)
          then show ?thesis ..
        next
          case SCAN_MORE
          then have "pos \<noteq> 0" using st n56 by simp
          then have loop: "seg_recover_loop K fd scratch_len cap cb (o' + pos) e1 rc1 c1 k0
              = (r, o1, expected1, records1, torn, ctx1, k1)"
            using "1.prems"(6) step SCAN_MORE by simp
          have cap0: "cap \<le> length (view k0 fd)" "scan_room (take cap (view k0 fd)) scratch_len B"
            using "1.prems"(2,3) rd(1) by simp_all
          have sb': "(st, pos, e1, rc1, c1) = seg_scan_block cb block o' cap 0 expected records ctx"
            using sb by simp
          have g: "\<not> \<not> result_ok r0" "\<not> length block < 56" using ok lb n56 by simp_all
          note ih = "1.IH" [OF lt n_def pr [symmetric] refl refl g sb' SCAN_MORE refl refl refl \<open>pos \<noteq> 0\<close>
              "1.prems"(1) cap0(2,1) "1.prems"(4) inB loop]
          show ?thesis using ih rs unfolding rd(1) by auto
        qed
      qed
    qed
  qed
qed

lemma wal_seg_recover_room:
  assumes "file_reads K view" "scan_room (take (s_capacity s) (view k (s_fd s))) scratch_len B" "0 \<in> B"
    and "WAL_REC_HEADER_SIZE \<le> scratch_len" "s_capacity s \<le> length (view k (s_fd s))"
    and "wal_seg_recover K s scratch_len cb ctx k = (r, s', out, ctx', k')"
  shows "view k' = view k \<and>
    (case scan_ref (take (s_capacity s) (view k (s_fd s))) 0 (s_base_seq s) of (rs, e, torn) \<Rightarrow>
       (r = RESULT_OK \<and> ctx' = fold cb rs ctx
        \<and> out = Some \<lparr>sc_records = of_nat (length rs), sc_last_seq = s_base_seq s + of_nat (length rs) - 1,
                      sc_end_off = e, sc_torn = torn\<rparr>
        \<and> s' = s\<lparr>s_next_seq := s_base_seq s + of_nat (length rs),
                 s_durable_seq := s_base_seq s + of_nat (length rs) - 1,
                 s_write_off := e, s_synced_off := e\<rparr>)
       \<or> (\<exists>errno. r = RESULT_ERR ERR_SYSCALL errno \<and> s' = s \<and> out = None))"
proof -
  obtain r1 o1 e1 n1 t1 c1 k1 where loop: "seg_recover_loop K (s_fd s) scratch_len (s_capacity s) cb 0
      (s_base_seq s) 0 ctx k = (r1, o1, e1, n1, t1, c1, k1)"
    by (metis prod_cases7)
  note ref = seg_recover_loop_ref [OF assms(1,2,5,4,3) loop]
  show ?thesis
  proof (cases "r1 = RESULT_OK")
    case True
    with ref assms(4,6) loop show ?thesis by (auto simp: wal_seg_recover_def Let_def)
  next
    case False
    with ref obtain errno where "r1 = RESULT_ERR ERR_SYSCALL errno" by blast
    with ref assms(4,6) loop show ?thesis
      by (auto simp: wal_seg_recover_def Let_def split: prod.splits)
  qed
qed

definition buffer_fits :: "nat \<Rightarrow> nat \<Rightarrow> bool" where
  "buffer_fits cap scratch_len \<longleftrightarrow> WAL_REC_HEADER_SIZE \<le> scratch_len \<and> (WAL_REC_MAX_SIZE \<le> scratch_len \<or> cap \<le> scratch_len)"

lemma buffer_fits_max: "WAL_REC_MAX_SIZE \<le> scratch_len \<Longrightarrow> buffer_fits cap scratch_len"
  by (simp add: buffer_fits_def)

lemma wal_seg_recover_sound:
  assumes "file_reads K view" "buffer_fits (s_capacity s) scratch_len"
    and "s_capacity s \<le> length (view k (s_fd s))"
    and "wal_seg_recover K s scratch_len cb ctx k = (r, s', out, ctx', k')"
  shows "view k' = view k \<and>
    (case scan_ref (take (s_capacity s) (view k (s_fd s))) 0 (s_base_seq s) of (rs, e, torn) \<Rightarrow>
       (r = RESULT_OK \<and> ctx' = fold cb rs ctx
        \<and> out = Some \<lparr>sc_records = of_nat (length rs), sc_last_seq = s_base_seq s + of_nat (length rs) - 1,
                      sc_end_off = e, sc_torn = torn\<rparr>
        \<and> s' = s\<lparr>s_next_seq := s_base_seq s + of_nat (length rs),
                 s_durable_seq := s_base_seq s + of_nat (length rs) - 1,
                 s_write_off := e, s_synced_off := e\<rparr>)
       \<or> (\<exists>errno. r = RESULT_ERR ERR_SYSCALL errno \<and> s' = s \<and> out = None))"
proof -
  have room: "WAL_REC_MAX_SIZE \<le> scratch_len \<or> length (take (s_capacity s) (view k (s_fd s))) \<le> scratch_len"
    "WAL_REC_HEADER_SIZE \<le> scratch_len" using assms(2) by (auto simp: buffer_fits_def)
  show ?thesis by (rule wal_seg_recover_room [OF assms(1) scan_room_max [OF room(1)] UNIV_I room(2) assms(3,4)])
qed

text \<open>C19. Recovery by blocks is recovery by the specification: with a scratch buffer
  that can hold the largest record, reading a preallocated file in blocks of any such size
  (and with any short reads the kernel chooses) accepts exactly the records of a single
  walk over the file, hands them to the callback once each and in order, and stops at the
  same offset with the same verdict. The only failure left is a failing read.\<close>

theorem wal_seg_recover_correct:
  assumes "file_reads K view" "WAL_REC_MAX_SIZE \<le> scratch_len"
    and "s_capacity s \<le> length (view k (s_fd s))"
    and "wal_seg_recover K s scratch_len cb ctx k = (r, s', out, ctx', k')"
  shows "view k' = view k \<and>
    (case scan_ref (take (s_capacity s) (view k (s_fd s))) 0 (s_base_seq s) of (rs, e, torn) \<Rightarrow>
       (r = RESULT_OK \<and> ctx' = fold cb rs ctx
        \<and> out = Some \<lparr>sc_records = of_nat (length rs), sc_last_seq = s_base_seq s + of_nat (length rs) - 1,
                      sc_end_off = e, sc_torn = torn\<rparr>
        \<and> s' = s\<lparr>s_next_seq := s_base_seq s + of_nat (length rs),
                 s_durable_seq := s_base_seq s + of_nat (length rs) - 1,
                 s_write_off := e, s_synced_off := e\<rparr>)
       \<or> (\<exists>errno. r = RESULT_ERR ERR_SYSCALL errno \<and> s' = s \<and> out = None))"
  by (rule wal_seg_recover_sound [OF assms(1) buffer_fits_max [OF assms(2)] assms(3,4)])

section \<open>What a segment holds\<close>

type_synonym entry = "wal_rec_t \<times> bytes"

definition disk :: "entry list \<Rightarrow> bytes" where
  "disk es = concat (map (\<lambda>(r, p). rec_bytes r p) es)"

text \<open>A run of entries with consecutive non-zero sequences from \<open>base\<close>.\<close>

primrec seq_run :: "u64 \<Rightarrow> entry list \<Rightarrow> bool" where
  "seq_run base [] = True"
| "seq_run base (e # es) = (rec_fits (fst e) (snd e) \<and> r_seq (fst e) = base \<and> base \<noteq> 0
     \<and> seq_run (base + 1) es)"

definition read_back :: "entry \<Rightarrow> wal_rec_t" where
  "read_back e = rec_written (fst e) (snd e)"

lemma disk_simps [simp]: "disk [] = []" "disk (e # es) = rec_bytes (fst e) (snd e) @ disk es"
  "disk (es @ fs) = disk es @ disk fs"
  by (simp_all add: disk_def case_prod_beta)

lemma length_rec_bytes_max: "rec_fits r p \<Longrightarrow> length (rec_bytes r p) \<le> WAL_REC_MAX_SIZE"
proof -
  assume "rec_fits r p"
  then have "(length p + 7) div 8 \<le> (WAL_MAX_PAYLOAD + 7) div 8"
    by (intro div_le_mono) (simp add: rec_fits_def)
  then show ?thesis by simp
qed

lemma seq_run_append:
  "seq_run base (es @ fs) \<longleftrightarrow> seq_run base es \<and> seq_run (base + of_nat (length es)) fs"
  by (induction es arbitrary: base) (auto simp: algebra_simps)

lemma seq_run_take: "seq_run base es \<Longrightarrow> seq_run base (take m es)"
  using seq_run_append [of base "take m es" "drop m es"] by simp

lemma scan_ref_run:
  "seq_run base es \<Longrightarrow> scan_ref (pre @ disk es @ rest) (length pre) base =
     (case scan_ref (pre @ disk es @ rest) (length pre + length (disk es)) (base + of_nat (length es)) of
        (rs, e, t) \<Rightarrow> (map read_back es @ rs, e, t))"
proof (induction es arbitrary: base pre)
  case Nil
  then show ?case by (simp split: prod.splits)
next
  case (Cons e es)
  obtain r p where e: "e = (r, p)" by (cases e)
  let ?b = "rec_bytes r p"
  have run: "rec_fits r p" "r_seq r = base" "base \<noteq> 0" "seq_run (base + 1) es"
    using Cons.prems e by auto
  define f where "f = pre @ disk (e # es) @ rest"
  have at: "drop (length pre) f = ?b @ disk es @ rest" by (simp add: e f_def)
  have hdr: "rec_of (?b @ disk es @ rest) = rec_written r p"
    using wal_rec_decode_bytes [of r p "disk es @ rest"] by (simp add: wal_rec_decode_def)
  have size': "wal_rec_size (sint (r_len r)) = int (length ?b)"
    by (rule wal_rec_size_fits [OF run(1)])
  have bounds: "length ?b \<noteq> 0" "length pre + length ?b \<le> length f" "length pre + 56 \<le> length f"
    by (simp_all add: e f_def)
  have step: "scan_ref f (length pre) base =
      (case scan_ref f (length pre + length ?b) (base + 1) of
         (rs, e', t) \<Rightarrow> (rec_written r p # rs, e', t))"
    using bounds wal_rec_verify_bytes [OF run(1)] run(2,3)
    by (subst scan_ref.simps)
      (auto simp: at hdr size' wal_rec_is_end_def Let_def simp del: length_rec_bytes)
  have f: "(pre @ ?b) @ disk es @ rest = f" by (simp add: e f_def)
  from Cons.IH [OF run(4), of "pre @ ?b"] show ?case
    unfolding f f_def [symmetric]
    by (simp add: step e read_back_def add.assoc split: prod.splits del: length_rec_bytes)
qed

lemma scan_ref_clean:
  assumes "\<forall>b \<in> set rest. b = 0"
  shows "scan_ref (pre @ rest) (length pre) base = ([], length pre, False)"
proof (cases "56 \<le> length rest")
  case True
  define n where "n = length rest"
  have rest: "rest = replicate n 0" using assms by (simp add: n_def replicate_length_same)
  have "take 8 (drop 16 rest) = replicate 8 0" using True by (simp add: rest min_def)
  then have "r_seq (rec_of rest) = le_dec (replicate 8 0)" by (simp add: rec_of_def field_def)
  also have "\<dots> = 0" by (simp add: numeral_eq_Suc)
  finally show ?thesis using True by (subst scan_ref.simps) (simp add: wal_rec_is_end_def)
next
  case False
  then show ?thesis by (subst scan_ref.simps) simp
qed

definition seg_holds :: "wal_seg_t \<Rightarrow> bytes \<Rightarrow> entry list \<Rightarrow> nat \<Rightarrow> bool" where
  "seg_holds s f es m \<longleftrightarrow>
     seq_run (s_base_seq s) es \<and> take (s_write_off s) f = disk es \<and> s_write_off s = length (disk es)
     \<and> s_next_seq s = s_base_seq s + of_nat (length es) \<and> s_write_off s \<le> s_capacity s
     \<and> s_capacity s \<le> length f \<and> m \<le> length es \<and> s_synced_off s = length (disk (take m es))
     \<and> s_durable_seq s = s_base_seq s + of_nat m - 1"

lemma seg_holds_fresh:
  "cap \<le> length f \<Longrightarrow> seg_holds (seg_reset fd dir base cap) f [] 0"
  by (simp add: seg_holds_def seg_reset_def)

lemma take_write_at: "n \<le> o' \<Longrightarrow> o' \<le> length f \<Longrightarrow> take n (write_at o' bs f) = take n f"
  by (simp add: write_at_def min_def)

lemma take_write_at_end:
  "o' \<le> length f \<Longrightarrow> take (o' + length bs) (write_at o' bs f) = take o' f @ bs"
  by (auto simp: write_at_def)

lemma length_write_at_le: "length f \<le> length (write_at o' bs f)"
  by (cases "bs = []") (simp_all add: length_write_at, simp add: write_at_def)

text \<open>Bytes of the payload behind the record's length are not read.\<close>

lemma wal_seg_append_prefix:
  assumes "rec_fits r p"
  shows "wal_seg_append K s r (Some (p @ rest)) sc k = wal_seg_append K s r (Some p) sc k"
proof -
  have "rec_fits (r\<lparr>r_seq := s_next_seq s\<rparr>) p" using assms by (simp add: rec_fits_def)
  then show ?thesis unfolding wal_seg_append_def Let_def by (simp only: wal_rec_encode_prefix)
qed

lemma wal_seg_append_holds:
  assumes "file_writes K view" "seg_holds s (view k (s_fd s)) es m"
    and "rec_fits r payload" "length (rec_bytes r payload) \<le> length scratch" "s_next_seq s \<noteq> 0"
    and "wal_seg_append K s r (Some payload) scratch k = (res, s', r', k')"
  shows "s_fd s' = s_fd s \<and> s_base_seq s' = s_base_seq s \<and> s_capacity s' = s_capacity s
    \<and> (\<forall>fd. fd \<noteq> s_fd s \<longrightarrow> view k' fd = view k fd)
    \<and> (if res = RESULT_OK then seg_holds s' (view k' (s_fd s')) (es @ [(r\<lparr>r_seq := s_next_seq s\<rparr>, payload)]) m
         \<and> r' = rec_written (r\<lparr>r_seq := s_next_seq s\<rparr>) payload
       else s' = s \<and> seg_holds s' (view k' (s_fd s')) es m)"
proof -
  define r1 where "r1 = r\<lparr>r_seq := s_next_seq s\<rparr>"
  let ?b = "rec_bytes r1 payload"
  have fits: "rec_fits r1 payload" using assms(3) by (simp add: rec_fits_def r1_def)
  have room: "length ?b \<le> length scratch" using assms(4) by simp
  have enc: "wal_rec_encode scratch r1 (Some payload) =
      (int (length ?b), ?b @ drop (length ?b) scratch, rec_written r1 payload)"
    using fits room by (intro wal_rec_encode_eq) simp_all
  have b0: "0 < length ?b" by simp
  have app: "wal_seg_append K s r (Some payload) scratch k =
      (if int (s_write_off s) + int (length ?b) > int (s_capacity s) then
         (RESULT_ERR ERR_STORAGE 0, s, rec_written r1 payload, k)
       else let (res, k) = os_pwrite_full K (s_fd s) ?b (s_write_off s) k in
         if \<not> result_ok res then (res, s, rec_written r1 payload, k)
         else (RESULT_OK, s\<lparr>s_write_off := s_write_off s + length ?b, s_next_seq := s_next_seq s + 1\<rparr>,
               rec_written r1 payload, k))"
    using b0 by (simp add: wal_seg_append_def r1_def [symmetric] enc Let_def split: prod.splits
        del: length_rec_bytes)
  show ?thesis
  proof (cases "s_write_off s + length ?b > s_capacity s")
    case True
    then have "int (s_write_off s) + int (length ?b) > int (s_capacity s)" by linarith
    with app assms(2,6) show ?thesis by simp
  next
    case False
    obtain res1 k1 where pw: "os_pwrite_full K (s_fd s) ?b (s_write_off s) k = (res1, k1)" by fastforce
    obtain n where n: "n \<le> length ?b"
      "view k1 = (view k)(s_fd s := write_at (s_write_off s) (take n ?b) (view k (s_fd s)))"
      "res1 = RESULT_OK \<longrightarrow> n = length ?b"
      using os_pwrite_full_stores [OF assms(1) pw] by blast
    have wo: "s_write_off s \<le> length (view k (s_fd s))" using assms(2) by (simp add: seg_holds_def)
    have eq: "wal_seg_append K s r (Some payload) scratch k =
        (if \<not> result_ok res1 then (res1, s, rec_written r1 payload, k1)
         else (RESULT_OK, s\<lparr>s_write_off := s_write_off s + length ?b, s_next_seq := s_next_seq s + 1\<rparr>,
               rec_written r1 payload, k1))"
      using app pw False by (simp del: length_rec_bytes)
    have cap: "s_capacity s \<le> length (write_at (s_write_off s) (take n ?b) (view k (s_fd s)))"
      using assms(2) order_trans [OF _ length_write_at_le] by (simp add: seg_holds_def)
    show ?thesis
    proof (cases "res1 = RESULT_OK")
      case True
      then have v: "view k1 (s_fd s) = write_at (s_write_off s) ?b (view k (s_fd s))" using n by simp
      have run: "seq_run (s_base_seq s) (es @ [(r1, payload)])"
        using assms(2,5) fits by (simp add: seq_run_append seg_holds_def r1_def)
      have "take (s_write_off s) (view k (s_fd s)) = disk es"
        using assms(2) unfolding seg_holds_def by blast
      then have "take (s_write_off s + length ?b) (view k1 (s_fd s)) = disk (es @ [(r1, payload)])"
        unfolding v take_write_at_end [OF wo] by simp
      moreover have "s_capacity s \<le> length (view k1 (s_fd s))" using cap n True by simp
      ultimately have "seg_holds (s\<lparr>s_write_off := s_write_off s + length ?b, s_next_seq := s_next_seq s + 1\<rparr>)
          (view k1 (s_fd s)) (es @ [(r1, payload)]) m"
        using assms(2) False run by (simp add: seg_holds_def del: length_rec_bytes)
      with eq True assms(6) n show ?thesis by (auto simp: r1_def)
    next
      case bad: False
      have "seg_holds s (view k1 (s_fd s)) es m"
        using assms(2) wo cap n(2) unfolding seg_holds_def by (auto simp: take_write_at)
      with eq bad assms(6) n show ?thesis by (auto simp: result_ok_def)
    qed
  qed
qed

lemma length_disk_take:
  assumes "length (disk (take m es)) = length (disk es)" "m \<le> length es"
  shows "m = length es"
proof -
  have "disk es = disk (take m es) @ disk (drop m es)" by (simp flip: disk_simps(3))
  then have "disk (drop m es) = []" using assms(1) by (metis append_self_conv append_eq_conv_conj
        length_append add_cancel_right_right length_0_conv)
  then have "drop m es = []" by (cases "drop m es") (auto dest: arg_cong [of _ _ length])
  with assms(2) show ?thesis by simp
qed

lemma wal_seg_sync_holds:
  assumes "file_flushes K view" "seg_holds s (view k (s_fd s)) es m" "wal_seg_sync K s k = (res, s', k')"
  shows "s_fd s' = s_fd s \<and> s_base_seq s' = s_base_seq s \<and> s_capacity s' = s_capacity s
    \<and> view k' = view k \<and> (res = RESULT_OK \<longrightarrow> seg_holds s' (view k' (s_fd s')) es (length es))
    \<and> (res \<noteq> RESULT_OK \<longrightarrow> s' = s)"
proof (cases "s_synced_off s = s_write_off s")
  case True
  then have "m = length es" using assms(2) by (intro length_disk_take) (auto simp: seg_holds_def)
  with True assms(2,3) show ?thesis by (simp add: wal_seg_sync_def)
next
  case False
  have "view (snd (os_fdatasync K (s_fd s) k)) = view k" by (rule os_fdatasync_view [OF assms(1)])
  with False assms(2,3) show ?thesis
    by (auto simp: wal_seg_sync_def Let_def seg_holds_def split: prod.splits if_splits)
qed

section \<open>Appends, syncs and a crash\<close>

datatype seg_op = APPEND wal_rec_t bytes | SYNC

text \<open>A sequence of appends and syncs on one segment; failures are kept going past, as the
  event loop does. \<open>m\<close> counts the records covered by the last successful sync.\<close>

primrec seg_exec :: "'k kernel \<Rightarrow> bytes \<Rightarrow> seg_op list \<Rightarrow> wal_seg_t \<times> 'k \<times> entry list \<times> nat
    \<Rightarrow> wal_seg_t \<times> 'k \<times> entry list \<times> nat" where
  "seg_exec K scratch [] st = st"
| "seg_exec K scratch (x # xs) st =
     (case st of (s, k, es, m) \<Rightarrow>
        seg_exec K scratch xs
          (case x of
             APPEND r p \<Rightarrow>
               (case wal_seg_append K s r (Some p) scratch k of (res, s', r', k') \<Rightarrow>
                  (s', k', if res = RESULT_OK then es @ [(r\<lparr>r_seq := s_next_seq s\<rparr>, p)] else es, m))
           | SYNC \<Rightarrow>
               (case wal_seg_sync K s k of (res, s', k') \<Rightarrow>
                  (s', k', es, if res = RESULT_OK then length es else m))))"

definition op_ok :: "seg_op \<Rightarrow> bool" where
  "op_ok x = (case x of APPEND r p \<Rightarrow> rec_fits r p | SYNC \<Rightarrow> True)"

text \<open>Sequences are far from wrapping: fewer than \<open>2 ^ 64\<close> sequences are used in all.\<close>

lemma seg_exec_holds:
  assumes "file_writes K view" "file_flushes K view" "WAL_REC_MAX_SIZE \<le> length scratch"
    and "\<forall>x \<in> set xs. op_ok x" "seg_holds s (view k (s_fd s)) es m"
    and "0 < unat (s_base_seq s)" "unat (s_base_seq s) + length es + length xs < 2 ^ 64"
    and "seg_exec K scratch xs (s, k, es, m) = (s', k', es', m')"
  shows "seg_holds s' (view k' (s_fd s')) es' m' \<and> s_fd s' = s_fd s \<and> s_base_seq s' = s_base_seq s
    \<and> s_capacity s' = s_capacity s"
  using assms(4-)
proof (induction xs arbitrary: s k es m)
  case Nil
  then show ?case by simp
next
  case (Cons x xs)
  show ?case
  proof (cases x)
    case (APPEND r p)
    obtain res s1 r1 k1 where ap: "wal_seg_append K s r (Some p) scratch k = (res, s1, r1, k1)"
      by (metis prod_cases4)
    have fits: "rec_fits r p" using Cons.prems(1) APPEND by (simp add: op_ok_def)
    have nx: "s_next_seq s = of_nat (unat (s_base_seq s) + length es)"
      using Cons.prems(2) by (simp add: seg_holds_def)
    then have "unat (s_next_seq s) = unat (s_base_seq s) + length es"
      using Cons.prems(4) unat_of_nat64 [of "unat (s_base_seq s) + length es"] by (simp add: nx del: of_nat_add)
    then have "s_next_seq s \<noteq> 0" using Cons.prems(3) by auto
    have room: "length (rec_bytes r p) \<le> length scratch" using length_rec_bytes_max [OF fits] assms(3) by linarith
    note app = wal_seg_append_holds [OF assms(1) Cons.prems(2) fits room \<open>s_next_seq s \<noteq> 0\<close> ap]
    show ?thesis
    proof (cases "res = RESULT_OK")
      case True
      with app have "seg_holds s1 (view k1 (s_fd s1)) (es @ [(r\<lparr>r_seq := s_next_seq s\<rparr>, p)]) m" by auto
      from Cons.IH [OF _ this] app True Cons.prems ap APPEND show ?thesis by auto
    next
      case False
      with app have "seg_holds s1 (view k1 (s_fd s1)) es m" by auto
      from Cons.IH [OF _ this] app False Cons.prems ap APPEND show ?thesis by auto
    qed
  next
    case SYNC
    obtain res s1 k1 where sy: "wal_seg_sync K s k = (res, s1, k1)" by (metis prod_cases3)
    note syn = wal_seg_sync_holds [OF assms(2) Cons.prems(2) sy]
    have "seg_holds s1 (view k1 (s_fd s1)) es (if res = RESULT_OK then length es else m)"
      using syn Cons.prems(2) by auto
    from Cons.IH [OF _ this] syn Cons.prems sy SYNC show ?thesis by auto
  qed
qed

text \<open>What a crash may leave of a file: its size, and the bytes a completed sync covers.\<close>

definition crash_of :: "nat \<Rightarrow> bytes \<Rightarrow> bytes \<Rightarrow> bool" where
  "crash_of synced f f' \<longleftrightarrow> length f' = length f \<and> take synced f' = take synced f"

lemma scan_after_crash:
  assumes "seg_holds s f es m" "crash_of (s_synced_off s) f f'"
  shows "\<exists>rs e t. scan_ref (take (s_capacity s) f') 0 (s_base_seq s) = (map read_back (take m es) @ rs, e, t)"
proof -
  let ?d = "disk (take m es)"
  have off: "s_synced_off s = length ?d" "length ?d \<le> s_capacity s" "take (s_synced_off s) f = ?d"
  proof -
    have split: "disk es = ?d @ disk (drop m es)" by (simp flip: disk_simps(3))
    show o1: "s_synced_off s = length ?d" using assms(1) by (simp add: seg_holds_def)
    have wo: "s_write_off s = length (disk es)" "take (s_write_off s) f = disk es" "s_write_off s \<le> s_capacity s"
      using assms(1) unfolding seg_holds_def by blast+
    then show "length ?d \<le> s_capacity s" using split by (metis length_append le_add1 order_trans)
    have "take (length ?d) (take (s_write_off s) f) = ?d" using wo(2) split by (metis append_eq_conv_conj)
    then show "take (s_synced_off s) f = ?d" using wo(1) split o1 by (simp add: min_def)
  qed
  have "take (s_synced_off s) (take (s_capacity s) f') = ?d"
    using off assms(2) by (simp add: crash_of_def min_def)
  then have f': "take (s_capacity s) f' = [] @ ?d @ drop (s_synced_off s) (take (s_capacity s) f')"
    by (metis append_Nil append_take_drop_id)
  have "seq_run (s_base_seq s) (take m es)" using assms(1) by (simp add: seg_holds_def seq_run_take)
  from scan_ref_run [OF this, of "[]" "drop (s_synced_off s) (take (s_capacity s) f')"]
  show ?thesis unfolding f' [symmetric] by (auto split: prod.splits)
qed


definition fs_example :: mem_fs where
  "fs_example = \<lparr>mf_files = [(wal_seg_name 1, replicate 128 0)], mf_listed = False\<rparr>"

lemma fs_example_view: "length (mf_view fs_example 10) = 128"
  by (simp add: fs_example_def mf_view_def mf_index_def)

theorem wal_seg_recover_correct_witness:
  "fst (wal_seg_recover mem_kernel (seg_reset 10 3 1 128) 1048632 (\<lambda>r rs. rs @ [r]) [] fs_example) = RESULT_OK
   \<or> (\<exists>errno. fst (wal_seg_recover mem_kernel (seg_reset 10 3 1 128) 1048632 (\<lambda>r rs. rs @ [r]) [] fs_example)
        = RESULT_ERR ERR_SYSCALL errno)"
proof -
  obtain r s' out ctx' k' where rec: "wal_seg_recover mem_kernel (seg_reset 10 3 1 128) 1048632
      (\<lambda>r rs. rs @ [r]) [] fs_example = (r, s', out, ctx' :: wal_rec_t list, k')"
    by (metis prod_cases5)
  have "s_capacity (seg_reset 10 3 1 128) \<le> length (mf_view fs_example (s_fd (seg_reset 10 3 1 128)))"
    using fs_example_view by (simp add: seg_reset_def)
  from wal_seg_recover_correct [OF mem_kernel_reads _ this rec] rec show ?thesis
    by (auto split: prod.splits)
qed


end
