(* ===== verification/Wal.thy ===== *)
theory Wal
  imports Wal_Segment Wal_Index
begin

text \<open>
  \<^verbatim>\<open>src/wal/wal.c\<close>: the log, a directory of segments one of which is active. The segment
  table \<open>seg_base[0 .. seg_count)\<close> is the list \<open>w_seg_base\<close>. Opening lists the directory
  (a loop the kernel ends, hence \<open>partial_function\<close>), scans every segment and feeds the
  key index and the caller's callback; appending rolls over to a new segment; cursors read
  whole records back; retention unlinks whole old segments.
\<close>

section \<open>State\<close>

abbreviation WAL_MAX_SEGMENTS :: nat where "WAL_MAX_SEGMENTS \<equiv> 1024"
abbreviation DIRENT64_RECLEN_OFF :: nat where "DIRENT64_RECLEN_OFF \<equiv> 16"
abbreviation DIRENT64_NAME_OFF :: nat where "DIRENT64_NAME_OFF \<equiv> 19"
abbreviation AT_FDCWD :: int where "AT_FDCWD \<equiv> -100"

record wal_t =
  w_dir_fd :: int
  w_seg_capacity :: nat
  w_active :: wal_seg_t
  w_seg_base :: "u64 list"
  w_index :: wal_index_t

record wal_open_t =
  wo_segments :: nat
  wo_created :: bool
  wo_torn :: bool
  wo_first_seq :: u64
  wo_last_seq :: u64
  wo_records :: u64

section \<open>The segment table\<close>

primrec parse_digits :: "nat \<Rightarrow> bytes \<Rightarrow> nat \<Rightarrow> u64 \<Rightarrow> u64 option" where
  "parse_digits 0 name i v = Some v"
| "parse_digits (Suc n) name i v =
     (if name ! i < 48 \<or> name ! i > 57 then None
      else if v > 0xFFFFFFFFFFFFFFFF div 10 then None
      else parse_digits n name (Suc i) (v * 10 + ucast (name ! i - 48)))"

definition seg_name_parse :: "bytes \<Rightarrow> nat \<Rightarrow> u64 option" where
  "seg_name_parse name mx =
     (if mx < WAL_SEG_NAME_MAX - 1 then None
      else case parse_digits WAL_SEG_DIGITS name 0 0 of
        None \<Rightarrow> None
      | Some v \<Rightarrow>
          if name ! (WAL_SEG_DIGITS + 0) \<noteq> 46 \<or> name ! (WAL_SEG_DIGITS + 1) \<noteq> 115 \<or>
             name ! (WAL_SEG_DIGITS + 2) \<noteq> 101 \<or> name ! (WAL_SEG_DIGITS + 3) \<noteq> 103 \<or>
             name ! (WAL_SEG_DIGITS + 4) \<noteq> 0 then None
          else if v = 0 then None
          else Some v)"

text \<open>Where a base goes in the ascending table; \<open>None\<close> when it is already there.\<close>

primrec seg_slot :: "u64 \<Rightarrow> u64 list \<Rightarrow> nat option" where
  "seg_slot base [] = Some 0"
| "seg_slot base (b # bs) =
     (if b = base then None else if b > base then Some 0 else map_option Suc (seg_slot base bs))"

definition seg_table_insert :: "u64 list \<Rightarrow> u64 \<Rightarrow> u64 list option" where
  "seg_table_insert bases base =
     (if length bases \<ge> WAL_MAX_SEGMENTS then None
      else case seg_slot base bases of
        None \<Rightarrow> Some bases
      | Some i \<Rightarrow> Some (take i bases @ base # drop i bases))"

text \<open>The directory records of one listing: \<open>scratch\<close> is the buffer, its first \<open>n\<close> bytes
  the records. The table is returned with the verdict.\<close>

function dirents_walk :: "bytes \<Rightarrow> nat \<Rightarrow> nat \<Rightarrow> u64 list \<Rightarrow> result_t \<times> u64 list" where
  "dirents_walk scratch n o' bases =
     (if o' < n then
        (let reclen = unat (field DIRENT64_RECLEN_OFF 2 (drop o' scratch) :: u16) in
         if reclen < DIRENT64_NAME_OFF \<or> o' + reclen > n then (RESULT_ERR ERR_STORAGE 0, bases)
         else case seg_name_parse (drop (o' + DIRENT64_NAME_OFF) scratch) (reclen - DIRENT64_NAME_OFF) of
           None \<Rightarrow> dirents_walk scratch n (o' + reclen) bases
         | Some base \<Rightarrow>
             (case seg_table_insert bases base of
                None \<Rightarrow> (RESULT_ERR ERR_NOMEM (int (length bases)), bases)
              | Some bases \<Rightarrow> dirents_walk scratch n (o' + reclen) bases))
      else (RESULT_OK, bases))"
  by pat_completeness auto
termination
  by (relation "measure (\<lambda>(scratch, n, o', bases). n - o')") auto

declare dirents_walk.simps [simp del]

text \<open>One listing call: \<open>Inl\<close> ends the loop.\<close>

definition seg_table_step :: "'k kernel \<Rightarrow> int \<Rightarrow> bytes \<times> u64 list \<times> 'k
    \<Rightarrow> (result_t \<times> u64 list \<times> 'k) + (bytes \<times> u64 list \<times> 'k)" where
  "seg_table_step K dir_fd st =
     (let (scratch, bases, k) = st;
          (r, block, k) = os_getdents64 K dir_fd (length scratch) k in
      if \<not> result_ok r then Inl (r, bases, k)
      else if block = [] then Inl (RESULT_OK, bases, k)
      else let scratch = block @ drop (length block) scratch;
               (r, bases) = dirents_walk scratch (length block) 0 bases in
      if \<not> result_ok r then Inl (r, bases, k) else Inr (scratch, bases, k))"

partial_function (option) seg_table_loop :: "'k kernel \<Rightarrow> int \<Rightarrow> bytes \<times> u64 list \<times> 'k
    \<Rightarrow> (result_t \<times> u64 list \<times> 'k) option" where
  "seg_table_loop K dir_fd st =
     (case seg_table_step K dir_fd st of
        Inl res \<Rightarrow> Some res
      | Inr st' \<Rightarrow> seg_table_loop K dir_fd st')"

definition seg_table_load :: "'k kernel \<Rightarrow> wal_t \<Rightarrow> bytes \<Rightarrow> 'k \<Rightarrow> (result_t \<times> wal_t \<times> 'k) option" where
  "seg_table_load K w scratch k =
     map_option (\<lambda>(r, bases, k). (r, w\<lparr>w_seg_base := bases\<rparr>, k))
       (seg_table_loop K (w_dir_fd w) (scratch, [], k))"

section \<open>Opening\<close>

definition wal_scan_record :: "(wal_rec_t \<Rightarrow> 'c \<Rightarrow> 'c) \<Rightarrow> wal_rec_t \<Rightarrow> wal_index_t \<times> 'c \<Rightarrow> wal_index_t \<times> 'c" where
  "wal_scan_record cb r s = (wal_index_add (fst s) r, cb r (snd s))"

definition wal_index :: "wal_t \<Rightarrow> wal_index_t" where
  "wal_index w = w_index w"

definition close_dir :: "'k kernel \<Rightarrow> wal_t \<Rightarrow> 'k \<Rightarrow> wal_t \<times> 'k" where
  "close_dir K w k = (w\<lparr>w_dir_fd := -1\<rparr>, snd (os_close K (w_dir_fd w) k))"

text \<open>The scan of the segments still to come; the last one becomes the active segment.\<close>

fun open_segs :: "'k kernel \<Rightarrow> nat \<Rightarrow> (wal_rec_t \<Rightarrow> 'c \<Rightarrow> 'c) \<Rightarrow> u64 list \<Rightarrow> wal_t \<Rightarrow> u64 \<Rightarrow> u64 \<Rightarrow> bool \<Rightarrow> 'c \<Rightarrow> 'k
    \<Rightarrow> result_t \<times> wal_t \<times> u64 \<times> u64 \<times> bool \<times> 'c \<times> 'k" where
  "open_segs K scratch_len cb [] w expected records torn ctx k = (RESULT_OK, w, expected, records, torn, ctx, k)"
| "open_segs K scratch_len cb (b # bs) w expected records torn ctx k =
     (if b \<noteq> expected then
        (let (w, k) = close_dir K w k in (RESULT_ERR ERR_STORAGE 0, w, expected, records, torn, ctx, k))
      else let (r, seg, k) = wal_seg_open K (w_active w) (w_dir_fd w) b (w_seg_capacity w) k in
      if \<not> result_ok r then (let (w, k) = close_dir K w k in (r, w, expected, records, torn, ctx, k))
      else let (r, seg, scan, (ix, ctx), k) =
             wal_seg_recover K seg scratch_len (wal_scan_record cb) (w_index w, ctx) k;
             w = w\<lparr>w_index := ix\<rparr> in
      (case scan of
         None \<Rightarrow>
           (let (_, _, k) = wal_seg_close K seg k; (w, k) = close_dir K w k
            in (r, w, expected, records, torn, ctx, k))
       | Some scan \<Rightarrow>
           (let records = records + sc_records scan; expected = sc_last_seq scan + 1 in
            if bs \<noteq> [] then
              (let (_, _, k) = wal_seg_close K seg k in
               if sc_torn scan then
                 (let (w, k) = close_dir K w k
                  in (RESULT_ERR ERR_STORAGE 0, w, expected, records, torn, ctx, k))
               else open_segs K scratch_len cb bs w expected records torn ctx k)
            else open_segs K scratch_len cb bs (w\<lparr>w_active := seg\<rparr>) expected records (sc_torn scan) ctx k)))"

definition wal_open ::
    "'k kernel \<Rightarrow> wal_t \<Rightarrow> bytes \<Rightarrow> nat \<Rightarrow> bytes \<Rightarrow> (wal_rec_t \<Rightarrow> 'c \<Rightarrow> 'c) \<Rightarrow> 'c \<Rightarrow> 'k
       \<Rightarrow> (result_t \<times> wal_t \<times> wal_open_t \<times> 'c \<times> 'k) option" where
  "wal_open K w dir_path cap scratch cb ctx k =
     (let out = \<lparr>wo_segments = 0, wo_created = False, wo_torn = False, wo_first_seq = 0,
                 wo_last_seq = 0, wo_records = 0\<rparr> in
      if cap < WAL_REC_HEADER_SIZE \<or> length scratch < WAL_REC_HEADER_SIZE then
        Some (RESULT_ERR ERR_INVALID 0, w, out, ctx, k)
      else let w = w\<lparr>w_dir_fd := -1, w_seg_capacity := cap, w_seg_base := [],
                      w_active := (w_active w)\<lparr>s_fd := -1\<rparr>, w_index := wal_index_init\<rparr>;
               (r, fd, k) = os_openat K AT_FDCWD dir_path OPEN_DIRECTORY k;
               w = w\<lparr>w_dir_fd := fd\<rparr> in
      if \<not> result_ok r then Some (r, w, out, ctx, k)
      else case seg_table_load K w scratch k of
        None \<Rightarrow> None
      | Some (r, w, k) \<Rightarrow>
          if \<not> result_ok r then (let (w, k) = close_dir K w k in Some (r, w, out, ctx, k))
          else if w_seg_base w = [] then
            (let (r, seg, k) = wal_seg_create K (w_active w) (w_dir_fd w) 1 cap k;
                 w = w\<lparr>w_active := seg\<rparr> in
             if \<not> result_ok r then (let (w, k) = close_dir K w k in Some (r, w, out, ctx, k))
             else Some (RESULT_OK, w\<lparr>w_seg_base := [1]\<rparr>,
                        out\<lparr>wo_segments := 1, wo_created := True, wo_first_seq := 1, wo_last_seq := 0\<rparr>,
                        ctx, k))
          else
            (let (r, w, expected, records, torn, ctx, k) =
               open_segs K (length scratch) cb (w_seg_base w) w (w_seg_base w ! 0) 0 False ctx k in
             if \<not> result_ok r then Some (r, w, out\<lparr>wo_torn := torn\<rparr>, ctx, k)
             else Some (RESULT_OK, w,
                        out\<lparr>wo_torn := torn, wo_segments := length (w_seg_base w),
                            wo_first_seq := w_seg_base w ! 0, wo_last_seq := expected - 1,
                            wo_records := records\<rparr>, ctx, k)))"

section \<open>Appending\<close>

definition wal_sync :: "'k kernel \<Rightarrow> wal_t \<Rightarrow> 'k \<Rightarrow> result_t \<times> wal_t \<times> 'k" where
  "wal_sync K w k = (let (r, seg, k) = wal_seg_sync K (w_active w) k in (r, w\<lparr>w_active := seg\<rparr>, k))"

text \<open>Making room: what \<^verbatim>\<open>wal_append\<close> does when the record does not fit.\<close>

definition wal_rollover :: "'k kernel \<Rightarrow> wal_t \<Rightarrow> 'k \<Rightarrow> result_t \<times> wal_t \<times> 'k" where
  "wal_rollover K w k =
     (if length (w_seg_base w) \<ge> WAL_MAX_SEGMENTS then
        (RESULT_ERR ERR_NOMEM (int (length (w_seg_base w))), w, k)
      else let (res, w, k) = wal_sync K w k in
      if \<not> result_ok res then (res, w, k)
      else let next_base = s_durable_seq (w_active w) + 1;
               (res, seg, k) = wal_seg_close K (w_active w) k;
               w = w\<lparr>w_active := seg\<rparr> in
      if \<not> result_ok res then (res, w, k)
      else let (res, seg, k) = wal_seg_create K (w_active w) (w_dir_fd w) next_base (w_seg_capacity w) k;
               w = w\<lparr>w_active := seg\<rparr> in
      if \<not> result_ok res then (res, w, k)
      else (RESULT_OK, w\<lparr>w_seg_base := w_seg_base w @ [next_base]\<rparr>, k))"

definition wal_append ::
    "'k kernel \<Rightarrow> wal_t \<Rightarrow> wal_rec_t \<Rightarrow> bytes option \<Rightarrow> bytes \<Rightarrow> 'k
       \<Rightarrow> result_t \<times> wal_t \<times> wal_rec_t \<times> 'k" where
  "wal_append K w r payload scratch k =
     (let size' = wal_rec_size (sint (r_len r)) in
      if size' = 0 \<or> size' > int (w_seg_capacity w) then (RESULT_ERR ERR_INVALID 0, w, r, k)
      else let (res, w, k) =
             (if \<not> wal_seg_fits (w_active w) (sint (r_len r)) then wal_rollover K w k
              else (RESULT_OK, w, k)) in
      if \<not> result_ok res then (res, w, r, k)
      else let (res, seg, r, k) = wal_seg_append K (w_active w) r payload scratch k;
               w = w\<lparr>w_active := seg\<rparr> in
      (res, if result_ok res then w\<lparr>w_index := wal_index_add (w_index w) r\<rparr> else w, r, k))"

definition wal_durable_seq :: "wal_t \<Rightarrow> u64" where
  "wal_durable_seq w = s_durable_seq (w_active w)"

definition wal_next_seq :: "wal_t \<Rightarrow> u64" where
  "wal_next_seq w = s_next_seq (w_active w)"

definition wal_first_seq :: "wal_t \<Rightarrow> u64" where
  "wal_first_seq w = (if w_seg_base w \<noteq> [] then w_seg_base w ! 0 else 0)"

definition wal_segments :: "wal_t \<Rightarrow> nat" where
  "wal_segments w = length (w_seg_base w)"

definition wal_seg_capacity :: "wal_t \<Rightarrow> nat" where
  "wal_seg_capacity w = w_seg_capacity w"

definition wal_append_at ::
    "'k kernel \<Rightarrow> wal_t \<Rightarrow> wal_rec_t \<Rightarrow> bytes option \<Rightarrow> bytes \<Rightarrow> 'k
       \<Rightarrow> result_t \<times> wal_t \<times> wal_rec_t \<times> 'k" where
  "wal_append_at K w r payload scratch k =
     (let want = r_seq r in
      if want \<noteq> wal_next_seq w then (RESULT_ERR ERR_INVALID 0, w, r, k)
      else let (res, w, r, k) = wal_append K w r payload scratch k in
      if \<not> result_ok res then (res, w, r, k)
      else if r_seq r \<noteq> want then (RESULT_ERR ERR_STORAGE 0, w, r, k)
      else (RESULT_OK, w, r, k))"

definition wal_close :: "'k kernel \<Rightarrow> wal_t \<Rightarrow> 'k \<Rightarrow> result_t \<times> wal_t \<times> 'k" where
  "wal_close K w k =
     (let (r, w, k) =
        (if s_fd (w_active w) \<ge> 0 then
           (let (r, seg, k) = wal_seg_close K (w_active w) k in (r, w\<lparr>w_active := seg\<rparr>, k))
         else (RESULT_OK, w, k)) in
      if w_dir_fd w \<ge> 0 then (let (w, k) = close_dir K w k in (r, w, k)) else (r, w, k))"

section \<open>Names and the table\<close>

lemma parse_digits_append:
  "parse_digits (m + n) name i v =
     (case parse_digits m name i v of None \<Rightarrow> None | Some w \<Rightarrow> parse_digits n name (i + m) w)"
  by (induction m arbitrary: i v) (auto split: option.splits)

lemma length_seg_digits [simp]: "length (seg_digits n b) = n"
  by (induction n arbitrary: b) auto

lemma digit_byte:
  assumes "d < (10 :: u64)"
  shows "\<not> (48 + ucast d :: u8) < 48" "\<not> 57 < (48 + ucast d :: u8)"
    "ucast ((48 + ucast d :: u8) - 48) = d"
proof -
  have d: "unat d < 10" using assms by (simp add: word_less_nat_alt)
  then have u: "unat (ucast d :: u8) = unat d" by (simp add: unsigned_ucast_eq take_bit_nat_eq_self)
  have s: "unat (48 + ucast d :: u8) = 48 + unat d"
    using d u unat_add_lem [of "48 :: u8" "ucast d"] by simp
  show "\<not> (48 + ucast d :: u8) < 48" "\<not> 57 < (48 + ucast d :: u8)"
    using d s by (auto simp: word_less_nat_alt)
  have "unat (ucast (ucast d :: u8) :: u64) = unat d"
    using d u by (simp add: unsigned_ucast_eq unsigned_take_bit_eq take_bit_nat_eq_self)
  then show "ucast ((48 + ucast d :: u8) - 48) = d" by (simp add: word_unat_eq_iff)
qed

lemma parse_seg_digits:
  "unat v * 10 ^ n + unat b mod 10 ^ n < 2 ^ 64 \<Longrightarrow>
     parse_digits n (pre @ seg_digits n b @ rest) (length pre) v
       = Some (of_nat (unat v * 10 ^ n + unat b mod 10 ^ n))"
proof (induction n arbitrary: b rest)
  case 0
  then show ?case by simp
next
  case (Suc n)
  let ?q = "unat b div 10" and ?d = "unat b mod 10"
  define w where "w = unat v * 10 ^ n + ?q mod 10 ^ n"
  have val: "unat v * 10 ^ Suc n + unat b mod 10 ^ Suc n = w * 10 + ?d"
    using mod_mult2_eq [of "unat b" 10 "10 ^ n"] by (simp add: w_def algebra_simps)
  have w: "w < 2 ^ 64" "w * 10 + ?d < 2 ^ 64" using Suc.prems unfolding val by simp_all
  have q: "unat (b div 10) = ?q" "unat (b mod 10) = ?d" by (simp_all add: unat_div unat_mod)
  let ?c = "48 + ucast (b mod 10) :: u8"
  have first: "parse_digits n (pre @ seg_digits n (b div 10) @ [?c] @ rest) (length pre) v = Some (of_nat w)"
    using Suc.IH [of "b div 10" "[?c] @ rest"] w(1) by (simp add: q w_def)
  have c: "(pre @ seg_digits n (b div 10) @ [?c] @ rest) ! (length pre + n) = ?c"
    by (simp add: nth_append)
  have "w \<le> 0xFFFFFFFFFFFFFFFF div 10" using w(2) by simp
  then have guard: "\<not> (of_nat w :: u64) > 0xFFFFFFFFFFFFFFFF div 10"
    using w(1) by (simp add: word_less_nat_alt unat_of_nat64)
  have d10: "b mod 10 < 10" by (simp add: word_less_nat_alt unat_mod)
  have "of_nat w * 10 + (b mod 10) = (of_nat (w * 10 + ?d) :: u64)"
    by (simp add: q(2) [symmetric])
  then have "parse_digits (n + 1) (pre @ seg_digits n (b div 10) @ [?c] @ rest) (length pre) v
      = Some (of_nat (w * 10 + ?d))"
    unfolding parse_digits_append first using guard digit_byte [OF d10]
    by (simp add: c nth_append)
  then show ?case unfolding val by simp
qed

text \<open>A segment's name gives back its base sequence, whatever bytes follow it in the
  directory record: parsing inverts naming for every sequence the log can use.\<close>

theorem seg_name_roundtrip:
  assumes "base \<noteq> 0" "WAL_SEG_NAME_MAX - 1 \<le> mx"
  shows "seg_name_parse (wal_seg_name base @ rest) mx = Some base"
proof -
  have b: "unat base < 10 ^ 20" using unat_less64 [of base] by simp
  have "parse_digits 20 (wal_seg_name base @ rest) 0 0 = Some base"
    using parse_seg_digits [of 0 20 base "[]" "[46, 115, 101, 103, 0] @ rest"] b unat_less64 [of base]
    by (simp add: wal_seg_name_def)
  then show ?thesis using assms by (simp add: seg_name_parse_def wal_seg_name_def nth_append)
qed

theorem seg_name_roundtrip_witness:
  "seg_name_parse (wal_seg_name 42 @ [0, 0]) 29 = Some 42"
  using seg_name_roundtrip [of 42 29 "[0, 0]"] by simp

text \<open>The overflow guard of the name parser lets a digit too many through: a name
  naming \<open>2 ^ 64 + 1\<close> is accepted and read as sequence 1, although the comment says such a
  name is not one the log wrote.\<close>

theorem seg_name_parse_wraps:
  "seg_name_parse (map (\<lambda>d. 48 + d) [1,8,4,4,6,7,4,4,0,7,3,7,0,9,5,5,1,6,1,7] @ [46, 115, 101, 103, 0]) 25 = Some 1"
  by code_simp

lemma seg_slot_insert:
  "sorted_wrt (<) bases \<Longrightarrow>
     (case seg_slot base bases of
        None \<Rightarrow> base \<in> set bases
      | Some i \<Rightarrow> base \<notin> set bases \<and> i \<le> length bases \<and> sorted_wrt (<) (take i bases @ base # drop i bases))"
proof (induction bases)
  case Nil
  then show ?case by simp
next
  case (Cons b bs)
  then show ?case
    by (auto split: option.splits simp: sorted_wrt_append dest: in_set_takeD in_set_dropD)
qed

lemma seg_table_insert_ok:
  assumes "sorted_wrt (<) bases" "seg_table_insert bases base = Some bases'"
  shows "sorted_wrt (<) bases' \<and> set bases' = insert base (set bases) \<and> length bases' \<le> WAL_MAX_SEGMENTS"
proof -
  have len: "length bases < WAL_MAX_SEGMENTS"
    using assms(2) by (auto simp: seg_table_insert_def split: if_splits)
  show ?thesis
  proof (cases "seg_slot base bases")
    case None
    with assms len seg_slot_insert [OF assms(1), of base] show ?thesis
      by (auto simp: seg_table_insert_def)
  next
    case (Some i)
    with assms len have b: "bases' = take i bases @ base # drop i bases" by (simp add: seg_table_insert_def)
    have "set (take i bases @ drop i bases) = set bases" by simp
    then have "set bases' = insert base (set bases)" unfolding b by (simp only: set_append) auto
    with Some len seg_slot_insert [OF assms(1), of base] show ?thesis by (simp add: b)
  qed
qed

text \<open>The segment table stays strictly ascending and inserting puts exactly the new
  base in, once; a full table is refused.\<close>

theorem seg_table_insert_sorted:
  assumes "sorted_wrt (<) bases" "seg_table_insert bases base = Some bases'"
  shows "sorted_wrt (<) bases' \<and> set bases' = insert base (set bases) \<and> length bases' \<le> WAL_MAX_SEGMENTS"
  by (rule seg_table_insert_ok [OF assms])

theorem seg_table_insert_sorted_witness:
  "seg_table_insert [1, 9] 5 = Some [1, 5, 9] \<and> sorted_wrt (<) [1, 5, 9 :: u64]"
proof -
  have eq: "seg_table_insert [1, 9] 5 = Some [1, 5, 9]" by (simp add: seg_table_insert_def)
  with seg_table_insert_sorted [OF _ eq] show ?thesis by simp
qed

lemma dirents_walk_sorted:
  "sorted_wrt (<) bases \<Longrightarrow> dirents_walk scratch n o' bases = (r, bases') \<Longrightarrow>
     sorted_wrt (<) bases' \<and> set bases \<subseteq> set bases'"
proof (induction scratch n o' bases rule: dirents_walk.induct)
  case (1 scratch n o' bases)
  show ?case
    using "1.prems" "1.IH" seg_table_insert_ok [OF "1.prems"(1)]
    by (auto simp: dirents_walk.simps [of scratch n o' bases] Let_def split: if_splits option.splits)
qed

text \<open>A directory listing ends: calls that return records use up some finite measure.\<close>

definition dir_finite :: "'k kernel \<Rightarrow> ('k \<Rightarrow> nat) \<Rightarrow> bool" where
  "dir_finite K rank \<longleftrightarrow> (\<forall>fd n k. case sys_getdents64 K fd n k of
     (Inl e, k') \<Rightarrow> True | (Inr bs, k') \<Rightarrow> take n bs \<noteq> [] \<longrightarrow> rank k' < rank k)"

lemma seg_table_step_cases:
  assumes "seg_table_step K fd (scratch, bases, k) = Inr (scratch', bases', k')" "sorted_wrt (<) bases"
  shows "(dir_finite K rank \<longrightarrow> rank k' < rank k) \<and> sorted_wrt (<) bases'"
proof -
  obtain a k1 where sys: "sys_getdents64 K fd (length scratch) k = (a, k1)" by fastforce
  obtain bs where a: "a = Inr bs" and ne: "take (length scratch) bs \<noteq> []"
    using assms(1) sys by (cases a) (auto simp: seg_table_step_def os_getdents64_def Let_def split: if_splits)
  obtain r b1 where walk: "dirents_walk (take (length scratch) bs @ drop (length (take (length scratch) bs)) scratch)
      (length (take (length scratch) bs)) 0 bases = (r, b1)" by fastforce
  have "k' = k1" "bases' = b1"
    using assms(1) sys a ne walk
    by (auto simp: seg_table_step_def os_getdents64_def Let_def split: if_splits)
  moreover have "rank k1 < rank k" if "dir_finite K rank"
    using that [unfolded dir_finite_def, THEN spec [of _ fd], THEN spec [of _ "length scratch"],
        THEN spec [of _ k]] sys a ne by simp
  ultimately show ?thesis using dirents_walk_sorted [OF assms(2) walk] by simp
qed

lemma seg_table_step_done:
  assumes "seg_table_step K fd (scratch, bases, k) = Inl (r, bases', k')" "sorted_wrt (<) bases"
  shows "sorted_wrt (<) bases'"
proof -
  obtain r1 block k1 where sys: "os_getdents64 K fd (length scratch) k = (r1, block, k1)" by (metis prod_cases3)
  obtain r2 b1 where walk: "dirents_walk (block @ drop (length block) scratch) (length block) 0 bases = (r2, b1)"
    by fastforce
  show ?thesis
    using assms sys walk dirents_walk_sorted [OF assms(2) walk]
    by (auto simp: seg_table_step_def Let_def split: if_splits)
qed

lemma seg_table_loop_returns:
  assumes "dir_finite K rank" "sorted_wrt (<) bases"
  shows "\<exists>r bases' k'. seg_table_loop K fd (scratch, bases, k) = Some (r, bases', k') \<and> sorted_wrt (<) bases'"
  using assms(2)
proof (induction "rank k" arbitrary: scratch bases k rule: less_induct)
  case less
  show ?case
  proof (cases "seg_table_step K fd (scratch, bases, k)")
    case (Inl res)
    obtain r b1 k1 where res: "res = (r, b1, k1)" by (metis prod_cases3)
    have "seg_table_loop K fd (scratch, bases, k) = Some (r, b1, k1)"
      by (subst seg_table_loop.simps) (simp add: Inl res)
    with seg_table_step_done [OF Inl [unfolded res] less.prems] show ?thesis by blast
  next
    case (Inr st)
    obtain s1 b1 k1 where st: "st = (s1, b1, k1)" by (metis prod_cases3)
    note step = seg_table_step_cases [OF Inr [unfolded st] less.prems, of rank]
    have "seg_table_loop K fd (scratch, bases, k) = seg_table_loop K fd (s1, b1, k1)"
      by (subst seg_table_loop.simps) (simp add: Inr st)
    with less.hyps [of k1 b1 s1] step assms(1) show ?thesis by simp
  qed
qed

lemma open_segs_step:
  assumes "wal_seg_open K (w_active w) (w_dir_fd w) b (w_seg_capacity w) k = (r0, seg, k0)"
    and "wal_seg_recover K seg sl (wal_scan_record cb) (w_index w, ctx) k0 = (r1, seg1, scan, (ix, ctx1), k1)"
    and "wal_seg_close K seg1 k1 = (r2, seg2, k2)" "w1 = w\<lparr>w_index := ix\<rparr>"
  shows "open_segs K sl cb (b # bs) w expected records torn ctx k =
    (if b \<noteq> expected then
       (RESULT_ERR ERR_STORAGE 0, fst (close_dir K w k), expected, records, torn, ctx, snd (close_dir K w k))
     else if \<not> result_ok r0 then
       (r0, fst (close_dir K w k0), expected, records, torn, ctx, snd (close_dir K w k0))
     else case scan of
       None \<Rightarrow> (r1, fst (close_dir K w1 k2), expected, records, torn, ctx1, snd (close_dir K w1 k2))
     | Some sc \<Rightarrow>
         if bs = [] then
           (RESULT_OK, w1\<lparr>w_active := seg1\<rparr>, sc_last_seq sc + 1, records + sc_records sc, sc_torn sc, ctx1, k1)
         else if sc_torn sc then
           (RESULT_ERR ERR_STORAGE 0, fst (close_dir K w1 k2), sc_last_seq sc + 1, records + sc_records sc,
            torn, ctx1, snd (close_dir K w1 k2))
         else open_segs K sl cb bs w1 (sc_last_seq sc + 1) (records + sc_records sc) torn ctx1 k2)"
proof (cases "b = expected")
  case True
  with assms show ?thesis by (simp add: Let_def case_prod_beta split: option.splits)
next
  case False
  then show ?thesis by (simp add: case_prod_beta)
qed

declare open_segs.simps(2) [simp del]

lemma open_segs_keeps_table:
  "open_segs K sl cb bs w expected records torn ctx k = (r, w', e', n', t', ctx', k') \<Longrightarrow>
     w_seg_base w' = w_seg_base w"
proof (induction bs arbitrary: w expected records torn ctx k)
  case Nil
  then show ?case by simp
next
  case (Cons b bs)
  obtain r0 seg k0 where o: "wal_seg_open K (w_active w) (w_dir_fd w) b (w_seg_capacity w) k = (r0, seg, k0)"
    by (metis prod_cases3)
  obtain r1 seg1 scan ix ctx1 k1 where rc: "wal_seg_recover K seg sl (wal_scan_record cb) (w_index w, ctx) k0
      = (r1, seg1, scan, (ix, ctx1), k1)" by (metis prod.collapse)
  obtain r2 seg2 k2 where cl: "wal_seg_close K seg1 k1 = (r2, seg2, k2)" by (metis prod_cases3)
  have dir: "w_seg_base (fst (close_dir K v j)) = w_seg_base v" for v j by (simp add: close_dir_def)
  show ?case
    using Cons.prems Cons.IH [of "w\<lparr>w_index := ix\<rparr>"] unfolding open_segs_step [OF o rc cl refl]
    by (auto simp: dir split: if_splits option.splits dest: arg_cong [where f = "\<lambda>x. w_seg_base (fst (snd x))"])
qed

text \<open>C26. Opening the log returns on every directory whose listing ends, whatever the
  calls answer, and a log that opened has a non-empty, strictly ascending segment table.\<close>

theorem wal_open_returns:
  assumes "dir_finite K rank"
  shows "\<exists>r w' out ctx' k'. wal_open K w dir_path cap scratch cb ctx k = Some (r, w', out, ctx', k')
    \<and> (r = RESULT_OK \<longrightarrow> w_seg_base w' \<noteq> [] \<and> sorted_wrt (<) (w_seg_base w'))"
proof (cases "cap < 56 \<or> length scratch < 56")
  case True
  then show ?thesis by (auto simp: wal_open_def Let_def)
next
  case False
  define w0 where "w0 = w\<lparr>w_dir_fd := -1, w_seg_capacity := cap, w_seg_base := [],
      w_active := (w_active w)\<lparr>s_fd := -1\<rparr>, w_index := wal_index_init\<rparr>"
  obtain r0 fd k0 where dir: "os_openat K AT_FDCWD dir_path OPEN_DIRECTORY k = (r0, fd, k0)"
    by (metis prod_cases3)
  have "\<exists>r b k'. seg_table_loop K fd (scratch, [], k0) = Some (r, b, k') \<and> sorted_wrt (<) b"
    by (rule seg_table_loop_returns [OF assms]) simp
  then obtain r1 bs k1 where loop: "seg_table_loop K fd (scratch, [], k0) = Some (r1, bs, k1)" "sorted_wrt (<) bs"
    by blast
  have load: "seg_table_load K (w0\<lparr>w_dir_fd := fd\<rparr>) scratch k0 = Some (r1, w0\<lparr>w_dir_fd := fd, w_seg_base := bs\<rparr>, k1)"
    by (simp add: seg_table_load_def loop)
  show ?thesis
  proof (cases "result_ok r0 \<and> result_ok r1 \<and> bs \<noteq> []")
    case bad: False
    then show ?thesis
      using False dir load
      by (auto simp: wal_open_def Let_def w0_def [symmetric] close_dir_def result_ok_def split: prod.splits if_splits)
  next
    case True
    obtain r2 w2 e2 n2 t2 c2 k2 where segs: "open_segs K (length scratch) cb bs
        (w0\<lparr>w_dir_fd := fd, w_seg_base := bs\<rparr>) (bs ! 0) 0 False ctx k1 = (r2, w2, e2, n2, t2, c2, k2)"
      by (metis prod_cases7)
    show ?thesis
      using False True dir load segs open_segs_keeps_table [OF segs] loop(2)
      by (auto simp: wal_open_def Let_def w0_def [symmetric] result_ok_def)
  qed
qed

lemma mem_kernel_dir_finite: "dir_finite mem_kernel (\<lambda>k. if mf_listed k then 0 else 1)"
  by (simp add: dir_finite_def mem_kernel_def)

definition wal_blank :: wal_t where
  "wal_blank = \<lparr>w_dir_fd = -1, w_seg_capacity = 0, w_active = seg_reset (-1) (-1) 0 0, w_seg_base = [],
     w_index = wal_index_init\<rparr>"

theorem wal_open_returns_witness:
  "\<exists>r w' out ctx' k'. wal_open mem_kernel wal_blank [46, 0] 4096 (replicate 256 0) (\<lambda>r c. r # c) [] fs_example
     = Some (r, w', out, ctx', k')"
  using wal_open_returns [OF mem_kernel_dir_finite, of wal_blank "[46, 0]" 4096 "replicate 256 0"
      "\<lambda>r c. r # c" "[]" fs_example] by blast

section \<open>Sequences and rollover\<close>

definition seg_ok :: "wal_seg_t \<Rightarrow> bool" where
  "seg_ok s \<longleftrightarrow> s_base_seq s \<noteq> 0 \<and> s_base_seq s \<le> s_next_seq s
     \<and> (s_next_seq s = s_base_seq s \<longrightarrow> s_write_off s = 0) \<and> s_synced_off s \<le> s_write_off s
     \<and> (s_synced_off s = s_write_off s \<longrightarrow> s_durable_seq s = s_next_seq s - 1)
     \<and> s_durable_seq s < s_next_seq s"

definition wal_inv :: "wal_t \<Rightarrow> bool" where
  "wal_inv w \<longleftrightarrow> w_seg_base w \<noteq> [] \<and> sorted_wrt (<) (w_seg_base w)
     \<and> last (w_seg_base w) = s_base_seq (w_active w) \<and> seg_ok (w_active w)
     \<and> s_capacity (w_active w) = w_seg_capacity w"

lemma seg_ok_reset: "base \<noteq> 0 \<Longrightarrow> seg_ok (seg_reset fd dir base cap)"
  by (simp add: seg_ok_def seg_reset_def word_pred_less)

lemma seg_ok_fd: "seg_ok (s\<lparr>s_fd := x\<rparr>) = seg_ok s"
  by (simp add: seg_ok_def)

lemma wal_rec_encode_seq:
  "wal_rec_encode buf r p = (n, buf', r') \<Longrightarrow> r_seq r' = r_seq r \<and> 0 \<le> n \<and> (n \<noteq> 0 \<longrightarrow> 56 \<le> n)"
  using wal_rec_size_min [of "sint (r_len r)"]
  by (auto simp: wal_rec_encode_def Let_def split: if_splits)

lemma wal_seg_append_seq:
  assumes "wal_seg_append K s r p scratch k = (res, s', r', k')"
  shows "r_seq r' = s_next_seq s \<and> (res \<noteq> RESULT_OK \<longrightarrow> s' = s) \<and>
    (res = RESULT_OK \<longrightarrow> (\<exists>n. 56 \<le> n \<and> s' = s\<lparr>s_write_off := s_write_off s + n, s_next_seq := s_next_seq s + 1\<rparr>))"
proof -
  obtain n buf' r1 where enc: "wal_rec_encode scratch (r\<lparr>r_seq := s_next_seq s\<rparr>) p = (n, buf', r1)"
    by (metis prod_cases3)
  note e = wal_rec_encode_seq [OF enc]
  have r': "r' = r1" using assms enc by (auto simp: wal_seg_append_def Let_def split: if_splits prod.splits)
  moreover have "res \<noteq> RESULT_OK \<longrightarrow> s' = s"
    using assms enc by (auto simp: wal_seg_append_def Let_def split: if_splits prod.splits)
  moreover have "56 \<le> nat n \<and> s' = s\<lparr>s_write_off := s_write_off s + nat n, s_next_seq := s_next_seq s + 1\<rparr>"
    if "res = RESULT_OK"
    using assms enc that e by (auto simp: wal_seg_append_def Let_def split: if_splits prod.splits)
  ultimately show ?thesis using e by auto
qed

lemma seg_ok_append:
  assumes "wal_seg_append K s r p scratch k = (res, s', r', k')" "seg_ok s" "s_next_seq s \<noteq> - 1"
  shows "seg_ok s' \<and> s_base_seq s' = s_base_seq s \<and> s_capacity s' = s_capacity s \<and> s_durable_seq s' = s_durable_seq s"
proof -
  have "s_next_seq s < s_next_seq s + 1" using assms(3) by (rule word_less_succ)
  with wal_seg_append_seq [OF assms(1)] assms(2) show ?thesis
    by (cases "res = RESULT_OK") (auto simp: seg_ok_def)
qed

lemma wal_seg_sync_ok:
  assumes "wal_seg_sync K s k = (res, s', k')" "seg_ok s"
  shows "seg_ok s' \<and> s_base_seq s' = s_base_seq s \<and> s_next_seq s' = s_next_seq s \<and> s_capacity s' = s_capacity s
    \<and> s_durable_seq s \<le> s_durable_seq s' \<and> (res = RESULT_OK \<longrightarrow> s_durable_seq s' = s_next_seq s - 1)"
proof -
  have "s_next_seq s \<noteq> 0" using assms(2) by (auto simp: seg_ok_def)
  then have "s_next_seq s - 1 < s_next_seq s" by (rule word_pred_less)
  moreover have "s_durable_seq s \<le> s_next_seq s - 1" using assms(2) by (simp add: seg_ok_def word_le_pred)
  ultimately show ?thesis
    using assms by (auto simp: wal_seg_sync_def seg_ok_def Let_def split: if_splits prod.splits)
qed

lemma wal_seg_close_ok:
  "wal_seg_close K s k = (res, s', k') \<Longrightarrow> \<exists>x. s' = s\<lparr>s_fd := x\<rparr>"
  by (auto simp: wal_seg_close_def Let_def split: if_splits prod.splits intro: exI [of _ "s_fd s"])

lemma wal_seg_create_ok:
  "wal_seg_create K s dir base cap k = (res, s', k') \<Longrightarrow>
     (if res = RESULT_OK then \<exists>fd. s' = seg_reset fd dir base cap else s' = s)"
  by (auto simp: wal_seg_create_def Let_def split: if_splits prod.splits)

lemma wal_rollover_inv:
  assumes "wal_rollover K w k = (res, w', k')" "wal_inv w" "s_write_off (w_active w) \<noteq> 0"
  shows "wal_inv w' \<and> wal_next_seq w' = wal_next_seq w \<and> wal_durable_seq w \<le> wal_durable_seq w'
    \<and> w_index w' = w_index w \<and> w_seg_capacity w' = w_seg_capacity w
    \<and> (if res = RESULT_OK then w_seg_base w' = w_seg_base w @ [wal_next_seq w]
         \<and> wal_durable_seq w' = wal_next_seq w - 1
       else w_seg_base w' = w_seg_base w)"
proof (cases "length (w_seg_base w) \<ge> 1024")
  case True
  with assms show ?thesis by (auto simp: wal_rollover_def)
next
  case False
  obtain r1 s1 k1 where sy: "wal_seg_sync K (w_active w) k = (r1, s1, k1)" by (metis prod_cases3)
  obtain r2 s2 k2 where cl: "wal_seg_close K s1 k1 = (r2, s2, k2)" by (metis prod_cases3)
  obtain r3 s3 k3 where cr: "wal_seg_create K s2 (w_dir_fd w) (s_durable_seq s1 + 1) (w_seg_capacity w) k2
      = (r3, s3, k3)" by (metis prod_cases3)
  have ok: "seg_ok (w_active w)" using assms(2) by (simp add: wal_inv_def)
  note s1 = wal_seg_sync_ok [OF sy ok]
  obtain x where s2: "s2 = s1\<lparr>s_fd := x\<rparr>" using wal_seg_close_ok [OF cl] by blast
  have nx: "s_next_seq (w_active w) \<noteq> 0" "s_base_seq (w_active w) < s_next_seq (w_active w)"
    using ok assms(3) by (auto simp: seg_ok_def)
  consider (sync) "r1 \<noteq> RESULT_OK" "res = r1" "w' = w\<lparr>w_active := s1\<rparr>"
    | (close) "r1 = RESULT_OK" "r2 \<noteq> RESULT_OK" "res = r2" "w' = w\<lparr>w_active := s2\<rparr>"
    | (create) "r1 = RESULT_OK" "r3 \<noteq> RESULT_OK" "res = r3" "w' = w\<lparr>w_active := s3\<rparr>"
    | (ok) "r1 = RESULT_OK" "r3 = RESULT_OK" "res = RESULT_OK"
        "w' = w\<lparr>w_active := s3, w_seg_base := w_seg_base w @ [s_durable_seq s1 + 1]\<rparr>"
    using assms(1) False sy cl cr
    by (auto simp: wal_rollover_def wal_sync_def Let_def result_ok_def split: if_splits)
  then show ?thesis
  proof cases
    case sync
    with s1 assms(2) show ?thesis by (auto simp: wal_inv_def wal_next_seq_def wal_durable_seq_def)
  next
    case close
    with s1 s2 assms(2) show ?thesis
      by (auto simp: wal_inv_def wal_next_seq_def wal_durable_seq_def seg_ok_fd)
  next
    case create
    then have "s3 = s2" using wal_seg_create_ok [OF cr] by simp
    with create s1 s2 assms(2) show ?thesis
      by (auto simp: wal_inv_def wal_next_seq_def wal_durable_seq_def seg_ok_fd)
  next
    case ok
    then have nb: "s_durable_seq s1 + 1 = s_next_seq (w_active w)" using s1 by simp
    obtain fd where s3: "s3 = seg_reset fd (w_dir_fd w) (s_next_seq (w_active w)) (w_seg_capacity w)"
      using wal_seg_create_ok [OF cr] ok nb by auto
    have "b < s_next_seq (w_active w)" if "b \<in> set (w_seg_base w)" for b
    proof -
      have "w_seg_base w \<noteq> []" using assms(2) by (simp add: wal_inv_def)
      then have "w_seg_base w = butlast (w_seg_base w) @ [last (w_seg_base w)]"
        by (rule append_butlast_last_id [symmetric])
      then have "b \<le> last (w_seg_base w)"
        using assms(2) that unfolding wal_inv_def
        by (metis (no_types, lifting) Un_iff empty_iff insert_iff list.set less_imp_le order_refl
            set_append sorted_wrt_append)
      also have "\<dots> < s_next_seq (w_active w)" using assms(2) nx by (simp add: wal_inv_def)
      finally show ?thesis .
    qed
    then have "sorted_wrt (<) (w_seg_base w @ [s_next_seq (w_active w)])"
      using assms(2) by (simp add: sorted_wrt_append wal_inv_def)
    with ok s1 s3 nb nx assms(2) show ?thesis
      by (auto simp: wal_inv_def wal_next_seq_def wal_durable_seq_def seg_ok_reset seg_reset_def [of _ _ _ "w_seg_capacity w"]
          intro: seg_ok_reset [unfolded seg_reset_def])
  qed
qed

lemma wal_append_step:
  assumes "wal_inv w" "wal_next_seq w \<noteq> - 1" "wal_append K w r payload scratch k = (res, w', r', k')"
  shows "wal_inv w' \<and> wal_durable_seq w \<le> wal_durable_seq w'
    \<and> (if res = RESULT_OK then r_seq r' = wal_next_seq w \<and> wal_next_seq w' = wal_next_seq w + 1
         \<and> w_index w' = wal_index_add (w_index w) r'
       else wal_next_seq w' = wal_next_seq w \<and> w_index w' = w_index w)
    \<and> (w_seg_base w' = w_seg_base w \<or>
       w_seg_base w' = w_seg_base w @ [wal_next_seq w] \<and> wal_durable_seq w' = wal_next_seq w - 1)"
proof (cases "wal_rec_size (sint (r_len r)) = 0 \<or> wal_rec_size (sint (r_len r)) > int (w_seg_capacity w)")
  case True
  with assms show ?thesis by (auto simp: wal_append_def Let_def)
next
  case False
  obtain r1 w1 k1 where room: "(if \<not> wal_seg_fits (w_active w) (sint (r_len r)) then wal_rollover K w k
      else (RESULT_OK, w, k)) = (r1, w1, k1)" by (metis prod_cases3)
  have inv1: "wal_inv w1 \<and> wal_next_seq w1 = wal_next_seq w \<and> wal_durable_seq w \<le> wal_durable_seq w1
    \<and> w_index w1 = w_index w
    \<and> (w_seg_base w1 = w_seg_base w \<or>
       w_seg_base w1 = w_seg_base w @ [wal_next_seq w] \<and> wal_durable_seq w1 = wal_next_seq w - 1)"
  proof (cases "wal_seg_fits (w_active w) (sint (r_len r))")
    case True
    with room assms(1) show ?thesis by simp
  next
    case full: False
    then have "s_write_off (w_active w) \<noteq> 0"
      using False assms(1) by (auto simp: wal_seg_fits_def Let_def wal_inv_def)
    moreover have "wal_rollover K w k = (r1, w1, k1)" using room full by simp
    ultimately show ?thesis using wal_rollover_inv [OF _ assms(1)] by (metis (full_types))
  qed
  obtain r2 s2 rr k2 where app: "wal_seg_append K (w_active w1) r payload scratch k1 = (r2, s2, rr, k2)"
    by (metis prod_cases4)
  show ?thesis
  proof (cases "r1 = RESULT_OK")
    case bad: False
    with False assms(3) room inv1 show ?thesis
      by (auto simp: wal_append_def Let_def result_ok_def split: if_splits)
  next
    case ok: True
    have eq: "res = r2" "r' = rr" "w' = (let w = w1\<lparr>w_active := s2\<rparr> in
        if result_ok r2 then w\<lparr>w_index := wal_index_add (w_index w) rr\<rparr> else w)"
      using False assms(3) room app ok by (auto simp: wal_append_def Let_def split: if_splits)
    have nx: "s_next_seq (w_active w1) \<noteq> - 1" using inv1 assms(2) by (simp add: wal_next_seq_def)
    have "seg_ok (w_active w1)" using inv1 by (simp add: wal_inv_def)
    note sok = seg_ok_append [OF app this nx] and sseq = wal_seg_append_seq [OF app]
    show ?thesis
    proof (cases "r2 = RESULT_OK")
      case True
      with sok sseq inv1 eq show ?thesis
        by (auto simp: wal_inv_def wal_next_seq_def wal_durable_seq_def)
    next
      case False
      with sok sseq inv1 eq show ?thesis
        by (auto simp: wal_inv_def wal_next_seq_def wal_durable_seq_def result_ok_def)
    qed
  qed
qed


definition wal_example :: wal_t where
  "wal_example = \<lparr>w_dir_fd = 3, w_seg_capacity = 128, w_active = seg_reset 10 3 1 128, w_seg_base = [1],
     w_index = wal_index_init\<rparr>"


end
