(* ===== verification/Wal_Open.thy ===== *)
theory Wal_Open
  imports Wal
begin

text \<open>
  What \<^verbatim>\<open>wal_open\<close> recovers. \<open>scan_log\<close> specifies the scan of all segments as one pass
  over their files; the loop of the source, with its opens, blocks, closes and early
  returns, is shown to compute it, so that opening yields every record in order or refuses.
\<close>

section \<open>Opening recovers the log\<close>

text \<open>The segment files as they stand while the log is opened: as long as only the calls
  opening makes are made, a name opens a file with fixed contents (or fails).\<close>

definition log_on_disk ::
    "'k kernel \<Rightarrow> ('k \<Rightarrow> int \<Rightarrow> bytes) \<Rightarrow> (bytes \<Rightarrow> bytes) \<Rightarrow> ('k \<Rightarrow> bool) \<Rightarrow> bool" where
  "log_on_disk K view files still \<longleftrightarrow> (\<forall>k. still k \<longrightarrow>
     (\<forall>dir name. case sys_openat K dir name OPEN_RDWR k of
        (Inl e, k') \<Rightarrow> still k' | (Inr fd, k') \<Rightarrow> still k' \<and> view k' fd = files name)
     \<and> (\<forall>fd. still (snd (sys_close K fd k)))
     \<and> (\<forall>fd n o'. still (snd (sys_pread64 K fd n o' k))))"

lemma still_open:
  "log_on_disk K view files still \<Longrightarrow> still k \<Longrightarrow> wal_seg_open K s dir base cap k = (r, s', k') \<Longrightarrow>
     base \<noteq> 0 \<Longrightarrow> 56 \<le> cap \<Longrightarrow>
     still k' \<and> (r = RESULT_OK \<longrightarrow> (\<exists>fd. s' = seg_reset fd dir base cap \<and> view k' fd = files (wal_seg_name base)))
     \<and> (r \<noteq> RESULT_OK \<longrightarrow> (\<exists>e. r = RESULT_ERR ERR_SYSCALL e))"
proof -
  assume d: "log_on_disk K view files still" and st: "still k"
    and op: "wal_seg_open K s dir base cap k = (r, s', k')" and b: "base \<noteq> 0" "56 \<le> cap"
  obtain a k1 where sys: "sys_openat K dir (wal_seg_name base) OPEN_RDWR k = (a, k1)" by fastforce
  have "case (a, k1) of (Inl e, k') \<Rightarrow> still k' | (Inr fd, k') \<Rightarrow> still k' \<and> view k' fd = files (wal_seg_name base)"
    using d [unfolded log_on_disk_def, THEN spec [of _ k], THEN mp [OF _ st], THEN conjunct1,
        THEN spec [of _ dir], THEN spec [of _ "wal_seg_name base"]] by (simp only: sys)
  with op b sys show ?thesis
    by (cases a) (auto simp: wal_seg_open_def os_openat_def Let_def)
qed

lemma still_close: "log_on_disk K view files still \<Longrightarrow> still k \<Longrightarrow> wal_seg_close K s k = (r, s', k') \<Longrightarrow> still k'"
proof -
  assume d: "log_on_disk K view files still" "still k" and c: "wal_seg_close K s k = (r, s', k')"
  then have "still (snd (sys_close K (s_fd s) k))" by (simp add: log_on_disk_def)
  with c d(2) show ?thesis
    by (auto simp: wal_seg_close_def os_close_def Let_def split: if_splits prod.splits sum.splits)
qed

lemma still_pread_full:
  "log_on_disk K view files still \<Longrightarrow> still k \<Longrightarrow> still (snd (snd (os_pread_full_loop K fd n o' acc k)))"
proof (induction K fd n o' acc k rule: os_pread_full_loop.induct)
  case (1 K fd n o' acc k)
  obtain r bs k1 where pr: "os_pread K fd (int n - int (length acc)) (int o' + int (length acc)) k = (r, bs, k1)"
    by (metis prod_cases3)
  have k1: "still k1"
  proof -
    have "still (snd (sys_pread64 K fd c off k))" for c off using "1.prems" by (simp add: log_on_disk_def)
    from this [of "nat (int n - int (length acc))" "nat (int o' + int (length acc))"] pr "1.prems"(2) show ?thesis
      by (auto simp: os_pread_def split: if_splits prod.splits sum.splits)
  qed
  show ?case
  proof (cases "length acc < n \<and> r = RESULT_OK \<and> bs \<noteq> []")
    case True
    with pr "1.IH" [OF _ pr [symmetric] _ refl] k1 "1.prems"(1) show ?thesis
      by (simp add: os_pread_full_loop.simps [of K fd n o' acc k])
  next
    case False
    with pr k1 "1.prems"(2) show ?thesis
      by (auto simp: os_pread_full_loop.simps [of K fd n o' acc k] split: result_t.splits)
  qed
qed

lemma still_recover_loop:
  "log_on_disk K view files still \<Longrightarrow> still k \<Longrightarrow>
     seg_recover_loop K fd sl cap cb o' e n ctx k = (r, o1, e1, n1, t1, c1, k1) \<Longrightarrow> still k1"
proof (induction K fd sl cap cb o' e n ctx k rule: seg_recover_loop.induct)
  case (1 K fd sl cap cb o' e n ctx k)
  define want where "want = (if sl > cap - o' then cap - o' else sl)"
  obtain r0 block k0 where pr: "os_pread_full K fd want o' k = (r0, block, k0)" by (metis prod_cases3)
  have k0: "still k0" using still_pread_full [OF "1.prems"(1,2), of fd want o' "[]"] pr by (simp add: os_pread_full_def)
  obtain st pos e2 n2 c2 where sb: "seg_scan_block cb block o' cap 0 e n ctx = (st, pos, e2, n2, c2)"
    by (metis prod_cases5)
  show ?case
  proof (cases "o' < cap \<and> result_ok r0 \<and> 56 \<le> length block \<and> st = SCAN_MORE \<and> pos \<noteq> 0")
    case True
    then have "seg_recover_loop K fd sl cap cb (o' + pos) e2 n2 c2 k0 = (r, o1, e1, n1, t1, c1, k1)"
      using "1.prems"(3) pr sb
      by (simp add: seg_recover_loop.simps [of K fd sl cap cb o' e n ctx k] want_def [symmetric] Let_def)
    with "1.IH" [OF _ want_def pr [symmetric] refl refl _ _ sb [symmetric] _ refl refl refl] True k0 "1.prems"(1)
    show ?thesis by auto
  next
    case False
    with "1.prems"(2,3) pr sb k0 show ?thesis
      by (auto simp: seg_recover_loop.simps [of K fd sl cap cb o' e n ctx k] want_def [symmetric] Let_def
          split: if_splits scan_end.splits)
  qed
qed

text \<open>The specification: the records of the segments in table order, each beginning where
  the one before ended and none but the last torn.\<close>

fun scan_log :: "(bytes \<Rightarrow> bytes) \<Rightarrow> nat \<Rightarrow> u64 list \<Rightarrow> u64 \<Rightarrow> bool \<Rightarrow> (wal_rec_t list \<times> u64 \<times> bool) option" where
  "scan_log files cap [] expected torn = Some ([], expected, torn)"
| "scan_log files cap (b # bs) expected torn =
     (if b \<noteq> expected then None
      else case scan_ref (take cap (files (wal_seg_name b))) 0 b of
        (rs, e, t) \<Rightarrow>
          if bs \<noteq> [] \<and> t then None
          else case scan_log files cap bs (b + of_nat (length rs)) (if bs = [] then t else torn) of
            None \<Rightarrow> None
          | Some (rs', e', t') \<Rightarrow> Some (rs @ rs', e', t'))"

lemma scan_log_torn:
  "scan_ref (take cap (files (wal_seg_name b))) 0 b = (rs, e, True) \<Longrightarrow> post \<noteq> [] \<Longrightarrow>
     scan_log files cap (pre @ b # post) expected torn = None"
  by (induction pre arbitrary: expected torn) (auto split: prod.splits)

lemma fold_pair: "fold (wal_scan_record cb) rs (ix, c) = (fold (\<lambda>r ix. wal_index_add ix r) rs ix, fold cb rs c)"
  by (induction rs arbitrary: ix c) (simp_all add: wal_scan_record_def)

lemma open_segs_spec:
  assumes "file_reads K view" "log_on_disk K view files still" "buffer_fits cap sl"
    and "56 \<le> w_seg_capacity w" "0 \<notin> set bs" "\<forall>b \<in> set bs. w_seg_capacity w \<le> length (files (wal_seg_name b))"
    and "still k" "open_segs K sl cb bs w expected records torn ctx k = (r, w', e', n', t', ctx', k')"
    and "w_seg_capacity w = cap"
  shows "(r = RESULT_OK \<longrightarrow> (\<exists>rs. scan_log files (w_seg_capacity w) bs expected torn = Some (rs, e', t')
        \<and> ctx' = fold cb rs ctx \<and> n' = records + of_nat (length rs)
        \<and> w_index w' = fold (\<lambda>r ix. wal_index_add ix r) rs (w_index w)
        \<and> (bs \<noteq> [] \<longrightarrow> wal_next_seq w' = e' \<and> wal_durable_seq w' = e' - 1
             \<and> s_base_seq (w_active w') = last bs)))
    \<and> (r \<noteq> RESULT_OK \<longrightarrow> (\<exists>errno. r = RESULT_ERR ERR_SYSCALL errno)
        \<or> r = RESULT_ERR ERR_STORAGE 0 \<and> scan_log files (w_seg_capacity w) bs expected torn = None)"
  using assms(4-)
proof (induction bs arbitrary: w expected records torn ctx k)
  case Nil
  then show ?case by auto
next
  case (Cons b bs)
  let ?cap = "w_seg_capacity w"
  obtain r0 seg k0 where o: "wal_seg_open K (w_active w) (w_dir_fd w) b ?cap k = (r0, seg, k0)"
    by (metis prod_cases3)
  obtain r1 seg1 scan ix ctx1 k1 where rc: "wal_seg_recover K seg sl (wal_scan_record cb) (w_index w, ctx) k0
      = (r1, seg1, scan, (ix, ctx1), k1)" by (metis prod.collapse)
  obtain r2 seg2 k2 where cl: "wal_seg_close K seg1 k1 = (r2, seg2, k2)" by (metis prod_cases3)
  define w1 where "w1 = w\<lparr>w_index := ix\<rparr>"
  note step = open_segs_step [OF o rc cl w1_def, where expected = expected and bs = bs
      and records = records and torn = torn]
  have b0: "b \<noteq> 0" using Cons.prems(2) by auto
  note op = still_open [OF assms(2) Cons.prems(4) o b0 Cons.prems(1)]
  show ?case
  proof (cases "b = expected \<and> r0 = RESULT_OK")
    case False
    with step op Cons.prems(5) show ?thesis by (auto simp: result_ok_def)
  next
    case True
    then have b: "b = expected" and k0: "still k0" using op by auto
    obtain fd where seg: "seg = seg_reset fd (w_dir_fd w) b ?cap" and v: "view k0 fd = files (wal_seg_name b)"
      using op True by blast
    have sf: "s_fd seg = fd" "s_capacity seg = ?cap" "s_base_seq seg = b" by (simp_all add: seg seg_reset_def)
    have fit: "buffer_fits (s_capacity seg) sl" "s_capacity seg \<le> length (view k0 (s_fd seg))"
      using assms(3) Cons.prems(3,6) by (simp_all add: sf v)
    note ref = wal_seg_recover_sound [OF assms(1) fit rc, unfolded sf v]
    obtain rs off t where scanr: "scan_ref (take ?cap (files (wal_seg_name b))) 0 b = (rs, off, t)"
      by (metis prod_cases3)
    show ?thesis
    proof (cases "r1 = RESULT_OK")
      case bad: False
      then obtain errno where "r1 = RESULT_ERR ERR_SYSCALL errno" "scan = None"
        using ref scanr by auto
      with step True Cons.prems(5) show ?thesis by auto
    next
      case ok: True
      then have out: "(ix, ctx1) = fold (wal_scan_record cb) rs (w_index w, ctx)"
        "scan = Some \<lparr>sc_records = of_nat (length rs), sc_last_seq = b + of_nat (length rs) - 1,
           sc_end_off = off, sc_torn = t\<rparr>"
        "seg1 = seg\<lparr>s_next_seq := b + of_nat (length rs), s_durable_seq := b + of_nat (length rs) - 1,
           s_write_off := off, s_synced_off := off\<rparr>"
        using ref scanr by auto
      have ix: "ix = fold (\<lambda>r ix. wal_index_add ix r) rs (w_index w)" "ctx1 = fold cb rs ctx"
        using out(1) by (simp_all add: fold_pair)
      have k1: "still k1"
        using rc k0 still_recover_loop [OF assms(2) k0] by (auto simp: wal_seg_recover_def Let_def split: prod.splits if_splits)
      have k2: "still k2" by (rule still_close [OF assms(2) k1 cl])
      show ?thesis
      proof (cases "bs = []")
        case True
        with step b \<open>b = expected \<and> r0 = RESULT_OK\<close> out Cons.prems(5) scanr ix show ?thesis
          by (auto simp: w1_def wal_next_seq_def wal_durable_seq_def sf)
      next
        case more: False
        show ?thesis
        proof (cases t)
          case True
          with step more b \<open>b = expected \<and> r0 = RESULT_OK\<close> out Cons.prems(5) scanr show ?thesis
            by (auto simp: w1_def)
        next
          case False
          have loop: "open_segs K sl cb bs w1 (b + of_nat (length rs)) (records + of_nat (length rs)) torn ctx1 k2
              = (r, w', e', n', t', ctx', k')"
            using step more b \<open>b = expected \<and> r0 = RESULT_OK\<close> out False Cons.prems(5) by simp
          have prems: "56 \<le> w_seg_capacity w1" "0 \<notin> set bs"
            "\<forall>b\<in>set bs. w_seg_capacity w1 \<le> length (files (wal_seg_name b))"
            using Cons.prems by (auto simp: w1_def)
          have "w_seg_capacity w1 = cap" using Cons.prems(6) by (simp add: w1_def)
          note ih = Cons.IH [OF prems k2 loop this]
          have cap1: "w_seg_capacity w1 = ?cap" "w_index w1 = ix" by (simp_all add: w1_def)
          show ?thesis
            using ih more b scanr False unfolding cap1 ix
            by (auto simp: add.assoc split: option.splits)
        qed
      qed
    qed
  qed
qed

text \<open>C14. Opening recovers the whole log or refuses it. When the scan of the segments
  succeeds, the callback has seen every record of every segment, once and in log order, the
  index has been built from exactly those, and the next append gets the sequence after the
  last. It is refused when and only when (read errors apart) a segment does not begin where
  the one before it ended or one before the last has a damaged record.\<close>

theorem wal_open_recovers_log:
  assumes "file_reads K view" "log_on_disk K view files still" "WAL_REC_MAX_SIZE \<le> scratch_len"
    and "56 \<le> w_seg_capacity w" "0 \<notin> set bs" "bs \<noteq> []"
    and "\<forall>b \<in> set bs. w_seg_capacity w \<le> length (files (wal_seg_name b))"
    and "still k" "w_index w = wal_index_init"
    and "open_segs K scratch_len cb bs w (hd bs) 0 False ctx k = (r, w', e', n', t', ctx', k')"
  shows "case scan_log files (w_seg_capacity w) bs (hd bs) False of
      Some (rs, e, t) \<Rightarrow>
        r = RESULT_OK \<and> ctx' = fold cb rs ctx \<and> wal_index w' = wal_index_build rs
          \<and> n' = of_nat (length rs) \<and> wal_next_seq w' = e \<and> wal_durable_seq w' = e - 1 \<and> t' = t
        \<or> (\<exists>errno. r = RESULT_ERR ERR_SYSCALL errno)
    | None \<Rightarrow> r = RESULT_ERR ERR_STORAGE 0 \<or> (\<exists>errno. r = RESULT_ERR ERR_SYSCALL errno)"
  using open_segs_spec [OF assms(1,2) buffer_fits_max [OF assms(3)] assms(4,5,7,8,10) refl] assms(6,9)
  by (cases "r = RESULT_OK") (auto simp: wal_index_def wal_index_build_def split: option.splits)

definition files_example :: "bytes \<Rightarrow> bytes" where
  "files_example name = (if name = wal_seg_name 1 then replicate 128 0 else [])"

lemma log_on_disk_example:
  "log_on_disk mem_kernel mf_view files_example (\<lambda>k. mf_files k = mf_files fs_example)"
  by (auto simp: log_on_disk_def mem_kernel_def fs_example_def files_example_def mf_view_def mf_index_def)

theorem wal_open_recovers_log_witness:
  "fst (open_segs mem_kernel 1048632 (\<lambda>r c. c @ [r]) [1] (wal_example\<lparr>w_index := wal_index_init\<rparr>) 1 0 False []
      fs_example) = RESULT_OK
   \<or> (\<exists>errno. fst (open_segs mem_kernel 1048632 (\<lambda>r c. c @ [r]) [1] (wal_example\<lparr>w_index := wal_index_init\<rparr>) 1 0
        False [] fs_example) = RESULT_ERR ERR_SYSCALL errno)"
proof -
  let ?w = "wal_example\<lparr>w_index := wal_index_init\<rparr>"
  obtain r w' e n t c k' where run: "open_segs mem_kernel 1048632 (\<lambda>r c. c @ [r]) [1] ?w (hd [1]) 0 False []
      fs_example = (r, w', e, n, t, c, k')"
    by (metis prod_cases7)
  have cap: "w_seg_capacity ?w = 128" by (simp add: wal_example_def)
  have full: "\<forall>b \<in> set [1]. w_seg_capacity ?w \<le> length (files_example (wal_seg_name b))"
    by (simp add: cap files_example_def)
  have "scan_ref (take 128 (files_example (wal_seg_name 1))) 0 1 = ([], 0, False)"
    using scan_ref_clean [of "replicate 128 0" "[]" 1] by (simp add: files_example_def)
  then have "scan_log files_example (w_seg_capacity ?w) [1] (hd [1]) False = Some ([], 1, False)"
    by (simp add: cap)
  with wal_open_recovers_log [OF mem_kernel_reads log_on_disk_example _ _ _ _ full refl _ run] run
  show ?thesis by (auto simp: cap)
qed

end
