(* ===== verification/Wal_Mem.thy ===== *)
theory Wal_Mem
  imports Wal_Open
begin

text \<open>
  The segment operations on the file system in memory of \<open>Os\<close>, each as one equation: what they
  answer and what the files are afterwards. With these, results about the log are run on concrete
  logs without looking into a record's bytes.
\<close>

section \<open>Files\<close>

lemma mf_index_eq: "mf_index fd k = Some i \<longleftrightarrow> fd = 10 + int i \<and> i < length (mf_files k)"
  by (auto simp: mf_index_def)

lemma mf_view_index: "mf_index fd k = Some i \<Longrightarrow> mf_view k fd = snd (mf_files k ! i)"
  by (simp add: mf_view_def)

lemma mf_find_shift: "mf_find name fs (i + n) = map_option (\<lambda>j. j + n) (mf_find name fs i)"
  by (induction fs arbitrary: i) (auto simp flip: add_Suc)

lemma mf_find_Cons: "mf_find name (f # fs) 0 = (if fst f = name then Some 0 else map_option Suc (mf_find name fs 0))"
  using mf_find_shift [of name fs 0 1] by simp

lemma mf_find_Some: "mf_find name fs 0 = Some i \<Longrightarrow> i < length fs \<and> fst (fs ! i) = name"
  by (induction fs arbitrary: i) (auto simp: mf_find_Cons simp del: mf_find.simps(2) split: if_splits)

lemma mf_find_store: "mf_find name (mf_files (mf_store i bs k)) 0 = mf_find name (mf_files k) 0"
proof -
  have "mf_find name (fs[i := (fst (fs ! i), bs)]) n = mf_find name fs n" for fs n
    by (induction fs arbitrary: i n) (auto split: nat.splits)
  then show ?thesis by (simp add: mf_store_def)
qed

lemma seg_name_inj: "wal_seg_name a = wal_seg_name b \<Longrightarrow> a \<noteq> 0 \<Longrightarrow> b \<noteq> 0 \<Longrightarrow> a = b"
  using seg_name_roundtrip [of a 25 "[]"] seg_name_roundtrip [of b 25 "[]"] by simp

lemma length_wal_seg_name [simp]: "length (wal_seg_name b) = WAL_SEG_NAME_MAX"
  by (simp add: wal_seg_name_def)

section \<open>Segments\<close>

lemma mem_pwrite_full:
  assumes "mf_index fd k = Some i"
  shows "os_pwrite_full mem_kernel fd bs at k = (RESULT_OK, if bs = [] then k else mf_store i (write_at at bs (snd (mf_files k ! i))) k)"
proof -
  have "sys_pwrite64 mem_kernel fd bs at k = (Inr (length bs), mf_store i (write_at at bs (mf_view k fd)) k)"
    using assms by (simp add: mem_kernel_def)
  then show ?thesis
    using assms
    by (simp add: os_pwrite_full_def os_pwrite_full_loop.simps [of mem_kernel fd bs] mf_view_index
        os_pwrite_full_loop.simps [of mem_kernel fd "[]"])
qed

lemma mem_seg_create:
  assumes "base \<noteq> 0" "WAL_REC_HEADER_SIZE \<le> cap" "mf_find (wal_seg_name base) (mf_files k) 0 = None"
  shows "wal_seg_create mem_kernel s dir base cap k = (RESULT_OK, seg_reset (10 + int (length (mf_files k))) dir base cap,
    k\<lparr>mf_files := mf_files k @ [(wal_seg_name base, replicate cap 0)]\<rparr>)"
proof -
  let ?k1 = "k\<lparr>mf_files := mf_files k @ [(wal_seg_name base, [])]\<rparr>"
  have "mf_index (10 + int (length (mf_files k))) ?k1 = Some (length (mf_files k))" by (simp add: mf_index_eq)
  then show ?thesis
    using assms
    by (simp add: wal_seg_create_def os_openat_def os_fallocate_def os_fsync_def mem_kernel_def Let_def result_ok_def
        mf_view_index mf_store_def)
qed

lemma mem_seg_create_again:
  assumes "mf_find (wal_seg_name base) (mf_files k) 0 = Some i" "base \<noteq> 0" "WAL_REC_HEADER_SIZE \<le> cap"
  shows "wal_seg_create mem_kernel s dir base cap k = (RESULT_ERR ERR_SYSCALL 17, s, k)"
  using assms by (simp add: wal_seg_create_def os_openat_def mem_kernel_def Let_def)

lemma mem_seg_open:
  assumes "base \<noteq> 0" "WAL_REC_HEADER_SIZE \<le> cap" "mf_find (wal_seg_name base) (mf_files k) 0 = Some i"
  shows "wal_seg_open mem_kernel s dir base cap k = (RESULT_OK, seg_reset (10 + int i) dir base cap, k)"
  using assms by (simp add: wal_seg_open_def os_openat_def mem_kernel_def Let_def)

lemma mem_seg_sync:
  "wal_seg_sync mem_kernel s k = (RESULT_OK, if s_synced_off s = s_write_off s then s
     else s\<lparr>s_synced_off := s_write_off s, s_durable_seq := s_next_seq s - 1\<rparr>, k)"
  by (simp add: wal_seg_sync_def os_fdatasync_def mem_kernel_def)

lemma mem_seg_close:
  "wal_seg_close mem_kernel s k = (RESULT_OK, if s_fd s < 0 then s else s\<lparr>s_fd := -1\<rparr>, k)"
  by (simp add: wal_seg_close_def os_close_def mem_kernel_def)

lemma mem_seg_append:
  fixes s :: wal_seg_t and r :: wal_rec_t
  defines "r1 \<equiv> r\<lparr>r_seq := s_next_seq s\<rparr>"
  assumes "mf_index (s_fd s) k = Some i" "rec_fits r p" "length (rec_bytes r p) \<le> length scratch"
    and "s_write_off s + length (rec_bytes r p) \<le> s_capacity s"
  shows "wal_seg_append mem_kernel s r (Some p) scratch k =
    (RESULT_OK, s\<lparr>s_write_off := s_write_off s + length (rec_bytes r p), s_next_seq := s_next_seq s + 1\<rparr>, rec_written r1 p,
     mf_store i (write_at (s_write_off s) (rec_bytes r1 p) (snd (mf_files k ! i))) k)"
proof -
  have fits: "rec_fits r1 p" "length (rec_bytes r1 p) = length (rec_bytes r p)"
    using assms(3) by (simp_all add: rec_fits_def r1_def)
  have enc: "wal_rec_encode scratch r1 (Some p) = (int (length (rec_bytes r p)),
      rec_bytes r1 p @ drop (length (rec_bytes r p)) scratch, rec_written r1 p)"
    using wal_rec_encode_eq [OF fits(1), of scratch "Some p"] assms(4) fits(2) by simp
  have ne: "rec_bytes r1 p \<noteq> []" "length (rec_bytes r p) \<noteq> 0" by (auto dest: arg_cong [where f = length])
  have "\<not> int (s_write_off s) + int (length (rec_bytes r p)) > int (s_capacity s)" using assms(5) by linarith
  then show ?thesis
    using ne fits(2) assms(2)
    by (simp add: wal_seg_append_def r1_def [symmetric] enc Let_def mem_pwrite_full result_ok_def del: length_rec_bytes)
qed

lemma mem_seg_append_full:
  assumes "rec_fits r p" "length (rec_bytes r p) \<le> length scratch"
    and "s_capacity s < s_write_off s + length (rec_bytes r p)"
  shows "wal_seg_append mem_kernel s r (Some p) scratch k =
    (RESULT_ERR ERR_STORAGE 0, s, rec_written (r\<lparr>r_seq := s_next_seq s\<rparr>) p, k)"
proof -
  define r1 where "r1 = r\<lparr>r_seq := s_next_seq s\<rparr>"
  have fits: "rec_fits r1 p" "length (rec_bytes r1 p) = length (rec_bytes r p)"
    using assms(1) by (simp_all add: rec_fits_def r1_def)
  have enc: "wal_rec_encode scratch r1 (Some p) = (int (length (rec_bytes r p)),
      rec_bytes r1 p @ drop (length (rec_bytes r p)) scratch, rec_written r1 p)"
    using wal_rec_encode_eq [OF fits(1), of scratch "Some p"] assms(2) fits(2) by simp
  have "length (rec_bytes r p) \<noteq> 0" "int (s_write_off s) + int (length (rec_bytes r p)) > int (s_capacity s)"
    using assms(3) by (simp, linarith)
  then show ?thesis by (simp add: wal_seg_append_def r1_def [symmetric] enc Let_def del: length_rec_bytes)
qed

text \<open>Reading never fails here, so recovery is the walk over the file.\<close>

lemma mem_recover_loop:
  "seg_recover_loop mem_kernel fd sl cap cb o' e n ctx k = (r, o1, e1, n1, t, c1, k1) \<Longrightarrow>
     k1 = k \<and> (\<forall>x. r \<noteq> RESULT_ERR ERR_SYSCALL x)"
proof (induction mem_kernel fd sl cap cb o' e n ctx k rule: seg_recover_loop.induct)
  case (1 fd sl cap cb o' e n ctx k)
  define want where "want = (if sl > cap - o' then cap - o' else sl)"
  obtain block where pr: "os_pread_full mem_kernel fd want o' k = (RESULT_OK, block, k)" using mem_pread_full by blast
  obtain st pos e2 n2 c2 where sb: "seg_scan_block cb block o' cap 0 e n ctx = (st, pos, e2, n2, c2)" by (metis prod_cases5)
  show ?case
  proof (cases "o' < cap \<and> 56 \<le> length block \<and> st = SCAN_MORE \<and> pos \<noteq> 0")
    case True
    then have "seg_recover_loop mem_kernel fd sl cap cb (o' + pos) e2 n2 c2 k = (r, o1, e1, n1, t, c1, k1)"
      using "1.prems" pr sb
      by (simp add: seg_recover_loop.simps [of mem_kernel fd sl cap cb o' e n ctx k] want_def [symmetric] Let_def)
    with "1.hyps" [OF _ want_def pr [symmetric] refl refl _ _ sb [symmetric] _ refl refl refl] True show ?thesis by auto
  next
    case False
    with "1.prems" pr sb show ?thesis
      by (auto simp: seg_recover_loop.simps [of mem_kernel fd sl cap cb o' e n ctx k] want_def [symmetric] Let_def
          split: if_splits scan_end.splits)
  qed
qed

lemma mem_seg_recover_room:
  assumes "scan_room (take (s_capacity s) (mf_view k (s_fd s))) sl B" "0 \<in> B" "WAL_REC_HEADER_SIZE \<le> sl"
    and "s_capacity s \<le> length (mf_view k (s_fd s))"
    and "scan_ref (take (s_capacity s) (mf_view k (s_fd s))) 0 (s_base_seq s) = (rs, e, t)"
  shows "wal_seg_recover mem_kernel s sl cb ctx k = (RESULT_OK,
    s\<lparr>s_next_seq := s_base_seq s + of_nat (length rs), s_durable_seq := s_base_seq s + of_nat (length rs) - 1,
      s_write_off := e, s_synced_off := e\<rparr>,
    Some \<lparr>sc_records = of_nat (length rs), sc_last_seq = s_base_seq s + of_nat (length rs) - 1, sc_end_off = e, sc_torn = t\<rparr>,
    fold cb rs ctx, k)"
proof -
  obtain r s' out c' k' where run: "wal_seg_recover mem_kernel s sl cb ctx k = (r, s', out, c', k')" by (metis prod_cases5)
  obtain r1 o1 e1 n1 t1 c1 k1 where loop: "seg_recover_loop mem_kernel (s_fd s) sl (s_capacity s) cb 0 (s_base_seq s) 0 ctx k
      = (r1, o1, e1, n1, t1, c1, k1)" by (metis prod_cases7)
  have k1: "k1 = k \<and> (\<forall>x. r1 \<noteq> RESULT_ERR ERR_SYSCALL x)" by (rule mem_recover_loop [OF loop])
  have "r = r1 \<or> r = RESULT_OK" "k' = k"
    using run loop k1 assms(3) by (auto simp: wal_seg_recover_def Let_def split: if_splits)
  note ref = wal_seg_recover_room [OF mem_kernel_reads assms(1-4) run]
  have "r = RESULT_OK" using ref k1 \<open>r = r1 \<or> r = RESULT_OK\<close> assms(5) by auto
  with ref assms(5) run \<open>k' = k\<close> show ?thesis by simp
qed

lemma mem_seg_recover:
  assumes "buffer_fits (s_capacity s) sl" "s_capacity s \<le> length (mf_view k (s_fd s))"
    and "scan_ref (take (s_capacity s) (mf_view k (s_fd s))) 0 (s_base_seq s) = (rs, e, t)"
  shows "wal_seg_recover mem_kernel s sl cb ctx k = (RESULT_OK,
    s\<lparr>s_next_seq := s_base_seq s + of_nat (length rs), s_durable_seq := s_base_seq s + of_nat (length rs) - 1,
      s_write_off := e, s_synced_off := e\<rparr>,
    Some \<lparr>sc_records = of_nat (length rs), sc_last_seq = s_base_seq s + of_nat (length rs) - 1, sc_end_off = e, sc_torn = t\<rparr>,
    fold cb rs ctx, k)"
proof (rule mem_seg_recover_room [OF _ UNIV_I _ assms(2,3)])
  show "scan_room (take (s_capacity s) (mf_view k (s_fd s))) sl UNIV" "WAL_REC_HEADER_SIZE \<le> sl"
    using assms(1,2) by (auto simp: buffer_fits_def intro: scan_room_max)
qed

section \<open>The log\<close>

lemma mem_rollover:
  assumes "length (w_seg_base w) < WAL_MAX_SEGMENTS" "s_synced_off (w_active w) = s_write_off (w_active w) \<longrightarrow>
      s_durable_seq (w_active w) = s_next_seq (w_active w) - 1"
    and "wal_next_seq w \<noteq> 0" "WAL_REC_HEADER_SIZE \<le> w_seg_capacity w"
    and "mf_find (wal_seg_name (wal_next_seq w)) (mf_files k) 0 = None"
  shows "wal_rollover mem_kernel w k = (RESULT_OK,
    w\<lparr>w_active := seg_reset (10 + int (length (mf_files k))) (w_dir_fd w) (wal_next_seq w) (w_seg_capacity w),
      w_seg_base := w_seg_base w @ [wal_next_seq w]\<rparr>,
    k\<lparr>mf_files := mf_files k @ [(wal_seg_name (wal_next_seq w), replicate (w_seg_capacity w) 0)]\<rparr>)"
  using assms mem_seg_create [of "wal_next_seq w" "w_seg_capacity w" k]
  by (auto simp: wal_rollover_def wal_sync_def mem_seg_sync mem_seg_close Let_def result_ok_def wal_next_seq_def)

text \<open>Opening finds the files as they are, in one listing.\<close>

definition mem_files :: "mem_fs \<Rightarrow> bytes \<Rightarrow> bytes" where
  "mem_files k name = (case mf_find name (mf_files k) 0 of None \<Rightarrow> [] | Some i \<Rightarrow> snd (mf_files k ! i))"

lemma mem_log_on_disk: "log_on_disk mem_kernel mf_view (mem_files k) (\<lambda>k'. mf_files k' = mf_files k)"
proof -
  have "mf_view k' (10 + int i) = mem_files k name"
    if "mf_files k' = mf_files k" "mf_find name (mf_files k) 0 = Some i" for k' name i
    using that mf_find_Some [OF that(2)] mf_view_index [of "10 + int i" k' i] by (simp add: mf_index_eq mem_files_def)
  then show ?thesis by (auto simp: log_on_disk_def mem_kernel_def split: option.splits)
qed

end
