(* ===== verification/Wal_Listing.thy ===== *)
theory Wal_Listing
  imports Wal_Mem
begin

text \<open>
  Listing a log's directory: what the segment table holds after the kernel has handed out the
  directory's records, in as many pieces as it likes, and so what \<^verbatim>\<open>wal_open\<close> scans.
\<close>

section \<open>Listing the directory\<close>

text \<open>A directory record as the kernel lays it out: its length at byte 16, its name with the NUL
  from byte 19, padded to eight bytes (so none is 43 long).\<close>

definition dirent_ok :: "bytes \<Rightarrow> bool" where
  "dirent_ok d \<longleftrightarrow> DIRENT64_NAME_OFF \<le> length d \<and> length d < 2 ^ 16 \<and> length d \<noteq> 43
     \<and> field DIRENT64_RECLEN_OFF 2 d = (of_nat (length d) :: u16)"

definition dirent_base :: "bytes \<Rightarrow> u64 option" where
  "dirent_base d = seg_name_parse (drop DIRENT64_NAME_OFF d) (length d - DIRENT64_NAME_OFF)"

lemma parse_digits_prefix: "i + n \<le> length x \<Longrightarrow> parse_digits n (x @ y) i v = parse_digits n x i v"
  by (induction n arbitrary: i v) (simp_all add: nth_append)

lemma seg_name_parse_prefix:
  assumes "mx \<le> length x" "mx \<noteq> 24"
  shows "seg_name_parse (x @ y) mx = seg_name_parse x mx"
proof (cases "mx < 24")
  case True
  then show ?thesis by (simp add: seg_name_parse_def)
next
  case False
  then have "25 \<le> length x" using assms by linarith
  then show ?thesis by (simp add: seg_name_parse_def parse_digits_prefix nth_append split: option.splits)
qed

lemma dirents_walk_spec:
  "\<forall>d \<in> set ds. dirent_ok d \<Longrightarrow> sorted_wrt (<) bases \<Longrightarrow>
     distinct (bases @ List.map_filter dirent_base ds) \<Longrightarrow>
     length bases + length (List.map_filter dirent_base ds) \<le> WAL_MAX_SEGMENTS \<Longrightarrow>
     \<exists>bases'. dirents_walk (pre @ concat ds @ rest) (length pre + length (concat ds)) (length pre) bases = (RESULT_OK, bases')
       \<and> sorted_wrt (<) bases' \<and> set bases' = set bases \<union> set (List.map_filter dirent_base ds)
       \<and> length bases' = length bases + length (List.map_filter dirent_base ds)"
proof (induction ds arbitrary: pre bases)
  case Nil
  then show ?case by (simp add: dirents_walk.simps List.map_filter_def)
next
  case (Cons d ds)
  define S n where "S = pre @ concat (d # ds) @ rest" and "n = length pre + length (concat (d # ds))"
  have d: "19 \<le> length d" "length d < 65536" "length d \<noteq> 43" "field 16 2 d = (of_nat (length d) :: u16)"
    using Cons.prems(1) by (simp_all add: dirent_ok_def)
  have "(field 16 2 d :: u16) = field 16 2 (d @ concat ds @ rest)"
    using d(1) field_take [of 16 2 "length d" "d @ concat ds @ rest"] by simp
  then have "field 16 2 (d @ concat ds @ rest) = (of_nat (length d) :: u16)" using d(4) by (rule trans [OF sym])
  then have reclen: "unat (field 16 2 (drop (length pre) S) :: u16) = length d"
    using d(2) by (simp add: S_def unat_of_nat take_bit_nat_eq_self)
  have "seg_name_parse (drop 19 d @ concat ds @ rest) (length d - 19) = dirent_base d"
    using d seg_name_parse_prefix [of "length d - 19" "drop 19 d" "concat ds @ rest"] by (simp add: dirent_base_def)
  moreover have "drop (length pre + 19) S = drop 19 d @ concat ds @ rest" using d(1) by (simp add: S_def)
  ultimately have name: "seg_name_parse (drop (length pre + 19) S) (length d - 19) = dirent_base d" by simp
  have lt: "length pre < n" "\<not> length d < 19" "\<not> n < length pre + length d" using d(1) by (auto simp: n_def)
  have walk: "dirents_walk S n (length pre) bases = (case dirent_base d of
      None \<Rightarrow> dirents_walk S n (length pre + length d) bases
    | Some base \<Rightarrow> (case seg_table_insert bases base of
        None \<Rightarrow> (RESULT_ERR ERR_NOMEM (int (length bases)), bases)
      | Some bases \<Rightarrow> dirents_walk S n (length pre + length d) bases))"
    using lt by (subst dirents_walk.simps) (simp add: Let_def reclen name)
  have shape: "S = (pre @ d) @ concat ds @ rest" "n = length (pre @ d) + length (concat ds)" by (simp_all add: S_def n_def)
  show ?case
  proof (cases "dirent_base d")
    case None
    then show ?thesis
      using Cons.IH [of bases "pre @ d"] Cons.prems walk unfolding S_def [symmetric] n_def [symmetric] shape
      by (simp add: List.map_filter_def)
  next
    case (Some base)
    have mf: "List.map_filter dirent_base (d # ds) = base # List.map_filter dirent_base ds"
      using Some by (simp add: List.map_filter_def)
    have new: "base \<notin> set bases" "length bases < WAL_MAX_SEGMENTS" using Cons.prems(3,4) mf by auto
    obtain i where i: "seg_slot base bases = Some i"
      using seg_slot_insert [OF Cons.prems(2), of base] new(1) by (cases "seg_slot base bases") auto
    then have ins: "seg_table_insert bases base = Some (take i bases @ base # drop i bases)" (is "_ = Some ?b")
      using new(2) by (simp add: seg_table_insert_def)
    have b: "sorted_wrt (<) ?b" "set ?b = insert base (set bases)"
      using seg_table_insert_ok [OF Cons.prems(2) ins] by simp_all
    have lb: "length ?b = length bases + 1"
      using seg_slot_insert [OF Cons.prems(2), of base] i by auto
    have "distinct ?b" using b(1) by (induction ?b) (auto simp: strict_sorted_iff)
    then have "distinct (?b @ List.map_filter dirent_base ds)" using Cons.prems(3) mf b(2) by auto
    from Cons.IH [OF _ b(1) this, of "pre @ d"] Cons.prems(1,4) lb mf
    obtain bases' where "dirents_walk S n (length (pre @ d)) ?b = (RESULT_OK, bases')" "sorted_wrt (<) bases'"
      "set bases' = set ?b \<union> set (List.map_filter dirent_base ds)" "length bases' = length ?b + length (List.map_filter dirent_base ds)"
      unfolding shape by auto
    with walk Some ins b(2) lb mf show ?thesis unfolding S_def [symmetric] n_def [symmetric] by (intro exI [of _ bases']) simp
  qed
qed

text \<open>A listing: blocks of whole directory records until an empty one ends it.\<close>

primrec lists_dir :: "'k kernel \<Rightarrow> int \<Rightarrow> nat \<Rightarrow> ('k \<Rightarrow> bool) \<Rightarrow> bytes list list \<Rightarrow> 'k \<Rightarrow> bool" where
  "lists_dir K fd n still [] k = (case sys_getdents64 K fd n k of (Inl e, k') \<Rightarrow> False | (Inr bs, k') \<Rightarrow> bs = [] \<and> still k')"
| "lists_dir K fd n still (ds # dss) k = (case sys_getdents64 K fd n k of
     (Inl e, k') \<Rightarrow> False
   | (Inr bs, k') \<Rightarrow> bs = concat ds \<and> bs \<noteq> [] \<and> length bs \<le> n \<and> (\<forall>d \<in> set ds. dirent_ok d) \<and> lists_dir K fd n still dss k')"

abbreviation listed_bases :: "bytes list list \<Rightarrow> u64 list" where
  "listed_bases dss \<equiv> List.map_filter dirent_base (concat dss)"

lemma map_filter_append: "List.map_filter f (xs @ ys) = List.map_filter f xs @ List.map_filter f ys"
  by (simp add: List.map_filter_def)

lemma seg_table_loop_spec:
  "lists_dir K fd (length scratch) still dss k \<Longrightarrow> sorted_wrt (<) bases \<Longrightarrow>
     distinct (bases @ listed_bases dss) \<Longrightarrow> length bases + length (listed_bases dss) \<le> WAL_MAX_SEGMENTS \<Longrightarrow>
     \<exists>bases' k'. seg_table_loop K fd (scratch, bases, k) = Some (RESULT_OK, bases', k') \<and> still k'
       \<and> sorted_wrt (<) bases' \<and> set bases' = set bases \<union> set (listed_bases dss)"
proof (induction dss arbitrary: scratch bases k)
  case Nil
  then obtain k' where "sys_getdents64 K fd (length scratch) k = (Inr [], k')" "still k'"
    by (auto split: prod.splits sum.splits)
  then have "seg_table_loop K fd (scratch, bases, k) = Some (RESULT_OK, bases, k')"
    by (subst seg_table_loop.simps) (simp add: seg_table_step_def os_getdents64_def)
  with Nil \<open>still k'\<close> show ?case by (simp add: List.map_filter_def)
next
  case (Cons ds dss)
  obtain k1 where sys: "sys_getdents64 K fd (length scratch) k = (Inr (concat ds), k1)"
    and ds: "concat ds \<noteq> []" "length (concat ds) \<le> length scratch" "\<forall>d \<in> set ds. dirent_ok d"
    and rest: "lists_dir K fd (length scratch) still dss k1"
    using Cons.prems(1) by (auto split: prod.splits sum.splits)
  define s1 where "s1 = concat ds @ drop (length (concat ds)) scratch"
  have len: "length s1 = length scratch" using ds(2) by (simp add: s1_def)
  have split: "listed_bases (ds # dss) = List.map_filter dirent_base ds @ listed_bases dss" by (simp add: map_filter_append)
  obtain b1 where w: "dirents_walk s1 (length (concat ds)) 0 bases = (RESULT_OK, b1)"
    "sorted_wrt (<) b1" "set b1 = set bases \<union> set (List.map_filter dirent_base ds)"
    "length b1 = length bases + length (List.map_filter dirent_base ds)"
    using dirents_walk_spec [OF ds(3) Cons.prems(2), of "[]" "drop (length (concat ds)) scratch"] Cons.prems(3,4)
    unfolding s1_def split by auto
  have "distinct b1" using w(2) by (simp add: strict_sorted_iff)
  then have "distinct (b1 @ listed_bases dss)" "length b1 + length (listed_bases dss) \<le> WAL_MAX_SEGMENTS"
    using Cons.prems(3,4) w(3,4) unfolding split by auto
  from Cons.IH [OF rest [folded len] w(2) this] obtain b2 k2
    where "seg_table_loop K fd (s1, b1, k1) = Some (RESULT_OK, b2, k2)" "still k2" "sorted_wrt (<) b2"
      "set b2 = set b1 \<union> set (listed_bases dss)" by blast
  moreover have "seg_table_loop K fd (scratch, bases, k) = seg_table_loop K fd (s1, b1, k1)"
    using sys ds w(1)
    by (subst seg_table_loop.simps) (simp add: seg_table_step_def os_getdents64_def Let_def s1_def del: concat_eq_Nil_conv)
  ultimately show ?case using w(3) unfolding split by (intro exI [of _ b2] exI [of _ k2]) auto
qed

lemma wal_open_segments:
  assumes "sys_openat K AT_FDCWD path OPEN_DIRECTORY k = (Inr fd, k1)"
    and "lists_dir K fd (length scratch) still dss k1" "distinct (listed_bases dss)"
    and "set (listed_bases dss) = set bases" "sorted_wrt (<) bases" "bases \<noteq> []" "length bases \<le> WAL_MAX_SEGMENTS"
    and "WAL_REC_HEADER_SIZE \<le> cap" "WAL_REC_HEADER_SIZE \<le> length scratch"
    and run: "wal_open K w path cap scratch cb ctx k = Some (r, w', out, ctx', k')"
  shows "\<exists>w1 k2 e n t. open_segs K (length scratch) cb bases w1 (hd bases) 0 False ctx k2 = (r, w', e, n, t, ctx', k')
    \<and> w_seg_capacity w1 = cap \<and> w_index w1 = wal_index_init \<and> still k2"
proof -
  define w0 where "w0 = w\<lparr>w_dir_fd := -1, w_seg_capacity := cap, w_seg_base := [],
      w_active := (w_active w)\<lparr>s_fd := -1\<rparr>, w_index := wal_index_init\<rparr>"
  have db: "distinct bases" using assms(5) by (simp add: strict_sorted_iff)
  have "length (listed_bases dss) = length bases" using assms(3,4) db by (metis distinct_card)
  then obtain b1 k2 where loop: "seg_table_loop K fd (scratch, [], k1) = Some (RESULT_OK, b1, k2)" "still k2"
    "sorted_wrt (<) b1" "set b1 = set bases"
    using seg_table_loop_spec [OF assms(2), of "[]"] assms(3,4,7) by auto
  have b1: "b1 = bases" using loop(3,4) assms(5) by (metis sorted_list_of_set_unique strict_sorted_iff finite_set distinct_card)
  define w1 where "w1 = w0\<lparr>w_dir_fd := fd, w_seg_base := bases\<rparr>"
  have load: "seg_table_load K (w0\<lparr>w_dir_fd := fd\<rparr>) scratch k1 = Some (RESULT_OK, w1, k2)"
    by (simp add: seg_table_load_def loop b1 w1_def w0_def)
  obtain r2 w2 e2 n2 t2 c2 k3 where segs: "open_segs K (length scratch) cb bases w1 (hd bases) 0 False ctx k2
      = (r2, w2, e2, n2, t2, c2, k3)" by (metis prod_cases7)
  have "bases ! 0 = hd bases" using assms(6) by (simp add: hd_conv_nth)
  then have "r2 = r \<and> w2 = w' \<and> c2 = ctx' \<and> k3 = k'"
    using run assms(1,6,8,9) load segs
    by (auto simp: wal_open_def Let_def w0_def [symmetric] os_openat_def w1_def result_ok_def
        split: if_splits result_t.splits)
  with segs show ?thesis
    by (intro exI [of _ w1] exI [of _ k2] exI [of _ e2] exI [of _ n2] exI [of _ t2]) (simp add: w1_def w0_def loop(2))
qed

section \<open>The file system in memory\<close>

lemma mem_dirent:
  "19 + length name < 2 ^ 16 \<Longrightarrow> length name \<noteq> 24 \<Longrightarrow> dirent_ok (mf_dirent name)"
  by (simp add: dirent_ok_def mf_dirent_def field_def)

lemma mem_dirent_base: "b \<noteq> 0 \<Longrightarrow> dirent_base (mf_dirent (wal_seg_name b)) = Some b"
  using seg_name_roundtrip [of b 25 "[]"] by (simp add: dirent_base_def mf_dirent_def)

lemma lists_dir_mono: "lists_dir K fd n still dss k \<Longrightarrow> (\<And>k. still k \<Longrightarrow> still' k) \<Longrightarrow> lists_dir K fd n still' dss k"
  by (induction dss arbitrary: k) (auto split: prod.splits sum.splits)

lemma mem_lists_names:
  assumes "\<not> mf_listed k" "mf_files k \<noteq> []" "\<forall>name \<in> set (map fst (mf_files k)). length name \<noteq> 24 \<and> length name < 256"
    and "sum_list (map (\<lambda>f. 19 + length (fst f)) (mf_files k)) \<le> n"
  shows "lists_dir mem_kernel fd n (\<lambda>k'. k' = k) [map mf_dirent (map fst (mf_files k))] k"
proof -
  define ds where "ds = map mf_dirent (map fst (mf_files k))"
  have "length (mf_dirent name) = 19 + length name" for name by (simp add: mf_dirent_def)
  then have len: "length (concat ds) = sum_list (map (\<lambda>f. 19 + length (fst f)) (mf_files k))"
    by (simp add: ds_def length_concat o_def)
  have ok: "\<forall>x \<in> set ds. dirent_ok x" using assms(3) by (auto simp: ds_def intro!: mem_dirent)
  have "concat ds \<noteq> []" using assms(2) len by (cases "mf_files k") (auto simp del: concat_eq_Nil_conv)
  moreover have "concat (map (mf_dirent \<circ> fst) (mf_files k)) = concat ds" by (simp add: ds_def)
  ultimately show ?thesis
    using assms(1,2,4) ok len unfolding ds_def [symmetric] by (simp add: mem_kernel_def del: concat_eq_Nil_conv)
qed

lemma mem_lists_dir:
  assumes "\<not> mf_listed k" "mf_files k \<noteq> []" "\<forall>name \<in> set (map fst (mf_files k)). length name = 25"
    and "44 * length (mf_files k) \<le> n"
  shows "lists_dir mem_kernel fd n (\<lambda>k'. mf_files k' = mf_files k) [map mf_dirent (map fst (mf_files k))] k"
proof -
  have "\<forall>f \<in> set fs. length (fst f) = 25 \<Longrightarrow> sum_list (map (\<lambda>f. 19 + length (fst f)) fs) = 44 * length fs" for fs :: "(bytes \<times> bytes) list"
    by (induction fs) simp_all
  then have "sum_list (map (\<lambda>f. 19 + length (fst f)) (mf_files k)) \<le> n" using assms(3,4) by simp
  from lists_dir_mono [OF mem_lists_names [OF assms(1,2) _ this]] assms(3) show ?thesis by simp
qed

end
