(* ===== verification/Wal_Crash.thy ===== *)
theory Wal_Crash
  imports Wal_Listing
begin

text \<open>
  The whole log across a crash. A log is filled by any appends and flushes, rolling over from
  segment to segment, and the machine stops; what is opened afterwards from the directory holds
  every record that was flushed, unchanged and in order. Where this ends is the theory \<open>Wal_Torn\<close>.
\<close>

section \<open>New files\<close>

text \<open>A file made for a segment is empty, preallocating fills it up with zeros, and neither
  this nor closing a descriptor changes what another descriptor reads.\<close>

definition file_creates :: "'k kernel \<Rightarrow> ('k \<Rightarrow> int \<Rightarrow> bytes) \<Rightarrow> bool" where
  "file_creates K view \<longleftrightarrow>
     (\<forall>dir name k. case sys_openat K dir name OPEN_CREATE_EXCL k of
        (Inl e, k') \<Rightarrow> True | (Inr fd, k') \<Rightarrow> view k' = (view k)(fd := []))
   \<and> (\<forall>fd n k. case sys_fallocate K fd n k of
        (Inl e, k') \<Rightarrow> True
      | (Inr _, k') \<Rightarrow> view k' = (view k)(fd := view k fd @ replicate (n - length (view k fd)) 0))
   \<and> (\<forall>fd k. view (snd (sys_fsync K fd k)) = view k)"

lemma mem_kernel_creates: "file_creates mem_kernel mf_view"
proof -
  have app: "mf_view (k\<lparr>mf_files := mf_files k @ [(name, [])]\<rparr>)
      = (mf_view k)(10 + int (length (mf_files k)) := [])" for k name
  proof (rule ext)
    fix fd
    have "nat (fd - 10) < length (mf_files k) \<or> nat (fd - 10) = length (mf_files k) \<or> length (mf_files k) < nat (fd - 10)"
      by linarith
    then show "mf_view (k\<lparr>mf_files := mf_files k @ [(name, [])]\<rparr>) fd
        = ((mf_view k)(10 + int (length (mf_files k)) := [])) fd"
      by (auto simp: mf_view_def mf_index_def nth_append)
  qed
  show ?thesis
    by (auto simp: file_creates_def mem_kernel_def app mf_view_store split: open_mode.splits option.splits)
qed

lemma wal_seg_create_view:
  assumes "file_creates K view" "wal_seg_create K s dir base cap k = (RESULT_OK, s', k')"
  shows "\<exists>fd. s' = seg_reset fd dir base cap \<and> view k' fd = replicate cap 0 \<and> base \<noteq> 0 \<and> WAL_REC_HEADER_SIZE \<le> cap"
proof -
  have g: "base \<noteq> 0" "\<not> cap < WAL_REC_HEADER_SIZE" using assms(2) by (auto simp: wal_seg_create_def split: if_splits)
  obtain a k1 where op: "sys_openat K dir (wal_seg_name base) OPEN_CREATE_EXCL k = (a, k1)" by fastforce
  obtain fd where a: "a = Inr fd" using assms(2) g op by (cases a) (auto simp: wal_seg_create_def os_openat_def Let_def)
  obtain b k2 where fa: "sys_fallocate K fd cap k1 = (b, k2)" by fastforce
  obtain u where b: "b = Inr u"
    using assms(2) g op a fa by (cases b) (auto simp: wal_seg_create_def os_openat_def os_fallocate_def Let_def)
  obtain c k3 where fs: "sys_fsync K fd k2 = (c, k3)" by fastforce
  obtain d k4 where ds: "sys_fsync K dir k3 = (d, k4)" by fastforce
  have res: "s' = seg_reset fd dir base cap" "k' = k4"
    using assms(2) g op a fa b fs ds
    by (cases c; cases d; auto simp: wal_seg_create_def os_openat_def os_fallocate_def os_fsync_def Let_def)+
  note law = assms(1) [unfolded file_creates_def]
  have "view k1 = (view k)(fd := [])"
    using law [THEN conjunct1, THEN spec [of _ dir], THEN spec [of _ "wal_seg_name base"], THEN spec [of _ k]] op a by simp
  moreover have "view k2 = (view k1)(fd := view k1 fd @ replicate (cap - length (view k1 fd)) 0)"
    using law [THEN conjunct2, THEN conjunct1, THEN spec [of _ fd], THEN spec [of _ cap], THEN spec [of _ k1]] fa b by simp
  moreover have "view k3 = view k2" "view k4 = view k3" using law fs ds by (metis snd_conv)+
  ultimately show ?thesis using res g by (intro exI [of _ fd]) simp
qed

section \<open>One log, with what was put into it\<close>

text \<open>A closed segment with the bytes its file had when it was closed and its records: records
  from the start, and zeros behind them.\<close>

type_synonym closed_seg = "u64 \<times> bytes \<times> entry list"

abbreviation zeros :: "bytes \<Rightarrow> bool" where
  "zeros f \<equiv> \<forall>x \<in> set f. x = 0"

definition seg_clean :: "nat \<Rightarrow> bytes \<Rightarrow> entry list \<Rightarrow> bool" where
  "seg_clean cap f es \<longleftrightarrow> cap \<le> length f \<and> length (disk es) \<le> cap \<and> take (length (disk es)) f = disk es
     \<and> zeros (drop (length (disk es)) f)"

text \<open>Closed segments that follow each other, up to the base of the active one.\<close>

fun chained :: "nat \<Rightarrow> closed_seg list \<Rightarrow> u64 \<Rightarrow> bool" where
  "chained cap [] base = True"
| "chained cap ((b, f, es) # segs) base =
     (seq_run b es \<and> es \<noteq> [] \<and> b \<noteq> 0 \<and> seg_clean cap f es
      \<and> (case segs of [] \<Rightarrow> base | (b', _, _) # _ \<Rightarrow> b') = b + of_nat (length es) \<and> chained cap segs base)"

lemma chained_append:
  "chained cap (segs @ [(b, f, es)]) base \<longleftrightarrow>
     chained cap segs b \<and> seq_run b es \<and> es \<noteq> [] \<and> b \<noteq> 0 \<and> seg_clean cap f es \<and> base = b + of_nat (length es)"
  by (induction cap segs b rule: chained.induct) (auto split: list.splits)

definition log_holds :: "('k \<Rightarrow> int \<Rightarrow> bytes) \<Rightarrow> wal_t \<Rightarrow> 'k \<Rightarrow> closed_seg list \<Rightarrow> entry list \<Rightarrow> nat \<Rightarrow> bool" where
  "log_holds view w k segs cur m \<longleftrightarrow>
     (let s = w_active w; f = view k (s_fd s) in
      w_seg_base w = map fst segs @ [s_base_seq s] \<and> s_base_seq s \<noteq> 0 \<and> length (w_seg_base w) \<le> WAL_MAX_SEGMENTS
      \<and> chained (w_seg_capacity w) segs (s_base_seq s)
      \<and> s_capacity s = w_seg_capacity w \<and> WAL_REC_HEADER_SIZE \<le> w_seg_capacity w
      \<and> seg_holds s f cur m \<and> zeros (drop (s_write_off s) f))"

text \<open>An append to a segment changes nothing behind its own bytes.\<close>

lemma wal_seg_append_behind:
  assumes "file_writes K view" "rec_fits r p" "length (rec_bytes r p) \<le> length scratch"
    and "s_write_off s \<le> length (view k (s_fd s))"
    and "wal_seg_append K s r (Some p) scratch k = (RESULT_OK, s', r', k')"
  shows "drop (s_write_off s') (view k' (s_fd s)) = drop (s_write_off s') (view k (s_fd s))"
proof -
  define r1 where "r1 = r\<lparr>r_seq := s_next_seq s\<rparr>"
  let ?b = "rec_bytes r1 p"
  have fits: "rec_fits r1 p" using assms(2) by (simp add: rec_fits_def r1_def)
  have room: "length ?b \<le> length scratch" using assms(3) by simp
  have enc: "wal_rec_encode scratch r1 (Some p) = (int (length ?b), ?b @ drop (length ?b) scratch, rec_written r1 p)"
    using fits room by (intro wal_rec_encode_eq) simp_all
  obtain res k1 where pw: "os_pwrite_full K (s_fd s) ?b (s_write_off s) k = (res, k1)" by fastforce
  have ok: "res = RESULT_OK" "s_write_off s' = s_write_off s + length ?b" "k' = k1"
    using assms(5) pw
    by (auto simp: wal_seg_append_def r1_def [symmetric] enc Let_def result_ok_def split: if_splits result_t.splits
        simp del: length_rec_bytes)
  have "view k1 (s_fd s) = write_at (s_write_off s) ?b (view k (s_fd s))"
    using os_pwrite_full_stores [OF assms(1) pw] ok(1) by auto
  with ok assms(4) show ?thesis by (simp add: write_at_def del: length_rec_bytes)
qed

lemma wal_rollover_holds:
  assumes "file_flushes K view" "file_creates K view" "log_holds view w k segs cur m"
    and "cur \<noteq> []" "wal_rollover K w k = (RESULT_OK, w', k')"
  shows "log_holds view w' k' (segs @ [(s_base_seq (w_active w), view k (s_fd (w_active w)), cur)]) [] 0
    \<and> w_seg_capacity w' = w_seg_capacity w \<and> w_seg_base w' = w_seg_base w @ [wal_next_seq w]
    \<and> wal_next_seq w' = wal_next_seq w"
proof -
  let ?s = "w_active w" let ?f = "view k (s_fd ?s)"
  have cnt: "\<not> length (w_seg_base w) \<ge> WAL_MAX_SEGMENTS" using assms(5) by (auto simp: wal_rollover_def split: if_splits)
  obtain r1 s1 k1 where sy: "wal_seg_sync K ?s k = (r1, s1, k1)" by (metis prod_cases3)
  obtain r2 s2 k2 where cl: "wal_seg_close K s1 k1 = (r2, s2, k2)" by (metis prod_cases3)
  obtain r3 s3 k3 where cr: "wal_seg_create K s2 (w_dir_fd w) (s_durable_seq s1 + 1) (w_seg_capacity w) k2
      = (r3, s3, k3)" by (metis prod_cases3)
  have ok: "r1 = RESULT_OK" "r3 = RESULT_OK" "k' = k3"
    "w' = w\<lparr>w_active := s3, w_seg_base := w_seg_base w @ [s_durable_seq s1 + 1]\<rparr>"
    using assms(5) cnt sy cl cr
    by (auto simp: wal_rollover_def wal_sync_def Let_def result_ok_def split: if_splits result_t.splits)
  have h: "seg_holds ?s ?f cur m" "zeros (drop (s_write_off ?s) ?f)" "chained (w_seg_capacity w) segs (s_base_seq ?s)"
    "s_base_seq ?s \<noteq> 0" "s_capacity ?s = w_seg_capacity w" "w_seg_base w = map fst segs @ [s_base_seq ?s]"
    using assms(3) by (simp_all add: log_holds_def Let_def)
  have "seg_holds s1 (view k1 (s_fd s1)) cur (length cur)" "s_base_seq s1 = s_base_seq ?s"
    using wal_seg_sync_holds [OF assms(1) h(1) sy] ok(1) by auto
  then have nb: "s_durable_seq s1 + 1 = wal_next_seq w" "s_next_seq ?s = s_base_seq ?s + of_nat (length cur)"
    using h(1) by (simp_all add: seg_holds_def wal_next_seq_def)
  obtain fd where s3: "s3 = seg_reset fd (w_dir_fd w) (wal_next_seq w) (w_seg_capacity w)"
    "view k3 fd = replicate (w_seg_capacity w) 0" "wal_next_seq w \<noteq> 0" "WAL_REC_HEADER_SIZE \<le> w_seg_capacity w"
    using wal_seg_create_view [OF assms(2) cr [unfolded ok(2)]] unfolding nb(1) by blast
  have clean: "seg_clean (w_seg_capacity w) ?f cur" "seq_run (s_base_seq ?s) cur"
    using h(1,2,5) by (auto simp: seg_clean_def seg_holds_def)
  have nx: "wal_next_seq w = s_base_seq ?s + of_nat (length cur)" using nb(2) by (simp add: wal_next_seq_def)
  have s3f: "s_fd s3 = fd" "s_base_seq s3 = wal_next_seq w" "s_capacity s3 = w_seg_capacity w" "s_write_off s3 = 0"
    "s_next_seq s3 = wal_next_seq w" by (simp_all add: s3(1) seg_reset_def)
  have w': "w_active w' = s3" "w_seg_base w' = w_seg_base w @ [wal_next_seq w]" "w_seg_capacity w' = w_seg_capacity w"
    by (simp_all add: ok(4) nb(1))
  have "chained (w_seg_capacity w) (segs @ [(s_base_seq ?s, ?f, cur)]) (wal_next_seq w)"
    using h(3,4) clean nx assms(4) by (simp add: chained_append)
  moreover have "seg_holds s3 (view k3 fd) [] 0" unfolding s3 by (intro seg_holds_fresh) simp
  moreover have "length (w_seg_base w') \<le> WAL_MAX_SEGMENTS" using cnt by (simp add: w')
  ultimately show ?thesis
    using h(6) s3(2-4) by (simp add: log_holds_def w' s3f ok(3) wal_next_seq_def)
qed

text \<open>One append. \<open>entry_of\<close> is what is put into the log; the append either goes to the active
  segment or closes it and starts the next one.\<close>

definition entry_of :: "wal_t \<Rightarrow> wal_rec_t \<Rightarrow> bytes \<Rightarrow> entry" where
  "entry_of w r p = (r\<lparr>r_seq := wal_next_seq w\<rparr>, p)"

lemma log_holds_append:
  assumes "file_writes K view" "log_holds view w k segs cur m" "rec_fits r p" "length (rec_bytes r p) \<le> length scratch"
    and "wal_next_seq w \<noteq> 0" "wal_seg_append K (w_active w) r (Some p) scratch k = (RESULT_OK, s', r', k')"
  shows "log_holds view (w\<lparr>w_active := s', w_index := ix\<rparr>) k' segs (cur @ [entry_of w r p]) m"
    "s_next_seq s' = wal_next_seq w + 1"
proof -
  let ?s = "w_active w" let ?f = "view k (s_fd ?s)"
  have h: "seg_holds ?s ?f cur m" "zeros (drop (s_write_off ?s) ?f)" using assms(2) by (simp_all add: log_holds_def Let_def)
  have nz: "s_next_seq ?s \<noteq> 0" using assms(5) by (simp add: wal_next_seq_def)
  note app = wal_seg_append_holds [OF assms(1) h(1) assms(3,4) nz assms(6)]
  have s': "s_fd s' = s_fd ?s" "s_base_seq s' = s_base_seq ?s" "s_capacity s' = s_capacity ?s"
    and holds: "seg_holds s' (view k' (s_fd s')) (cur @ [entry_of w r p]) m"
    using app by (auto simp: entry_of_def wal_next_seq_def)
  note room = assms(4)
  have wo: "s_write_off ?s \<le> length ?f" using h(1) by (simp add: seg_holds_def)
  have le: "s_write_off ?s \<le> s_write_off s'" using h(1) holds by (simp add: seg_holds_def)
  have "drop (s_write_off s') (view k' (s_fd s')) = drop (s_write_off s') ?f"
    using wal_seg_append_behind [OF assms(1,3) room wo assms(6)] s'(1) by simp
  then have "zeros (drop (s_write_off s') (view k' (s_fd s')))"
    using h(2) le set_drop_subset_set_drop [OF le, of ?f] by auto
  with assms(2) holds s' show "log_holds view (w\<lparr>w_active := s', w_index := ix\<rparr>) k' segs (cur @ [entry_of w r p]) m"
    by (auto simp: log_holds_def Let_def)
  show "s_next_seq s' = wal_next_seq w + 1" using h(1) holds s'(2) by (simp add: seg_holds_def wal_next_seq_def)
qed

definition too_big :: "wal_t \<Rightarrow> wal_rec_t \<Rightarrow> bool" where
  "too_big w r \<longleftrightarrow> wal_rec_size (sint (r_len r)) = 0 \<or> wal_rec_size (sint (r_len r)) > int (w_seg_capacity w)"

lemma wal_append_too_big: "too_big w r \<Longrightarrow> wal_append K w r p scratch k = (RESULT_ERR ERR_INVALID 0, w, r, k)"
  by (auto simp: wal_append_def too_big_def Let_def)

lemma wal_append_holds:
  assumes laws: "file_writes K view" "file_flushes K view" "file_creates K view"
    and holds: "log_holds view w k segs cur m" and fits: "rec_fits r p" "length (rec_bytes r p) \<le> length scratch"
    and nz: "wal_next_seq w \<noteq> 0" and run: "wal_append K w r (Some p) scratch k = (RESULT_OK, w', r', k')"
  shows "(if w_seg_base w' = w_seg_base w then log_holds view w' k' segs (cur @ [entry_of w r p]) m
      else log_holds view w' k' (segs @ [(s_base_seq (w_active w), view k (s_fd (w_active w)), cur)]) [entry_of w r p] 0)
    \<and> wal_next_seq w' = wal_next_seq w + 1 \<and> w_seg_capacity w' = w_seg_capacity w"
proof -
  obtain res w1 k1 where room: "(if \<not> wal_seg_fits (w_active w) (sint (r_len r)) then wal_rollover K w k
      else (RESULT_OK, w, k)) = (res, w1, k1)" by (metis prod_cases3)
  obtain r2 s2 rr k2 where app: "wal_seg_append K (w_active w1) r (Some p) scratch k1 = (r2, s2, rr, k2)"
    by (metis prod_cases4)
  have ok: "res = RESULT_OK" "r2 = RESULT_OK" "w' = w1\<lparr>w_active := s2, w_index := wal_index_add (w_index w1) rr\<rparr>" "k' = k2"
    using run room app
    by (auto simp: wal_append_def Let_def result_ok_def split: if_splits result_t.splits)
  show ?thesis
  proof (cases "wal_seg_fits (w_active w) (sint (r_len r))")
    case True
    then have w1: "w1 = w" "k1 = k" using room by simp_all
    note step = log_holds_append [OF laws(1) holds fits nz app [unfolded w1 ok(2)]]
    show ?thesis using step(1) [of "wal_index_add (w_index w) rr"] step(2) by (simp add: ok w1 wal_next_seq_def [of "_\<lparr>w_active := _, w_index := _\<rparr>"])
  next
    case False
    then have ro: "wal_rollover K w k = (RESULT_OK, w1, k1)" using room ok(1) by simp
    have "\<not> too_big w r" using run wal_append_too_big [of w r K "Some p" scratch k] by auto
    then have "s_write_off (w_active w) \<noteq> 0"
      using False holds by (auto simp: too_big_def wal_seg_fits_def log_holds_def Let_def)
    then have "cur \<noteq> []" using holds by (auto simp: log_holds_def Let_def seg_holds_def)
    note roll = wal_rollover_holds [OF laws(2,3) holds this ro]
    then have h1: "log_holds view w1 k1 (segs @ [(s_base_seq (w_active w), view k (s_fd (w_active w)), cur)]) [] 0"
      and nx: "wal_next_seq w1 = wal_next_seq w" by simp_all
    then have nz1: "wal_next_seq w1 \<noteq> 0" using nz by simp
    note step = log_holds_append [OF laws(1) h1 fits nz1 app [unfolded ok(2)]]
    show ?thesis using step(1) [of "wal_index_add (w_index w1) rr"] step(2) roll nx
      by (simp add: ok entry_of_def wal_next_seq_def [of "_\<lparr>w_active := _, w_index := _\<rparr>"])
  qed
qed

section \<open>A run of the log\<close>

text \<open>Appends and flushes, as long as no system call fails: a record no segment could hold is
  refused and the run goes on. Besides the log and the kernel the run keeps what has been put
  into the closed segments and the active one, and how many of the latter are flushed.\<close>

type_synonym 'k log_state = "wal_t \<times> 'k \<times> closed_seg list \<times> entry list \<times> nat"

primrec wal_exec ::
    "'k kernel \<Rightarrow> ('k \<Rightarrow> int \<Rightarrow> bytes) \<Rightarrow> bytes \<Rightarrow> seg_op list \<Rightarrow> 'k log_state \<Rightarrow> 'k log_state option" where
  "wal_exec K view scratch [] st = Some st"
| "wal_exec K view scratch (x # xs) st =
     (case st of (w, k, segs, cur, m) \<Rightarrow>
        (case x of
           APPEND r p \<Rightarrow>
             (case wal_append K w r (Some p) scratch k of (res, w', r', k') \<Rightarrow>
                if res \<noteq> RESULT_OK then (if too_big w r then wal_exec K view scratch xs st else None)
                else if w_seg_base w' = w_seg_base w then
                  wal_exec K view scratch xs (w', k', segs, cur @ [entry_of w r p], m)
                else wal_exec K view scratch xs
                  (w', k', segs @ [(s_base_seq (w_active w), view k (s_fd (w_active w)), cur)], [entry_of w r p], 0))
         | SYNC \<Rightarrow>
             (case wal_sync K w k of (res, w', k') \<Rightarrow>
                if res \<noteq> RESULT_OK then None else wal_exec K view scratch xs (w', k', segs, cur, length cur))))"

lemma wal_exec_holds:
  assumes "file_writes K view" "file_flushes K view" "file_creates K view" "WAL_REC_MAX_SIZE \<le> length scratch"
  shows "log_holds view w k segs cur m \<Longrightarrow> \<forall>x \<in> set xs. op_ok x \<Longrightarrow> 0 < unat (wal_next_seq w) \<Longrightarrow>
    unat (wal_next_seq w) + length xs < 2 ^ 64 \<Longrightarrow>
    wal_exec K view scratch xs (w, k, segs, cur, m) = Some (w', k', segs', cur', m') \<Longrightarrow>
    log_holds view w' k' segs' cur' m' \<and> w_seg_capacity w' = w_seg_capacity w \<and> hd (w_seg_base w') = hd (w_seg_base w)"
proof (induction xs arbitrary: w k segs cur m)
  case Nil
  then show ?case by simp
next
  case (Cons x xs)
  have ne: "w_seg_base w \<noteq> []" using Cons.prems(1) by (simp add: log_holds_def Let_def)
  show ?case
  proof (cases x)
    case (APPEND r p)
    obtain res w1 r1 k1 where a: "wal_append K w r (Some p) scratch k = (res, w1, r1, k1)" by (metis prod_cases4)
    have fits: "rec_fits r p" using Cons.prems(2) APPEND by (simp add: op_ok_def)
    show ?thesis
    proof (cases "res = RESULT_OK")
      case True
      have nz: "wal_next_seq w \<noteq> 0" using Cons.prems(3) by auto
      have "length (rec_bytes r p) \<le> length scratch" using length_rec_bytes_max [OF fits] assms(4) by linarith
      note h = wal_append_holds [OF assms(1-3) Cons.prems(1) fits this nz a [unfolded True]]
      have nx: "unat (wal_next_seq w1) = unat (wal_next_seq w) + 1"
        using h Cons.prems(4) unat_add1_64 [of "wal_next_seq w"] by simp
      have base: "hd (w_seg_base w1) = hd (w_seg_base w)"
        using h ne Cons.prems(1) by (auto simp: log_holds_def Let_def hd_append split: if_splits)
      show ?thesis
      proof (cases "w_seg_base w1 = w_seg_base w")
        case same: True
        with h have "log_holds view w1 k1 segs (cur @ [entry_of w r p]) m" by simp
        from Cons.IH [OF this] nx base h Cons.prems(2,4,5) APPEND a True same show ?thesis by simp
      next
        case False
        with h have "log_holds view w1 k1 (segs @ [(s_base_seq (w_active w), view k (s_fd (w_active w)), cur)]) [entry_of w r p] 0"
          by simp
        from Cons.IH [OF this] nx base h Cons.prems(2,4,5) APPEND a True False show ?thesis by simp
      qed
    next
      case False
      then have "wal_exec K view scratch xs (w, k, segs, cur, m) = Some (w', k', segs', cur', m')"
        using Cons.prems(5) APPEND a by (auto split: if_splits)
      from Cons.IH [OF Cons.prems(1) _ Cons.prems(3) _ this] Cons.prems(2,4) show ?thesis by simp
    qed
  next
    case SYNC
    obtain res s1 k1 where sy: "wal_seg_sync K (w_active w) k = (res, s1, k1)" by (metis prod_cases3)
    have ok: "res = RESULT_OK"
      and go: "wal_exec K view scratch xs (w\<lparr>w_active := s1\<rparr>, k1, segs, cur, length cur) = Some (w', k', segs', cur', m')"
      using Cons.prems(5) SYNC sy by (auto simp: wal_sync_def split: if_splits)
    have "seg_holds (w_active w) (view k (s_fd (w_active w))) cur m" using Cons.prems(1) by (simp add: log_holds_def Let_def)
    note s = wal_seg_sync_holds [OF assms(2) this sy]
    have off: "s_write_off s1 = s_write_off (w_active w)" "s_next_seq s1 = s_next_seq (w_active w)"
      using sy by (auto simp: wal_seg_sync_def Let_def split: if_splits prod.splits)
    have "log_holds view (w\<lparr>w_active := s1\<rparr>) k1 segs cur (length cur)"
      using Cons.prems(1) s ok off by (auto simp: log_holds_def Let_def)
    from Cons.IH [OF this _ _ _ go] Cons.prems(2-4) off show ?thesis by (simp add: wal_next_seq_def)
  qed
qed

section \<open>What the files say\<close>

abbreviation log_entries :: "closed_seg list \<Rightarrow> entry list \<Rightarrow> entry list" where
  "log_entries segs cur \<equiv> concat (map (snd \<circ> snd) segs) @ cur"

lemma scan_clean_seg:
  assumes "seq_run b es" "seg_clean cap f es"
  shows "scan_ref (take cap f) 0 b = (map read_back es, length (disk es), False)"
proof -
  define n where "n = length (disk es)"
  have "take cap f = take n (take cap f) @ drop n (take cap f)"
    by (rule append_take_drop_id [symmetric])
  also have "take n (take cap f) = disk es" using assms(2) by (simp add: seg_clean_def n_def min_def)
  finally have f: "take cap f = [] @ disk es @ drop n (take cap f)" by simp
  have "zeros (drop n (take cap f))"
    using assms(2) set_take_subset [of "cap - n" "drop n f"] by (auto simp: seg_clean_def n_def drop_take)
  from scan_ref_clean [OF this, of "disk es" "b + of_nat (length es)"] f
  have "scan_ref (take cap f) (length (disk es)) (b + of_nat (length es)) = ([], length (disk es), False)" by simp
  then show ?thesis using scan_ref_run [OF assms(1), of "[]" "drop n (take cap f)"] unfolding f [symmetric] by simp
qed

lemma scan_log_chained:
  "chained cap segs base \<Longrightarrow> \<forall>(b, f, es) \<in> set segs. files (wal_seg_name b) = f \<Longrightarrow>
     scan_ref (take cap (files (wal_seg_name base))) 0 base = (rs, e, t) \<Longrightarrow>
     scan_log files cap (map fst segs @ [base]) (hd (map fst segs @ [base])) torn
       = Some (map read_back (concat (map (snd \<circ> snd) segs)) @ rs, base + of_nat (length rs), t)"
proof (induction cap segs base arbitrary: torn rule: chained.induct)
  case (2 cap b f es segs base)
  have clean: "scan_ref (take cap (files (wal_seg_name b))) 0 b = (map read_back es, length (disk es), False)"
    using scan_clean_seg "2.prems"(1,2) by simp
  have "hd (map fst segs @ [base]) = b + of_nat (length es)" "map fst segs @ [base] \<noteq> []"
    using "2.prems"(1) by (auto split: list.splits)
  with "2.IH" [of torn] "2.prems" clean show ?case by simp
qed simp

section \<open>Flushed records survive\<close>

lemma log_holds_fresh:
  assumes "w_seg_base w = [b]" "w_active w = seg_reset fd dir b cap" "w_seg_capacity w = cap"
    and "view k fd = replicate cap 0" "WAL_REC_HEADER_SIZE \<le> cap" "b \<noteq> 0"
  shows "log_holds view w k [] [] 0"
proof -
  have "seg_holds (seg_reset fd dir b cap) (view k fd) [] 0" using assms(4) by (intro seg_holds_fresh) simp
  moreover have "s_fd (seg_reset fd dir b cap) = fd" "s_base_seq (seg_reset fd dir b cap) = b"
    "s_capacity (seg_reset fd dir b cap) = cap" by (simp_all add: seg_reset_def)
  ultimately show ?thesis using assms by (simp add: log_holds_def)
qed

lemma chained_bases:
  "chained cap segs base \<Longrightarrow> seq_run base cur \<Longrightarrow> b = hd (map fst segs @ [base]) \<Longrightarrow>
     seq_run b (log_entries segs cur) \<and> base = b + of_nat (length (concat (map (snd \<circ> snd) segs)))
       \<and> (base \<noteq> 0 \<longrightarrow> b \<noteq> 0 \<and> 0 \<notin> set (map fst segs @ [base]))"
proof (induction cap segs base arbitrary: b rule: chained.induct)
  case (2 cap b0 f es segs base)
  have "hd (map fst segs @ [base]) = b0 + of_nat (length es)" using "2.prems"(1) by (auto split: list.splits)
  with "2.IH" [OF _ "2.prems"(2) refl] "2.prems" show ?case by (auto simp: seq_run_append)
qed simp

lemma chained_sorted:
  "chained cap segs base \<Longrightarrow> base \<noteq> 0 \<Longrightarrow>
     unat (hd (map fst segs @ [base])) + length (concat (map (snd \<circ> snd) segs)) < 2 ^ 64 \<Longrightarrow>
     sorted_wrt (<) (map fst segs @ [base]) \<and> unat base = unat (hd (map fst segs @ [base])) + length (concat (map (snd \<circ> snd) segs))"
proof (induction cap segs base rule: chained.induct)
  case (2 cap b f es segs base)
  have hd: "hd (map fst segs @ [base]) = b + of_nat (length es)" using "2.prems"(1) by (auto split: list.splits)
  have sum: "unat (b + of_nat (length es)) = unat b + length es"
    using "2.prems"(3) unat_of_nat64 [of "unat b + length es"] by simp
  have ih: "sorted_wrt (<) (map fst segs @ [base])"
    "unat base = unat b + length es + length (concat (map (snd \<circ> snd) segs))"
    using "2.IH" "2.prems" hd sum by (simp_all add: o_def)
  have "0 < length es" using "2.prems"(1) by simp
  then have "b < hd (map fst segs @ [base])" using hd sum by (simp add: word_less_nat_alt)
  moreover have "x \<in> set (map fst segs @ [base]) \<Longrightarrow> hd (map fst segs @ [base]) \<le> x" for x
    using ih(1) by (cases "map fst segs @ [base]") auto
  ultimately have "\<forall>x \<in> set (map fst segs @ [base]). b < x" by (meson less_le_trans)
  with ih show ?case by (simp add: o_def)
qed simp

lemma wal_exec_count:
  "wal_exec K view scratch xs (w, k, segs, cur, m) = Some (w', k', segs', cur', m') \<Longrightarrow>
     length (log_entries segs' cur') \<le> length (log_entries segs cur) + length xs"
proof (induction xs arbitrary: w k segs cur m)
  case (Cons x xs)
  show ?case
  proof (cases x)
    case (APPEND r p)
    obtain res w1 r1 k1 where "wal_append K w r (Some p) scratch k = (res, w1, r1, k1)" by (metis prod_cases4)
    with Cons.prems APPEND show ?thesis
      by (auto dest!: Cons.IH split: if_splits)
  next
    case SYNC
    with Cons.prems show ?thesis by (auto dest!: Cons.IH split: if_splits prod.splits)
  qed
qed simp


text \<open>Two records in a log whose segments hold one each: the second is put into a segment of its
  own, and both come back.\<close>

definition small_log :: wal_t where
  "small_log = \<lparr>w_dir_fd = 3, w_seg_capacity = 64, w_active = seg_reset 10 3 1 64, w_seg_base = [1], w_index = wal_index_init\<rparr>"

definition small_files :: mem_fs where
  "small_files = \<lparr>mf_files = [(wal_seg_name 1, replicate 64 0)], mf_listed = False\<rparr>"

abbreviation "two_appends \<equiv> [APPEND rec_example [1, 2, 3], APPEND rec_example [1, 2, 3], SYNC]"

lemma small_run:
  assumes "64 \<le> length scratch"
  obtains w k r f1 where "wal_exec mem_kernel mf_view scratch two_appends (small_log, small_files, [], [], 0)
      = Some (w, k, [(1, f1, [entry_of small_log rec_example [1, 2, 3]])], [(r, [1, 2, 3])], 1)"
    "w_seg_base w = [1, 2]" "map fst (mf_files k) = [wal_seg_name 1, wal_seg_name 2]" "snd (mf_files k ! 0) = f1"
    "s_base_seq (w_active w) = 2" "s_fd (w_active w) = 11" "mf_listed k = False"
proof -
  let ?r = rec_example and ?p = "[1, 2, 3] :: bytes" let ?s = "w_active small_log"
  have fits: "rec_fits ?r ?p" "length (rec_bytes ?r ?p) = 64" by (simp_all add: rec_fits_def rec_example_def)
  have size: "wal_rec_size (sint (r_len ?r)) = 64" using wal_rec_size_fits [OF fits(1)] fits(2) by simp
  define b1 where "b1 = rec_bytes (?r\<lparr>r_seq := 1\<rparr>) ?p"
  define s1 where "s1 = ?s\<lparr>s_write_off := 64, s_next_seq := 2\<rparr>"
  define w1 where "w1 = small_log\<lparr>w_active := s1, w_index := wal_index_add (w_index small_log) (rec_written (?r\<lparr>r_seq := 1\<rparr>) ?p)\<rparr>"
  define k1 where "k1 = mf_store 0 (write_at 0 b1 (replicate 64 0)) small_files"
  have a1: "wal_append mem_kernel small_log ?r (Some ?p) scratch small_files = (RESULT_OK, w1, rec_written (?r\<lparr>r_seq := 1\<rparr>) ?p, k1)"
    using mem_seg_append [of ?s small_files 0 ?r ?p scratch] fits size assms
    by (simp add: wal_append_def wal_seg_fits_def Let_def result_ok_def small_log_def seg_reset_def mf_index_eq
        small_files_def w1_def s1_def k1_def b1_def)
  have k1f: "mf_files k1 = [(wal_seg_name 1, write_at 0 b1 (replicate 64 0))]" "mf_listed k1 = False"
    by (simp_all add: k1_def mf_store_def small_files_def)
  have n12: "wal_seg_name 1 \<noteq> wal_seg_name 2" using seg_name_inj [of 1 2] by auto
  let ?k2 = "k1\<lparr>mf_files := mf_files k1 @ [(wal_seg_name 2, replicate 64 0)]\<rparr>"
  let ?s2 = "seg_reset 11 3 2 64"
  have roll: "wal_rollover mem_kernel w1 k1 = (RESULT_OK, w1\<lparr>w_active := ?s2, w_seg_base := [1, 2]\<rparr>, ?k2)"
    using mem_rollover [of w1 k1] n12
    by (simp add: w1_def s1_def small_log_def seg_reset_def wal_next_seq_def k1f mf_find_Cons del: mf_find.simps(2))
  have "\<exists>w2 r2 k2. wal_append mem_kernel w1 ?r (Some ?p) scratch k1 = (RESULT_OK, w2, r2, k2) \<and> w_seg_base w2 = [1, 2]
      \<and> w_active w2 = ?s2\<lparr>s_write_off := 64, s_next_seq := 3\<rparr> \<and> map fst (mf_files k2) = [wal_seg_name 1, wal_seg_name 2]
      \<and> snd (mf_files k2 ! 0) = snd (mf_files k1 ! 0) \<and> mf_listed k2 = False"
    using roll mem_seg_append [of ?s2 ?k2 1 ?r ?p scratch] fits size assms
    by (simp add: wal_append_def wal_seg_fits_def Let_def result_ok_def mf_index_eq k1f mf_store_def seg_reset_def
        w1_def s1_def small_log_def)
  then obtain w2 r2 k2 where a2: "wal_append mem_kernel w1 ?r (Some ?p) scratch k1 = (RESULT_OK, w2, r2, k2)"
    "w_seg_base w2 = [1, 2]" "w_active w2 = ?s2\<lparr>s_write_off := 64, s_next_seq := 3\<rparr>"
    "map fst (mf_files k2) = [wal_seg_name 1, wal_seg_name 2]" "snd (mf_files k2 ! 0) = snd (mf_files k1 ! 0)" "mf_listed k2 = False"
    by (elim exE conjE) (rule that)
  have w1f: "w_seg_base w1 = [1]" "s_base_seq (w_active w1) = 1" "s_fd (w_active w1) = 10" "w_seg_base small_log = [1]"
    by (simp_all add: w1_def s1_def small_log_def seg_reset_def)
  have "mf_view k1 10 = snd (mf_files k1 ! 0)" using mf_view_index [of 10 k1 0] by (simp add: mf_index_eq k1f)
  with a1 a2 w1f that show ?thesis by (simp add: wal_sync_def mem_seg_sync seg_reset_def entry_of_def)
qed


end
