(* ===== verification/Wal_Torn.thy ===== *)
theory Wal_Torn
  imports Wal_Crash
begin

text \<open>
  Where surviving a crash ends: a torn tail that recovery leaves in place and a rollover buries.
\<close>

section \<open>A torn tail that a rollover buries\<close>

lemma wal_append_rolls_over:
  assumes "wal_append K w r p scratch k = (RESULT_OK, w', r', k')" "\<not> wal_seg_fits (w_active w) (sint (r_len r))"
  shows "\<exists>next_base. w_seg_base w' = w_seg_base w @ [next_base] \<and> next_base \<noteq> 0 \<and> w_seg_capacity w' = w_seg_capacity w
    \<and> length (w_seg_base w) < WAL_MAX_SEGMENTS"
  using assms
  by (auto simp: wal_append_def wal_rollover_def wal_sync_def wal_seg_create_def Let_def
      split: if_splits prod.splits)

text \<open>C34. What recovery leaves in place can lock the log. When recovery dropped a torn tail and the
  first append afterwards does not fit what is left of the segment, the dropped bytes stay behind
  in a segment that is no longer the last, and every later opening of the log refuses it as
  damaged in the middle, whatever was appended since: the bytes are overwritten only by an append
  that stays in the segment.\<close>

theorem torn_tail_then_rollover_refuses:
  assumes "file_reads K view" "buffer_fits (s_capacity s0) sl" "s_capacity s0 \<le> length (view k (s_fd s0))"
    and "wal_seg_recover K s0 sl cb ctx k = (RESULT_OK, s, Some scan, ctx', k1)" "sc_torn scan"
    and "w_active w = s" "w_seg_base w = pre @ [s_base_seq s0]" "w_seg_capacity w = s_capacity s0"
    and "\<not> wal_seg_fits s (sint (r_len r))" "wal_append K w r p scratch k1 = (RESULT_OK, w', r', k2)"
    and "files (wal_seg_name (s_base_seq s0)) = view k (s_fd s0)" "bases = w_seg_base w' @ later"
    and "sorted_wrt (<) bases" "0 \<notin> set bases" "length bases \<le> WAL_MAX_SEGMENTS"
    and "\<forall>b \<in> set bases. w_seg_capacity w \<le> length (files (wal_seg_name b))" "WAL_REC_HEADER_SIZE \<le> w_seg_capacity w"
    and "file_reads K' view'" "log_on_disk K' view' files still" "buffer_fits (w_seg_capacity w) (length scratch')"
    and "sys_openat K' AT_FDCWD path OPEN_DIRECTORY j = (Inr dfd, j1)" "lists_dir K' dfd (length scratch') still dss j1"
    and "distinct (listed_bases dss)" "set (listed_bases dss) = set bases"
    and "wal_open K' w1 path (w_seg_capacity w) scratch' cb' c0 j = Some (res, w2, out, c1, j2)"
  shows "res \<noteq> RESULT_OK"
proof -
  obtain rs e t where sr: "scan_ref (take (s_capacity s0) (view k (s_fd s0))) 0 (s_base_seq s0) = (rs, e, t)" by (metis prod_cases3)
  then have t: "t" using wal_seg_recover_sound [OF assms(1-4)] assms(5) by auto
  obtain nb where w': "w_seg_base w' = pre @ [s_base_seq s0] @ [nb]"
    using wal_append_rolls_over [OF assms(10)] assms(6,7,9) by auto
  then have bases: "bases = pre @ s_base_seq s0 # nb # later" "bases \<noteq> []" using assms(12) by simp_all
  have none: "scan_log files (w_seg_capacity w) bases (hd bases) False = None"
    using scan_log_torn [of "w_seg_capacity w" files "s_base_seq s0" rs e "nb # later" pre] sr t assms(8,11)
    by (simp add: bases)
  have "WAL_REC_HEADER_SIZE \<le> length scratch'" using assms(20) by (simp add: buffer_fits_def)
  from wal_open_segments [OF assms(21-24,13) bases(2) assms(15,17) this assms(25)]
  obtain wa j3 e1 n t1 where segs: "open_segs K' (length scratch') cb' bases wa (hd bases) 0 False c0 j3 = (res, w2, e1, n, t1, c1, j2)"
    and wa: "w_seg_capacity wa = w_seg_capacity w" "still j3" by auto
  from open_segs_spec [OF assms(18-20), of wa bases, unfolded wa(1), OF assms(17,14,16) wa(2) segs refl] none show ?thesis by auto
qed

text \<open>A segment of 128 bytes with one record and 72 bytes of a stale one: recovery keeps the record
  and drops the rest, a record of 80 bytes starts a new segment, and the log opens no more.\<close>

definition torn_files :: mem_fs where
  "torn_files = \<lparr>mf_files = [(wal_seg_name 1, rec_bytes (rec_at 1 7) [] @ replicate 72 0xFF)], mf_listed = False\<rparr>"

lemma stale_is_torn:
  "scan_ref (rec_bytes (rec_at 1 7) [] @ replicate 72 0xFF) 0 1 = ([read_back (rec_at 1 7, [])], 56, True)"
proof -
  have run: "seq_run 1 [(rec_at 1 7, [] :: bytes)]" by (simp add: rec_at_def rec_fits_def)
  have hdr: "r_seq (rec_of (replicate 72 0xFF)) = 0xFFFFFFFFFFFFFFFF" "r_len (rec_of (replicate 72 0xFF)) = 0xFFFFFFFF"
    by code_simp+
  have "scan_ref (rec_bytes (rec_at 1 7) [] @ replicate 72 0xFF) 56 2 = ([], 56, True)"
    by (subst scan_ref.simps) (simp add: Let_def wal_rec_is_end_def hdr wal_rec_size_def)
  then show ?thesis using scan_ref_run [OF run, of "[]" "replicate 72 0xFF"] by simp
qed

theorem torn_tail_then_rollover_refuses_witness:
  "\<exists>w k p w' r' k2 res w2 out c j2.
     wal_seg_recover mem_kernel (seg_reset 10 3 1 128) 1048632 (\<lambda>r c. c) () torn_files
       = (RESULT_OK, w_active w, Some \<lparr>sc_records = 1, sc_last_seq = 1, sc_end_off = 56, sc_torn = True\<rparr>, (), k)
     \<and> wal_append mem_kernel w (rec_at 0 7\<lparr>r_len := 24\<rparr>) (Some p) (replicate 80 0) k = (RESULT_OK, w', r', k2)
     \<and> wal_open mem_kernel wal_blank [46, 0] 128 (replicate 1048632 0) (\<lambda>r c. c) () k2 = Some (res, w2, out, c, j2)
     \<and> res \<noteq> RESULT_OK"
proof -
  let ?s0 = "seg_reset 10 3 1 128" and ?r = "rec_at 0 7\<lparr>r_len := 24\<rparr>" and ?p = "replicate 24 0 :: bytes"
  let ?sc = "replicate 1048632 0 :: bytes" and ?f = "rec_bytes (rec_at 1 7) [] @ replicate 72 0xFF"
  have f: "length ?f = 128" by simp
  have view: "mf_view torn_files 10 = ?f" by (simp add: torn_files_def mf_view_def mf_index_def)
  have s0: "s_fd ?s0 = 10" "s_capacity ?s0 = 128" "s_base_seq ?s0 = 1" by (simp_all add: seg_reset_def)
  define s where "s = ?s0\<lparr>s_next_seq := 2, s_durable_seq := 1, s_write_off := 56, s_synced_off := 56\<rparr>"
  define scan where "scan = \<lparr>sc_records = 1, sc_last_seq = 1, sc_end_off = 56, sc_torn = True\<rparr>"
  have take: "take 128 ?f = ?f" using f by (intro take_all) simp
  have rc: "wal_seg_recover mem_kernel ?s0 1048632 (\<lambda>r c. c) () torn_files = (RESULT_OK, s, Some scan, (), torn_files)"
    using mem_seg_recover [of ?s0 1048632 torn_files "[read_back (rec_at 1 7, [])]" 56 True "\<lambda>r c. c" "()"] stale_is_torn f
    unfolding s0 view take by (simp add: buffer_fits_def s_def scan_def s0 del: length_rec_bytes)
  define w where "w = \<lparr>w_dir_fd = 3, w_seg_capacity = 128, w_active = s, w_seg_base = [1], w_index = wal_index_init\<rparr>"
  have n12: "wal_seg_name 1 \<noteq> wal_seg_name 2" using seg_name_inj [of 1 2] by auto
  have roll: "wal_rollover mem_kernel w torn_files = (RESULT_OK, w\<lparr>w_active := seg_reset 11 3 2 128, w_seg_base := [1, 2]\<rparr>,
      torn_files\<lparr>mf_files := mf_files torn_files @ [(wal_seg_name 2, replicate 128 0)]\<rparr>)"
    using mem_rollover [of w torn_files] n12
    by (simp add: w_def s_def seg_reset_def wal_next_seq_def torn_files_def mf_find_Cons del: mf_find.simps(2))
  have fits: "rec_fits ?r ?p" "length (rec_bytes ?r ?p) = 80" by (simp_all add: rec_fits_def rec_at_def)
  have size: "wal_rec_size (sint (r_len ?r)) = 80" using wal_rec_size_fits [OF fits(1)] fits(2) by simp
  have full: "\<not> wal_seg_fits s (sint (r_len ?r))" using size by (simp add: wal_seg_fits_def s_def seg_reset_def)
  define k1 where "k1 = torn_files\<lparr>mf_files := mf_files torn_files @ [(wal_seg_name 2, replicate 128 0)]\<rparr>"
  have k1: "mf_files k1 = [(wal_seg_name 1, ?f), (wal_seg_name 2, replicate 128 0)]" "\<not> mf_listed k1"
    by (simp_all add: k1_def torn_files_def)
  define y where "y = write_at 0 (rec_bytes (?r\<lparr>r_seq := 2\<rparr>) ?p) (replicate 128 0)"
  have y: "length y = 128" unfolding y_def by (subst length_write_at) (auto dest: arg_cong [where f = length])
  have "wal_seg_append mem_kernel (seg_reset 11 3 2 128) ?r (Some ?p) (replicate 80 0) k1 =
      (RESULT_OK, (seg_reset 11 3 2 128)\<lparr>s_write_off := 80, s_next_seq := 3\<rparr>, rec_written (?r\<lparr>r_seq := 2\<rparr>) ?p, mf_store 1 y k1)"
    using mem_seg_append [of "seg_reset 11 3 2 128" k1 1 ?r ?p "replicate 80 0"] fits
    by (simp add: mf_index_eq k1 seg_reset_def y_def)
  then have "\<exists>w' r' k2 y. wal_append mem_kernel w ?r (Some ?p) (replicate 80 0) torn_files = (RESULT_OK, w', r', k2)
      \<and> w_seg_base w' = [1, 2] \<and> mf_files k2 = [(wal_seg_name 1, ?f), (wal_seg_name 2, y)] \<and> length y = 128 \<and> \<not> mf_listed k2"
    using roll full size y k1
    by (simp add: wal_append_def Let_def result_ok_def mf_store_def w_def k1_def [symmetric])
  then obtain w' r' k2 y where a: "wal_append mem_kernel w ?r (Some ?p) (replicate 80 0) torn_files = (RESULT_OK, w', r', k2)"
    and w': "w_seg_base w' = [1, 2]" and k2: "mf_files k2 = [(wal_seg_name 1, ?f), (wal_seg_name 2, y)]" "length y = 128"
      "\<not> mf_listed k2" by (elim exE conjE) (rule that)
  obtain res w2 out c j2 where op: "wal_open mem_kernel wal_blank [46, 0] 128 ?sc (\<lambda>r c. c) () k2 = Some (res, w2, out, c, j2)"
    using wal_open_returns [OF mem_kernel_dir_finite, of wal_blank "[46, 0]" 128 ?sc "\<lambda>r c. c" "()" k2] by blast
  have files: "mem_files k2 (wal_seg_name 1) = ?f" "mem_files k2 (wal_seg_name 2) = y"
    using n12 by (simp_all add: mem_files_def k2 mf_find_Cons del: mf_find.simps(2))
  have list: "lists_dir mem_kernel 3 (length ?sc) (\<lambda>k'. mf_files k' = mf_files k2) [map mf_dirent [wal_seg_name 1, wal_seg_name 2]] k2"
    using mem_lists_dir [of k2 "length ?sc" 3] k2 by (simp del: lists_dir.simps)
  have bases: "listed_bases [map mf_dirent [wal_seg_name 1, wal_seg_name 2]] = [1, 2]"
    by (simp add: List.map_filter_def mem_dirent_base)
  have dir: "sys_openat mem_kernel AT_FDCWD [46, 0] OPEN_DIRECTORY k2 = (Inr 3, k2)" by (simp add: mem_kernel_def)
  have wf: "w_active w = s" "w_seg_base w = [] @ [s_base_seq ?s0]" "w_seg_capacity w = s_capacity ?s0"
    by (simp_all add: w_def s0)
  have buried: "mem_files k2 (wal_seg_name (s_base_seq ?s0)) = mf_view torn_files (s_fd ?s0)" by (simp only: s0 view files)
  have caps: "\<forall>b \<in> set [1, 2]. w_seg_capacity w \<le> length (mem_files k2 (wal_seg_name b))" using files f k2(2) by (simp add: w_def)
  have cap: "s_capacity ?s0 \<le> length (mf_view torn_files (s_fd ?s0))" using f by (simp only: s0 view)
  have two: "[1, 2] = w_seg_base w' @ []" by (simp add: w')
  have op': "wal_open mem_kernel wal_blank [46, 0] (w_seg_capacity w) ?sc (\<lambda>r c. c) () k2 = Some (res, w2, out, c, j2)"
    using op by (simp add: w_def)
  have "res \<noteq> RESULT_OK"
    by (rule torn_tail_then_rollover_refuses [OF mem_kernel_reads _ cap rc _ wf full a buried two _ _ _ caps _ mem_kernel_reads
          mem_log_on_disk _ dir list _ _ op']) (simp_all add: bases mem_dirent_base scan_def w_def buffer_fits_def)
  with rc a op show ?thesis
    by (intro exI [of _ w] exI [of _ torn_files] exI [of _ ?p] exI [of _ w'] exI [of _ r'] exI [of _ k2] exI [of _ res]
        exI [of _ w2] exI [of _ out] exI [of _ c] exI [of _ j2]) (simp add: scan_def w_def)
qed

end
