(* ===== verification/Wal_Read.thy ===== *)
theory Wal_Read
  imports Wal
begin

text \<open>
  The rest of \<^verbatim>\<open>src/wal/wal.c\<close>: retention, which unlinks whole old segments, and read
  cursors, which copy whole records out of the log. The results show that retention removes
  nothing a caller still needs, and that a cursor hands out whole records with consecutive
  sequences and nothing past its limit.
\<close>

section \<open>Retention\<close>

definition wal_retain_mark :: "wal_t \<Rightarrow> int \<Rightarrow> u64" where
  "wal_retain_mark w keep_segments =
     (if keep_segments \<le> 0 \<or> int (length (w_seg_base w)) \<le> keep_segments then 0
      else w_seg_base w ! (length (w_seg_base w) - nat keep_segments))"

text \<open>How many leading segments can go.\<close>

fun retain_drop :: "u64 \<Rightarrow> u64 list \<Rightarrow> nat" where
  "retain_drop keep_from (a # b # bs) = (if b \<le> keep_from then Suc (retain_drop keep_from (b # bs)) else 0)"
| "retain_drop keep_from _ = 0"

text \<open>Unlinking in order; the number done when a call fails, with its result.\<close>

primrec retain_unlink :: "'k kernel \<Rightarrow> int \<Rightarrow> u64 list \<Rightarrow> nat \<Rightarrow> 'k \<Rightarrow> result_t \<times> nat \<times> 'k" where
  "retain_unlink K dir_fd [] i k = (RESULT_OK, i, k)"
| "retain_unlink K dir_fd (b # bs) i k =
     (let (r, k) = os_unlinkat K dir_fd (wal_seg_name b) k in
      if \<not> result_ok r then (r, i, k) else retain_unlink K dir_fd bs (Suc i) k)"

definition wal_retain :: "'k kernel \<Rightarrow> wal_t \<Rightarrow> u64 \<Rightarrow> 'k \<Rightarrow> result_t \<times> wal_t \<times> nat \<times> 'k" where
  "wal_retain K w keep_from k =
     (let n = retain_drop keep_from (w_seg_base w) in
      if n = 0 then (RESULT_OK, w, 0, k)
      else let (r, i, k) = retain_unlink K (w_dir_fd w) (take n (w_seg_base w)) 0 k in
      if \<not> result_ok r then (r, w\<lparr>w_seg_base := drop i (w_seg_base w)\<rparr>, i, k)
      else let w = w\<lparr>w_seg_base := drop n (w_seg_base w)\<rparr>;
               (r, k) = os_fsync K (w_dir_fd w) k in
      if \<not> result_ok r then (r, w, 0, k) else (RESULT_OK, w, n, k))"

section \<open>Cursors\<close>

record wal_cursor_t =
  c_fd :: int
  c_seg_base :: u64
  c_off :: nat
  c_next_seq :: u64

primrec seg_index_below :: "u64 list \<Rightarrow> nat \<Rightarrow> u64 \<Rightarrow> nat option" where
  "seg_index_below bases 0 sq = None"
| "seg_index_below bases (Suc i) sq = (if bases ! i \<le> sq then Some i else seg_index_below bases i sq)"

definition seg_index_of :: "wal_t \<Rightarrow> u64 \<Rightarrow> nat option" where
  "seg_index_of w sq = seg_index_below (w_seg_base w) (length (w_seg_base w)) sq"

definition cursor_open_seg ::
    "'k kernel \<Rightarrow> wal_t \<Rightarrow> wal_cursor_t \<Rightarrow> u64 \<Rightarrow> 'k \<Rightarrow> result_t \<times> wal_cursor_t \<times> 'k" where
  "cursor_open_seg K w c base k =
     (let (r, fd, k) = os_openat K (w_dir_fd w) (wal_seg_name base) OPEN_RDONLY k in
      if \<not> result_ok r then (r, c, k)
      else let k = (if c_fd c \<ge> 0 then snd (os_close K (c_fd c) k) else k)
           in (RESULT_OK, c\<lparr>c_fd := fd, c_seg_base := base, c_off := 0\<rparr>, k))"

definition wal_cursor_init :: wal_cursor_t where
  "wal_cursor_init = \<lparr>c_fd = -1, c_seg_base = 0, c_off = 0, c_next_seq = 0\<rparr>"

definition wal_cursor_close :: "'k kernel \<Rightarrow> wal_cursor_t \<Rightarrow> 'k \<Rightarrow> result_t \<times> wal_cursor_t \<times> 'k" where
  "wal_cursor_close K c k =
     (let (r, k) = (if c_fd c \<ge> 0 then os_close K (c_fd c) k else (RESULT_OK, k))
      in (r, wal_cursor_init, k))"

text \<open>Walking headers until the wanted sequence is next.\<close>

function cursor_skip ::
    "'k kernel \<Rightarrow> wal_cursor_t \<Rightarrow> u64 \<Rightarrow> 'k \<Rightarrow> result_t \<times> wal_cursor_t \<times> 'k" where
  "cursor_skip K c sq k =
     (if c_next_seq c < sq then
        (let (r, got, k) = os_pread_full K (c_fd c) WAL_REC_HEADER_SIZE (c_off c) k in
         if \<not> result_ok r then (r, c, k)
         else if length got < WAL_REC_HEADER_SIZE \<or> wal_rec_is_end (rec_of got) then
           (RESULT_ERR ERR_STORAGE 0, c, k)
         else let size' = wal_rec_size (sint (r_len (rec_of got))) in
         if size' = 0 \<or> r_seq (rec_of got) \<noteq> c_next_seq c then (RESULT_ERR ERR_STORAGE 0, c, k)
         else cursor_skip K (c\<lparr>c_off := c_off c + nat size', c_next_seq := c_next_seq c + 1\<rparr>) sq k)
      else (RESULT_OK, c, k))"
  by pat_completeness auto

lemma unat_succ_less: "x < (y :: u64) \<Longrightarrow> unat y - unat (x + 1) < unat y - unat x"
proof -
  assume "x < y"
  then have "unat x < unat y" by (simp add: word_less_nat_alt)
  then have "unat (x + 1) = unat x + 1" using unat_less64 [of y] by (intro unat_add1_64) simp
  with \<open>unat x < unat y\<close> show ?thesis by simp
qed

termination cursor_skip
  by (relation "measure (\<lambda>(K, c, sq, k). unat sq - unat (c_next_seq c))") (auto intro: unat_succ_less)

declare cursor_skip.simps [simp del]

definition wal_cursor_seek ::
    "'k kernel \<Rightarrow> wal_t \<Rightarrow> wal_cursor_t \<Rightarrow> u64 \<Rightarrow> nat \<Rightarrow> 'k \<Rightarrow> result_t \<times> wal_cursor_t \<times> 'k" where
  "wal_cursor_seek K w c sq scratch_len k =
     (if scratch_len < WAL_REC_HEADER_SIZE then (RESULT_ERR ERR_INVALID 0, c, k)
      else if sq < wal_first_seq w \<or> sq > wal_next_seq w then (RESULT_ERR ERR_INVALID 0, c, k)
      else case seg_index_of w sq of
        None \<Rightarrow> (RESULT_ERR ERR_INVALID 0, c, k)
      | Some idx \<Rightarrow>
          (let (r, c, k) = cursor_open_seg K w c (w_seg_base w ! idx) k in
           if \<not> result_ok r then (r, c, k)
           else cursor_skip K (c\<lparr>c_next_seq := w_seg_base w ! idx\<rparr>) sq k))"

text \<open>The records inside one read: where the whole ones end, and the sequence after them.\<close>

function cursor_walk :: "bytes \<Rightarrow> u64 \<Rightarrow> nat \<Rightarrow> u64 \<Rightarrow> result_t \<times> nat \<times> u64" where
  "cursor_walk buf limit at next_seq =
     (if at < length buf then
        (if length buf - at < WAL_REC_HEADER_SIZE then (RESULT_OK, at, next_seq)
         else let r = rec_of (drop at buf) in
         if wal_rec_is_end r then (RESULT_OK, at, next_seq)
         else if r_seq r \<noteq> next_seq then (RESULT_ERR ERR_STORAGE 0, at, next_seq)
         else if next_seq > limit then (RESULT_OK, at, next_seq)
         else let size' = wal_rec_size (sint (r_len r)) in
         if size' = 0 then (RESULT_ERR ERR_STORAGE 0, at, next_seq)
         else if int at + size' > int (length buf) then (RESULT_OK, at, next_seq)
         else cursor_walk buf limit (at + nat size') (next_seq + 1))
      else (RESULT_OK, at, next_seq))"
  by pat_completeness auto

termination cursor_walk
proof (relation "measure (\<lambda>(buf, l, at, n). length buf - at)", goal_cases)
  case 1
  then show ?case by simp
next
  case (2 buf limit at next_seq r size')
  then have "56 \<le> size'" using wal_rec_size_min by blast
  with 2(1) have "0 < nat size'" "at < length buf" by simp_all
  then show ?case by simp
qed

declare cursor_walk.simps [simp del]

text \<open>At most two reads: the second when the first found nothing and the next segment
  starts here. The bytes handed out come with the result. An error inside the walk leaves
  the sequence advanced and the offset not, as in the source.\<close>

primrec cursor_attempts ::
    "nat \<Rightarrow> 'k kernel \<Rightarrow> wal_t \<Rightarrow> wal_cursor_t \<Rightarrow> u64 \<Rightarrow> nat \<Rightarrow> 'k \<Rightarrow> result_t \<times> wal_cursor_t \<times> bytes \<times> 'k" where
  "cursor_attempts 0 K w c limit buf_len k = (RESULT_OK, c, [], k)"
| "cursor_attempts (Suc n) K w c limit buf_len k =
     (let (r, buf, k) = os_pread_full K (c_fd c) buf_len (c_off c) k in
      if \<not> result_ok r then (r, c, [], k)
      else let (r, at, next_seq) = cursor_walk buf limit 0 (c_next_seq c) in
      if \<not> result_ok r then (r, c\<lparr>c_next_seq := next_seq\<rparr>, [], k)
      else let c = c\<lparr>c_next_seq := next_seq, c_off := c_off c + at\<rparr> in
      if at > 0 then (RESULT_OK, c, take at buf, k)
      else case seg_index_of w (c_next_seq c) of
        None \<Rightarrow> (RESULT_OK, c, [], k)
      | Some idx \<Rightarrow>
          if w_seg_base w ! idx = c_seg_base c then (RESULT_OK, c, [], k)
          else let (rr, c, k) = cursor_open_seg K w c (w_seg_base w ! idx) k in
          if \<not> result_ok rr then (rr, c, [], k)
          else cursor_attempts n K w c limit buf_len k)"

definition wal_cursor_read ::
    "'k kernel \<Rightarrow> wal_t \<Rightarrow> wal_cursor_t \<Rightarrow> u64 \<Rightarrow> nat \<Rightarrow> 'k \<Rightarrow> result_t \<times> wal_cursor_t \<times> bytes \<times> 'k" where
  "wal_cursor_read K w c limit buf_len k =
     (if c_fd c < 0 then (RESULT_ERR ERR_INVALID 0, c, [], k)
      else if c_next_seq c < wal_first_seq w then (RESULT_ERR ERR_INVALID 0, c, [], k)
      else if c_next_seq c > limit then (RESULT_OK, c, [], k)
      else cursor_attempts 2 K w c limit buf_len k)"

section \<open>Retention removes only what is not needed\<close>

lemma retain_drop_bound:
  "bases \<noteq> [] \<Longrightarrow> retain_drop keep bases < length bases"
  by (induction keep bases rule: retain_drop.induct) auto

lemma retain_drop_below:
  "i < retain_drop keep bases \<Longrightarrow> bases ! Suc i \<le> keep"
proof (induction keep bases arbitrary: i rule: retain_drop.induct)
  case (1 keep a b bs)
  then show ?case by (cases i) (auto split: if_splits)
qed auto

lemma retain_drop_max:
  "Suc (retain_drop keep bases) < length bases \<Longrightarrow> keep < bases ! Suc (retain_drop keep bases)"
  by (induction keep bases rule: retain_drop.induct) (auto simp: not_le)

lemma retain_unlink_count:
  "retain_unlink K dir bs i k = (r, n, k') \<Longrightarrow>
     i \<le> n \<and> n \<le> i + length bs \<and> (r = RESULT_OK \<longrightarrow> n = i + length bs)"
  by (induction bs arbitrary: i k) (force simp: result_ok_def split: prod.splits if_splits)+

lemma wal_retain_sound:
  assumes "w_seg_base w \<noteq> []" "wal_retain K w keep_from k = (r, w', n, k')"
  shows "\<exists>d. w_seg_base w' = drop d (w_seg_base w) \<and> d < length (w_seg_base w)
    \<and> (\<forall>i < d. w_seg_base w ! Suc i \<le> keep_from) \<and> w_active w' = w_active w
    \<and> (r = RESULT_OK \<longrightarrow> n = d \<and> (Suc d < length (w_seg_base w) \<longrightarrow> keep_from < w_seg_base w ! Suc d))"
proof -
  let ?b = "w_seg_base w"
  define m where "m = retain_drop keep_from ?b"
  have m: "m < length ?b" using retain_drop_bound [OF assms(1)] by (simp add: m_def)
  have below: "\<forall>i < m. ?b ! Suc i \<le> keep_from" using retain_drop_below by (simp add: m_def)
  have mx: "Suc m < length ?b \<longrightarrow> keep_from < ?b ! Suc m" using retain_drop_max by (simp add: m_def)
  show ?thesis
  proof (cases "m = 0")
    case True
    with assms m mx show ?thesis by (intro exI [of _ 0]) (simp add: wal_retain_def m_def)
  next
    case False
    obtain r1 i k1 where un: "retain_unlink K (w_dir_fd w) (take m ?b) 0 k = (r1, i, k1)" by (metis prod_cases3)
    note cnt = retain_unlink_count [OF un]
    obtain r2 k2 where fs: "os_fsync K (w_dir_fd w) k1 = (r2, k2)" by fastforce
    have eq: "wal_retain K w keep_from k =
        (if \<not> result_ok r1 then (r1, w\<lparr>w_seg_base := drop i ?b\<rparr>, i, k1)
         else if \<not> result_ok r2 then (r2, w\<lparr>w_seg_base := drop m ?b\<rparr>, 0, k2)
         else (RESULT_OK, w\<lparr>w_seg_base := drop m ?b\<rparr>, m, k2))"
      using False un fs by (simp add: wal_retain_def m_def [symmetric] Let_def)
    show ?thesis
    proof (cases "r1 = RESULT_OK")
      case True
      with eq assms(2) m below mx show ?thesis
        by (intro exI [of _ m]) (auto simp: result_ok_def split: if_splits)
    next
      case bad: False
      have "i \<le> m" using cnt m by simp
      with bad eq assms(2) m below show ?thesis by (intro exI [of _ i]) (auto simp: result_ok_def)
    qed
  qed
qed

lemma wal_retain_inv:
  assumes "wal_inv w"
  shows "wal_inv (fst (snd (wal_retain K w keep_from k)))
    \<and> w_active (fst (snd (wal_retain K w keep_from k))) = w_active w"
proof -
  obtain r w' n k' where run: "wal_retain K w keep_from k = (r, w', n, k')" by (metis prod_cases4)
  have ne: "w_seg_base w \<noteq> []" using assms by (simp add: wal_inv_def)
  obtain d where d: "w_seg_base w' = drop d (w_seg_base w)" "d < length (w_seg_base w)" "w_active w' = w_active w"
    using wal_retain_sound [OF ne run] by blast
  have cap: "w_seg_capacity w' = w_seg_capacity w"
    using run by (auto simp: wal_retain_def Let_def split: if_splits prod.splits)
  show ?thesis
    using assms d cap run by (auto simp: wal_inv_def sorted_wrt_drop)
qed



text \<open>Retention by count keeps the count: retaining from the mark for \<open>keep\<close>
  segments leaves at least that many, and exactly that many when every call succeeds.\<close>

theorem wal_retain_mark_keeps:
  assumes "sorted_wrt (<) (w_seg_base w)" "0 < keep" "keep < int (length (w_seg_base w))"
    and "wal_retain K w (wal_retain_mark w keep) k = (r, w', n, k')"
  shows "keep \<le> int (length (w_seg_base w')) \<and> (r = RESULT_OK \<longrightarrow> int (length (w_seg_base w')) = keep)"
proof -
  let ?b = "w_seg_base w"
  define j where "j = length ?b - nat keep"
  have j: "j < length ?b" "0 < j" "int (length ?b) - int j = keep" using assms(2,3) by (auto simp: j_def)
  have mark: "wal_retain_mark w keep = ?b ! j" using assms(2,3) by (simp add: wal_retain_mark_def j_def)
  have mono: "?b ! a < ?b ! b" if "a < b" "b < length ?b" for a b
    using assms(1) that by (simp add: sorted_wrt_nth_less)
  obtain d where d: "w_seg_base w' = drop d ?b" "d < length ?b" "\<forall>i < d. ?b ! Suc i \<le> ?b ! j"
    "r = RESULT_OK \<longrightarrow> (Suc d < length ?b \<longrightarrow> ?b ! j < ?b ! Suc d)"
    using wal_retain_sound [OF _ assms(4)] j unfolding mark by (metis length_0_conv not_less_zero)
  have "d \<le> j"
  proof (rule ccontr)
    assume "\<not> d \<le> j"
    then have "?b ! d \<le> ?b ! j" using d(3) [rule_format, of "d - 1"] by simp
    moreover have "?b ! j < ?b ! d" using \<open>\<not> d \<le> j\<close> d(2) by (intro mono) simp_all
    ultimately show False by simp
  qed
  moreover have "j \<le> d" if "r = RESULT_OK"
  proof (rule ccontr)
    assume "\<not> j \<le> d"
    then have "?b ! j < ?b ! Suc d" using d(4) that j by auto
    moreover have "?b ! Suc d \<le> ?b ! j" using \<open>\<not> j \<le> d\<close> mono [of "Suc d" j] j by (cases "Suc d = j") auto
    ultimately show False by simp
  qed
  ultimately show ?thesis using d j by auto
qed

theorem wal_retain_mark_keeps_witness:
  "2 \<le> int (length (w_seg_base (fst (snd (wal_retain mem_kernel (wal_example\<lparr>w_seg_base := [1, 5, 9]\<rparr>)
      (wal_retain_mark (wal_example\<lparr>w_seg_base := [1, 5, 9]\<rparr>) 2) fs_example)))))"
proof -
  let ?w = "wal_example\<lparr>w_seg_base := [1, 5, 9]\<rparr>"
  obtain r w' n k' where run: "wal_retain mem_kernel ?w (wal_retain_mark ?w 2) fs_example = (r, w', n, k')"
    by (metis prod_cases4)
  have "sorted_wrt (<) (w_seg_base ?w)" by simp
  from wal_retain_mark_keeps [OF this _ _ run] run show ?thesis by simp
qed

section \<open>Cursors hand out whole records\<close>

text \<open>Blocks of bytes, each a whole record, with consecutive sequences up to a limit.\<close>

fun rec_blocks :: "u64 \<Rightarrow> u64 \<Rightarrow> bytes list \<Rightarrow> bool" where
  "rec_blocks limit sq [] = True"
| "rec_blocks limit sq (b # bs) = (int (length b) = wal_rec_size (sint (r_len (rec_of b))) \<and> b \<noteq> []
     \<and> r_seq (rec_of b) = sq \<and> sq \<noteq> 0 \<and> sq \<le> limit \<and> rec_blocks limit (sq + 1) bs)"

lemma cursor_walk_blocks:
  "cursor_walk buf limit at sq = (r, at', sq') \<Longrightarrow> at \<le> length buf \<Longrightarrow>
     \<exists>bss. at \<le> at' \<and> at' \<le> length buf \<and> take (at' - at) (drop at buf) = concat bss
       \<and> rec_blocks limit sq bss \<and> sq' = sq + of_nat (length bss)"
proof (induction buf limit at sq rule: cursor_walk.induct)
  case (1 buf limit at sq)
  define rc where "rc = rec_of (drop at buf)"
  define z where "z = wal_rec_size (sint (r_len rc))"
  show ?case
  proof (cases "at < length buf \<and> 56 \<le> length buf - at \<and> \<not> wal_rec_is_end rc \<and> r_seq rc = sq \<and> \<not> sq > limit
      \<and> z \<noteq> 0 \<and> int at + z \<le> int (length buf)")
    case False
    then have "at' = at \<and> sq' = sq"
      using "1.prems"(1)
      by (auto simp: cursor_walk.simps [of buf limit at sq] rc_def [symmetric] z_def [symmetric] Let_def
          split: if_splits)
    with "1.prems"(2) show ?thesis by (intro exI [of _ "[]"]) simp
  next
    case True
    then have "56 \<le> z" using wal_rec_size_min by (simp add: z_def)
    then obtain n where n: "z = int n" "56 \<le> n" by (metis nat_int nat_le_iff int_nat_eq nat_numeral
          numeral_le_iff zero_le_numeral order_trans of_nat_le_iff of_nat_numeral)
    have loop: "cursor_walk buf limit (at + n) (sq + 1) = (r, at', sq')"
      using "1.prems"(1) True n
      by (simp add: cursor_walk.simps [of buf limit at sq] rc_def [symmetric] z_def [symmetric] Let_def)
    have fit: "at + n \<le> length buf" using True n by simp
    have g: "at < length buf" "\<not> length buf - at < 56" "\<not> wal_rec_is_end rc" "\<not> r_seq rc \<noteq> sq" "\<not> limit < sq"
      "z \<noteq> 0" "\<not> int (length buf) < int at + z" using True by auto
    obtain bss where b: "at + n \<le> at'" "at' \<le> length buf" "take (at' - (at + n)) (drop (at + n) buf) = concat bss"
      "rec_blocks limit (sq + 1) bss" "sq' = sq + 1 + of_nat (length bss)"
      using "1.IH" [OF g(1,2) rc_def g(3-5) z_def g(6,7)] loop fit n(1) by auto
    define blk where "blk = take n (drop at buf)"
    have lb: "length blk = n" using fit by (simp add: blk_def)
    have rb: "rec_of blk = rc" using n(2) by (simp add: blk_def rc_def rec_of_take)
    have "take (at' - at) (drop at buf) = blk @ concat bss"
    proof -
      have "at' - at = n + (at' - (at + n))" using b(1) by simp
      then show ?thesis by (simp add: take_add blk_def add.commute b(3) [symmetric])
    qed
    moreover have "sq \<noteq> 0" using g(3,4) by (auto simp: wal_rec_is_end_def)
    then have "rec_blocks limit sq (blk # bss)"
      using lb rb n g b(4) by (auto simp: z_def [symmetric] not_less)
    ultimately show ?thesis using b n by (intro exI [of _ "blk # bss"]) simp
  qed
qed

lemma cursor_open_seg_next: "cursor_open_seg K w c b k = (r, c', k') \<Longrightarrow> c_next_seq c' = c_next_seq c"
  by (auto simp: cursor_open_seg_def Let_def split: prod.splits if_splits)

lemma os_pread_full_length:
  "os_pread_full K fd n o' k = (r, bs, k') \<Longrightarrow> length bs \<le> n"
proof -
  have "length acc \<le> n \<Longrightarrow> os_pread_full_loop K fd n o' acc k = (r, bs, k') \<Longrightarrow> length bs \<le> n" for acc
  proof (induction K fd n o' acc k rule: os_pread_full_loop.induct)
    case (1 K fd n o' acc k)
    obtain r1 b1 k1 where pr: "os_pread K fd (int n - int (length acc)) (int o' + int (length acc)) k = (r1, b1, k1)"
      by (metis prod_cases3)
    have len: "length b1 \<le> n - length acc"
      using pr by (auto simp: os_pread_def split: if_splits prod.splits sum.splits)
    show ?case
    proof (cases "length acc < n \<and> r1 = RESULT_OK \<and> b1 \<noteq> []")
      case True
      then show ?thesis
        using "1.IH" [OF _ pr [symmetric] _ refl] "1.prems" pr len
        by (auto simp: os_pread_full_loop.simps [of K fd n o' acc k])
    next
      case False
      with "1.prems" pr show ?thesis
        by (auto simp: os_pread_full_loop.simps [of K fd n o' acc k] split: result_t.splits if_splits)
    qed
  qed
  from this [of "[]"] show "os_pread_full K fd n o' k = (r, bs, k') \<Longrightarrow> length bs \<le> n"
    by (simp add: os_pread_full_def)
qed

lemma cursor_attempts_blocks:
  "cursor_attempts n K w c limit buf_len k = (RESULT_OK, c', out, k') \<Longrightarrow>
     \<exists>bss. out = concat bss \<and> rec_blocks limit (c_next_seq c) bss \<and> length out \<le> buf_len
       \<and> c_next_seq c' = c_next_seq c + of_nat (length bss)"
proof (induction n arbitrary: c k)
  case 0
  then show ?case by (intro exI [of _ "[]"]) simp
next
  case (Suc n)
  obtain r buf k1 where pr: "os_pread_full K (c_fd c) buf_len (c_off c) k = (r, buf, k1)" by (metis prod_cases3)
  obtain r2 at sq where wk: "cursor_walk buf limit 0 (c_next_seq c) = (r2, at, sq)" by (metis prod_cases3)
  obtain bss where b: "at \<le> length buf" "take at buf = concat bss" "rec_blocks limit (c_next_seq c) bss"
    "sq = c_next_seq c + of_nat (length bss)"
    using cursor_walk_blocks [OF wk] by auto
  have ok: "result_ok r" "result_ok r2" using Suc.prems pr wk by (auto split: if_splits)
  show ?case
  proof (cases "at > 0")
    case True
    with Suc.prems pr wk ok b os_pread_full_length [OF pr] show ?thesis by (intro exI [of _ bss]) auto
  next
    case False
    then have "concat bss = []" using b(2) by simp
    then have "bss = []" using b(3) by (cases bss) auto
    then have sq: "sq = c_next_seq c" using b by simp
    define c1 where "c1 = c\<lparr>c_next_seq := c_next_seq c, c_off := c_off c + at\<rparr>"
    have c1: "c_next_seq c1 = c_next_seq c" by (simp add: c1_def)
    show ?thesis
    proof (cases "seg_index_of w (c_next_seq c)")
      case None
      with Suc.prems pr wk ok False sq show ?thesis by (intro exI [of _ "[]"]) auto
    next
      case (Some idx)
      obtain rr c2 k2 where op: "cursor_open_seg K w c1 (w_seg_base w ! idx) k1 = (rr, c2, k2)" by (metis prod_cases3)
      show ?thesis
      proof (cases "w_seg_base w ! idx = c_seg_base c")
        case True
        with Suc.prems pr wk ok False sq Some show ?thesis by (intro exI [of _ "[]"]) auto
      next
        case ne: False
        then have "cursor_attempts n K w c2 limit buf_len k2 = (RESULT_OK, c', out, k')"
          using Suc.prems pr wk ok False sq Some op by (auto simp: c1_def split: if_splits)
        from Suc.IH [OF this] cursor_open_seg_next [OF op] show ?thesis by (simp add: c1)
      qed
    qed
  qed
qed

lemma wal_cursor_read_blocks:
  assumes "wal_cursor_read K w c limit buf_len k = (RESULT_OK, c', out, k')"
  shows "\<exists>bss. out = concat bss \<and> rec_blocks limit (c_next_seq c) bss \<and> length out \<le> buf_len
    \<and> c_next_seq c' = c_next_seq c + of_nat (length bss)"
proof (cases "c_next_seq c > limit")
  case True
  with assms have "out = []" "c' = c" by (auto simp: wal_cursor_read_def split: if_splits)
  then show ?thesis by (intro exI [of _ "[]"]) simp
next
  case False
  with assms have "cursor_attempts 2 K w c limit buf_len k = (RESULT_OK, c', out, k')"
    by (auto simp: wal_cursor_read_def split: if_splits)
  then show ?thesis by (rule cursor_attempts_blocks)
qed

text \<open>C16. A read hands out whole records only: the bytes are a concatenation of complete
  records with consecutive sequences starting where the cursor stood, none past the limit,
  no more than the buffer holds, and the cursor moves past exactly those.\<close>

theorem wal_cursor_read_whole_records:
  assumes "wal_cursor_read K w c limit buf_len k = (RESULT_OK, c', out, k')"
  shows "\<exists>bss. out = concat bss \<and> rec_blocks limit (c_next_seq c) bss \<and> length out \<le> buf_len
    \<and> c_next_seq c' = c_next_seq c + of_nat (length bss)"
  using assms by (rule wal_cursor_read_blocks)

definition fs_one_record :: mem_fs where
  "fs_one_record = \<lparr>mf_files = [(wal_seg_name 1, rec_image (rec_at 1 7) @ replicate 72 0)], mf_listed = False\<rparr>"

definition cursor_example :: wal_cursor_t where
  "cursor_example = \<lparr>c_fd = 10, c_seg_base = 1, c_off = 0, c_next_seq = 1\<rparr>"

lemma cursor_example_read:
  assumes "w_seg_base w = [1]"
  shows "wal_cursor_read mem_kernel w cursor_example 5 100 fs_one_record =
    (RESULT_OK, cursor_example\<lparr>c_off := 56, c_next_seq := 2\<rparr>, rec_image (rec_at 1 7), fs_one_record)"
proof -
  define r where "r = rec_at 1 7"
  have v: "mf_view fs_one_record 10 = rec_image r @ replicate 72 0"
    by (simp add: fs_one_record_def mf_view_def mf_index_def r_def)
  have "rec_of (rec_image r @ replicate 44 0) = r" by (rule rec_codec.of_image)
  moreover have "wal_rec_size (sint (r_len r)) = 56" by (simp add: r_def rec_at_def wal_rec_size_def)
  moreover have "r_seq r = 1" by (simp add: r_def rec_at_def)
  ultimately have "cursor_walk (rec_image r @ replicate 44 0) 5 0 1 = (RESULT_OK, 56, 2)"
    by (subst cursor_walk.simps) (simp add: wal_rec_is_end_def Let_def cursor_walk.simps)
  moreover have "wal_cursor_read mem_kernel w cursor_example 5 100 fs_one_record =
      cursor_attempts (Suc 1) mem_kernel w cursor_example 5 100 fs_one_record"
    unfolding Suc_1 by (simp add: wal_cursor_read_def cursor_example_def wal_first_seq_def assms)
  ultimately show ?thesis
    unfolding r_def [symmetric] by (simp add: cursor_example_def mem_pread_full v)
qed

theorem wal_cursor_read_whole_records_witness:
  "\<exists>bss. rec_image (rec_at 1 7) = concat bss \<and> rec_blocks 5 1 bss"
proof -
  have "w_seg_base wal_example = [1]" by (simp add: wal_example_def)
  from wal_cursor_read_whole_records [OF cursor_example_read [OF this]] show ?thesis by (auto simp: cursor_example_def)
qed

section \<open>Seeking\<close>

lemma cursor_skip_seg: "cursor_skip K c sq k = (r, c', k') \<Longrightarrow> c_seg_base c' = c_seg_base c"
proof (induction K c sq k rule: cursor_skip.induct)
  case (1 K c sq k)
  obtain r0 got k0 where pr: "os_pread_full K (c_fd c) 56 (c_off c) k = (r0, got, k0)" by (metis prod_cases3)
  show ?case
    using "1.prems" "1.IH" [OF _ pr [symmetric] refl] pr
    by (auto simp: cursor_skip.simps [of K c sq k] Let_def split: if_splits)
qed

lemma cursor_skip_run:
  assumes "file_reads K view" "seq_run (c_next_seq c) es" "drop (c_off c) (view k (c_fd c)) = disk es @ rest"
    and "cursor_skip K c sq k = (RESULT_OK, c', k')" "c_next_seq c \<le> sq"
    and "unat sq \<le> unat (c_next_seq c) + length es"
  shows "c_fd c' = c_fd c \<and> c_next_seq c' = sq \<and> view k' = view k
    \<and> c_off c' = c_off c + length (disk (take (unat sq - unat (c_next_seq c)) es))"
  using assms(2-)
proof (induction es arbitrary: c k)
  case Nil
  then have "\<not> c_next_seq c < sq" by (simp add: word_less_nat_alt word_le_nat_alt)
  with Nil show ?case by (simp add: cursor_skip.simps [of K c sq k] not_less)
next
  case (Cons e es)
  show ?case
  proof (cases "c_next_seq c < sq")
    case False
    with Cons.prems show ?thesis by (auto simp: cursor_skip.simps [of K c sq k])
  next
    case True
    obtain r got k1 where pr: "os_pread_full K (c_fd c) 56 (c_off c) k = (r, got, k1)" by (metis prod_cases3)
    have ok: "r = RESULT_OK" using Cons.prems(3) True pr
      by (auto simp: cursor_skip.simps [of K c sq k] result_ok_def split: if_splits)
    note rd = os_pread_full_exact [OF assms(1) pr]
    have fits: "rec_fits (fst e) (snd e)" "r_seq (fst e) = c_next_seq c" "seq_run (c_next_seq c + 1) es"
      using Cons.prems(1) by auto
    let ?b = "rec_bytes (fst e) (snd e)"
    have "got = take 56 ?b" using rd(2) [OF ok] Cons.prems(2) by simp
    moreover have "rec_of ?b = rec_written (fst e) (snd e)"
      using wal_rec_decode_bytes [of "fst e" "snd e" "[]"] by (simp add: wal_rec_decode_def)
    ultimately have hdr: "rec_of got = rec_written (fst e) (snd e)" by (simp add: rec_of_take)
    have size': "wal_rec_size (sint (r_len (fst e))) = int (length ?b)" by (rule wal_rec_size_fits [OF fits(1)])
    define c1 where "c1 = c\<lparr>c_off := c_off c + length ?b, c_next_seq := c_next_seq c + 1\<rparr>"
    have loop: "cursor_skip K c1 sq k1 = (RESULT_OK, c', k')"
      using Cons.prems(3) True pr ok hdr size'
      by (auto simp: cursor_skip.simps [of K c sq k] c1_def Let_def simp del: length_rec_bytes split: if_splits)
    have lt: "unat (c_next_seq c) < unat sq" using True by (simp add: word_less_nat_alt)
    then have un: "unat (c_next_seq c + 1) = unat (c_next_seq c) + 1"
      using unat_less64 [of sq] by (intro unat_add1_64) simp
    have at: "drop (c_off c1) (view k1 (c_fd c1)) = disk es @ rest"
      using arg_cong [OF Cons.prems(2), of "drop (length ?b)"] rd(1)
      by (simp add: c1_def add.commute [of "c_off c"] del: length_rec_bytes)
    have le: "c_next_seq c1 \<le> sq" using lt un by (simp add: c1_def word_le_nat_alt)
    have run1: "seq_run (c_next_seq c1) es" using fits by (simp add: c1_def)
    have bound: "unat sq \<le> unat (c_next_seq c1) + length es" using Cons.prems(5) un by (simp add: c1_def)
    obtain j where j: "unat sq - unat (c_next_seq c) = Suc j" "unat sq - unat (c_next_seq c1) = j"
      using lt un by (simp add: c1_def) (metis Suc_diff_Suc)
    from Cons.IH [OF run1 at loop le bound] j rd(1) show ?thesis by (simp add: c1_def del: length_rec_bytes)
  qed
qed

lemma seg_index_below_Some:
  "seg_index_below bases n sq = Some i \<Longrightarrow> i < n \<and> bases ! i \<le> sq \<and> (\<forall>j. i < j \<and> j < n \<longrightarrow> sq < bases ! j)"
  by (induction n) (auto simp: less_Suc_eq not_le split: if_splits)

text \<open>What the segments of a table hold, each beginning where the one before ended.\<close>

definition table_holds :: "wal_t \<Rightarrow> (bytes \<Rightarrow> bytes) \<Rightarrow> (u64 \<Rightarrow> entry list) \<Rightarrow> bool" where
  "table_holds w files log \<longleftrightarrow> (\<forall>i < length (w_seg_base w).
     let b = w_seg_base w ! i; nx = (if Suc i < length (w_seg_base w) then w_seg_base w ! Suc i else wal_next_seq w) in
     seq_run b (log b) \<and> (\<exists>rest. files (wal_seg_name b) = disk (log b) @ rest)
     \<and> unat nx = unat b + length (log b))"

text \<open>C18. Seeking lands on the record asked for. When a seek by a fresh cursor succeeds, the
  cursor stands at exactly the sequence asked for, in the segment whose range contains it,
  at the byte where its record begins (or at the end of the records, one past the last).\<close>

theorem wal_cursor_seek_exact:
  assumes "file_reads K view" "table_holds w files log" "c_fd c < 0"
    and "\<forall>name fd k1. sys_openat K (w_dir_fd w) name OPEN_RDONLY k = (Inr fd, k1) \<longrightarrow> view k1 fd = files name"
    and "wal_cursor_seek K w c sq scratch_len k = (RESULT_OK, c', k')"
  shows "c_next_seq c' = sq \<and> c_seg_base c' \<in> set (w_seg_base w)
    \<and> c_seg_base c' \<le> sq \<and> unat sq \<le> unat (c_seg_base c') + length (log (c_seg_base c'))
    \<and> c_off c' = length (disk (take (unat sq - unat (c_seg_base c')) (log (c_seg_base c'))))"
proof -
  obtain i where idx: "seg_index_of w sq = Some i" and le: "sq \<le> wal_next_seq w"
    using assms(5) by (auto simp: wal_cursor_seek_def split: if_splits option.splits)
  define b where "b = w_seg_base w ! i"
  have i: "i < length (w_seg_base w)" "b \<le> sq" and nx: "Suc i < length (w_seg_base w) \<longrightarrow> sq < w_seg_base w ! Suc i"
    using seg_index_below_Some [OF idx [unfolded seg_index_of_def]] by (auto simp: b_def)
  obtain rest where holds: "seq_run b (log b)" "files (wal_seg_name b) = disk (log b) @ rest"
    "unat (if Suc i < length (w_seg_base w) then w_seg_base w ! Suc i else wal_next_seq w) = unat b + length (log b)"
    using assms(2) i by (auto simp: table_holds_def Let_def b_def)
  have bound: "unat sq \<le> unat b + length (log b)"
    using holds(3) nx le by (cases "Suc i < length (w_seg_base w)") (auto simp: word_less_nat_alt word_le_nat_alt)
  obtain a k1 where sys: "sys_openat K (w_dir_fd w) (wal_seg_name b) OPEN_RDONLY k = (a, k1)" by fastforce
  obtain fd where fd: "a = Inr fd"
    using assms(5) idx sys i
    by (cases a) (auto simp: wal_cursor_seek_def cursor_open_seg_def os_openat_def b_def Let_def split: if_splits)
  define c1 where "c1 = c\<lparr>c_fd := fd, c_seg_base := b, c_off := 0, c_next_seq := b\<rparr>"
  have skip: "cursor_skip K c1 sq k1 = (RESULT_OK, c', k')"
    using assms(3,5) idx sys fd
    by (auto simp: wal_cursor_seek_def cursor_open_seg_def os_openat_def b_def c1_def Let_def split: if_splits)
  have "drop (c_off c1) (view k1 (c_fd c1)) = disk (log b) @ rest"
    using assms(4) sys fd holds(2) by (simp add: c1_def)
  from cursor_skip_run [OF assms(1) _ this skip] holds(1) i bound
  have res: "c_next_seq c' = sq" "c_off c' = length (disk (take (unat sq - unat b) (log b)))"
    by (auto simp: c1_def)
  have "c_seg_base c' = c_seg_base c1" by (rule cursor_skip_seg [OF skip])
  with res i bound show ?thesis by (auto simp: c1_def b_def)
qed

theorem wal_cursor_seek_exact_witness:
  "\<exists>c k. wal_cursor_seek mem_kernel wal_example wal_cursor_init 1 56 fs_example = (RESULT_OK, c, k)
     \<and> c_next_seq c = 1 \<and> c_off c = 0"
proof -
  have run: "wal_cursor_seek mem_kernel wal_example wal_cursor_init 1 56 fs_example =
      (RESULT_OK, \<lparr>c_fd = 10, c_seg_base = 1, c_off = 0, c_next_seq = 1\<rparr>, fs_example)"
    by (simp add: wal_cursor_seek_def wal_example_def wal_first_seq_def wal_next_seq_def seg_reset_def
        seg_index_of_def cursor_open_seg_def os_openat_def mem_kernel_def fs_example_def wal_cursor_init_def
        cursor_skip.simps)
  have holds: "table_holds wal_example (\<lambda>_. replicate 128 0) (\<lambda>_. [])"
    by (simp add: table_holds_def wal_example_def wal_next_seq_def seg_reset_def)
  have op: "\<forall>name fd k1. sys_openat mem_kernel (w_dir_fd wal_example) name OPEN_RDONLY fs_example = (Inr fd, k1) \<longrightarrow>
      mf_view k1 fd = replicate 128 0"
    by (simp add: mem_kernel_def fs_example_def mf_view_def mf_index_def)
  have "c_fd wal_cursor_init < 0" by (simp add: wal_cursor_init_def)
  from wal_cursor_seek_exact [OF mem_kernel_reads holds this op run] run show ?thesis by simp
qed

section \<open>A stale tail stops a reader short\<close>

lemma cursor_walk_run:
  "seq_run base es \<Longrightarrow> \<forall>e \<in> set es. r_seq (fst e) \<le> limit \<Longrightarrow>
     cursor_walk (pre @ disk es @ tail) limit (length pre) base =
     cursor_walk (pre @ disk es @ tail) limit (length pre + length (disk es)) (base + of_nat (length es))"
proof (induction es arbitrary: base pre)
  case Nil
  then show ?case by simp
next
  case (Cons e es)
  obtain r p where e: "e = (r, p)" by (cases e)
  let ?b = "rec_bytes r p"
  have run: "rec_fits r p" "r_seq r = base" "base \<noteq> 0" "seq_run (base + 1) es" "\<not> limit < base"
    using Cons.prems e by auto
  define f where "f = pre @ disk (e # es) @ tail"
  have at: "drop (length pre) f = ?b @ disk es @ tail" by (simp add: e f_def)
  have hdr: "rec_of (?b @ disk es @ tail) = rec_written r p"
    using wal_rec_decode_bytes [of r p "disk es @ tail"] by (simp add: wal_rec_decode_def)
  have size': "wal_rec_size (sint (r_len r)) = int (length ?b)" by (rule wal_rec_size_fits [OF run(1)])
  have bounds: "length ?b \<noteq> 0" "length pre + length ?b \<le> length f" "length pre + 56 \<le> length f"
    "\<not> length f - length pre < 56" by (simp_all add: e f_def)
  have step: "cursor_walk f limit (length pre) base = cursor_walk f limit (length pre + length ?b) (base + 1)"
    using bounds run
    by (subst cursor_walk.simps) (simp add: at hdr size' wal_rec_is_end_def Let_def del: length_rec_bytes)
  have f: "(pre @ ?b) @ disk es @ tail = f" by (simp add: e f_def)
  from Cons.IH [OF run(4), of "pre @ ?b"] Cons.prems(2) show ?case
    unfolding f f_def [symmetric] by (simp add: step e add.assoc del: length_rec_bytes)
qed

lemma seq_run_seqs:
  "seq_run base es \<Longrightarrow> e \<in> set es \<Longrightarrow> unat base + length es < 2 ^ 64 \<Longrightarrow>
     r_seq (fst e) \<le> base + of_nat (length es) - 1"
proof (induction es arbitrary: base)
  case Nil
  then show ?case by simp
next
  case (Cons x es)
  have un: "unat (base + 1) = unat base + 1" using Cons.prems(3) by (intro unat_add1_64) simp
  show ?case
  proof (cases "e \<in> set es")
    case True
    with Cons.IH [of "base + 1"] Cons.prems un show ?thesis by (simp add: algebra_simps)
  next
    case False
    then have "r_seq (fst e) = base" using Cons.prems by auto
    moreover have "unat (base + of_nat (length es)) = unat base + length es"
      using unat_of_nat64 [of "unat base + length es"] Cons.prems(3) by simp
    then have "base \<le> base + of_nat (length es)" by (simp add: word_le_nat_alt)
    ultimately show ?thesis by (simp add: algebra_simps)
  qed
qed

text \<open>C33. The header test of the read loop comes before its limit test. When stale bytes
  stand after the last durable record, as recovery leaves them after a torn tail, a read
  whose buffer reaches into them fails with a storage error instead of returning the records
  up to the limit, and leaves the cursor's sequence past records it has not handed out while
  its offset still stands before them.\<close>

theorem wal_cursor_read_fails_on_stale_tail:
  assumes "file_reads K view" "0 \<le> c_fd c" "wal_first_seq w \<le> c_next_seq c"
    and "seq_run (c_next_seq c) es" "es \<noteq> []" "unat (c_next_seq c) + length es < 2 ^ 64"
    and "drop (c_off c) (view k (c_fd c)) = disk es @ tail" "WAL_REC_HEADER_SIZE \<le> length tail"
    and "r_seq (rec_of tail) \<noteq> 0" "r_seq (rec_of tail) \<noteq> c_next_seq c + of_nat (length es)"
    and "length (disk es) + WAL_REC_HEADER_SIZE \<le> buf_len"
    and "wal_cursor_read K w c (c_next_seq c + of_nat (length es) - 1) buf_len k = (r, c', out, k')"
  shows "out = [] \<and> (r = RESULT_ERR ERR_STORAGE 0 \<and> c_off c' = c_off c
      \<and> c_next_seq c' = c_next_seq c + of_nat (length es)
    \<or> (\<exists>errno. r = RESULT_ERR ERR_SYSCALL errno))"
proof -
  let ?limit = "c_next_seq c + of_nat (length es) - 1"
  have le: "\<forall>e \<in> set es. r_seq (fst e) \<le> ?limit" using seq_run_seqs [OF assms(4) _ assms(6)] by blast
  obtain e0 es' where es: "es = e0 # es'" using assms(5) by (cases es) auto
  then have "\<not> c_next_seq c > ?limit" using le assms(4) by (auto simp: not_less)
  then have run: "cursor_attempts (Suc 1) K w c ?limit buf_len k = (r, c', out, k')"
    unfolding Suc_1 using assms(2,3,12) by (simp add: wal_cursor_read_def leD)
  obtain r1 buf k1 where pr: "os_pread_full K (c_fd c) buf_len (c_off c) k = (r1, buf, k1)" by (metis prod_cases3)
  note rd = os_pread_full_exact [OF assms(1) pr]
  show ?thesis
  proof (cases "r1 = RESULT_OK")
    case False
    with rd(3) run pr show ?thesis by auto
  next
    case True
    define tl where "tl = take (buf_len - length (disk es)) tail"
    have buf: "buf = disk es @ tl" using rd(2) [OF True] assms(7,11) by (simp add: tl_def)
    have tl: "56 \<le> length tl" "rec_of tl = rec_of tail" using assms(8,11) by (simp_all add: tl_def rec_of_take)
    have "cursor_walk buf ?limit 0 (c_next_seq c) =
        cursor_walk buf ?limit (length (disk es)) (c_next_seq c + of_nat (length es))"
      using cursor_walk_run [OF assms(4) le, of "[]" tl] by (simp add: buf)
    also have "\<dots> = (RESULT_ERR ERR_STORAGE 0, length (disk es), c_next_seq c + of_nat (length es))"
      using tl assms(9,10) by (subst cursor_walk.simps) (auto simp: buf wal_rec_is_end_def)
    finally show ?thesis using run pr True by auto
  qed
qed

definition stale_files :: mem_fs where
  "stale_files = \<lparr>mf_files = [(wal_seg_name 1, rec_bytes (rec_at 1 7) [] @ replicate 72 0xFF)], mf_listed = False\<rparr>"

theorem wal_cursor_read_fails_on_stale_tail_witness:
  "fst (wal_cursor_read mem_kernel wal_example cursor_example 1 4096 stale_files) \<noteq> RESULT_OK"
proof -
  obtain r c' out k' where run: "wal_cursor_read mem_kernel wal_example cursor_example
      (c_next_seq cursor_example + of_nat (length [(rec_at 1 7, [] :: bytes)]) - 1) 4096 stale_files = (r, c', out, k')"
    by (metis prod_cases4)
  have seqs: "seq_run (c_next_seq cursor_example) [(rec_at 1 7, [])]"
    by (simp add: cursor_example_def rec_at_def rec_fits_def)
  have "drop (c_off cursor_example) (mf_view stale_files (c_fd cursor_example)) =
      disk [(rec_at 1 7, [])] @ replicate 72 0xFF"
    by (simp add: cursor_example_def stale_files_def mf_view_def mf_index_def)
  note wit = wal_cursor_read_fails_on_stale_tail [OF mem_kernel_reads _ _ seqs _ _ this _ _ _ _ run]
  have seq: "r_seq (rec_of (replicate 72 0xFF)) = 0xFFFFFFFFFFFFFFFF"
    by code_simp
  show ?thesis
    using wit run by (auto simp: cursor_example_def wal_first_seq_def wal_example_def seq)
qed

end
