(* ===== verification/Session.thy ===== *)
theory Session
  imports Wal_Record "HOL-Library.Multiset"
begin

text \<open>
  \<^verbatim>\<open>src/server/session.c\<close>: the table of client sessions deduplication is keyed on. The
  array up to \<open>count\<close> is the list \<open>st_entries\<close>, a session pointer is an index, and the
  kernel's random pool is a parameter. The specification is a list of sessions by recency
  with their high-water marks; the table with its arrival stamps is shown to refine it.
\<close>

abbreviation SESSION_MAX :: nat where "SESSION_MAX \<equiv> 1024"

record session_t =
  se_id :: u64
  se_last :: u64
  se_seen :: u64

record session_table_t =
  st_entries :: "session_t list"
  st_next_seen :: u64
  st_evicted :: u64

definition session_table_init :: session_table_t where
  "session_table_init = \<lparr>st_entries = [], st_next_seen = 1, st_evicted = 0\<rparr>"

primrec find_session :: "session_t list \<Rightarrow> u64 \<Rightarrow> nat option" where
  "find_session [] i = None"
| "find_session (s # ss) i = (if se_id s = i then Some 0 else map_option Suc (find_session ss i))"

definition session_lookup :: "session_table_t \<Rightarrow> u64 \<Rightarrow> nat option" where
  "session_lookup t i = (if i = 0 then None else find_session (st_entries t) i)"

text \<open>The loop of \<open>oldest_index\<close>: \<open>i\<close> runs over the entries after the first.\<close>

primrec oldest_from :: "session_t list \<Rightarrow> session_t list \<Rightarrow> nat \<Rightarrow> nat \<Rightarrow> nat" where
  "oldest_from es [] i lowest = lowest"
| "oldest_from es (s # ss) i lowest =
     oldest_from es ss (Suc i) (if se_seen s < se_seen (es ! lowest) then i else lowest)"

definition oldest_index :: "session_table_t \<Rightarrow> nat" where
  "oldest_index t = oldest_from (st_entries t) (drop 1 (st_entries t)) 1 0"

definition slot_for_new :: "session_table_t \<Rightarrow> nat \<times> session_table_t" where
  "slot_for_new t =
     (let (i, t) =
        (if length (st_entries t) \<ge> SESSION_MAX then
           (oldest_index t, t\<lparr>st_evicted := st_evicted t + 1\<rparr>)
         else (length (st_entries t),
               t\<lparr>st_entries := st_entries t @ [\<lparr>se_id = 0, se_last = 0, se_seen = 0\<rparr>]\<rparr>));
          s = (st_entries t ! i)\<lparr>se_last := 0, se_seen := st_next_seen t\<rparr>
      in (i, t\<lparr>st_entries := (st_entries t)[i := s], st_next_seen := st_next_seen t + 1\<rparr>))"

text \<open>Up to eight draws; 0 when none of them will do.\<close>

primrec draw_id :: "('k \<Rightarrow> u64 \<times> 'k) \<Rightarrow> session_table_t \<Rightarrow> nat \<Rightarrow> 'k \<Rightarrow> u64 \<times> 'k" where
  "draw_id rnd t 0 k = (0, k)"
| "draw_id rnd t (Suc n) k =
     (let (candidate, k) = rnd k in
      if candidate \<noteq> 0 \<and> session_lookup t candidate = None then (candidate, k)
      else draw_id rnd t n k)"

definition session_create ::
    "('k \<Rightarrow> u64 \<times> 'k) \<Rightarrow> session_table_t \<Rightarrow> 'k \<Rightarrow> nat option \<times> session_table_t \<times> 'k" where
  "session_create rnd t k =
     (let (i', k) = draw_id rnd t 8 k in
      if i' = 0 then (None, t, k)
      else let (i, t) = slot_for_new t
           in (Some i, t\<lparr>st_entries := (st_entries t)[i := (st_entries t ! i)\<lparr>se_id := i'\<rparr>]\<rparr>, k))"

definition session_touch :: "session_table_t \<Rightarrow> nat \<Rightarrow> session_table_t" where
  "session_touch t i = t\<lparr>st_entries := (st_entries t)[i := (st_entries t ! i)\<lparr>se_seen := st_next_seen t\<rparr>],
     st_next_seen := st_next_seen t + 1\<rparr>"

definition session_observe :: "session_table_t \<Rightarrow> u64 \<Rightarrow> u64 \<Rightarrow> session_table_t" where
  "session_observe t i client_seq =
     (if i = 0 then t
      else let (j, t) =
        (case session_lookup t i of
           Some j \<Rightarrow> (j, t)
         | None \<Rightarrow>
             (let (j, t) = slot_for_new t
              in (j, t\<lparr>st_entries := (st_entries t)[j := (st_entries t ! j)\<lparr>se_id := i\<rparr>]\<rparr>)));
          s = st_entries t ! j;
          s = (if client_seq > se_last s then s\<lparr>se_last := client_seq\<rparr> else s);
          s = s\<lparr>se_seen := st_next_seen t\<rparr>
      in t\<lparr>st_entries := (st_entries t)[j := s], st_next_seen := st_next_seen t + 1\<rparr>)"

definition session_from_record :: "wal_rec_t \<Rightarrow> session_table_t \<Rightarrow> session_table_t" where
  "session_from_record r t = session_observe t (r_session r) (r_client_seq r)"

section \<open>Invariant and specification\<close>

definition sessions_inv :: "session_table_t \<Rightarrow> bool" where
  "sessions_inv t \<longleftrightarrow> length (st_entries t) \<le> SESSION_MAX \<and> distinct (map se_id (st_entries t))
     \<and> 0 \<notin> se_id ` set (st_entries t) \<and> distinct (map se_seen (st_entries t))
     \<and> (\<forall>s \<in> set (st_entries t). se_seen s < st_next_seen t)"

text \<open>Sessions by recency, the most recent first, each with its high-water mark.\<close>

type_synonym recency = "(u64 \<times> u64) list"

definition spec_observe :: "u64 \<Rightarrow> u64 \<Rightarrow> recency \<Rightarrow> recency" where
  "spec_observe i cs l =
     (if i = 0 then l
      else take SESSION_MAX ((i, max cs (case map_of l i of None \<Rightarrow> 0 | Some h \<Rightarrow> h)) # filter (\<lambda>p. fst p \<noteq> i) l))"

definition entry_pair :: "session_t \<Rightarrow> u64 \<times> u64" where
  "entry_pair s = (se_id s, se_last s)"

definition by_recency :: "session_table_t \<Rightarrow> recency \<Rightarrow> bool" where
  "by_recency t l \<longleftrightarrow> (\<exists>es. mset es = mset (st_entries t) \<and> sorted_wrt (\<lambda>a b. se_seen b < se_seen a) es
     \<and> l = map entry_pair es)"

lemma find_session_None: "find_session es i = None \<longleftrightarrow> i \<notin> se_id ` set es"
  by (induction es) auto

lemma find_session_Some: "find_session es i = Some j \<Longrightarrow> j < length es \<and> se_id (es ! j) = i"
  by (induction es arbitrary: j) (auto split: if_splits)

lemma oldest_from_least:
  "i + length ss = length es \<Longrightarrow> ss = drop i es \<Longrightarrow> lowest < i \<Longrightarrow> i \<le> length es \<Longrightarrow>
     (\<forall>j < i. se_seen (es ! lowest) \<le> se_seen (es ! j)) \<Longrightarrow>
     oldest_from es ss i lowest < length es
     \<and> (\<forall>j < length es. se_seen (es ! oldest_from es ss i lowest) \<le> se_seen (es ! j))"
proof (induction ss arbitrary: i lowest)
  case Nil
  then show ?case by simp
next
  case (Cons s ss)
  have i: "i < length es" using Cons.prems(1) by simp
  then have s: "s = es ! i" "ss = drop (Suc i) es" using Cons.prems(2) by (metis Cons_nth_drop_Suc list.inject)+
  define m where "m = (if se_seen s < se_seen (es ! lowest) then i else lowest)"
  have le: "\<forall>j < i. se_seen (es ! lowest) \<le> se_seen (es ! j)" by (rule Cons.prems(5))
  have "m < Suc i" using Cons.prems(3) by (simp add: m_def)
  moreover have "\<forall>j < Suc i. se_seen (es ! m) \<le> se_seen (es ! j)"
  proof (cases "se_seen s < se_seen (es ! lowest)")
    case True
    with le s show ?thesis by (auto simp: m_def less_Suc_eq intro: less_imp_le order_trans less_le_trans)
  next
    case False
    with le s show ?thesis by (auto simp: m_def less_Suc_eq)
  qed
  ultimately show ?case using Cons.IH [of "Suc i" m] Cons.prems(1) s(2) i by (simp add: m_def)
qed

lemma oldest_index_least:
  assumes "st_entries t \<noteq> []"
  shows "oldest_index t < length (st_entries t)
    \<and> (\<forall>s \<in> set (st_entries t). se_seen (st_entries t ! oldest_index t) \<le> se_seen s)"
proof -
  have l: "1 \<le> length (st_entries t)" using assms by (cases "st_entries t") auto
  have "1 + length (drop 1 (st_entries t)) = length (st_entries t)" using l by simp
  from oldest_from_least [OF this refl _ l] show ?thesis
    by (auto simp: oldest_index_def in_set_conv_nth)
qed

lemma remove1_filter:
  "distinct (map f es) \<Longrightarrow> x \<in> set es \<Longrightarrow> remove1 x es = filter (\<lambda>s. f s \<noteq> f x) es"
proof (induction es)
  case Nil
  then show ?case by simp
next
  case (Cons e es)
  show ?case
  proof (cases "e = x")
    case True
    then have "f x \<notin> f ` set es" using Cons.prems by auto
    then have "filter (\<lambda>s. f s \<noteq> f x) es = es" by (intro filter_True) (metis imageI)
    with True show ?thesis by simp
  next
    case False
    then have "f e \<noteq> f x" using Cons.prems by auto
    with Cons False show ?thesis by simp
  qed
qed

lemma sorted_wrt_remove1: "sorted_wrt P es \<Longrightarrow> sorted_wrt P (remove1 x es)"
  by (induction es) (auto dest: notin_set_remove1)

text \<open>Replacing the entry at \<open>j\<close> by one stamped with the next arrival brings it to the
  front.\<close>

lemma by_recency_update:
  assumes "mset es = mset (st_entries t)" "sorted_wrt (\<lambda>a b. se_seen b < se_seen a) es"
    and "j < length (st_entries t)" "\<forall>s \<in> set (st_entries t). se_seen s < n" "se_seen s' = n"
  shows "mset (s' # remove1 (st_entries t ! j) es) = mset ((st_entries t)[j := s'])
    \<and> sorted_wrt (\<lambda>a b. se_seen b < se_seen a) (s' # remove1 (st_entries t ! j) es)"
proof -
  have "set es = set (st_entries t)" using assms(1) by (metis set_mset_mset)
  then have "\<forall>s \<in> set (remove1 (st_entries t ! j) es). se_seen s < n"
    using assms(4) by (auto dest: notin_set_remove1)
  then show ?thesis
    using assms sorted_wrt_remove1 [OF assms(2)] by (simp add: mset_update)
qed

lemma sessions_inv_update:
  assumes "sessions_inv t" "j < length (st_entries t)" "st_next_seen t \<le> se_seen s'"
    and "se_seen s' \<noteq> - 1" "se_id s' \<noteq> 0"
    and "se_id s' = se_id (st_entries t ! j) \<or> se_id s' \<notin> se_id ` set (st_entries t)"
  shows "sessions_inv (t\<lparr>st_entries := (st_entries t)[j := s'], st_next_seen := se_seen s' + 1, st_evicted := v\<rparr>)"
proof -
  let ?es = "st_entries t"
  have lt: "se_seen s' < se_seen s' + 1" using assms(4) by (rule word_less_succ)
  have old: "se_seen x < se_seen s'" if "x \<in> set ?es" for x
    using assms(1,3) that by (auto simp: sessions_inv_def intro: less_le_trans)
  then have seen: "se_seen s' \<notin> se_seen ` set ?es" by (metis imageE order_less_irrefl)
  have d: "distinct (map f (?es[j := s']))" if "distinct (map f ?es)" "f s' = f (?es ! j) \<or> f s' \<notin> f ` set ?es"
    for f :: "session_t \<Rightarrow> u64"
    using that assms(2)
    by (auto simp: map_update distinct_list_update list_update_same_conv)
  have mem: "x = s' \<or> x \<in> set ?es" if "x \<in> set (?es[j := s'])" for x
    using that set_update_subset_insert [of ?es j s'] by blast
  have "0 \<notin> se_id ` set ?es" using assms(1) by (simp add: sessions_inv_def)
  have "0 \<notin> se_id ` set (?es[j := s'])"
  proof
    assume "0 \<in> se_id ` set (?es[j := s'])"
    then obtain x where x: "x \<in> set (?es[j := s'])" "se_id x = 0" by auto
    with mem [OF x(1)] assms(5) \<open>0 \<notin> se_id ` set ?es\<close> show False by auto
  qed
  moreover have "\<forall>x \<in> set (?es[j := s']). se_seen x < se_seen s' + 1"
    using mem old lt by (auto intro: less_trans)
  ultimately show ?thesis
    using assms(1) d [of se_id] d [of se_seen] assms(6) seen by (auto simp: sessions_inv_def)
qed

lemma sessions_inv_append:
  assumes "sessions_inv t" "length (st_entries t) < SESSION_MAX" "st_next_seen t \<le> se_seen s'"
    and "se_seen s' \<noteq> - 1" "se_id s' \<noteq> 0" "se_id s' \<notin> se_id ` set (st_entries t)"
  shows "sessions_inv (t\<lparr>st_entries := st_entries t @ [s'], st_next_seen := se_seen s' + 1\<rparr>)"
proof -
  have lt: "se_seen s' < se_seen s' + 1" using assms(4) by (rule word_less_succ)
  have old: "se_seen x < se_seen s'" if "x \<in> set (st_entries t)" for x
    using assms(1,3) that by (auto simp: sessions_inv_def intro: less_le_trans)
  then have "se_seen s' \<notin> se_seen ` set (st_entries t)" by (metis imageE order_less_irrefl)
  with assms lt old show ?thesis by (auto simp: sessions_inv_def intro: less_trans)
qed

text \<open>The three ways an observation changes the table.\<close>

lemma session_observe_present:
  assumes "i \<noteq> 0" "session_lookup t i = Some j"
  shows "session_observe t i cs = t\<lparr>st_entries := (st_entries t)[j := \<lparr>se_id = i,
      se_last = max cs (se_last (st_entries t ! j)), se_seen = st_next_seen t\<rparr>],
    st_next_seen := st_next_seen t + 1\<rparr>"
proof -
  have "se_id (st_entries t ! j) = i"
    using assms find_session_Some by (auto simp: session_lookup_def split: if_splits)
  with assms show ?thesis
    by (cases "st_entries t ! j") (auto simp: session_observe_def Let_def max_def not_less)
qed

lemma session_observe_absent:
  assumes "i \<noteq> 0" "session_lookup t i = None" "length (st_entries t) < SESSION_MAX"
  shows "session_observe t i cs = t\<lparr>st_entries := st_entries t @ [\<lparr>se_id = i, se_last = cs,
      se_seen = st_next_seen t + 1\<rparr>], st_next_seen := st_next_seen t + 1 + 1\<rparr>"
  using assms by (auto simp: session_observe_def slot_for_new_def Let_def nth_append list_update_append word_gt_0)

lemma session_observe_evict:
  assumes "i \<noteq> 0" "session_lookup t i = None" "SESSION_MAX \<le> length (st_entries t)"
  shows "session_observe t i cs = t\<lparr>st_entries := (st_entries t)[oldest_index t := \<lparr>se_id = i, se_last = cs,
      se_seen = st_next_seen t + 1\<rparr>], st_next_seen := st_next_seen t + 1 + 1, st_evicted := st_evicted t + 1\<rparr>"
proof -
  have "oldest_index t < length (st_entries t)"
    using assms(3) by (intro oldest_index_least [THEN conjunct1]) auto
  with assms show ?thesis
    by (cases "st_entries t ! oldest_index t")
      (auto simp: session_observe_def slot_for_new_def Let_def word_gt_0)
qed

lemma lookup_map_of:
  assumes "sessions_inv t" "mset es = mset (st_entries t)" "i \<noteq> 0"
  shows "map_of (map entry_pair es) i =
    (case session_lookup t i of None \<Rightarrow> None | Some j \<Rightarrow> Some (se_last (st_entries t ! j)))"
proof -
  have set': "set es = set (st_entries t)" using assms(2) by (metis set_mset_mset)
  have "mset (map se_id es) = mset (map se_id (st_entries t))" using assms(2) by simp
  then have dist: "distinct (map se_id es)"
    using assms(1) unfolding sessions_inv_def by (metis mset_eq_imp_distinct_iff)
  have fsts: "map fst (map entry_pair es) = map se_id es" by (simp add: entry_pair_def)
  show ?thesis
  proof (cases "session_lookup t i")
    case None
    then have "i \<notin> se_id ` set es" using assms(3) set' by (simp add: session_lookup_def find_session_None)
    then show ?thesis using None by (auto simp: map_of_eq_None_iff entry_pair_def)
  next
    case (Some j)
    then have j: "j < length (st_entries t)" "se_id (st_entries t ! j) = i"
      using assms(3) find_session_Some by (auto simp: session_lookup_def)
    then have "entry_pair (st_entries t ! j) \<in> set (map entry_pair es)" using set' by simp
    then have "(i, se_last (st_entries t ! j)) \<in> set (map entry_pair es)"
      by (simp only: entry_pair_def [of "st_entries t ! j"] j(2))
    then have "map_of (map entry_pair es) i = Some (se_last (st_entries t ! j))"
      using dist fsts by (intro map_of_is_SomeI) (simp_all only:)
    with Some show ?thesis by simp
  qed
qed

lemma session_observe_refines:
  assumes inv: "sessions_inv t" and rel: "by_recency t l" and wrap: "unat (st_next_seen t) + 2 < 2 ^ 64"
  shows "sessions_inv (session_observe t i cs) \<and> by_recency (session_observe t i cs) (spec_observe i cs l)
    \<and> unat (st_next_seen (session_observe t i cs)) \<le> unat (st_next_seen t) + 2"
proof (cases "i = 0")
  case True
  with assms show ?thesis by (simp add: session_observe_def spec_observe_def)
next
  case i0: False
  let ?n = "st_next_seen t"
  obtain es where es: "mset es = mset (st_entries t)" "sorted_wrt (\<lambda>a b. se_seen b < se_seen a) es"
    "l = map entry_pair es" using rel by (auto simp: by_recency_def)
  have set': "set es = set (st_entries t)" and len: "length es = length (st_entries t)"
    using es(1) by (metis set_mset_mset, metis size_mset)
  have un1: "unat (?n + 1) = unat ?n + 1" using wrap by (intro unat_add1_64) simp
  then have "unat (?n + 1 + 1) = unat (?n + 1) + 1" using wrap by (intro unat_add1_64) simp
  with un1 have un: "unat (?n + 1) = unat ?n + 1" "unat (?n + 1 + 1) = unat ?n + 2" by linarith+
  have ne: "?n \<noteq> - 1" "?n + 1 \<noteq> - 1"
    using un unat_less64 [of "?n + 1 + 1"] by auto
  have le: "?n \<le> ?n + 1" using un by (simp add: word_le_nat_alt)
  have lt: "\<forall>s \<in> set (st_entries t). se_seen s < ?n" using inv by (simp add: sessions_inv_def)
  then have lt1: "\<forall>s \<in> set (st_entries t). se_seen s < ?n + 1" using le by (auto intro: less_le_trans)
  have filt: "filter (\<lambda>p. fst p \<noteq> i) (map entry_pair xs) = map entry_pair (filter (\<lambda>s. se_id s \<noteq> i) xs)" for xs
    by (induction xs) (auto simp: entry_pair_def)
  have "mset (map se_id es) = mset (map se_id (st_entries t))" using es(1) by simp
  then have dist: "distinct (map se_id es)"
    using inv unfolding sessions_inv_def by (metis mset_eq_imp_distinct_iff)
  have lmax: "length es \<le> 1024" using inv len by (simp add: sessions_inv_def)
  note mo = lookup_map_of [OF inv es(1) i0, folded es(3)]
  show ?thesis
  proof (cases "session_lookup t i")
    case (Some j)
    then have j: "j < length (st_entries t)" "se_id (st_entries t ! j) = i"
      using i0 find_session_Some by (auto simp: session_lookup_def)
    define s' where "s' = \<lparr>se_id = i, se_last = max cs (se_last (st_entries t ! j)), se_seen = ?n\<rparr>"
    have obs: "session_observe t i cs = t\<lparr>st_entries := (st_entries t)[j := s'], st_next_seen := ?n + 1\<rparr>"
      using session_observe_present [OF i0 Some] by (simp add: s'_def)
    let ?es' = "s' # remove1 (st_entries t ! j) es"
    note upd = by_recency_update [OF es(1,2) j(1) lt, of s']
    have jin: "st_entries t ! j \<in> set es" using j(1) set' by simp
    have "remove1 (st_entries t ! j) es = filter (\<lambda>s. se_id s \<noteq> i) es"
      using remove1_filter [OF dist jin] j(2) by simp
    moreover have "length (remove1 (st_entries t ! j) es) < 1024" using jin lmax
      by (simp add: length_remove1) 
    ultimately have "spec_observe i cs l = map entry_pair ?es'"
      using i0 Some mo by (simp add: spec_observe_def es(3) filt) (simp add: s'_def entry_pair_def)
    then have "by_recency (session_observe t i cs) (spec_observe i cs l)"
      using upd unfolding by_recency_def obs by (intro exI [of _ ?es']) (simp add: s'_def)
    moreover have "sessions_inv (session_observe t i cs)"
      using sessions_inv_update [OF inv j(1), of s' "st_evicted t"] ne i0 j(2) unfolding obs
      by (simp add: s'_def)
    ultimately show ?thesis using un by (simp add: obs)
  next
    case None
    then have new: "i \<notin> se_id ` set (st_entries t)" using i0 by (simp add: session_lookup_def find_session_None)
    define s' where "s' = \<lparr>se_id = i, se_last = cs, se_seen = ?n + 1\<rparr>"
    have "filter (\<lambda>s. se_id s \<noteq> i) es = es" using new set' by (intro filter_True) (metis imageI)
    then have spec: "spec_observe i cs l = take 1024 (entry_pair s' # map entry_pair es)"
      using i0 None mo by (simp add: spec_observe_def es(3) filt) (simp add: s'_def entry_pair_def)
    show ?thesis
    proof (cases "length (st_entries t) < 1024")
      case True
      have obs: "session_observe t i cs = t\<lparr>st_entries := st_entries t @ [s'], st_next_seen := ?n + 1 + 1\<rparr>"
        using session_observe_absent [OF i0 None True] by (simp add: s'_def)
      have "by_recency (session_observe t i cs) (spec_observe i cs l)"
        unfolding by_recency_def obs
        using es True len lt1 set' spec by (intro exI [of _ "s' # es"]) (auto simp: s'_def)
      moreover have "sessions_inv (session_observe t i cs)"
        using sessions_inv_append [OF inv True, of s'] ne le i0 new unfolding obs by (simp add: s'_def)
      ultimately show ?thesis using un by (simp add: obs)
    next
      case False
      let ?o = "oldest_index t"
      have full: "1024 \<le> length (st_entries t)" "st_entries t \<noteq> []" using False by auto
      note old = oldest_index_least [OF full(2)]
      have obs: "session_observe t i cs = t\<lparr>st_entries := (st_entries t)[?o := s'], st_next_seen := ?n + 1 + 1,
          st_evicted := st_evicted t + 1\<rparr>"
        using session_observe_evict [OF i0 None full(1)] by (simp add: s'_def)
      have es_ne: "es \<noteq> []" using len full by auto
      have last_es: "last es = st_entries t ! ?o"
      proof (rule ccontr)
        assume neq: "last es \<noteq> st_entries t ! ?o"
        have sp: "es = butlast es @ [last es]" using es_ne by (rule append_butlast_last_id [symmetric])
        have "st_entries t ! ?o \<in> set (butlast es @ [last es])" using old set' sp by simp
        then have "st_entries t ! ?o \<in> set (butlast es)" using neq by auto
        moreover have "sorted_wrt (\<lambda>a b. se_seen b < se_seen a) (butlast es @ [last es])" using es(2) sp by simp
        ultimately have "se_seen (last es) < se_seen (st_entries t ! ?o)" by (simp add: sorted_wrt_append)
        moreover have "last es \<in> set (st_entries t)" using es_ne set' by (metis last_in_set)
        ultimately show False using old by (auto simp: not_less [symmetric])
      qed
      have es_dist: "distinct es" using dist by (simp add: distinct_map)
      have rem: "remove1 (st_entries t ! ?o) es = butlast es"
      proof -
        have sp: "es = butlast es @ [last es]" using es_ne by (rule append_butlast_last_id [symmetric])
        then have "last es \<notin> set (butlast es)" using es_dist by (metis distinct_append disjoint_iff list.set_intros(1))
        then have "remove1 (last es) (butlast es @ [last es]) = butlast es" by (simp add: remove1_append)
        then show ?thesis using sp last_es by simp
      qed
      note upd = by_recency_update [OF es(1,2) conjunct1 [OF old] lt1, of s', unfolded rem]
      have "length es = 1024" using lmax len full by simp
      then have "spec_observe i cs l = map entry_pair (s' # butlast es)"
        unfolding spec by (simp add: take_Cons' take_map butlast_conv_take)
      then have "by_recency (session_observe t i cs) (spec_observe i cs l)"
        using upd unfolding by_recency_def obs by (intro exI [of _ "s' # butlast es"]) (simp add: s'_def)
      moreover have "sessions_inv (session_observe t i cs)"
        using sessions_inv_update [OF inv conjunct1 [OF old], of s' "st_evicted t + 1"] ne le i0 new unfolding obs
        by (simp add: s'_def)
      ultimately show ?thesis using un by (simp add: obs)
    qed
  qed
qed

section \<open>Recovery and creation\<close>

definition session_recover :: "wal_rec_t list \<Rightarrow> session_table_t" where
  "session_recover recs = fold session_from_record recs session_table_init"

definition spec_recover :: "wal_rec_t list \<Rightarrow> recency" where
  "spec_recover recs = fold (\<lambda>r. spec_observe (r_session r) (r_client_seq r)) recs []"

lemma session_recover_refines:
  "2 * length recs + 1 < 2 ^ 64 \<Longrightarrow> sessions_inv (session_recover recs)
     \<and> by_recency (session_recover recs) (spec_recover recs)
     \<and> unat (st_next_seen (session_recover recs)) \<le> 2 * length recs + 1"
proof (induction recs rule: rev_induct)
  case Nil
  then show ?case
    by (simp add: session_recover_def spec_recover_def session_table_init_def sessions_inv_def by_recency_def)
next
  case (snoc r recs)
  then have IH: "sessions_inv (session_recover recs)" "by_recency (session_recover recs) (spec_recover recs)"
    "unat (st_next_seen (session_recover recs)) \<le> 2 * length recs + 1" by simp_all
  have "unat (st_next_seen (session_recover recs)) + 2 < 2 ^ 64" using IH(3) snoc.prems by simp
  note obs = session_observe_refines [OF IH(1,2) this, of "r_session r" "r_client_seq r"]
  then have "unat (st_next_seen (session_observe (session_recover recs) (r_session r) (r_client_seq r)))
      \<le> 2 * length (recs @ [r]) + 1" using IH(3) by simp
  with obs show ?case by (simp add: session_recover_def spec_recover_def session_from_record_def)
qed

text \<open>C38. The session table keeps the sessions that matter. Rebuilt from any log, it holds
  exactly the most recently seen sessions, as many as fit, each once, with arrival stamps in
  the order the records arrived: it refines the recency list in which every record brings
  its session to the front and the least recent falls off the end.\<close>

theorem session_table_refines_recency:
  assumes "2 * length recs + 1 < 2 ^ 64"
  shows "sessions_inv (session_recover recs) \<and> by_recency (session_recover recs) (spec_recover recs)"
  using session_recover_refines [OF assms] by simp

definition session_highest :: "session_table_t \<Rightarrow> u64 \<Rightarrow> u64 option" where
  "session_highest t i = map_option (\<lambda>j. se_last (st_entries t ! j)) (session_lookup t i)"

definition of_session :: "u64 \<Rightarrow> wal_rec_t list \<Rightarrow> wal_rec_t list" where
  "of_session i recs = filter (\<lambda>r. r_session r = i) recs"

lemma map_of_filter_other: "j \<noteq> i \<Longrightarrow> map_of (filter (\<lambda>p. fst p \<noteq> i) l) j = map_of l j"
  by (induction l) auto

lemma spec_recover_highest:
  assumes "card (r_session ` set recs - {0}) \<le> SESSION_MAX"
  shows "distinct (map fst (spec_recover recs)) \<and> fst ` set (spec_recover recs) = r_session ` set recs - {0}
    \<and> (\<forall>i. i \<noteq> 0 \<longrightarrow> map_of (spec_recover recs) i =
         (if of_session i recs = [] then None
          else Some (fold max (map r_client_seq (of_session i recs)) 0)))"
  using assms
proof (induction recs rule: rev_induct)
  case Nil
  then show ?case by (simp add: spec_recover_def of_session_def)
next
  case (snoc r recs)
  let ?l = "spec_recover recs" and ?i = "r_session r"
  have sub: "r_session ` set recs - {0} \<subseteq> r_session ` set (recs @ [r]) - {0}" by auto
  then have "card (r_session ` set recs - {0}) \<le> card (r_session ` set (recs @ [r]) - {0})"
    by (intro card_mono) auto
  with snoc have IH: "distinct (map fst ?l)" "fst ` set ?l = r_session ` set recs - {0}"
    "\<And>i. i \<noteq> 0 \<Longrightarrow> map_of ?l i = (if of_session i recs = [] then None
       else Some (fold max (map r_client_seq (of_session i recs)) 0))" by auto
  have step: "spec_recover (recs @ [r]) = spec_observe ?i (r_client_seq r) ?l"
    by (simp add: spec_recover_def)
  show ?case
  proof (cases "?i = 0")
    case True
    then have "of_session i (recs @ [r]) = of_session i recs" if "i \<noteq> 0" for i
      using that by (auto simp: of_session_def)
    with True IH show ?thesis by (auto simp: step spec_observe_def)
  next
    case False
    define fl where "fl = filter (\<lambda>p. fst p \<noteq> ?i) ?l"
    have "fst ` set fl = fst ` set ?l - {?i}" by (auto simp: fl_def)
    then have dfl: "distinct (map fst fl)" "fst ` set fl = r_session ` set recs - {0} - {?i}"
      using IH(1,2) by (auto simp: fl_def distinct_map_filter)
    define h where "h = max (r_client_seq r) (case map_of ?l ?i of None \<Rightarrow> 0 | Some x \<Rightarrow> x)"
    have d: "distinct (map fst ((?i, h) # fl))" using dfl by (simp add: image_iff)
    have im: "fst ` set ((?i, h) # fl) = r_session ` set (recs @ [r]) - {0}" using dfl(2) False by auto
    have "length ((?i, h) # fl) = card (fst ` set ((?i, h) # fl))"
      using distinct_card [OF d] by simp
    then have "length ((?i, h) # fl) \<le> 1024" using snoc.prems im by simp
    then have l': "spec_recover (recs @ [r]) = (?i, h) # fl"
      using False by (simp add: step spec_observe_def fl_def h_def)
    have other: "map_of fl j = map_of ?l j" if "j \<noteq> ?i" for j
      unfolding fl_def by (rule map_of_filter_other [OF that])
    have hi: "map_of ((?i, h) # fl) i = (if of_session i (recs @ [r]) = [] then None
        else Some (fold max (map r_client_seq (of_session i (recs @ [r]))) 0))" if "i \<noteq> 0" for i
    proof (cases "i = ?i")
      case True
      then show ?thesis using IH(3) [OF that] by (simp add: h_def of_session_def)
    next
      case False
      then show ?thesis using IH(3) [OF that] other [OF False] by (simp add: of_session_def)
    qed
    show ?thesis unfolding l' using d im hi by blast
  qed
qed

text \<open>C39. Deduplication survives a restart: rebuilt from a log with no more sessions than
  the table holds, every session that wrote is there, with the highest client sequence it
  wrote, and no other session is.\<close>

theorem session_high_water_rebuilt:
  assumes "2 * length recs + 1 < 2 ^ 64" "card (r_session ` set recs - {0}) \<le> SESSION_MAX" "i \<noteq> 0"
  shows "session_highest (session_recover recs) i =
    (if of_session i recs = [] then None else Some (fold max (map r_client_seq (of_session i recs)) 0))"
proof -
  note ref = session_recover_refines [OF assms(1)]
  obtain es where es: "mset es = mset (st_entries (session_recover recs))" "spec_recover recs = map entry_pair es"
    using ref by (auto simp: by_recency_def)
  have "session_highest (session_recover recs) i = map_of (spec_recover recs) i"
    using lookup_map_of [OF conjunct1 [OF ref] es(1) assms(3)]
    by (auto simp: session_highest_def es(2) split: option.splits)
  with spec_recover_highest [OF assms(2)] assms(3) show ?thesis by simp
qed

definition session_log :: "wal_rec_t list" where
  "session_log = [(rec_example\<lparr>r_session := 5, r_client_seq := 2\<rparr>), (rec_example\<lparr>r_session := 6, r_client_seq := 9\<rparr>),
     (rec_example\<lparr>r_session := 5, r_client_seq := 1\<rparr>)]"

theorem session_table_refines_recency_witness:
  "by_recency (session_recover session_log) [(5, 2), (6, 9)]"
proof -
  have "spec_recover session_log = [(5, 2), (6, 9)]"
    by (simp add: session_log_def spec_recover_def spec_observe_def take_Cons')
  then show ?thesis using session_table_refines_recency [of session_log] by (simp add: session_log_def)
qed

theorem session_high_water_rebuilt_witness:
  "session_highest (session_recover session_log) 5 = Some 2"
proof -
  have "card (r_session ` set session_log - {0}) \<le> SESSION_MAX"
    by (simp add: session_log_def card_insert_if)
  from session_high_water_rebuilt [OF _ this, of 5] show ?thesis
    by (simp add: session_log_def of_session_def)
qed

lemma draw_id_fresh:
  "draw_id rnd t n k = (i, k') \<Longrightarrow> i \<noteq> 0 \<Longrightarrow> session_lookup t i = None"
  by (induction n arbitrary: k) (auto split: prod.splits if_splits)

lemma slot_for_new_room:
  "length (st_entries t) < SESSION_MAX \<Longrightarrow>
   slot_for_new t = (length (st_entries t), t\<lparr>st_entries := st_entries t @ [\<lparr>se_id = 0, se_last = 0,
      se_seen = st_next_seen t\<rparr>], st_next_seen := st_next_seen t + 1\<rparr>)"
  by (simp add: slot_for_new_def)

lemma slot_for_new_full:
  "SESSION_MAX \<le> length (st_entries t) \<Longrightarrow>
   slot_for_new t = (oldest_index t, t\<lparr>st_entries := (st_entries t)[oldest_index t :=
      (st_entries t ! oldest_index t)\<lparr>se_last := 0, se_seen := st_next_seen t\<rparr>],
      st_next_seen := st_next_seen t + 1, st_evicted := st_evicted t + 1\<rparr>)"
  by (simp add: slot_for_new_def Let_def)

lemma session_create_cases:
  assumes "session_create rnd t k = (res, t', k')"
  obtains "res = None" "t' = t"
  | i where "i \<noteq> 0" "session_lookup t i = None" "length (st_entries t) < SESSION_MAX"
      "res = Some (length (st_entries t))"
      "t' = t\<lparr>st_entries := st_entries t @ [\<lparr>se_id = i, se_last = 0, se_seen = st_next_seen t\<rparr>],
         st_next_seen := st_next_seen t + 1\<rparr>"
  | i where "i \<noteq> 0" "session_lookup t i = None" "oldest_index t < length (st_entries t)"
      "res = Some (oldest_index t)"
      "t' = t\<lparr>st_entries := (st_entries t)[oldest_index t :=
         \<lparr>se_id = i, se_last = 0, se_seen = st_next_seen t\<rparr>],
         st_next_seen := st_next_seen t + 1, st_evicted := st_evicted t + 1\<rparr>"
proof -
  obtain i k1 where dr: "draw_id rnd t 8 k = (i, k1)" by fastforce
  show thesis
  proof (cases "i = 0")
    case True
    then have "res = None" "t' = t" using assms dr by (simp_all add: session_create_def)
    then show thesis by (rule that(1))
  next
    case i0: False
    have fresh: "session_lookup t i = None" using draw_id_fresh [OF dr i0] .
    show thesis
    proof (cases "length (st_entries t) < SESSION_MAX")
      case True
      then have "res = Some (length (st_entries t))"
        "t' = t\<lparr>st_next_seen := st_next_seen t + 1,
           st_entries := st_entries t @ [\<lparr>se_id = i, se_last = 0, se_seen = st_next_seen t\<rparr>]\<rparr>"
        using assms dr i0 slot_for_new_room [OF True]
        by (auto simp add: session_create_def list_update_append nth_append)
      moreover have "t\<lparr>st_next_seen := a, st_entries := b\<rparr> = t\<lparr>st_entries := b, st_next_seen := a\<rparr>" for a b
        by simp
      ultimately have "res = Some (length (st_entries t))"
        "t' = t\<lparr>st_entries := st_entries t @ [\<lparr>se_id = i, se_last = 0, se_seen = st_next_seen t\<rparr>],
           st_next_seen := st_next_seen t + 1\<rparr>" by simp_all
      with i0 fresh True show thesis by (rule that(2))
    next
      case False
      then have full: "SESSION_MAX \<le> length (st_entries t)" by simp
      then have o: "oldest_index t < length (st_entries t)"
        by (intro oldest_index_least [THEN conjunct1]) auto
      obtain a b c where "st_entries t ! oldest_index t = \<lparr>se_id = a, se_last = b, se_seen = c\<rparr>"
        by (cases "st_entries t ! oldest_index t") simp
      then have "res = Some (oldest_index t)"
        "t' = t\<lparr>st_next_seen := st_next_seen t + 1, st_evicted := st_evicted t + 1,
           st_entries := (st_entries t)[oldest_index t := \<lparr>se_id = i, se_last = 0, se_seen = st_next_seen t\<rparr>]\<rparr>"
        using assms dr i0 o slot_for_new_full [OF full] by (auto simp: session_create_def)
      moreover have "t\<lparr>st_next_seen := a, st_evicted := v, st_entries := b\<rparr>
          = t\<lparr>st_entries := b, st_next_seen := a, st_evicted := v\<rparr>" for a b v
        by simp
      ultimately have "res = Some (oldest_index t)"
        "t' = t\<lparr>st_entries := (st_entries t)[oldest_index t := \<lparr>se_id = i, se_last = 0, se_seen = st_next_seen t\<rparr>],
           st_next_seen := st_next_seen t + 1, st_evicted := st_evicted t + 1\<rparr>" by simp_all
      with i0 fresh o show thesis by (rule that(3))
    qed
  qed
qed

text \<open>C40. A new session gets an id nobody in the table has, non-zero, with nothing counted
  against it; the table stays well formed and within its bound. When no usable id is drawn
  the table is untouched.\<close>

theorem session_create_fresh:
  assumes "sessions_inv t" "st_next_seen t \<noteq> - 1" "session_create rnd t k = (res, t', k')"
  shows "case res of
      None \<Rightarrow> t' = t
    | Some j \<Rightarrow> sessions_inv t' \<and> j < length (st_entries t') \<and> se_id (st_entries t' ! j) \<noteq> 0
        \<and> session_lookup t (se_id (st_entries t' ! j)) = None \<and> se_last (st_entries t' ! j) = 0"
  using assms(3)
proof (cases rule: session_create_cases)
  case 1
  then show ?thesis by simp
next
  case (2 i)
  then have "i \<notin> se_id ` set (st_entries t)" by (simp add: session_lookup_def find_session_None)
  with 2 assms(1,2) sessions_inv_append [OF assms(1) 2(3), of "\<lparr>se_id = i, se_last = 0, se_seen = st_next_seen t\<rparr>"]
  show ?thesis by simp
next
  case (3 i)
  then have "i \<notin> se_id ` set (st_entries t)" by (simp add: session_lookup_def find_session_None)
  with 3 assms(1,2) sessions_inv_update [OF assms(1) 3(3), of "\<lparr>se_id = i, se_last = 0, se_seen = st_next_seen t\<rparr>"]
  show ?thesis by simp
qed

theorem session_create_fresh_witness:
  "sessions_inv (fst (snd (session_create (\<lambda>k. (77, k)) session_table_init ())))"
proof -
  have inv: "sessions_inv session_table_init" by (simp add: sessions_inv_def session_table_init_def)
  have run: "session_create (\<lambda>k. (77, k)) session_table_init () =
      (Some 0, \<lparr>st_entries = [\<lparr>se_id = 77, se_last = 0, se_seen = 1\<rparr>], st_next_seen = 2, st_evicted = 0\<rparr>, ())"
    by code_simp
  have "st_next_seen session_table_init \<noteq> - 1" by (simp add: session_table_init_def)
  from session_create_fresh [OF inv this run] run show ?thesis by simp
qed

end
