(* ===== verification/Net.thy ===== *)
theory Net
  imports Os Prelude
begin

text \<open>
  The rest of \<^verbatim>\<open>src/sys/os.h\<close>: sockets, epoll, the timer, the clock and the random pool.
  As in \<open>Os\<close> the kernel is a parameter, here a record of functions on the same abstract
  world that carries the file operations as \<open>net_files\<close>. Buffers a call fills come back
  as lists, cut to the length the caller offered.
\<close>

section \<open>The kernel interface\<close>

record sockaddr_in_t =
  sin_port :: u16
  sin_addr :: u32

record epoll_event_t =
  ev_events :: u32
  ev_data :: u64

record 'k net =
  net_files :: "'k kernel"
  sys_socket :: "int \<Rightarrow> int \<Rightarrow> int \<Rightarrow> 'k \<Rightarrow> (int + int) \<times> 'k"
  sys_bind :: "int \<Rightarrow> sockaddr_in_t \<Rightarrow> 'k \<Rightarrow> (int + unit) \<times> 'k"
  sys_connect :: "int \<Rightarrow> sockaddr_in_t \<Rightarrow> 'k \<Rightarrow> (int + unit) \<times> 'k"
  sys_getsockname :: "int \<Rightarrow> 'k \<Rightarrow> (int + sockaddr_in_t) \<times> 'k"
  sys_listen :: "int \<Rightarrow> int \<Rightarrow> 'k \<Rightarrow> (int + unit) \<times> 'k"
  sys_setsockopt :: "int \<Rightarrow> int \<Rightarrow> int \<Rightarrow> int \<Rightarrow> 'k \<Rightarrow> (int + unit) \<times> 'k"
  sys_getsockopt :: "int \<Rightarrow> int \<Rightarrow> int \<Rightarrow> 'k \<Rightarrow> (int + int) \<times> 'k"
  sys_accept4 :: "int \<Rightarrow> int \<Rightarrow> 'k \<Rightarrow> (int + int) \<times> 'k"
  sys_recvfrom :: "int \<Rightarrow> nat \<Rightarrow> int \<Rightarrow> 'k \<Rightarrow> (int + bytes) \<times> 'k"
  sys_sendto :: "int \<Rightarrow> bytes \<Rightarrow> int \<Rightarrow> 'k \<Rightarrow> (int + nat) \<times> 'k"
  sys_epoll_create1 :: "int \<Rightarrow> 'k \<Rightarrow> (int + int) \<times> 'k"
  sys_epoll_ctl :: "int \<Rightarrow> int \<Rightarrow> int \<Rightarrow> epoll_event_t \<Rightarrow> 'k \<Rightarrow> (int + unit) \<times> 'k"
  sys_epoll_wait :: "int \<Rightarrow> nat \<Rightarrow> int \<Rightarrow> 'k \<Rightarrow> (int + epoll_event_t list) \<times> 'k"
  sys_read :: "int \<Rightarrow> nat \<Rightarrow> 'k \<Rightarrow> (int + bytes) \<times> 'k"
  sys_write :: "int \<Rightarrow> bytes \<Rightarrow> 'k \<Rightarrow> (int + nat) \<times> 'k"
  sys_getrandom :: "nat \<Rightarrow> 'k \<Rightarrow> (int + bytes) \<times> 'k"
  sys_clock_gettime :: "'k \<Rightarrow> (int + u64 \<times> u64) \<times> 'k"
  sys_timerfd_create :: "int \<Rightarrow> 'k \<Rightarrow> (int + int) \<times> 'k"
  sys_timerfd_settime :: "int \<Rightarrow> int \<Rightarrow> int \<Rightarrow> 'k \<Rightarrow> (int + unit) \<times> 'k"
  sys_rt_sigprocmask :: "u64 \<Rightarrow> 'k \<Rightarrow> (int + unit) \<times> 'k"
  sys_signalfd4 :: "u64 \<Rightarrow> int \<Rightarrow> 'k \<Rightarrow> (int + int) \<times> 'k"

abbreviation EIO :: int where "EIO \<equiv> 5"
abbreviation EAGAIN :: int where "EAGAIN \<equiv> 11"
abbreviation EINPROGRESS :: int where "EINPROGRESS \<equiv> 115"
abbreviation AF_INET :: int where "AF_INET \<equiv> 2"
abbreviation SOCK_STREAM :: int where "SOCK_STREAM \<equiv> 1"
abbreviation SOCK_NONBLOCK :: int where "SOCK_NONBLOCK \<equiv> 0x800"
abbreviation SOCK_CLOEXEC :: int where "SOCK_CLOEXEC \<equiv> 0x80000"
abbreviation SOL_SOCKET :: int where "SOL_SOCKET \<equiv> 1"
abbreviation SO_REUSEADDR :: int where "SO_REUSEADDR \<equiv> 2"
abbreviation SO_ERROR :: int where "SO_ERROR \<equiv> 4"
abbreviation MSG_DONTWAIT :: int where "MSG_DONTWAIT \<equiv> 0x40"
abbreviation MSG_NOSIGNAL :: int where "MSG_NOSIGNAL \<equiv> 0x4000"
abbreviation EPOLL_CTL_ADD :: int where "EPOLL_CTL_ADD \<equiv> 1"
abbreviation EPOLL_CTL_DEL :: int where "EPOLL_CTL_DEL \<equiv> 2"
abbreviation EPOLL_CTL_MOD :: int where "EPOLL_CTL_MOD \<equiv> 3"
abbreviation EPOLLIN :: u32 where "EPOLLIN \<equiv> 0x001"
abbreviation EPOLLOUT :: u32 where "EPOLLOUT \<equiv> 0x004"
abbreviation EPOLLERR :: u32 where "EPOLLERR \<equiv> 0x008"
abbreviation EPOLLHUP :: u32 where "EPOLLHUP \<equiv> 0x010"
abbreviation EPOLL_CLOEXEC :: int where "EPOLL_CLOEXEC \<equiv> 0x80000"
abbreviation TFD_CLOEXEC :: int where "TFD_CLOEXEC \<equiv> 0x80000"
abbreviation TFD_NONBLOCK :: int where "TFD_NONBLOCK \<equiv> 0x800"
abbreviation SFD_CLOEXEC :: int where "SFD_CLOEXEC \<equiv> 0x80000"
abbreviation SFD_NONBLOCK :: int where "SFD_NONBLOCK \<equiv> 0x800"
abbreviation SIGINT :: nat where "SIGINT \<equiv> 2"
abbreviation SIGTERM :: nat where "SIGTERM \<equiv> 15"
abbreviation TIMERFD_READ_SIZE :: nat where "TIMERFD_READ_SIZE \<equiv> 8"
abbreviation SIGNALFD_SIGINFO_SIZE :: nat where "SIGNALFD_SIGINFO_SIZE \<equiv> 128"

definition bswap16 :: "u16 \<Rightarrow> u16" where
  "bswap16 v = drop_bit 8 v OR push_bit 8 v"

definition bswap32 :: "u32 \<Rightarrow> u32" where
  "bswap32 v = (drop_bit 24 v AND 0x000000FF) OR (drop_bit 8 v AND 0x0000FF00)
     OR (push_bit 8 v AND 0x00FF0000) OR (push_bit 24 v AND 0xFF000000)"

definition SIGMASK :: "nat \<Rightarrow> u64" where
  "SIGMASK n = push_bit (n - 1) 1"

section \<open>Operations\<close>

text \<open>Every wrapper turns the kernel's answer into a \<open>result_t\<close> the same way.\<close>

definition sys_unit :: "(int + unit) \<times> 'k \<Rightarrow> result_t \<times> 'k" where
  "sys_unit a = (case a of (Inl e, k) \<Rightarrow> (RESULT_ERR ERR_SYSCALL e, k) | (Inr _, k) \<Rightarrow> (RESULT_OK, k))"

definition sys_value :: "'a \<Rightarrow> (int + 'a) \<times> 'k \<Rightarrow> result_t \<times> 'a \<times> 'k" where
  "sys_value d a =
     (case a of (Inl e, k) \<Rightarrow> (RESULT_ERR ERR_SYSCALL e, d, k) | (Inr v, k) \<Rightarrow> (RESULT_OK, v, k))"

definition os_socket :: "'k net \<Rightarrow> int \<Rightarrow> int \<Rightarrow> int \<Rightarrow> int \<Rightarrow> 'k \<Rightarrow> result_t \<times> int \<times> 'k" where
  "os_socket N domain type protocol fd_out k = sys_value fd_out (sys_socket N domain type protocol k)"

definition os_bind :: "'k net \<Rightarrow> int \<Rightarrow> sockaddr_in_t \<Rightarrow> 'k \<Rightarrow> result_t \<times> 'k" where
  "os_bind N fd addr k = sys_unit (sys_bind N fd addr k)"

definition os_connect :: "'k net \<Rightarrow> int \<Rightarrow> sockaddr_in_t \<Rightarrow> 'k \<Rightarrow> result_t \<times> 'k" where
  "os_connect N fd addr k = sys_unit (sys_connect N fd addr k)"

definition os_getsockname :: "'k net \<Rightarrow> int \<Rightarrow> sockaddr_in_t \<Rightarrow> 'k \<Rightarrow> result_t \<times> sockaddr_in_t \<times> 'k" where
  "os_getsockname N fd addr k = sys_value addr (sys_getsockname N fd k)"

definition os_listen :: "'k net \<Rightarrow> int \<Rightarrow> int \<Rightarrow> 'k \<Rightarrow> result_t \<times> 'k" where
  "os_listen N fd backlog k = sys_unit (sys_listen N fd backlog k)"

definition os_setsockopt :: "'k net \<Rightarrow> int \<Rightarrow> int \<Rightarrow> int \<Rightarrow> int \<Rightarrow> 'k \<Rightarrow> result_t \<times> 'k" where
  "os_setsockopt N fd level optname optval k = sys_unit (sys_setsockopt N fd level optname optval k)"

definition os_getsockopt_int :: "'k net \<Rightarrow> int \<Rightarrow> int \<Rightarrow> int \<Rightarrow> 'k \<Rightarrow> result_t \<times> int \<times> 'k" where
  "os_getsockopt_int N fd level optname k = sys_value 0 (sys_getsockopt N fd level optname k)"

definition os_accept4 :: "'k net \<Rightarrow> int \<Rightarrow> int \<Rightarrow> int \<Rightarrow> 'k \<Rightarrow> result_t \<times> int \<times> 'k" where
  "os_accept4 N fd flags fd_out k = sys_value fd_out (sys_accept4 N fd flags k)"

text \<open>Receive and send hand back the kernel's number: bytes moved, or minus the errno.\<close>

definition os_recv :: "'k net \<Rightarrow> int \<Rightarrow> nat \<Rightarrow> int \<Rightarrow> 'k \<Rightarrow> int \<times> bytes \<times> 'k" where
  "os_recv N fd count flags k =
     (case sys_recvfrom N fd count flags k of
        (Inl e, k) \<Rightarrow> (- e, [], k)
      | (Inr bs, k) \<Rightarrow> (int (length (take count bs)), take count bs, k))"

definition os_send :: "'k net \<Rightarrow> int \<Rightarrow> bytes \<Rightarrow> int \<Rightarrow> 'k \<Rightarrow> int \<times> 'k" where
  "os_send N fd buf flags k =
     (case sys_sendto N fd buf flags k of (Inl e, k) \<Rightarrow> (- e, k) | (Inr n, k) \<Rightarrow> (int n, k))"

definition os_epoll_create :: "'k net \<Rightarrow> int \<Rightarrow> int \<Rightarrow> 'k \<Rightarrow> result_t \<times> int \<times> 'k" where
  "os_epoll_create N flags fd_out k = sys_value fd_out (sys_epoll_create1 N flags k)"

definition os_epoll_ctl ::
    "'k net \<Rightarrow> int \<Rightarrow> int \<Rightarrow> int \<Rightarrow> u32 \<Rightarrow> u64 \<Rightarrow> 'k \<Rightarrow> result_t \<times> 'k" where
  "os_epoll_ctl N epfd op fd events dat k =
     (let ev = \<lparr>ev_events = events, ev_data = dat\<rparr> in sys_unit (sys_epoll_ctl N epfd op fd ev k))"

definition os_epoll_wait ::
    "'k net \<Rightarrow> int \<Rightarrow> nat \<Rightarrow> int \<Rightarrow> 'k \<Rightarrow> result_t \<times> epoll_event_t list \<times> 'k" where
  "os_epoll_wait N epfd mx timeout k =
     (let (r, evs, k) = sys_value [] (sys_epoll_wait N epfd mx timeout k) in (r, take mx evs, k))"

definition os_read_raw :: "'k net \<Rightarrow> int \<Rightarrow> nat \<Rightarrow> 'k \<Rightarrow> int \<times> bytes \<times> 'k" where
  "os_read_raw N fd count k =
     (case sys_read N fd count k of
        (Inl e, k) \<Rightarrow> (- e, [], k)
      | (Inr bs, k) \<Rightarrow> (int (length (take count bs)), take count bs, k))"

definition os_write_raw :: "'k net \<Rightarrow> int \<Rightarrow> bytes \<Rightarrow> 'k \<Rightarrow> int \<times> 'k" where
  "os_write_raw N fd buf k =
     (case sys_write N fd buf k of (Inl e, k) \<Rightarrow> (- e, k) | (Inr n, k) \<Rightarrow> (int n, k))"

definition os_random_u64 :: "'k net \<Rightarrow> 'k \<Rightarrow> u64 \<times> 'k" where
  "os_random_u64 N k =
     (case sys_getrandom N 8 k of
        (Inl e, k) \<Rightarrow> (0, k)
      | (Inr v, k) \<Rightarrow> (if length v \<noteq> 8 then 0 else le_dec v, k))"

definition os_now_ns :: "'k net \<Rightarrow> 'k \<Rightarrow> u64 \<times> 'k" where
  "os_now_ns N k =
     (case sys_clock_gettime N k of
        (Inl e, k) \<Rightarrow> (0, k)
      | (Inr (sec, nsec), k) \<Rightarrow> (sec * 1000000000 + nsec, k))"

definition os_timerfd :: "'k net \<Rightarrow> int \<Rightarrow> int \<Rightarrow> 'k \<Rightarrow> result_t \<times> int \<times> 'k" where
  "os_timerfd N flags fd_out k = sys_value fd_out (sys_timerfd_create N flags k)"

definition os_timerfd_period :: "'k net \<Rightarrow> int \<Rightarrow> int \<Rightarrow> 'k \<Rightarrow> result_t \<times> 'k" where
  "os_timerfd_period N fd period_ns k =
     sys_unit (sys_timerfd_settime N fd (period_ns div 1000000000) (period_ns mod 1000000000) k)"

definition os_sigblock :: "'k net \<Rightarrow> u64 \<Rightarrow> 'k \<Rightarrow> result_t \<times> 'k" where
  "os_sigblock N sigs k = sys_unit (sys_rt_sigprocmask N sigs k)"

definition os_signalfd :: "'k net \<Rightarrow> u64 \<Rightarrow> int \<Rightarrow> int \<Rightarrow> 'k \<Rightarrow> result_t \<times> int \<times> 'k" where
  "os_signalfd N sigs flags fd_out k = sys_value fd_out (sys_signalfd4 N sigs flags k)"

section \<open>Facts\<close>

lemma bswap16_bswap16 [simp]: "bswap16 (bswap16 v) = v"
proof (rule bit_word_eqI)
  fix n assume "n < LENGTH(16)"
  then show "bit (bswap16 (bswap16 v)) n = bit v n"
    by (cases "n < 8") (auto simp: bswap16_def bit_simps)
qed

lemma os_recv_len: "os_recv N fd count flags k = (res, bs, k') \<Longrightarrow> length bs \<le> count \<and> (bs \<noteq> [] \<longrightarrow> res = int (length bs))"
  by (auto simp: os_recv_def split: prod.splits sum.splits)

section \<open>A network for examples\<close>

text \<open>Every call succeeds, nothing ever arrives, and what is sent is taken whole.\<close>

definition net_example :: "mem_fs net" where
  "net_example = \<lparr>net_files = mem_kernel,
     sys_socket = (\<lambda>_ _ _ k. (Inr 5, k)), sys_bind = (\<lambda>_ _ k. (Inr (), k)),
     sys_connect = (\<lambda>_ _ k. (Inr (), k)),
     sys_getsockname = (\<lambda>_ k. (Inr \<lparr>sin_port = bswap16 7400, sin_addr = 0\<rparr>, k)),
     sys_listen = (\<lambda>_ _ k. (Inr (), k)), sys_setsockopt = (\<lambda>_ _ _ _ k. (Inr (), k)),
     sys_getsockopt = (\<lambda>_ _ _ k. (Inr 0, k)), sys_accept4 = (\<lambda>_ _ k. (Inl EAGAIN, k)),
     sys_recvfrom = (\<lambda>_ _ _ k. (Inl EAGAIN, k)), sys_sendto = (\<lambda>_ bs _ k. (Inr (length bs), k)),
     sys_epoll_create1 = (\<lambda>_ k. (Inr 4, k)), sys_epoll_ctl = (\<lambda>_ _ _ _ k. (Inr (), k)),
     sys_epoll_wait = (\<lambda>_ _ _ k. (Inr [], k)), sys_read = (\<lambda>_ _ k. (Inl EAGAIN, k)),
     sys_write = (\<lambda>_ bs k. (Inr (length bs), k)), sys_getrandom = (\<lambda>n k. (Inr (replicate n 7), k)),
     sys_clock_gettime = (\<lambda>k. (Inr (1, 0), k)), sys_timerfd_create = (\<lambda>_ k. (Inr 6, k)),
     sys_timerfd_settime = (\<lambda>_ _ _ k. (Inr (), k)), sys_rt_sigprocmask = (\<lambda>_ k. (Inr (), k)),
     sys_signalfd4 = (\<lambda>_ _ k. (Inr 7, k))\<rparr>"

end
