(* ===== verification/Fmt.thy ===== *)
theory Fmt
  imports Prelude
begin

text \<open>
  \<^verbatim>\<open>src/core/fmt.h\<close>: text out of numbers. A buffer of capacity \<open>cap\<close> filled up to
  \<open>len\<close> is the list of its first \<open>len\<close> bytes, so every function takes the text so far
  and returns the longer one, or the same when what was asked for would not fit.
\<close>

section \<open>Operations\<close>

definition ascii :: "string \<Rightarrow> bytes" where
  "ascii s = map of_char s"

definition fmt_str :: "nat \<Rightarrow> string \<Rightarrow> bytes \<Rightarrow> bytes" where
  "fmt_str cap s b = (if length s > cap - length b then b else b @ ascii s)"

text \<open>The digits in the order the division yields them, the last one first.\<close>

function u64_digits :: "u64 \<Rightarrow> bytes" where
  "u64_digits v = (48 + ucast (v mod 10)) # (if v div 10 > 0 then u64_digits (v div 10) else [])"
  by pat_completeness auto
termination
proof (relation "measure unat")
  fix v :: u64
  assume "0 < v div 10"
  then have "0 < unat v div 10" by (simp add: word_less_nat_alt unat_div)
  then show "(v div 10, v) \<in> measure unat" by (simp add: unat_div)
qed simp

declare u64_digits.simps [simp del]

definition fmt_u64 :: "nat \<Rightarrow> u64 \<Rightarrow> bytes \<Rightarrow> bytes" where
  "fmt_u64 cap v b =
     (let tmp = u64_digits v in if length tmp > cap - length b then b else b @ rev tmp)"

primrec frac_digits :: "nat \<Rightarrow> u64 \<Rightarrow> bytes" where
  "frac_digits 0 frac = []"
| "frac_digits (Suc n) frac = frac_digits n (frac div 10) @ [48 + ucast (frac mod 10)]"

definition fmt_ns_seconds :: "nat \<Rightarrow> u64 \<Rightarrow> bytes \<Rightarrow> bytes" where
  "fmt_ns_seconds cap ns b =
     (let frac = ns mod 1000000000;
          b = fmt_u64 cap (ns div 1000000000) b;
          b = fmt_str cap ''.'' b in
      if cap - length b < 9 then b else b @ frac_digits 9 frac)"

section \<open>What a decimal text stands for\<close>

definition digit_value :: "u8 \<Rightarrow> nat" where
  "digit_value d = unat d - 48"

definition decimal_value :: "bytes \<Rightarrow> nat" where
  "decimal_value ds = foldl (\<lambda>v d. v * 10 + digit_value d) 0 ds"

definition is_digit :: "u8 \<Rightarrow> bool" where
  "is_digit d \<longleftrightarrow> 48 \<le> d \<and> d \<le> 57"

lemma decimal_value_snoc [simp]: "decimal_value (ds @ [d]) = decimal_value ds * 10 + digit_value d"
  by (simp add: decimal_value_def)

lemma decimal_value_single [simp]: "decimal_value [d] = digit_value d"
  by (simp add: decimal_value_def)

lemma decimal_value_Nil [simp]: "decimal_value [] = 0"
  by (simp add: decimal_value_def)

lemma digit_of_mod:
  fixes v :: u64
  shows "is_digit (48 + ucast (v mod 10)) \<and> digit_value (48 + ucast (v mod 10)) = unat v mod 10"
proof -
  have lt: "unat v mod 10 < 10" by simp
  then have u: "unat (ucast (v mod 10) :: u8) = unat v mod 10"
    by (simp add: unsigned_ucast_eq unat_mod take_bit_eq_mod)
  then have "unat (48 + ucast (v mod 10) :: u8) = 48 + unat v mod 10"
    using lt by (simp add: unat_word_ariths)
  with lt show ?thesis by (simp add: is_digit_def digit_value_def word_le_nat_alt)
qed

text \<open>Printing a number and reading its digits gives it back, with no leading zero, in at
  most twenty digits.\<close>

lemma u64_digits_value:
  "decimal_value (rev (u64_digits v)) = unat v \<and> list_all is_digit (u64_digits v)"
proof (induction v rule: u64_digits.induct)
  case (1 v)
  show ?case
  proof (cases "v div 10 > 0")
    case True
    have "unat (v div 10) * 10 + unat v mod 10 = unat v" by (simp add: unat_div)
    with True 1 digit_of_mod [of v] show ?thesis by (simp add: u64_digits.simps [of v])
  next
    case False
    then have "unat v div 10 = 0" by (simp add: word_gt_0 unat_eq_0 [symmetric] unat_div)
    then have "unat v mod 10 = unat v" by simp
    with False digit_of_mod [of v] show ?thesis by (simp add: u64_digits.simps [of v])
  qed
qed

lemma u64_digits_length: "unat v < 10 ^ Suc n \<Longrightarrow> length (u64_digits v) \<le> Suc n"
proof (induction n arbitrary: v)
  case 0
  then have "\<not> v div 10 > 0" by (simp add: word_gt_0 unat_eq_0 [symmetric] unat_div)
  then show ?case by (simp add: u64_digits.simps [of v])
next
  case (Suc n)
  then have "unat (v div 10) < 10 ^ Suc n" by (simp add: unat_div)
  then have "length (u64_digits (v div 10)) \<le> Suc n" by (rule Suc.IH)
  then show ?case by (simp add: u64_digits.simps [of v])
qed

lemma u64_digits_max: "length (u64_digits v) \<le> 20" "0 < length (u64_digits v)"
proof -
  have "unat v < 2 ^ 64" by (rule unat_less64)
  then have "unat v < 10 ^ Suc 19" by simp
  from u64_digits_length [OF this] show "length (u64_digits v) \<le> 20" by simp
  show "0 < length (u64_digits v)" by (simp add: u64_digits.simps [of v])
qed

lemma frac_digits_value:
  "unat f < 10 ^ n \<Longrightarrow> decimal_value (frac_digits n f) = unat f \<and> list_all is_digit (frac_digits n f)
     \<and> length (frac_digits n f) = n"
proof (induction n arbitrary: f)
  case 0
  then show ?case by simp
next
  case (Suc n)
  then have "unat (f div 10) < 10 ^ n" by (simp add: unat_div less_mult_imp_div_less)
  from Suc.IH [OF this] digit_of_mod [of f] show ?case by (simp add: unat_div)
qed

section \<open>Appending\<close>

text \<open>\<open>appends cap f n\<close>: where \<open>n\<close> more bytes fit, \<open>f\<close> adds at most that many and
  nothing else.\<close>

definition appends :: "nat \<Rightarrow> (bytes \<Rightarrow> bytes) \<Rightarrow> nat \<Rightarrow> bytes \<Rightarrow> bool" where
  "appends cap f n t \<longleftrightarrow> length t \<le> n \<and> (\<forall>b. length b + n \<le> cap \<longrightarrow> f b = b @ t)"

lemma appends_str: "appends cap (fmt_str cap s) (length s) (ascii s)"
  unfolding appends_def fmt_str_def ascii_def by auto

lemma appends_u64: "appends cap (fmt_u64 cap v) 20 (rev (u64_digits v))"
  using u64_digits_max(1) [of v] by (auto simp: appends_def fmt_u64_def Let_def)

lemma appends_comp:
  assumes "appends cap f m s" "appends cap g n t"
  shows "appends cap (\<lambda>b. g (f b)) (m + n) (s @ t)"
  unfolding appends_def
proof (intro conjI allI impI)
  show "length (s @ t) \<le> m + n" using assms by (simp add: appends_def)
  fix b :: bytes assume b: "length b + (m + n) \<le> cap"
  then have "f b = b @ s" using assms(1) by (simp add: appends_def)
  moreover have "length (b @ s) + n \<le> cap" using b assms(1) by (simp add: appends_def)
  then have "g (b @ s) = (b @ s) @ t" using assms(2) unfolding appends_def by blast
  ultimately show "g (f b) = b @ (s @ t)" by simp
qed

lemma appends_weaken: "appends cap f m t \<Longrightarrow> m \<le> n \<Longrightarrow> appends cap f n t"
  by (auto simp: appends_def)

lemma appends_ns_seconds:
  "appends cap (fmt_ns_seconds cap ns) 30
     (rev (u64_digits (ns div 1000000000)) @ ascii ''.'' @ frac_digits 9 (ns mod 1000000000))"
proof -
  have d: "appends cap (\<lambda>b. fmt_str cap ''.'' (fmt_u64 cap (ns div 1000000000) b)) 21
      (rev (u64_digits (ns div 1000000000)) @ ascii ''.'')"
    using appends_comp [OF appends_u64 appends_str [of cap "''.''"]] by simp
  have "unat (ns mod 1000000000) < 10 ^ 9" by (simp add: unat_mod)
  from frac_digits_value [OF this] have "length (frac_digits 9 (ns mod 1000000000)) = 9" by simp
  then have "appends cap (\<lambda>b. if cap - length b < 9 then b else b @ frac_digits 9 (ns mod 1000000000)) 9
      (frac_digits 9 (ns mod 1000000000))"
    by (auto simp: appends_def)
  from appends_comp [OF d this] show ?thesis
    by (simp add: fmt_ns_seconds_def [abs_def] Let_def)
qed

text \<open>A text never grows past its buffer.\<close>

lemma fmt_str_bound: "length b \<le> cap \<Longrightarrow> length (fmt_str cap s b) \<le> cap"
  by (auto simp: fmt_str_def ascii_def)

lemma fmt_u64_bound: "length b \<le> cap \<Longrightarrow> length (fmt_u64 cap v b) \<le> cap"
  by (auto simp: fmt_u64_def Let_def)

lemma fmt_ns_seconds_bound: "length b \<le> cap \<Longrightarrow> length (fmt_ns_seconds cap ns b) \<le> cap"
proof -
  assume "length b \<le> cap"
  then have b: "length (fmt_str cap ''.'' (fmt_u64 cap (ns div 1000000000) b)) \<le> cap"
    by (intro fmt_str_bound fmt_u64_bound)
  have "unat (ns mod 1000000000) < 10 ^ 9" by (simp add: unat_mod)
  from frac_digits_value [OF this] b show ?thesis by (auto simp: fmt_ns_seconds_def Let_def)
qed

text \<open>Numbers are printed exactly: where they fit, \<open>fmt_u64\<close> appends digits whose value
  is the number, and \<open>fmt_ns_seconds\<close> appends digits, a point and nine more digits whose
  values are the whole seconds and the remaining nanoseconds, so no digit of the clock is
  lost. Where they do not fit, \<open>fmt_u64\<close> changes nothing.\<close>

theorem fmt_prints_exactly:
  "(\<exists>ds. list_all is_digit ds \<and> decimal_value ds = unat v \<and> length ds \<le> 20
      \<and> fmt_u64 cap v b = (if length b + length ds \<le> cap then b @ ds else b))
   \<and> (length b + 30 \<le> cap \<longrightarrow>
      (\<exists>ds fs. list_all is_digit (ds @ fs) \<and> length fs = 9 \<and> fmt_ns_seconds cap v b = b @ ds @ [46] @ fs
        \<and> decimal_value ds * 10 ^ 9 + decimal_value fs = unat v))"
proof (intro conjI impI)
  show "\<exists>ds. list_all is_digit ds \<and> decimal_value ds = unat v \<and> length ds \<le> 20
      \<and> fmt_u64 cap v b = (if length b + length ds \<le> cap then b @ ds else b)"
  proof -
    have "(length (u64_digits v) > cap - length b) = (\<not> length b + length (u64_digits v) \<le> cap)"
      using u64_digits_max(2) [of v] by linarith
    then show ?thesis
      using u64_digits_value [of v] u64_digits_max(1) [of v]
      by (intro exI [of _ "rev (u64_digits v)"]) (simp add: fmt_u64_def list_all_iff)
  qed
next
  assume room: "length b + 30 \<le> cap"
  have f: "unat (v mod 1000000000) < 10 ^ 9" by (simp add: unat_mod)
  have s: "unat (v div 1000000000) * 10 ^ 9 + unat (v mod 1000000000) = unat v"
    by (simp add: unat_div unat_mod)
  have "fmt_ns_seconds cap v b = b @ rev (u64_digits (v div 1000000000)) @ [46] @ frac_digits 9 (v mod 1000000000)"
    using appends_ns_seconds [of cap v] room by (simp add: appends_def ascii_def)
  then show "\<exists>ds fs. list_all is_digit (ds @ fs) \<and> length fs = 9 \<and> fmt_ns_seconds cap v b = b @ ds @ [46] @ fs
      \<and> decimal_value ds * 10 ^ 9 + decimal_value fs = unat v"
    using u64_digits_value [of "v div 1000000000"] frac_digits_value [OF f] s
    by (rule_tac exI [of _ "rev (u64_digits (v div 1000000000))"],
        rule_tac exI [of _ "frac_digits 9 (v mod 1000000000)"]) (auto simp: list_all_iff)
qed

theorem fmt_prints_exactly_witness:
  "\<exists>ds fs. fmt_ns_seconds 64 1500000000 [] = ds @ [46] @ fs \<and> decimal_value ds * 10 ^ 9 + decimal_value fs = 1500000000"
  using fmt_prints_exactly [of 0 64 "[]"] fmt_prints_exactly [of 1500000000 64 "[]"] by auto

end
