(* ===== verification/Loop_State.thy ===== *)
theory Loop_State
  imports Conn Wal_Read Session Net
begin

text \<open>
  \<^verbatim>\<open>src/server/loop.h\<close> and the parts of \<^verbatim>\<open>src/server/loop.c\<close> everything else is built
  from: the loop's state, its connection slots, the staging of replies, and the accounting
  of owed acknowledgements and of what retention may delete. A slot's send buffer is the list of bytes
  staged in it, \<open>lc_send\<close>, with its capacity; which of the static arrays holds them is not
  part of the state. The log and the session table the source points to are fields.
\<close>

section \<open>State\<close>

abbreviation LOOP_MAX_CONNS :: nat where "LOOP_MAX_CONNS \<equiv> 64"
abbreviation LOOP_RECV_CAP :: nat where "LOOP_RECV_CAP \<equiv> 8192"
abbreviation LOOP_SEND_CAP :: nat where "LOOP_SEND_CAP \<equiv> 8192"
abbreviation LOOP_MAX_REPLICAS :: nat where "LOOP_MAX_REPLICAS \<equiv> 2"
abbreviation LOOP_REPL_CAP :: nat where "LOOP_REPL_CAP \<equiv> 16384"
abbreviation LOOP_TICK_NS :: int where "LOOP_TICK_NS \<equiv> 100 * 1000 * 1000"
abbreviation LOOP_REPL_DEADLINE_TICKS :: u32 where "LOOP_REPL_DEADLINE_TICKS \<equiv> 10"
abbreviation LOOP_REDIAL_TICKS :: u32 where "LOOP_REDIAL_TICKS \<equiv> 5"
abbreviation LOOP_SUB_DEADLINE_TICKS :: u32 where "LOOP_SUB_DEADLINE_TICKS \<equiv> 5"
abbreviation LOOP_MAX_SCRAPES :: nat where "LOOP_MAX_SCRAPES \<equiv> 4"
abbreviation LOOP_SCRAPE_CAP :: nat where "LOOP_SCRAPE_CAP \<equiv> 4096"
abbreviation LOOP_METRICS_CAP :: nat where "LOOP_METRICS_CAP \<equiv> 16384"
abbreviation LOOP_FSYNC_BUCKETS :: nat where "LOOP_FSYNC_BUCKETS \<equiv> 7"
abbreviation LOOP_REFUSED_NOT_LEADER :: nat where "LOOP_REFUSED_NOT_LEADER \<equiv> 0"
abbreviation LOOP_REFUSED_NO_REPLICAS :: nat where "LOOP_REFUSED_NO_REPLICAS \<equiv> 1"
abbreviation LOOP_REFUSED_BEHIND :: nat where "LOOP_REFUSED_BEHIND \<equiv> 2"
abbreviation LOOP_REFUSED_NO_HISTORY :: nat where "LOOP_REFUSED_NO_HISTORY \<equiv> 3"
abbreviation LOOP_REFUSED_STORAGE :: nat where "LOOP_REFUSED_STORAGE \<equiv> 4"
abbreviation LOOP_REFUSED_OTHER :: nat where "LOOP_REFUSED_OTHER \<equiv> 5"
abbreviation LOOP_REFUSED_KINDS :: nat where "LOOP_REFUSED_KINDS \<equiv> 6"

abbreviation OP_LISTEN :: nat where "OP_LISTEN \<equiv> 1"
abbreviation OP_CONN :: nat where "OP_CONN \<equiv> 2"
abbreviation OP_SIGNAL :: nat where "OP_SIGNAL \<equiv> 3"
abbreviation OP_TIMER :: nat where "OP_TIMER \<equiv> 4"
abbreviation OP_STREAM :: nat where "OP_STREAM \<equiv> 5"
abbreviation OP_METRICS :: nat where "OP_METRICS \<equiv> 6"
abbreviation OP_SCRAPE :: nat where "OP_SCRAPE \<equiv> 7"

definition UD_MAKE :: "nat \<Rightarrow> nat \<Rightarrow> u64" where
  "UD_MAKE op slot = push_bit 56 (of_nat op) OR ucast (of_nat slot :: u32)"

definition UD_OP :: "u64 \<Rightarrow> nat" where
  "UD_OP ud = unat (drop_bit 56 ud)"

definition UD_SLOT :: "u64 \<Rightarrow> nat" where
  "UD_SLOT ud = unat (ud AND 0xFFFFFFFF)"

record loop_ack_t =
  a_client_seq :: u64
  a_wal_seq :: u64
  a_deadline :: u32
  a_flags :: u16
  a_due :: bool
  a_degradable :: bool

record loop_sub_t =
  su_cursor :: wal_cursor_t
  su_key :: u64
  su_min_seq :: u64
  su_deadline :: u32
  su_until :: u64
  su_active :: bool
  su_waiting :: bool
  su_all_keys :: bool
  su_once :: bool

record loop_conn_t =
  lc_conn :: conn_t
  lc_fd :: int
  lc_send :: bytes
  lc_send_cap :: nat
  lc_replica :: "nat option"
  lc_session :: u64
  lc_ack_local :: loop_ack_t
  lc_ack_repl :: loop_ack_t
  lc_sub :: loop_sub_t
  lc_in_use :: bool
  lc_want_out :: bool
  lc_closing :: bool

record loop_scrape_t =
  ls_fd :: int
  ls_in :: bytes
  ls_out :: bytes
  ls_sent :: nat
  ls_answering :: bool
  ls_opened_ns :: u64

record loop_t =
  l_epoll_fd :: int
  l_wal :: wal_t
  l_listen_fd :: int
  l_signal_fd :: int
  l_port :: u16
  l_stop :: bool
  l_conns :: "loop_conn_t list"
  l_sessions :: session_table_t
  l_wal_dirty :: bool
  l_progress :: bool
  l_is_follower :: bool
  l_repl_connecting :: bool
  l_repl_want_out :: bool
  l_repl_closing :: bool
  l_timer_fd :: int
  l_tick :: u32
  l_leader_text :: bytes
  l_leader_addr :: sockaddr_in_t
  l_repl_fd :: int
  l_repl_send :: bytes
  l_repl_next_dial :: u32
  l_repl_conn :: conn_t
  l_repl_acked :: u64
  l_repl_last_err :: u16
  l_peer_live :: "bool list"
  l_peer_durable :: "u64 list"
  l_peer_cursor :: "wal_cursor_t list"
  l_retain_segments :: int
  l_replicas_want :: int
  l_retain_floor :: u64
  l_retain_seen_segs :: nat
  l_retain_failed :: bool
  l_metrics_fd :: int
  l_metrics_port :: u16
  l_scrapes :: "loop_scrape_t list"
  l_accepted :: u64
  l_closed :: u64
  l_writes :: u64
  l_dedup_hits :: u64
  l_flushes :: u64
  l_repl_records :: u64
  l_repl_degraded :: u64
  l_notified :: u64
  l_retain_removed :: u64
  l_retain_errors :: u64
  l_scrapes_served :: u64
  l_scrapes_refused :: u64
  l_acks_append :: u64
  l_acks_sync :: u64
  l_acks_repl :: u64
  l_refused :: "u64 list"
  l_fsync_ns_total :: u64
  l_fsync_bucket :: "u64 list"
  l_peer_ack_ns :: "u64 list"

text \<open>The slot an index names, and putting one back.\<close>

abbreviation slot_of :: "loop_t \<Rightarrow> nat \<Rightarrow> loop_conn_t" where
  "slot_of l i \<equiv> l_conns l ! i"

definition set_slot :: "nat \<Rightarrow> loop_conn_t \<Rightarrow> loop_t \<Rightarrow> loop_t" where
  "set_slot i c l = l\<lparr>l_conns := (l_conns l)[i := c]\<rparr>"

section \<open>Slots\<close>

primrec free_slot :: "loop_conn_t list \<Rightarrow> nat option" where
  "free_slot [] = None"
| "free_slot (c # cs) = (if \<not> lc_in_use c then Some 0 else map_option Suc (free_slot cs))"

definition slot_alloc :: "loop_t \<Rightarrow> nat option" where
  "slot_alloc l = free_slot (l_conns l)"

text \<open>All bytes zero.\<close>

definition conn_zero :: conn_t where
  "conn_zero = \<lparr>buf = [], buf_cap = 0, buf_len = 0, buf_off = 0, closed = False,
     mode = CONN_MODE_CLIENT, opened = False\<rparr>"

definition ack_zero :: loop_ack_t where
  "ack_zero = \<lparr>a_client_seq = 0, a_wal_seq = 0, a_deadline = 0, a_flags = 0, a_due = False,
     a_degradable = False\<rparr>"

definition slot_reset :: loop_conn_t where
  "slot_reset = \<lparr>lc_conn = conn_zero, lc_fd = -1, lc_send = [], lc_send_cap = LOOP_SEND_CAP,
     lc_replica = None, lc_session = 0, lc_ack_local = ack_zero, lc_ack_repl = ack_zero,
     lc_sub = \<lparr>su_cursor = wal_cursor_init, su_key = 0, su_min_seq = 0, su_deadline = 0, su_until = 0,
       su_active = False, su_waiting = False, su_all_keys = False, su_once = False\<rparr>,
     lc_in_use = False, lc_want_out = False, lc_closing = False\<rparr>"

definition replica_release :: "'k net \<Rightarrow> loop_t \<Rightarrow> nat \<Rightarrow> 'k \<Rightarrow> loop_t \<times> 'k" where
  "replica_release N l idx k =
     (if idx \<ge> LOOP_MAX_REPLICAS then (l, k)
      else let (_, cur, k) = wal_cursor_close (net_files N) (l_peer_cursor l ! idx) k
           in (l\<lparr>l_peer_cursor := (l_peer_cursor l)[idx := cur],
                 l_peer_live := (l_peer_live l)[idx := False],
                 l_peer_durable := (l_peer_durable l)[idx := 0],
                 l_peer_ack_ns := (l_peer_ack_ns l)[idx := 0]\<rparr>, k))"

definition slot_release :: "'k net \<Rightarrow> loop_t \<Rightarrow> nat \<Rightarrow> 'k \<Rightarrow> loop_t \<times> 'k" where
  "slot_release N l i k =
     (let c = slot_of l i in
      if \<not> lc_in_use c then (l, k)
      else let (l, k) = (case lc_replica c of Some idx \<Rightarrow> replica_release N l idx k | None \<Rightarrow> (l, k));
               k = (if c_fd (su_cursor (lc_sub c)) \<ge> 0
                    then snd (snd (wal_cursor_close (net_files N) (su_cursor (lc_sub c)) k)) else k);
               k = (if lc_fd c \<ge> 0
                    then let (_, k) = os_epoll_ctl N (l_epoll_fd l) EPOLL_CTL_DEL (lc_fd c) 0 0 k
                         in snd (os_close (net_files N) (lc_fd c) k)
                    else k)
           in ((set_slot i slot_reset l)\<lparr>l_closed := l_closed l + 1\<rparr>, k))"

definition loop_live_conns :: "loop_t \<Rightarrow> nat" where
  "loop_live_conns l = length (filter lc_in_use (l_conns l))"

section \<open>Staging replies\<close>

definition reply :: "loop_conn_t \<Rightarrow> u16 \<Rightarrow> u16 \<Rightarrow> u64 \<Rightarrow> bytes \<Rightarrow> bool \<times> loop_conn_t" where
  "reply c op flags sequence payload =
     (let room = lc_send_cap c - length (lc_send c) in
      if room < MSG_HEADER_SIZE + length payload then (False, c)
      else let h = msg_header_new op MSG_RECORD_NONE flags (of_nat (length payload)) 0 sequence
           in (True, c\<lparr>lc_send := lc_send c @ the (msg_encode_header room h) @ payload\<rparr>))"

text \<open>\<open>payload\<close> is what the pointer reads on from.\<close>

definition reply_record :: "loop_conn_t \<Rightarrow> wal_rec_t \<Rightarrow> bytes \<Rightarrow> bool \<times> loop_conn_t" where
  "reply_record c r payload =
     (let room = lc_send_cap c - length (lc_send c); n = sint (r_len r) in
      if int room < int MSG_HEADER_SIZE + n then (False, c)
      else let h = msg_header_new MSG_OP_NOTIFY (r_record_type r) 0 (word_of_int n) (r_partition_key r) (r_seq r)
           in (True, c\<lparr>lc_send := lc_send c @ the (msg_encode_header room h) @ take (nat n) payload\<rparr>))"

definition refused_kind :: "u16 \<Rightarrow> nat" where
  "refused_kind code =
     (if code = MSG_ERR_NOT_LEADER then LOOP_REFUSED_NOT_LEADER
      else if code = MSG_ERR_NO_REPLICAS then LOOP_REFUSED_NO_REPLICAS
      else if code = MSG_ERR_BEHIND then LOOP_REFUSED_BEHIND
      else if code = MSG_ERR_NO_HISTORY then LOOP_REFUSED_NO_HISTORY
      else if code = MSG_ERR_STORAGE then LOOP_REFUSED_STORAGE
      else LOOP_REFUSED_OTHER)"

text \<open>A NULL text is the empty one. Every caller ignores whether the frame fitted.\<close>

definition reply_err_text :: "loop_t \<Rightarrow> nat \<Rightarrow> u16 \<Rightarrow> u64 \<Rightarrow> bytes \<Rightarrow> bool \<times> loop_t" where
  "reply_err_text l slot code sequence txt =
     (let n = (if length txt > MSG_MAX_ERR_TEXT then MSG_MAX_ERR_TEXT else length txt);
          kind = refused_kind code;
          l = l\<lparr>l_refused := (l_refused l)[kind := l_refused l ! kind + 1]\<rparr>;
          p = \<lparr>err_code = code, err_text_len = of_nat n, err_pad = 0\<rparr>;
          (ok, c) = reply (slot_of l slot) MSG_OP_ERR 0 sequence
            (the (msg_encode_err MSG_ERR_SIZE p) @ take n txt)
      in (ok, set_slot slot c l))"

definition reply_err :: "loop_t \<Rightarrow> nat \<Rightarrow> u16 \<Rightarrow> u64 \<Rightarrow> bool \<times> loop_t" where
  "reply_err l slot code sequence = reply_err_text l slot code sequence []"

definition reply_ack :: "loop_conn_t \<Rightarrow> u16 \<Rightarrow> u64 \<Rightarrow> u64 \<Rightarrow> bool \<times> loop_conn_t" where
  "reply_ack c flags sequence client_seq =
     reply c MSG_OP_ACK flags sequence (the (msg_encode_ack MSG_ACK_SIZE \<lparr>ack_client_seq = client_seq\<rparr>))"

section \<open>Acknowledgements owed\<close>

definition ack_clear :: "loop_ack_t \<Rightarrow> loop_ack_t" where
  "ack_clear a = a\<lparr>a_due := False, a_degradable := False, a_flags := 0, a_client_seq := 0,
     a_wal_seq := 0, a_deadline := 0\<rparr>"

definition ack_stage :: "loop_ack_t \<Rightarrow> u16 \<Rightarrow> bool \<Rightarrow> u64 \<Rightarrow> u64 \<Rightarrow> u32 \<Rightarrow> loop_ack_t" where
  "ack_stage a flags degradable client_seq wal_seq deadline =
     (let a = (if \<not> a_due a then a\<lparr>a_due := True, a_deadline := deadline\<rparr> else a);
          a = a\<lparr>a_flags := a_flags a OR flags\<rparr>;
          a = (if degradable then a\<lparr>a_degradable := True\<rparr> else a);
          a = (if client_seq > a_client_seq a then a\<lparr>a_client_seq := client_seq\<rparr> else a);
          a = (if wal_seq > a_wal_seq a then a\<lparr>a_wal_seq := wal_seq\<rparr> else a)
      in a)"

definition repl_live :: "loop_t \<Rightarrow> bool" where
  "repl_live l \<longleftrightarrow> list_ex (\<lambda>x. x) (l_peer_live l)"

primrec best_of :: "(bool \<times> u64) list \<Rightarrow> u64 \<Rightarrow> u64" where
  "best_of [] best = best"
| "best_of (p # ps) best = best_of ps (if fst p \<and> snd p > best then snd p else best)"

definition repl_best :: "loop_t \<Rightarrow> u64" where
  "repl_best l = best_of (zip (l_peer_live l) (l_peer_durable l)) 0"

primrec floor_scan :: "(bool \<times> u64) list \<Rightarrow> nat \<Rightarrow> u64 \<Rightarrow> nat \<times> u64" where
  "floor_scan [] live lowest = (live, lowest)"
| "floor_scan (p # ps) live lowest =
     (if \<not> fst p then floor_scan ps live lowest
      else floor_scan ps (live + 1) (if live = 0 \<or> snd p < lowest then snd p else lowest))"

definition retain_floor_update :: "loop_t \<Rightarrow> loop_t" where
  "retain_floor_update l =
     (if l_replicas_want l \<le> 0 then l
      else let (live, lowest) = floor_scan (zip (l_peer_live l) (l_peer_durable l)) 0 0 in
      if int live < l_replicas_want l then l
      else if lowest > l_retain_floor l then l\<lparr>l_retain_floor := lowest\<rparr> else l)"

definition ack_write ::
    "loop_t \<Rightarrow> nat \<Rightarrow> u16 \<Rightarrow> bool \<Rightarrow> bool \<Rightarrow> u64 \<Rightarrow> u64 \<Rightarrow> loop_t" where
  "ack_write l slot ack_flags wants_repl degradable client_seq wal_seq =
     (let c = slot_of l slot in
      if \<not> wants_repl then
        set_slot slot (c\<lparr>lc_ack_local := ack_stage (lc_ack_local c) ack_flags False client_seq wal_seq 0\<rparr>) l
      else if \<not> repl_live l then
        (set_slot slot (c\<lparr>lc_ack_local := ack_stage (lc_ack_local c) (ack_flags OR MSG_FLAG_DEGRADED) True
            client_seq wal_seq 0\<rparr>) l)\<lparr>l_repl_degraded := l_repl_degraded l + 1\<rparr>
      else
        set_slot slot (c\<lparr>lc_ack_repl := ack_stage (lc_ack_repl c) ack_flags degradable client_seq wal_seq
            (l_tick l + LOOP_REPL_DEADLINE_TICKS)\<rparr>) l)"

section \<open>The clock\<close>

definition arm_timer_now :: "'k net \<Rightarrow> loop_t \<Rightarrow> 'k \<Rightarrow> loop_t \<times> 'k" where
  "arm_timer_now N l k =
     (if l_timer_fd l \<ge> 0 then (l, k)
      else let (r, fd, k) = os_timerfd N (TFD_CLOEXEC OR TFD_NONBLOCK) (l_timer_fd l) k;
               l = l\<lparr>l_timer_fd := fd\<rparr> in
      if \<not> result_ok r then (l\<lparr>l_timer_fd := -1\<rparr>, k)
      else let (r, k) = os_timerfd_period N (l_timer_fd l) LOOP_TICK_NS k;
               (r, k) = (if \<not> result_ok r then (r, k)
                 else os_epoll_ctl N (l_epoll_fd l) EPOLL_CTL_ADD (l_timer_fd l) EPOLLIN (UD_MAKE OP_TIMER 0) k) in
      if \<not> result_ok r then
        (let (_, k) = os_close (net_files N) (l_timer_fd l) k in (l\<lparr>l_timer_fd := -1\<rparr>, k))
      else (l, k))"

end
