(* ===== verification/Metrics.thy ===== *)
theory Metrics
  imports Loop_State Fmt
begin

text \<open>
  The metrics document of \<^verbatim>\<open>src/server/loop.c\<close>: \<open>loop_metrics\<close> and the helpers that
  write one family or one sample. A document is built by a sequence of appends, so it is
  modelled as the list of them in the source's order, run over the empty buffer. That the
  document always fits the buffer a scrape gives it is shown in \<open>Loop_Metrics\<close>.
\<close>

section \<open>Building the document\<close>

definition m_one :: "nat \<Rightarrow> string \<Rightarrow> string \<Rightarrow> u64 \<Rightarrow> bytes \<Rightarrow> bytes" where
  "m_one cap name type v b =
     (let b = fmt_str cap ''# TYPE '' b;
          b = fmt_str cap name b;
          b = fmt_str cap '' '' b;
          b = fmt_str cap type b;
          b = fmt_str cap [CHR 0x0A] b;
          b = fmt_str cap name b;
          b = fmt_str cap '' '' b;
          b = fmt_u64 cap v b;
          b = fmt_str cap [CHR 0x0A] b
      in b)"

definition m_label :: "nat \<Rightarrow> string \<Rightarrow> string \<Rightarrow> string \<Rightarrow> u64 \<Rightarrow> bytes \<Rightarrow> bytes" where
  "m_label cap name label value v b =
     (let b = fmt_str cap name b;
          b = fmt_str cap ''{'' b;
          b = fmt_str cap label b;
          b = fmt_str cap (''='' @ [CHR 0x22]) b;
          b = fmt_str cap value b;
          b = fmt_str cap ([CHR 0x22] @ ''} '') b;
          b = fmt_u64 cap v b;
          b = fmt_str cap [CHR 0x0A] b
      in b)"

definition m_type :: "nat \<Rightarrow> string \<Rightarrow> string \<Rightarrow> bytes \<Rightarrow> bytes" where
  "m_type cap name type b =
     (let b = fmt_str cap ''# TYPE '' b;
          b = fmt_str cap name b;
          b = fmt_str cap '' '' b;
          b = fmt_str cap type b;
          b = fmt_str cap [CHR 0x0A] b
      in b)"

definition slot_text :: "string list" where
  "slot_text = [''0'', ''1'']"

definition refused_text :: "string list" where
  "refused_text = [''not_leader'', ''no_replicas'', ''behind'', ''no_history'', ''storage'', ''other'']"

definition fsync_bound_text :: "string list" where
  "fsync_bound_text = [''0.0005'', ''0.001'', ''0.002'', ''0.005'', ''0.01'', ''0.02'', ''0.05'']"

abbreviation flag_value :: "bool \<Rightarrow> u64" where
  "flag_value p \<equiv> (if p then 1 else 0)"

definition peer_ack_age :: "loop_t \<Rightarrow> u64 \<Rightarrow> nat \<Rightarrow> u64" where
  "peer_ack_age l now i =
     (if l_peer_ack_ns l ! i > 0 \<and> now > l_peer_ack_ns l ! i then now - l_peer_ack_ns l ! i else 0)"

text \<open>The number of samples at or below each bound, which the histogram reports.\<close>

definition cumulative :: "u64 list \<Rightarrow> nat \<Rightarrow> u64" where
  "cumulative buckets i = sum_list (take (Suc i) buckets)"

text \<open>The part of the document that depends on the role.\<close>

definition role_parts :: "nat \<Rightarrow> loop_t \<Rightarrow> u64 \<Rightarrow> (bytes \<Rightarrow> bytes) list" where
  "role_parts cap l now =
     (if l_is_follower l then
        [m_one cap ''msgsrvd_leader_connected'' ''gauge''
           (flag_value (l_repl_fd l \<ge> 0 \<and> \<not> l_repl_connecting l)),
         m_one cap ''msgsrvd_repl_applied_total'' ''counter'' (l_repl_records l)]
      else
        [m_type cap ''msgsrvd_follower_live'' ''gauge'']
        @ map (\<lambda>i. m_label cap ''msgsrvd_follower_live'' ''slot'' (slot_text ! i) (flag_value (l_peer_live l ! i)))
            [0..<LOOP_MAX_REPLICAS]
        @ [m_type cap ''msgsrvd_follower_durable_seq'' ''gauge'']
        @ map (\<lambda>i. m_label cap ''msgsrvd_follower_durable_seq'' ''slot'' (slot_text ! i) (l_peer_durable l ! i))
            [0..<LOOP_MAX_REPLICAS]
        @ [m_type cap ''msgsrvd_follower_ack_age_seconds'' ''gauge'']
        @ concat (map (\<lambda>i.
            [fmt_str cap (''msgsrvd_follower_ack_age_seconds{slot='' @ [CHR 0x22]),
             fmt_str cap (slot_text ! i),
             fmt_str cap ([CHR 0x22] @ ''} ''),
             fmt_ns_seconds cap (peer_ack_age l now i),
             fmt_str cap [CHR 0x0A]]) [0..<LOOP_MAX_REPLICAS])
        @ [m_one cap ''msgsrvd_repl_records_total'' ''counter'' (l_repl_records l)])"

definition metrics_parts :: "nat \<Rightarrow> loop_t \<Rightarrow> u64 \<Rightarrow> (bytes \<Rightarrow> bytes) list" where
  "metrics_parts cap l now =
     [m_type cap ''msgsrvd_role'' ''gauge'',
      m_label cap ''msgsrvd_role'' ''role'' ''leader'' (flag_value (\<not> l_is_follower l)),
      m_label cap ''msgsrvd_role'' ''role'' ''follower'' (flag_value (l_is_follower l)),
      m_one cap ''msgsrvd_first_seq'' ''gauge'' (wal_first_seq (l_wal l)),
      m_one cap ''msgsrvd_durable_seq'' ''gauge'' (wal_durable_seq (l_wal l)),
      m_one cap ''msgsrvd_next_seq'' ''gauge'' (wal_next_seq (l_wal l)),
      m_one cap ''msgsrvd_segments'' ''gauge'' (of_nat (wal_segments (l_wal l))),
      m_one cap ''msgsrvd_segment_bytes'' ''gauge'' (of_nat (wal_seg_capacity (l_wal l))),
      m_one cap ''msgsrvd_wal_bytes'' ''gauge''
        (of_nat (wal_segments (l_wal l)) * of_nat (wal_seg_capacity (l_wal l))),
      m_one cap ''msgsrvd_retain_segments'' ''gauge'' (of_int (l_retain_segments l)),
      m_one cap ''msgsrvd_replicas_expected'' ''gauge'' (of_int (l_replicas_want l)),
      m_one cap ''msgsrvd_retain_floor'' ''gauge'' (l_retain_floor l),
      m_one cap ''msgsrvd_retain_removed_total'' ''counter'' (l_retain_removed l),
      m_one cap ''msgsrvd_retain_errors_total'' ''counter'' (l_retain_errors l),
      m_one cap ''msgsrvd_connections'' ''gauge'' (of_nat (loop_live_conns l)),
      m_one cap ''msgsrvd_sessions'' ''gauge'' (of_nat (length (st_entries (l_sessions l)))),
      m_one cap ''msgsrvd_sessions_evicted_total'' ''counter'' (st_evicted (l_sessions l)),
      m_one cap ''msgsrvd_accepted_total'' ''counter'' (l_accepted l),
      m_one cap ''msgsrvd_closed_total'' ''counter'' (l_closed l)]
     @ role_parts cap l now
     @ [m_one cap ''msgsrvd_writes_total'' ''counter'' (l_writes l),
        m_one cap ''msgsrvd_dedup_hits_total'' ''counter'' (l_dedup_hits l),
        m_type cap ''msgsrvd_acks_total'' ''counter'',
        m_label cap ''msgsrvd_acks_total'' ''durability'' ''append'' (l_acks_append l),
        m_label cap ''msgsrvd_acks_total'' ''durability'' ''sync'' (l_acks_sync l),
        m_label cap ''msgsrvd_acks_total'' ''durability'' ''replicated'' (l_acks_repl l),
        m_one cap ''msgsrvd_acks_degraded_total'' ''counter'' (l_repl_degraded l),
        m_type cap ''msgsrvd_refused_total'' ''counter'']
     @ map (\<lambda>i. m_label cap ''msgsrvd_refused_total'' ''reason'' (refused_text ! i) (l_refused l ! i))
         [0..<LOOP_REFUSED_KINDS]
     @ [m_one cap ''msgsrvd_notified_total'' ''counter'' (l_notified l),
        m_type cap ''msgsrvd_fsync_seconds'' ''histogram'']
     @ map (\<lambda>i. m_label cap ''msgsrvd_fsync_seconds_bucket'' ''le'' (fsync_bound_text ! i)
           (cumulative (l_fsync_bucket l) i)) [0..<LOOP_FSYNC_BUCKETS]
     @ [m_label cap ''msgsrvd_fsync_seconds_bucket'' ''le'' ''+Inf'' (cumulative (l_fsync_bucket l) LOOP_FSYNC_BUCKETS),
        fmt_str cap ''msgsrvd_fsync_seconds_sum '',
        fmt_ns_seconds cap (l_fsync_ns_total l),
        fmt_str cap [CHR 0x0A],
        fmt_str cap ''msgsrvd_fsync_seconds_count '',
        fmt_u64 cap (cumulative (l_fsync_bucket l) LOOP_FSYNC_BUCKETS),
        fmt_str cap [CHR 0x0A],
        m_one cap ''msgsrvd_flushes_total'' ''counter'' (l_flushes l),
        m_one cap ''msgsrvd_scrapes_total'' ''counter'' (l_scrapes_served l),
        m_one cap ''msgsrvd_scrapes_refused_total'' ''counter'' (l_scrapes_refused l)]"

text \<open>The document, or the empty one where the source returns 0.\<close>

definition loop_metrics :: "'k net \<Rightarrow> loop_t \<Rightarrow> nat \<Rightarrow> 'k \<Rightarrow> bytes \<times> 'k" where
  "loop_metrics N l cap k =
     (let (now, k) = os_now_ns N k in
      if cap = 0 then ([], k)
      else let b = fold (\<lambda>f b. f b) (metrics_parts cap l now) [] in
      if b = [] \<or> length b \<ge> cap then ([], k)
      else if last b \<noteq> 10 then ([], k)
      else (b, k))"

end
