(* ===== verification/Scrape.thy ===== *)
theory Scrape
  imports Metrics
begin

text \<open>
  The metrics endpoint of \<^verbatim>\<open>src/server/loop.c\<close>: accepting a scraper, reading its request
  up to the blank line, building the answer once and sending it over as many passes as the
  socket needs. \<open>ls_in\<close> and \<open>ls_out\<close> are the filled parts of the two static buffers.
\<close>

definition scrape_zero :: loop_scrape_t where
  "scrape_zero = \<lparr>ls_fd = -1, ls_in = [], ls_out = [], ls_sent = 0, ls_answering = False, ls_opened_ns = 0\<rparr>"

definition set_scrape :: "nat \<Rightarrow> loop_scrape_t \<Rightarrow> loop_t \<Rightarrow> loop_t" where
  "set_scrape i sc l = l\<lparr>l_scrapes := (l_scrapes l)[i := sc]\<rparr>"

definition scrape_release :: "'k net \<Rightarrow> loop_t \<Rightarrow> nat \<Rightarrow> 'k \<Rightarrow> loop_t \<times> 'k" where
  "scrape_release N l i k =
     (let sc = l_scrapes l ! i in
      if ls_fd sc < 0 then (l, k)
      else let (_, k) = os_epoll_ctl N (l_epoll_fd l) EPOLL_CTL_DEL (ls_fd sc) 0 0 k;
               (_, k) = os_close (net_files N) (ls_fd sc) k
           in (set_scrape i scrape_zero l, k))"

definition scrape_answering :: "'k net \<Rightarrow> loop_t \<Rightarrow> nat \<Rightarrow> 'k \<Rightarrow> loop_t \<times> 'k" where
  "scrape_answering N l i k =
     (let sc = l_scrapes l ! i in
      if ls_fd sc < 0 \<or> ls_answering sc then (l, k)
      else let (r, k) = os_epoll_ctl N (l_epoll_fd l) EPOLL_CTL_MOD (ls_fd sc) EPOLLOUT (UD_MAKE OP_SCRAPE i) k
           in (if result_ok r then set_scrape i (sc\<lparr>ls_answering := True\<rparr>) l else l, k))"

definition scrape_send :: "'k net \<Rightarrow> loop_t \<Rightarrow> nat \<Rightarrow> 'k \<Rightarrow> loop_t \<times> 'k" where
  "scrape_send N l i k =
     (let sc = l_scrapes l ! i in
      if ls_fd sc < 0 \<or> length (ls_out sc) \<le> ls_sent sc then (l, k)
      else let (res, k) = os_send N (ls_fd sc) (drop (ls_sent sc) (ls_out sc)) (MSG_NOSIGNAL OR MSG_DONTWAIT) k in
      if res = - EAGAIN then scrape_answering N l i k
      else if res \<le> 0 then scrape_release N l i k
      else let sc = sc\<lparr>ls_sent := ls_sent sc + nat res\<rparr>; l = set_scrape i sc l in
      if ls_sent sc \<ge> length (ls_out sc) then
        scrape_release N (l\<lparr>l_scrapes_served := l_scrapes_served l + 1\<rparr>) i k
      else scrape_answering N l i k)"

abbreviation CRLF :: string where "CRLF \<equiv> [CHR 0x0D, CHR 0x0A]"

definition metrics_head :: bytes where
  "metrics_head = ascii (''HTTP/1.0 200 OK'' @ CRLF @
     ''Content-Type: text/plain; version=0.0.4; charset=utf-8'' @ CRLF @
     ''Connection: close'' @ CRLF @ CRLF)"

definition metrics_unavailable :: bytes where
  "metrics_unavailable = ascii (''HTTP/1.0 503 Service Unavailable'' @ CRLF @
     ''Content-Type: text/plain'' @ CRLF @ ''Connection: close'' @ CRLF @ CRLF)"

definition scrape_answer :: "'k net \<Rightarrow> loop_t \<Rightarrow> nat \<Rightarrow> 'k \<Rightarrow> loop_t \<times> 'k" where
  "scrape_answer N l i k =
     (let (body, k) = loop_metrics N l (LOOP_METRICS_CAP - length metrics_head) k;
          sc = l_scrapes l ! i;
          l = (if body = [] then
                 (set_scrape i (sc\<lparr>ls_out := metrics_unavailable, ls_sent := 0\<rparr>) l)
                   \<lparr>l_scrapes_refused := l_scrapes_refused l + 1\<rparr>
               else set_scrape i (sc\<lparr>ls_out := metrics_head @ body, ls_sent := 0\<rparr>) l)
      in scrape_send N l i k)"

text \<open>Whether the request so far holds the blank line that ends its head.\<close>

definition head_ends :: "bytes \<Rightarrow> bool" where
  "head_ends s \<longleftrightarrow> list_ex (\<lambda>at. s ! at = 10 \<and>
     (s ! (at - 1) = 10 \<or> at \<ge> 3 \<and> s ! (at - 1) = 13 \<and> s ! (at - 2) = 10)) [1..<length s]"

definition scrape_refuse :: "'k net \<Rightarrow> loop_t \<Rightarrow> nat \<Rightarrow> 'k \<Rightarrow> loop_t \<times> 'k" where
  "scrape_refuse N l i k = scrape_release N (l\<lparr>l_scrapes_refused := l_scrapes_refused l + 1\<rparr>) i k"

definition scrape_recv :: "'k net \<Rightarrow> loop_t \<Rightarrow> nat \<Rightarrow> 'k \<Rightarrow> loop_t \<times> 'k" where
  "scrape_recv N l i k =
     (let sc = l_scrapes l ! i in
      if ls_fd sc < 0 \<or> ls_out sc \<noteq> [] then (l, k)
      else if length (ls_in sc) \<ge> LOOP_SCRAPE_CAP then scrape_refuse N l i k
      else let (res, bs, k) = os_recv N (ls_fd sc) (LOOP_SCRAPE_CAP - length (ls_in sc)) MSG_DONTWAIT k in
      if res = - EAGAIN then (l, k)
      else if res \<le> 0 then scrape_release N l i k
      else let sc = sc\<lparr>ls_in := ls_in sc @ bs\<rparr>; l = set_scrape i sc l in
      if head_ends (ls_in sc) then scrape_answer N l i k
      else if length (ls_in sc) \<ge> LOOP_SCRAPE_CAP then scrape_refuse N l i k
      else (l, k))"

primrec free_scrape :: "loop_scrape_t list \<Rightarrow> nat option" where
  "free_scrape [] = None"
| "free_scrape (s # ss) = (if ls_fd s < 0 then Some 0 else map_option Suc (free_scrape ss))"

text \<open>The first of the oldest: \<open>i\<close> is the index of the head, \<open>best\<close> the choice so far.\<close>

primrec oldest_scrape :: "loop_scrape_t list \<Rightarrow> nat \<Rightarrow> nat option \<Rightarrow> u64 \<Rightarrow> nat option" where
  "oldest_scrape [] i best oldest = best"
| "oldest_scrape (s # ss) i best oldest =
     (if best = None \<or> ls_opened_ns s < oldest then oldest_scrape ss (Suc i) (Some i) (ls_opened_ns s)
      else oldest_scrape ss (Suc i) best oldest)"

definition scrape_accept :: "'k net \<Rightarrow> loop_t \<Rightarrow> 'k \<Rightarrow> loop_t \<times> 'k" where
  "scrape_accept N l k =
     (if l_stop l \<or> l_metrics_fd l < 0 then (l, k)
      else let (r, fd, k) = os_accept4 N (l_metrics_fd l) (SOCK_NONBLOCK OR SOCK_CLOEXEC) (-1) k in
      if \<not> result_ok r then (l, k)
      else let (slot, l, k) =
             (case free_scrape (l_scrapes l) of
                Some slot \<Rightarrow> (slot, l, k)
              | None \<Rightarrow>
                  (let slot = the (oldest_scrape (l_scrapes l) 0 None 0);
                       (l, k) = scrape_refuse N l slot k
                   in (slot, l, k)));
               (r, k) = os_epoll_ctl N (l_epoll_fd l) EPOLL_CTL_ADD fd EPOLLIN (UD_MAKE OP_SCRAPE slot) k in
      if \<not> result_ok r then (l, snd (os_close (net_files N) fd k))
      else let (now, k) = os_now_ns N k
           in (set_scrape slot (scrape_zero\<lparr>ls_fd := fd, ls_opened_ns := now\<rparr>) l, k))"

end
