(* ===== verification/Loop_Frames.thy ===== *)
theory Loop_Frames
  imports Loop_State
begin

text \<open>
  \<^verbatim>\<open>src/server/loop.c\<close>, the frames a connection sends: HELLO, WRITE, SUBSCRIBE, READ,
  REPL_START and REPL_ACK, each with its guards and refusals in the source's order, and the
  dispatch over them. The log, the session table and the connection slots change together
  here. A payload is the bytes its pointer names (empty for the NULL of an empty payload),
  and \<open>scratch\<close> is the loop's scratch buffer, whose contents nothing reads before writing.
\<close>

section \<open>Session handshake\<close>

definition handle_hello ::
    "'k net \<Rightarrow> loop_t \<Rightarrow> nat \<Rightarrow> msg_header_t \<Rightarrow> bytes \<Rightarrow> 'k \<Rightarrow> loop_t \<times> 'k" where
  "handle_hello N l slot h payload k =
     (let close = (\<lambda>l. set_slot slot ((slot_of l slot)\<lparr>lc_closing := True\<rparr>) l) in
      case msg_decode_hello payload of
        None \<Rightarrow> (close (snd (reply_err l slot MSG_ERR_PAYLOAD_TOO_BIG (h_sequence h))), k)
      | Some hello \<Rightarrow>
          if \<not> msg_hello_valid hello (length payload) then
            (close (snd (reply_err l slot MSG_ERR_PAYLOAD_TOO_BIG (h_sequence h))), k)
          else
            (let (found, l, k) =
               (if hello_session hello = 0 then
                  (case session_create (os_random_u64 N) (l_sessions l) k of
                     (None, t, k) \<Rightarrow>
                       (None, close (snd (reply_err (l\<lparr>l_sessions := t\<rparr>) slot MSG_ERR_SESSION_UNKNOWN
                          (h_sequence h))), k)
                   | (Some s, t, k) \<Rightarrow> (Some s, l\<lparr>l_sessions := t\<rparr>, k))
                else
                  (case session_lookup (l_sessions l) (hello_session hello) of
                     None \<Rightarrow> (None, snd (reply_err l slot MSG_ERR_SESSION_UNKNOWN (h_sequence h)), k)
                   | Some s \<Rightarrow> (Some s, l, k)))
             in case found of
                  None \<Rightarrow> (l, k)
                | Some s \<Rightarrow>
                    (let e = st_entries (l_sessions l) ! s;
                         c = (slot_of l slot)\<lparr>lc_session := se_id e\<rparr>;
                         (_, c) = reply_ack c MSG_FLAG_ACK_REQ (se_id e) (se_last e)
                     in (set_slot slot c l, k))))"

section \<open>Writes\<close>

definition write_record :: "loop_conn_t \<Rightarrow> msg_header_t \<Rightarrow> bytes \<Rightarrow> wal_rec_t" where
  "write_record c h payload =
     \<lparr>r_crc = 0, r_len = of_nat (length payload), r_term = 1, r_seq = 0, r_session = lc_session c,
      r_client_seq = h_sequence h, r_record_type = h_record_type h, r_flags = h_flags h, r_pad = 0,
      r_partition_key = h_partition_key h\<rparr>"

abbreviation wants_repl_flag :: "u16 \<Rightarrow> bool" where
  "wants_repl_flag flags \<equiv> flags AND MSG_FLAG_REPLICATED \<noteq> 0"

abbreviation degradable_flag :: "u16 \<Rightarrow> bool" where
  "degradable_flag flags \<equiv> flags AND MSG_FLAG_ALLOW_DEGRADED \<noteq> 0"

abbreviation ack_req_flag :: "u16 \<Rightarrow> bool" where
  "ack_req_flag flags \<equiv> flags AND MSG_FLAG_ACK_REQ \<noteq> 0"

definition handle_write ::
    "'k net \<Rightarrow> loop_t \<Rightarrow> nat \<Rightarrow> msg_header_t \<Rightarrow> bytes \<Rightarrow> bytes \<Rightarrow> 'k \<Rightarrow> loop_t \<times> 'k" where
  "handle_write N l slot h payload scratch k =
     (let c = slot_of l slot in
      case session_lookup (l_sessions l) (lc_session c) of
        None \<Rightarrow>
          (let (_, l) = reply_err l slot MSG_ERR_NO_SESSION (h_sequence h)
           in (set_slot slot ((slot_of l slot)\<lparr>lc_closing := True\<rparr>) l, k))
      | Some s \<Rightarrow>
          if l_is_follower l then
            (snd (reply_err_text l slot MSG_ERR_NOT_LEADER (h_sequence h) (l_leader_text l)), k)
          else let wants_repl = wants_repl_flag (h_flags h); degradable = degradable_flag (h_flags h) in
          if wants_repl \<and> \<not> repl_live l \<and> \<not> degradable then
            (snd (reply_err l slot MSG_ERR_NO_REPLICAS (h_sequence h)), k)
          else let ack_flags = h_flags h AND (MSG_FLAG_ACK_REQ OR MSG_FLAG_SYNC OR MSG_FLAG_REPLICATED);
                   last = se_last (st_entries (l_sessions l) ! s) in
          if h_sequence h \<le> last then
            (let l = l\<lparr>l_dedup_hits := l_dedup_hits l + 1\<rparr>
             in (if ack_req_flag (h_flags h) then
                   ack_write l slot ack_flags wants_repl degradable last (wal_durable_seq (l_wal l))
                 else l, k))
          else let (r, w, rec', k) = wal_append (net_files N) (l_wal l) (write_record c h payload)
                     (if payload = [] then None else Some payload) scratch k;
                   l = l\<lparr>l_wal := w\<rparr> in
          (case r of
             RESULT_ERR code _ \<Rightarrow>
               (snd (reply_err l slot (if code = ERR_INVALID then MSG_ERR_PAYLOAD_TOO_BIG else MSG_ERR_STORAGE)
                  (h_sequence h)), k)
           | RESULT_OK \<Rightarrow>
               (let l = l\<lparr>l_writes := l_writes l + 1, l_wal_dirty := True\<rparr>;
                    t = l_sessions l;
                    t = t\<lparr>st_entries := (st_entries t)[s := (st_entries t ! s)\<lparr>se_last := h_sequence h\<rparr>]\<rparr>;
                    l = l\<lparr>l_sessions := session_touch t s\<rparr>
                in (if ack_req_flag (h_flags h) then
                      ack_write l slot ack_flags wants_repl degradable (h_sequence h) (r_seq rec')
                    else l, k))))"

section \<open>Subscriptions and reads\<close>

definition handle_subscribe ::
    "'k net \<Rightarrow> loop_t \<Rightarrow> nat \<Rightarrow> msg_header_t \<Rightarrow> bytes \<Rightarrow> nat \<Rightarrow> 'k \<Rightarrow> loop_t \<times> 'k" where
  "handle_subscribe N l slot h payload scratch_len k =
     (case msg_decode_subscribe payload of
        None \<Rightarrow>
          (let (_, l) = reply_err l slot MSG_ERR_PAYLOAD_TOO_BIG (h_sequence h)
           in (set_slot slot ((slot_of l slot)\<lparr>lc_closing := True\<rparr>) l, k))
      | Some req \<Rightarrow>
          let c = slot_of l slot; sub = lc_sub c in
          if su_active sub \<or> su_waiting sub then
            (snd (reply_err l slot MSG_ERR_UNSUPPORTED (h_sequence h)), k)
          else let from = (if sub_from_seq req = 0 then wal_next_seq (l_wal l) else sub_from_seq req);
                   all_keys = h_flags h AND MSG_FLAG_ALL_KEYS \<noteq> 0;
                   from = (if \<not> all_keys then
                             (case wal_index_range (wal_index (l_wal l)) (h_partition_key h) from of
                                Some (key_from, key_last) \<Rightarrow> key_from
                              | None \<Rightarrow> from)
                           else from);
                   (r, cur, k) = wal_cursor_seek (net_files N) (l_wal l) wal_cursor_init from scratch_len k;
                   sub = sub\<lparr>su_cursor := cur\<rparr>;
                   l = set_slot slot (c\<lparr>lc_sub := sub\<rparr>) l in
          if \<not> result_ok r then (snd (reply_err l slot MSG_ERR_NO_HISTORY (h_sequence h)), k)
          else let sub = sub\<lparr>su_key := h_partition_key h, su_all_keys := all_keys, su_min_seq := sub_min_seq req\<rparr> in
          if sub_min_seq req > wal_durable_seq (l_wal l) then
            (let sub = sub\<lparr>su_waiting := True, su_deadline := l_tick l + LOOP_SUB_DEADLINE_TICKS\<rparr>
             in arm_timer_now N (set_slot slot (c\<lparr>lc_sub := sub\<rparr>) l) k)
          else
            (let c = c\<lparr>lc_sub := sub\<lparr>su_active := True\<rparr>\<rparr>; (_, c) = reply c MSG_OP_ACK 0 from []
             in (set_slot slot c l, k)))"

definition handle_read ::
    "'k net \<Rightarrow> loop_t \<Rightarrow> nat \<Rightarrow> msg_header_t \<Rightarrow> bytes \<Rightarrow> nat \<Rightarrow> 'k \<Rightarrow> loop_t \<times> 'k" where
  "handle_read N l slot h payload scratch_len k =
     (case msg_decode_read payload of
        None \<Rightarrow>
          (let (_, l) = reply_err l slot MSG_ERR_PAYLOAD_TOO_BIG (h_sequence h)
           in (set_slot slot ((slot_of l slot)\<lparr>lc_closing := True\<rparr>) l, k))
      | Some req \<Rightarrow>
          let c = slot_of l slot; sub = lc_sub c in
          if su_active sub \<or> su_waiting sub then
            (snd (reply_err l slot MSG_ERR_UNSUPPORTED (h_sequence h)), k)
          else let all_keys = h_flags h AND MSG_FLAG_ALL_KEYS \<noteq> 0;
                   sub = sub\<lparr>su_key := h_partition_key h, su_all_keys := all_keys, su_min_seq := read_min_seq req,
                            su_once := True, su_until := wal_durable_seq (l_wal l)\<rparr>;
                   from = wal_first_seq (l_wal l);
                   range' = (if \<not> all_keys then wal_index_range (wal_index (l_wal l)) (su_key sub) from else None) in
          if \<not> all_keys \<and> range' = None \<and> wal_index_complete (wal_index (l_wal l)) then
            (let sub = sub\<lparr>su_until := 0, su_cursor := (su_cursor sub)\<lparr>c_next_seq := 1\<rparr>, su_active := True\<rparr>;
                 (_, c) = reply (c\<lparr>lc_sub := sub\<rparr>) MSG_OP_ACK 0 0 []
             in (set_slot slot c l, k))
          else let (from, sub) = (case range' of
                     Some (key_from, key_last) \<Rightarrow>
                       (key_from, if key_last < su_until sub then sub\<lparr>su_until := key_last\<rparr> else sub)
                   | None \<Rightarrow> (from, sub));
                   (r, cur, k) = wal_cursor_seek (net_files N) (l_wal l) wal_cursor_init from scratch_len k;
                   sub = sub\<lparr>su_cursor := cur\<rparr>;
                   l = set_slot slot (c\<lparr>lc_sub := sub\<rparr>) l in
          if \<not> result_ok r then (snd (reply_err l slot MSG_ERR_NO_HISTORY (h_sequence h)), k)
          else if read_min_seq req > su_until sub then
            (let sub = sub\<lparr>su_waiting := True, su_deadline := l_tick l + LOOP_SUB_DEADLINE_TICKS\<rparr>
             in arm_timer_now N (set_slot slot (c\<lparr>lc_sub := sub\<rparr>) l) k)
          else
            (let c = c\<lparr>lc_sub := sub\<lparr>su_active := True\<rparr>\<rparr>;
                 (_, c) = reply c MSG_OP_ACK 0 (c_next_seq (su_cursor sub)) []
             in (set_slot slot c l, k)))"

section \<open>Replicas attaching and confirming\<close>

primrec free_peer :: "bool list \<Rightarrow> nat option" where
  "free_peer [] = None"
| "free_peer (p # ps) = (if \<not> p then Some 0 else map_option Suc (free_peer ps))"

definition handle_repl_start ::
    "'k net \<Rightarrow> loop_t \<Rightarrow> nat \<Rightarrow> msg_header_t \<Rightarrow> nat \<Rightarrow> 'k \<Rightarrow> loop_t \<times> 'k" where
  "handle_repl_start N l slot h scratch_len k =
     (let close = (\<lambda>l. set_slot slot ((slot_of l slot)\<lparr>lc_closing := True\<rparr>) l) in
      if l_is_follower l then
        (close (snd (reply_err_text l slot MSG_ERR_NOT_LEADER (h_sequence h) (l_leader_text l))), k)
      else case free_peer (l_peer_live l) of
        None \<Rightarrow> (close (snd (reply_err l slot MSG_ERR_NO_REPLICAS (h_sequence h))), k)
      | Some idx \<Rightarrow>
          let (r, cur, k) = wal_cursor_seek (net_files N) (l_wal l) wal_cursor_init (h_sequence h) scratch_len k;
              l = l\<lparr>l_peer_cursor := (l_peer_cursor l)[idx := cur]\<rparr> in
          if \<not> result_ok r then (close (snd (reply_err l slot MSG_ERR_NO_HISTORY (h_sequence h))), k)
          else let c = (slot_of l slot)\<lparr>lc_replica := Some idx, lc_send_cap := LOOP_REPL_CAP, lc_send := []\<rparr>;
                   (now, k) = os_now_ns N k;
                   l = (set_slot slot c l)\<lparr>l_peer_live := (l_peer_live l)[idx := True],
                         l_peer_durable := (l_peer_durable l)[idx := h_sequence h - 1],
                         l_peer_ack_ns := (l_peer_ack_ns l)[idx := now]\<rparr>
               in arm_timer_now N (retain_floor_update l) k)"

definition handle_repl_ack :: "'k net \<Rightarrow> loop_t \<Rightarrow> nat \<Rightarrow> msg_header_t \<Rightarrow> 'k \<Rightarrow> loop_t \<times> 'k" where
  "handle_repl_ack N l slot h k =
     (case lc_replica (slot_of l slot) of
        None \<Rightarrow> (l, k)
      | Some idx \<Rightarrow>
          (let l = l\<lparr>l_peer_durable := (l_peer_durable l)[idx := h_sequence h]\<rparr>;
               (now, k) = os_now_ns N k;
               l = l\<lparr>l_peer_ack_ns := (l_peer_ack_ns l)[idx := now]\<rparr>
           in (retain_floor_update l, k)))"

section \<open>Dispatch\<close>

definition handle_frame ::
    "'k net \<Rightarrow> loop_t \<Rightarrow> nat \<Rightarrow> msg_header_t \<Rightarrow> bytes \<Rightarrow> bytes \<Rightarrow> 'k \<Rightarrow> loop_t \<times> 'k" where
  "handle_frame N l slot h payload scratch k =
     (let op = h_op h in
      if op = MSG_OP_HELLO then handle_hello N l slot h payload k
      else if op = MSG_OP_WRITE then handle_write N l slot h payload scratch k
      else if op = MSG_OP_PING then
        (let (_, c) = reply (slot_of l slot) MSG_OP_PONG 0 (h_sequence h) [] in (set_slot slot c l, k))
      else if op = MSG_OP_REPL_START then handle_repl_start N l slot h (length scratch) k
      else if op = MSG_OP_REPL_ACK then handle_repl_ack N l slot h k
      else if op = MSG_OP_SUBSCRIBE then handle_subscribe N l slot h payload (length scratch) k
      else if op = MSG_OP_READ then handle_read N l slot h payload (length scratch) k
      else if op = MSG_OP_DELETE then (snd (reply_err l slot MSG_ERR_UNSUPPORTED (h_sequence h)), k)
      else
        (let (_, l) = reply_err l slot MSG_ERR_BAD_OP (h_sequence h)
         in (set_slot slot ((slot_of l slot)\<lparr>lc_closing := True\<rparr>) l, k)))"

end
