(* ===== verification/Loop_Push.thy ===== *)
theory Loop_Push
  imports Loop_Frames Fmt
begin

text \<open>
  \<^verbatim>\<open>src/server/loop.c\<close>, what a pass does once its events are handled and the log is
  flushed: acknowledgements, the streams to replicas and subscribers, the follower's side of
  replication, the flush histogram and retention. The loops over the connection array are
  recursions over slot numbers.
\<close>

section \<open>Subscribers\<close>

text \<open>The records of one read, in order: those of the key asked for are staged. The count is
  of the frames handed to \<open>reply_record\<close>, as in the source.\<close>

function push_records :: "bool \<Rightarrow> u64 \<Rightarrow> bytes \<Rightarrow> nat \<Rightarrow> loop_conn_t \<Rightarrow> u64 \<Rightarrow> loop_conn_t \<times> u64" where
  "push_records all_keys key scratch at c n =
     (if at < length scratch then
        (case wal_rec_decode (drop at scratch) of
           None \<Rightarrow> (c, n)
         | Some rec' \<Rightarrow>
             let size' = wal_rec_size (sint (r_len rec')) in
             if size' = 0 \<or> int at + size' > int (length scratch) then (c, n)
             else let (c, n) = (if all_keys \<or> r_partition_key rec' = key
                    then (snd (reply_record c rec' (drop (at + WAL_REC_HEADER_SIZE) scratch)), n + 1)
                    else (c, n))
                  in push_records all_keys key scratch (at + nat size') c n)
      else (c, n))"
  by pat_completeness auto
termination
proof (relation "measure (\<lambda>(a, key, buf, at, c, n). length buf - at)", goal_cases)
  case 1
  then show ?case by simp
next
  case (2 a key buf at c n rec' size' x c' n')
  then have "56 \<le> size'" using wal_rec_size_min by blast
  then have "0 < nat size'" by simp
  with 2(1) show ?case by (simp del: zero_less_nat_eq)
qed

declare push_records.simps [simp del]

text \<open>One slot of \<open>subs_push\<close>. \<open>durable\<close> is the source's local variable, which the
  loop shares between slots.\<close>

definition subs_push_slot ::
    "'k net \<Rightarrow> nat \<Rightarrow> nat \<Rightarrow> loop_t \<times> u64 \<times> 'k \<Rightarrow> loop_t \<times> u64 \<times> 'k" where
  "subs_push_slot N scratch_len i = (\<lambda>(l, durable, k).
     let c = slot_of l i; sub = lc_sub c in
     if \<not> lc_in_use c \<or> lc_closing c then (l, durable, k)
     else if su_waiting sub then
       (if durable \<ge> su_min_seq sub then
          (let sub = sub\<lparr>su_waiting := False, su_active := True\<rparr>;
               sub = (if su_once sub then sub\<lparr>su_until := durable\<rparr> else sub);
               (_, c) = reply (c\<lparr>lc_sub := sub\<rparr>) MSG_OP_ACK 0 (c_next_seq (su_cursor sub)) []
           in ((set_slot i c l)\<lparr>l_progress := True\<rparr>, durable, k))
        else if l_tick l \<ge> su_deadline sub then
          (let sub = sub\<lparr>su_waiting := False\<rparr>;
               (_, l) = reply_err (set_slot i (c\<lparr>lc_sub := sub\<rparr>) l) i MSG_ERR_BEHIND (su_min_seq sub);
               (_, cur, k) = wal_cursor_close (net_files N) (su_cursor sub) k
           in (set_slot i ((slot_of l i)\<lparr>lc_sub := sub\<lparr>su_cursor := cur\<rparr>\<rparr>) l, durable, k))
        else (l, durable, k))
     else if \<not> su_active sub \<or> lc_want_out c then (l, durable, k)
     else let room = lc_send_cap c - length (lc_send c) in
     if room < MSG_HEADER_SIZE then (l, durable, k)
     else let room = (if room > scratch_len then scratch_len else room) in
     if su_once sub \<and> c_next_seq (su_cursor sub) > su_until sub then
       (let (_, c) = reply c MSG_OP_NOTIFY MSG_FLAG_LAST (su_until sub) [];
            (_, cur, k) = wal_cursor_close (net_files N) (su_cursor sub) k
        in (set_slot i (c\<lparr>lc_sub := sub\<lparr>su_active := False, su_cursor := cur\<rparr>\<rparr>) l, durable, k))
     else let durable = (if su_once sub \<and> durable > su_until sub then su_until sub else durable);
              (r, cur, got, k) = wal_cursor_read (net_files N) (l_wal l) (su_cursor sub) durable room k;
              c = c\<lparr>lc_sub := sub\<lparr>su_cursor := cur\<rparr>\<rparr>;
              l = set_slot i c l in
     if \<not> result_ok r then
       (let (_, l) = reply_err l i MSG_ERR_NO_HISTORY (c_next_seq cur)
        in (set_slot i ((slot_of l i)\<lparr>lc_closing := True\<rparr>) l, durable, k))
     else let l = (if got \<noteq> [] then l\<lparr>l_progress := True\<rparr> else l);
              (c, n) = push_records (su_all_keys sub) (su_key sub) got 0 c (l_notified l)
          in ((set_slot i c l)\<lparr>l_notified := n\<rparr>, durable, k))"

definition subs_push :: "'k net \<Rightarrow> nat \<Rightarrow> loop_t \<Rightarrow> 'k \<Rightarrow> loop_t \<times> 'k" where
  "subs_push N scratch_len l k =
     (let (l, _, k) = fold (subs_push_slot N scratch_len) [0..<LOOP_MAX_CONNS] (l, wal_durable_seq (l_wal l), k)
      in (l, k))"

section \<open>Streaming to replicas\<close>

definition repl_stream_slot :: "'k net \<Rightarrow> u64 \<Rightarrow> nat \<Rightarrow> loop_t \<times> 'k \<Rightarrow> loop_t \<times> 'k" where
  "repl_stream_slot N limit i = (\<lambda>(l, k).
     let c = slot_of l i in
     if \<not> lc_in_use c \<or> lc_closing c \<or> lc_replica c = None \<or> lc_send c \<noteq> [] then (l, k)
     else let idx = the (lc_replica c);
              first = c_next_seq (l_peer_cursor l ! idx);
              (r, cur, got, k) = wal_cursor_read (net_files N) (l_wal l) (l_peer_cursor l ! idx) limit
                (lc_send_cap c - MSG_HEADER_SIZE) k;
              l = l\<lparr>l_peer_cursor := (l_peer_cursor l)[idx := cur]\<rparr> in
     if \<not> result_ok r then (set_slot i (c\<lparr>lc_closing := True\<rparr>) l, k)
     else if got = [] then (l, k)
     else let h = msg_header_new MSG_OP_REPL_DATA MSG_RECORD_NONE 0 (of_nat (length got)) 0 first;
              c = c\<lparr>lc_send := the (msg_encode_header (lc_send_cap c) h) @ got\<rparr>
          in ((set_slot i c l)\<lparr>l_progress := True,
                l_repl_records := l_repl_records l + (c_next_seq cur - first)\<rparr>, k))"

definition repl_stream :: "'k net \<Rightarrow> loop_t \<Rightarrow> 'k \<Rightarrow> loop_t \<times> 'k" where
  "repl_stream N l k =
     fold (repl_stream_slot N (wal_durable_seq (l_wal l))) [0..<LOOP_MAX_CONNS] (l, k)"

section \<open>The follower's stream\<close>

abbreviation STREAM_SEND_CAP :: nat where "STREAM_SEND_CAP \<equiv> MSG_HEADER_SIZE * 2"

definition stream_frame :: "u16 \<Rightarrow> u64 \<Rightarrow> loop_t \<Rightarrow> loop_t" where
  "stream_frame op sequence l =
     (let room = STREAM_SEND_CAP - length (l_repl_send l) in
      if room < MSG_HEADER_SIZE then l
      else let h = msg_header_new op MSG_RECORD_NONE 0 0 0 sequence
           in l\<lparr>l_repl_send := l_repl_send l @ the (msg_encode_header room h)\<rparr>)"

definition stream_release :: "'k net \<Rightarrow> loop_t \<Rightarrow> 'k \<Rightarrow> loop_t \<times> 'k" where
  "stream_release N l k =
     (if l_repl_fd l < 0 \<or> l_repl_connecting l then (l, k)
      else let (_, k) = os_epoll_ctl N (l_epoll_fd l) EPOLL_CTL_DEL (l_repl_fd l) 0 0 k;
               (_, k) = os_close (net_files N) (l_repl_fd l) k
           in (l\<lparr>l_repl_fd := -1, l_repl_closing := False, l_repl_want_out := False, l_repl_send := [],
                 l_repl_next_dial := l_tick l + LOOP_REDIAL_TICKS\<rparr>, k))"

text \<open>\<open>p\<close> is the payload from \<open>at\<close> on. The record's sequence is known to be the next one
  when \<open>wal_append_at\<close> is called.\<close>

function repl_apply :: "'k net \<Rightarrow> bytes \<Rightarrow> bytes \<Rightarrow> loop_t \<Rightarrow> 'k \<Rightarrow> loop_t \<times> 'k" where
  "repl_apply N p scratch l k =
     (if p = [] then (l, k)
      else let stop = (\<lambda>l. l\<lparr>l_repl_closing := True\<rparr>) in
      case wal_rec_decode p of
        None \<Rightarrow> (stop l, k)
      | Some rec' \<Rightarrow>
          let size' = wal_rec_size (sint (r_len rec')) in
          if size' = 0 \<or> size' > int (length p) \<or> \<not> wal_rec_verify p rec'
            \<or> r_seq rec' \<noteq> wal_next_seq (l_wal l) then (stop l, k)
          else let (r, w, rec', k) = wal_append_at (net_files N) (l_wal l) rec'
                     (Some (drop WAL_REC_HEADER_SIZE p)) scratch k;
                   l = l\<lparr>l_wal := w\<rparr> in
          if \<not> result_ok r then (stop l, k)
          else repl_apply N (drop (nat size') p) scratch
                 (l\<lparr>l_sessions := session_from_record rec' (l_sessions l), l_repl_last_err := 0,
                    l_wal_dirty := True, l_repl_records := l_repl_records l + 1\<rparr>) k)"
  by pat_completeness auto
termination
proof (relation "measure (\<lambda>(N, p, s, l, k). length p)", goal_cases)
  case 1
  then show ?case by simp
next
  case (2 N p scratch l k stop rec' size')
  then have "56 \<le> size'" using wal_rec_size_min by blast
  then have "0 < nat size'" by linarith
  moreover have "0 < length p" using 2(1) by blast
  ultimately have "length p - nat size' < length p" by linarith
  then show ?case by (simp only: in_measure prod.case length_drop)
qed

declare repl_apply.simps [simp del]

definition say :: "'k net \<Rightarrow> string \<Rightarrow> 'k \<Rightarrow> 'k" where
  "say N s k = snd (os_write_raw N 2 (ascii s) k)"

definition refusal_text :: "u16 \<Rightarrow> string" where
  "refusal_text code =
     (if code = MSG_ERR_NO_HISTORY then
        ''msgsrvd: the leader does not hold the sequence this node asked for.'' @ [CHR 0x0A] @
        ''Its log has to be replaced with a copy of the leader's; streaming cannot repair it.'' @ [CHR 0x0A]
      else if code = MSG_ERR_NOT_LEADER then
        ''msgsrvd: the node named as leader is a replica itself.'' @ [CHR 0x0A]
      else if code = MSG_ERR_NO_REPLICAS then
        ''msgsrvd: the leader has no room for another replica.'' @ [CHR 0x0A]
      else ''msgsrvd: the leader refused the replication stream.'' @ [CHR 0x0A])"

definition on_stream_frame ::
    "'k net \<Rightarrow> loop_t \<Rightarrow> msg_header_t \<Rightarrow> bytes \<Rightarrow> bytes \<Rightarrow> 'k \<Rightarrow> loop_t \<times> 'k" where
  "on_stream_frame N l h payload scratch k =
     (if h_op h = MSG_OP_REPL_DATA then repl_apply N payload scratch l k
      else if h_op h = MSG_OP_ERR then
        (let code = (case msg_decode_err payload of Some p \<Rightarrow> err_code p | None \<Rightarrow> 0);
             (l, k) = (if code \<noteq> l_repl_last_err l
               then (l\<lparr>l_repl_last_err := code\<rparr>, say N (refusal_text code) k) else (l, k))
         in (l\<lparr>l_repl_closing := True\<rparr>, k))
      else (l\<lparr>l_repl_closing := True\<rparr>, k))"

definition stream_report :: "loop_t \<Rightarrow> loop_t" where
  "stream_report l =
     (if l_repl_fd l < 0 \<or> l_repl_connecting l \<or> l_repl_closing l then l
      else let durable = wal_durable_seq (l_wal l) in
      if durable \<le> l_repl_acked l then l
      else if l_repl_send l \<noteq> [] then l
      else (stream_frame MSG_OP_REPL_ACK durable l)\<lparr>l_repl_acked := durable\<rparr>)"

section \<open>Acknowledgements\<close>

definition ack_count :: "u16 \<Rightarrow> loop_t \<Rightarrow> loop_t" where
  "ack_count flags l =
     (if flags AND MSG_FLAG_REPLICATED \<noteq> 0 \<and> flags AND MSG_FLAG_DEGRADED = 0 then
        l\<lparr>l_acks_repl := l_acks_repl l + 1\<rparr>
      else if flags AND MSG_FLAG_SYNC \<noteq> 0 then l\<lparr>l_acks_sync := l_acks_sync l + 1\<rparr>
      else l\<lparr>l_acks_append := l_acks_append l + 1\<rparr>)"

text \<open>The two halves of one slot of \<open>acks_emit\<close>: what the flush answers, and what a replica,
  the deadline or the loss of the last replica answers.\<close>

definition emit_local :: "nat \<Rightarrow> loop_t \<Rightarrow> loop_t" where
  "emit_local i l =
     (let c = slot_of l i; a = lc_ack_local c in
      if a_due a then
        (let (_, c) = reply_ack c (a_flags a) (a_wal_seq a) (a_client_seq a)
         in ack_count (a_flags a) (set_slot i (c\<lparr>lc_ack_local := ack_clear a\<rparr>) l))
      else l)"

definition emit_repl :: "u64 \<Rightarrow> bool \<Rightarrow> nat \<Rightarrow> loop_t \<Rightarrow> loop_t" where
  "emit_repl best live i l =
     (let c = slot_of l i; a = lc_ack_repl c in
      if \<not> a_due a then l
      else if best \<ge> a_wal_seq a \<and> wal_durable_seq (l_wal l) \<ge> a_wal_seq a then
        (let (_, c) = reply_ack c (a_flags a) (a_wal_seq a) (a_client_seq a)
         in ack_count (a_flags a) (set_slot i (c\<lparr>lc_ack_repl := ack_clear a\<rparr>) l))
      else if live \<and> l_tick l < a_deadline a then l
      else if a_degradable a then
        (let flags = a_flags a OR MSG_FLAG_DEGRADED;
             (_, c) = reply_ack c flags (a_wal_seq a) (a_client_seq a);
             l = ack_count flags (set_slot i (c\<lparr>lc_ack_repl := ack_clear a\<rparr>) l)
         in l\<lparr>l_repl_degraded := l_repl_degraded l + 1\<rparr>)
      else
        (let (_, l) = reply_err l i MSG_ERR_NO_REPLICAS (a_client_seq a)
         in set_slot i ((slot_of l i)\<lparr>lc_ack_repl := ack_clear a\<rparr>) l))"

definition acks_emit :: "loop_t \<Rightarrow> loop_t" where
  "acks_emit l =
     (let best = repl_best l; live = repl_live l in
      fold (\<lambda>i l. if \<not> lc_in_use (slot_of l i) then l else emit_repl best live i (emit_local i l))
        [0..<LOOP_MAX_CONNS] l)"

section \<open>Flushes and retention\<close>

definition fsync_bound_ns :: "u64 list" where
  "fsync_bound_ns = [500000, 1000000, 2000000, 5000000, 10000000, 20000000, 50000000]"

primrec bucket_of :: "u64 list \<Rightarrow> u64 \<Rightarrow> nat" where
  "bucket_of [] ns = 0"
| "bucket_of (b # bs) ns = (if ns \<le> b then 0 else Suc (bucket_of bs ns))"

definition fsync_observe :: "'k net \<Rightarrow> loop_t \<Rightarrow> u64 \<Rightarrow> 'k \<Rightarrow> loop_t \<times> 'k" where
  "fsync_observe N l began_ns k =
     (let (ns, k) = (if began_ns > 0 then
            (let (now, k) = os_now_ns N k in (if now > began_ns then now - began_ns else 0, k))
          else (0, k));
          i = bucket_of fsync_bound_ns ns
      in (l\<lparr>l_fsync_ns_total := l_fsync_ns_total l + ns,
            l_fsync_bucket := (l_fsync_bucket l)[i := l_fsync_bucket l ! i + 1]\<rparr>, k))"

definition retain_pass :: "'k net \<Rightarrow> loop_t \<Rightarrow> 'k \<Rightarrow> loop_t \<times> 'k" where
  "retain_pass N l k =
     (if l_retain_segments l \<le> 0 then (l, k)
      else let segments = wal_segments (l_wal l) in
      if l_retain_failed l \<and> segments = l_retain_seen_segs l then (l, k)
      else let l = l\<lparr>l_retain_failed := False, l_retain_seen_segs := segments\<rparr>;
               keep_from = wal_retain_mark (l_wal l) (l_retain_segments l) in
      if keep_from = 0 then (l, k)
      else let keep_from = (if l_replicas_want l > 0 \<and> l_retain_floor l + 1 < keep_from
                            then l_retain_floor l + 1 else keep_from) in
      if keep_from \<le> wal_first_seq (l_wal l) then (l, k)
      else let (r, w, removed, k) = wal_retain (net_files N) (l_wal l) keep_from k;
               l = l\<lparr>l_wal := w\<rparr>;
               (l, k) = (if \<not> result_ok r then
                   (l\<lparr>l_retain_errors := l_retain_errors l + 1, l_retain_failed := True\<rparr>,
                    say N (''msgsrvd: retention could not remove a segment'' @ [CHR 0x0A]) k)
                 else (l, k))
           in (l\<lparr>l_retain_removed := l_retain_removed l + of_nat removed\<rparr>, k))"

end
