(* ===== verification/Loop_Events.thy ===== *)
theory Loop_Events
  imports Loop_Push Metrics
begin

text \<open>
  \<^verbatim>\<open>src/server/loop.c\<close>, from a readiness report to the handlers and back: accepting,
  receiving and sending on a connection, dialling and driving the follower's stream,
  scrapes, the arm phase, and the pass \<open>loop_tick\<close> that puts them in order. Starting and
  stopping the loop are here too.
\<close>

section \<open>Interest\<close>

definition conn_want_out :: "'k net \<Rightarrow> loop_t \<Rightarrow> nat \<Rightarrow> bool \<Rightarrow> 'k \<Rightarrow> loop_t \<times> 'k" where
  "conn_want_out N l i want k =
     (let c = slot_of l i in
      if lc_fd c < 0 \<or> lc_want_out c = want then (l, k)
      else let events = (if want then EPOLLIN OR EPOLLOUT else EPOLLIN);
               (r, k) = os_epoll_ctl N (l_epoll_fd l) EPOLL_CTL_MOD (lc_fd c) events (UD_MAKE OP_CONN i) k in
      if \<not> result_ok r then (set_slot i (c\<lparr>lc_closing := True\<rparr>) l, k)
      else (set_slot i (c\<lparr>lc_want_out := want\<rparr>) l, k))"

definition stream_want_out :: "'k net \<Rightarrow> loop_t \<Rightarrow> bool \<Rightarrow> 'k \<Rightarrow> loop_t \<times> 'k" where
  "stream_want_out N l want k =
     (if l_repl_fd l < 0 \<or> l_repl_want_out l = want then (l, k)
      else let events = (if want then EPOLLIN OR EPOLLOUT else EPOLLIN);
               (r, k) = os_epoll_ctl N (l_epoll_fd l) EPOLL_CTL_MOD (l_repl_fd l) events (UD_MAKE OP_STREAM 0) k in
      if \<not> result_ok r then (l\<lparr>l_repl_closing := True\<rparr>, k)
      else (l\<lparr>l_repl_want_out := want\<rparr>, k))"

section \<open>Client connections\<close>

text \<open>The static receive buffer of the slot; what an earlier connection left in it is never
  read, since parsing stays within the bytes received.\<close>

definition on_accept :: "'k net \<Rightarrow> loop_t \<Rightarrow> int \<Rightarrow> 'k \<Rightarrow> loop_t \<times> 'k" where
  "on_accept N l res k =
     (if res < 0 then (l, k)
      else case slot_alloc l of
        None \<Rightarrow> (l, snd (os_close (net_files N) res k))
      | Some slot \<Rightarrow>
          (let (r, k) = os_epoll_ctl N (l_epoll_fd l) EPOLL_CTL_ADD res EPOLLIN (UD_MAKE OP_CONN slot) k in
           if \<not> result_ok r then (l, snd (os_close (net_files N) res k))
           else let c = slot_reset\<lparr>lc_in_use := True, lc_fd := res,
                  lc_conn := conn_init (replicate LOOP_RECV_CAP 0) LOOP_RECV_CAP CONN_MODE_CLIENT\<rparr>
                in ((set_slot slot c l)\<lparr>l_accepted := l_accepted l + 1\<rparr>, k)))"

text \<open>The actions of one \<open>conn_feed\<close>; \<open>conn\<close> is the framing state they point into.\<close>

fun on_actions ::
    "'k net \<Rightarrow> nat \<Rightarrow> bytes \<Rightarrow> conn_t \<Rightarrow> conn_action_t list \<Rightarrow> loop_t \<Rightarrow> 'k \<Rightarrow> loop_t \<times> 'k" where
  "on_actions N slot scratch conn [] l k = (l, k)"
| "on_actions N slot scratch conn (CONN_ACTION_FRAME h p n # as) l k =
     (let (l, k) = handle_frame N l slot h (payload_bytes conn p n) scratch k
      in on_actions N slot scratch conn as l k)"
| "on_actions N slot scratch conn (CONN_ACTION_REPLY_ERR code sq # as) l k =
     (let (_, l) = reply_err l slot code sq in on_actions N slot scratch conn as l k)"
| "on_actions N slot scratch conn (CONN_ACTION_CLOSE # as) l k =
     on_actions N slot scratch conn as (set_slot slot ((slot_of l slot)\<lparr>lc_closing := True\<rparr>) l) k"

text \<open>The receive loop. The framing state is passed along next to the loop's state: no
  handler changes it (\<open>handle_frame_same_conn\<close> in \<open>Loop_Steps\<close>), so it is the slot's at every turn.\<close>

function on_recv_loop ::
    "'k net \<Rightarrow> nat \<Rightarrow> bytes \<Rightarrow> conn_t \<Rightarrow> loop_t \<Rightarrow> 'k \<Rightarrow> loop_t \<times> 'k" where
  "on_recv_loop N slot scratch conn l k =
     (let (as, conn) = conn_feed conn 8;
          l = set_slot slot ((slot_of l slot)\<lparr>lc_conn := conn\<rparr>) l in
      if as = [] then (l, k)
      else let (l, k) = on_actions N slot scratch conn as l k in
      if lc_closing (slot_of l slot) then (l, k)
      else on_recv_loop N slot scratch conn l k)"
  by pat_completeness auto
termination
  by (relation "measure (\<lambda>(N, slot, s, conn, l, k). buf_len conn - buf_off conn)")
    (auto dest!: sym [of "(_, _)" "conn_feed _ _"] intro: conn_feed_progress)

declare on_recv_loop.simps [simp del]

definition on_recv :: "'k net \<Rightarrow> loop_t \<Rightarrow> nat \<Rightarrow> int \<Rightarrow> bytes \<Rightarrow> 'k \<Rightarrow> loop_t \<times> 'k" where
  "on_recv N l slot res scratch k =
     (let c = slot_of l slot in
      if \<not> lc_in_use c then (l, k)
      else if res \<le> 0 then (set_slot slot (c\<lparr>lc_closing := True\<rparr>) l, k)
      else on_recv_loop N slot scratch (snd (conn_recv_commit (lc_conn c) (nat res))) l k)"

definition loop_send_done :: "loop_t \<Rightarrow> nat \<Rightarrow> int \<Rightarrow> loop_t" where
  "loop_send_done l slot res =
     (let c = slot_of l slot in
      if \<not> lc_in_use c then l
      else if res \<le> 0 then set_slot slot (c\<lparr>lc_closing := True, lc_send := []\<rparr>) l
      else if res < int (length (lc_send c)) then
        set_slot slot (c\<lparr>lc_send := drop (nat res) (lc_send c)\<rparr>) l
      else set_slot slot (c\<lparr>lc_send := []\<rparr>) l)"

definition do_accept :: "'k net \<Rightarrow> loop_t \<Rightarrow> 'k \<Rightarrow> loop_t \<times> 'k" where
  "do_accept N l k =
     (if l_stop l then (l, k)
      else let (r, fd, k) = os_accept4 N (l_listen_fd l) (SOCK_NONBLOCK OR SOCK_CLOEXEC) (-1) k in
      if \<not> result_ok r then (l, k) else on_accept N l fd k)"

text \<open>The bytes land in the receive buffer at the write position.\<close>

definition do_recv :: "'k net \<Rightarrow> loop_t \<Rightarrow> nat \<Rightarrow> bytes \<Rightarrow> 'k \<Rightarrow> loop_t \<times> 'k" where
  "do_recv N l slot scratch k =
     (let c = slot_of l slot in
      if \<not> lc_in_use c \<or> lc_fd c < 0 then (l, k)
      else let conn = lc_conn c; space = conn_recv_space conn in
      if space = 0 then (l, k)
      else let (res, bs, k) = os_recv N (lc_fd c) space MSG_DONTWAIT k;
               conn = conn\<lparr>buf := mem_copy (length bs) (buf conn) (conn_recv_ptr conn) bs 0\<rparr>;
               l = set_slot slot (c\<lparr>lc_conn := conn\<rparr>) l in
      if res = - EAGAIN then (l, k) else on_recv N l slot res scratch k)"

definition conn_send :: "'k net \<Rightarrow> loop_t \<Rightarrow> nat \<Rightarrow> 'k \<Rightarrow> loop_t \<times> 'k" where
  "conn_send N l i k =
     (let c = slot_of l i;
          (res, k) = os_send N (lc_fd c) (lc_send c) (MSG_NOSIGNAL OR MSG_DONTWAIT) k in
      if res = - EAGAIN then conn_want_out N l i True k
      else let l = loop_send_done l i res
           in conn_want_out N l i (lc_send (slot_of l i) \<noteq> []) k)"

definition do_send :: "'k net \<Rightarrow> loop_t \<Rightarrow> nat \<Rightarrow> 'k \<Rightarrow> loop_t \<times> 'k" where
  "do_send N l i k =
     (let c = slot_of l i in
      if \<not> lc_in_use c \<or> lc_fd c < 0 then (l, k)
      else if lc_send c = [] then conn_want_out N l i False k
      else conn_send N l i k)"

section \<open>The follower's stream\<close>

definition on_repl_dial :: "'k net \<Rightarrow> loop_t \<Rightarrow> int \<Rightarrow> 'k \<Rightarrow> loop_t \<times> 'k" where
  "on_repl_dial N l res k =
     (let l = l\<lparr>l_repl_connecting := False\<rparr> in
      if res < 0 then
        (let k = (if l_repl_fd l \<ge> 0 then
             (let (_, k) = os_epoll_ctl N (l_epoll_fd l) EPOLL_CTL_DEL (l_repl_fd l) 0 0 k
              in snd (os_close (net_files N) (l_repl_fd l) k)) else k)
         in (l\<lparr>l_repl_fd := -1, l_repl_next_dial := l_tick l + LOOP_REDIAL_TICKS\<rparr>, k))
      else let l = l\<lparr>l_repl_want_out := False\<rparr>;
               (r, k) = os_epoll_ctl N (l_epoll_fd l) EPOLL_CTL_MOD (l_repl_fd l) EPOLLIN (UD_MAKE OP_STREAM 0) k in
      if \<not> result_ok r then (l\<lparr>l_repl_closing := True\<rparr>, k)
      else let l = l\<lparr>l_repl_conn := conn_init (replicate LOOP_REPL_CAP 0) LOOP_REPL_CAP CONN_MODE_INTERNAL,
                     l_repl_send := [], l_repl_closing := False, l_repl_acked := wal_durable_seq (l_wal l)\<rparr>
           in (stream_frame MSG_OP_REPL_START (wal_next_seq (l_wal l)) l, k))"

fun stream_actions ::
    "'k net \<Rightarrow> bytes \<Rightarrow> conn_t \<Rightarrow> conn_action_t list \<Rightarrow> loop_t \<Rightarrow> 'k \<Rightarrow> loop_t \<times> 'k" where
  "stream_actions N scratch conn [] l k = (l, k)"
| "stream_actions N scratch conn (CONN_ACTION_FRAME h p n # as) l k =
     (let (l, k) = on_stream_frame N l h (payload_bytes conn p n) scratch k
      in stream_actions N scratch conn as l k)"
| "stream_actions N scratch conn (_ # as) l k =
     stream_actions N scratch conn as (l\<lparr>l_repl_closing := True\<rparr>) k"

function on_repl_recv_loop :: "'k net \<Rightarrow> bytes \<Rightarrow> conn_t \<Rightarrow> loop_t \<Rightarrow> 'k \<Rightarrow> loop_t \<times> 'k" where
  "on_repl_recv_loop N scratch conn l k =
     (let (as, conn) = conn_feed conn 4; l = l\<lparr>l_repl_conn := conn\<rparr> in
      if as = [] then (l, k)
      else let (l, k) = stream_actions N scratch conn as l k in
      if l_repl_closing l then (l, k)
      else on_repl_recv_loop N scratch conn l k)"
  by pat_completeness auto
termination
  by (relation "measure (\<lambda>(N, s, conn, l, k). buf_len conn - buf_off conn)")
    (auto dest!: sym [of "(_, _)" "conn_feed _ _"] intro: conn_feed_progress)

declare on_repl_recv_loop.simps [simp del]

definition on_repl_recv :: "'k net \<Rightarrow> loop_t \<Rightarrow> int \<Rightarrow> bytes \<Rightarrow> 'k \<Rightarrow> loop_t \<times> 'k" where
  "on_repl_recv N l res scratch k =
     (if l_repl_fd l < 0 then (l, k)
      else if res \<le> 0 then (l\<lparr>l_repl_closing := True\<rparr>, k)
      else on_repl_recv_loop N scratch (snd (conn_recv_commit (l_repl_conn l) (nat res))) l k)"

definition on_repl_send :: "loop_t \<Rightarrow> int \<Rightarrow> loop_t" where
  "on_repl_send l res =
     (if l_repl_fd l < 0 then l
      else if res < 0 then l\<lparr>l_repl_closing := True\<rparr>
      else if res < int (length (l_repl_send l)) then l\<lparr>l_repl_send := drop (nat res) (l_repl_send l)\<rparr>
      else l\<lparr>l_repl_send := []\<rparr>)"

definition do_repl_dial :: "'k net \<Rightarrow> loop_t \<Rightarrow> 'k \<Rightarrow> loop_t \<times> 'k" where
  "do_repl_dial N l k =
     (let (r, so_err, k) = os_getsockopt_int N (l_repl_fd l) SOL_SOCKET SO_ERROR k in
      if \<not> result_ok r then on_repl_dial N l (- EIO) k
      else on_repl_dial N l (- so_err) k)"

definition do_repl_recv :: "'k net \<Rightarrow> loop_t \<Rightarrow> bytes \<Rightarrow> 'k \<Rightarrow> loop_t \<times> 'k" where
  "do_repl_recv N l scratch k =
     (if l_repl_fd l < 0 \<or> l_repl_closing l then (l, k)
      else let conn = l_repl_conn l; space = conn_recv_space conn in
      if space = 0 then (l, k)
      else let (res, bs, k) = os_recv N (l_repl_fd l) space MSG_DONTWAIT k;
               conn = conn\<lparr>buf := mem_copy (length bs) (buf conn) (conn_recv_ptr conn) bs 0\<rparr>;
               l = l\<lparr>l_repl_conn := conn\<rparr> in
      if res = - EAGAIN then (l, k) else on_repl_recv N l res scratch k)"

definition stream_send :: "'k net \<Rightarrow> loop_t \<Rightarrow> 'k \<Rightarrow> loop_t \<times> 'k" where
  "stream_send N l k =
     (let (res, k) = os_send N (l_repl_fd l) (l_repl_send l) (MSG_NOSIGNAL OR MSG_DONTWAIT) k in
      if res = - EAGAIN then stream_want_out N l True k
      else let l = on_repl_send l res in stream_want_out N l (l_repl_send l \<noteq> []) k)"

definition do_repl_send :: "'k net \<Rightarrow> loop_t \<Rightarrow> 'k \<Rightarrow> loop_t \<times> 'k" where
  "do_repl_send N l k =
     (if l_repl_fd l < 0 \<or> l_repl_closing l then (l, k)
      else if l_repl_send l = [] then stream_want_out N l False k
      else stream_send N l k)"

definition repl_dial :: "'k net \<Rightarrow> loop_t \<Rightarrow> 'k \<Rightarrow> loop_t \<times> 'k" where
  "repl_dial N l k =
     (if \<not> l_is_follower l \<or> l_stop l then (l, k)
      else if l_repl_fd l \<ge> 0 \<or> l_repl_connecting l then (l, k)
      else if l_tick l < l_repl_next_dial l then (l, k)
      else let (r, fd, k) = os_socket N AF_INET (SOCK_STREAM OR SOCK_NONBLOCK OR SOCK_CLOEXEC) 0 (-1) k;
               again = l\<lparr>l_repl_next_dial := l_tick l + LOOP_REDIAL_TICKS\<rparr> in
      if \<not> result_ok r then (again, k)
      else let (r, k) = os_epoll_ctl N (l_epoll_fd l) EPOLL_CTL_ADD fd EPOLLOUT (UD_MAKE OP_STREAM 0) k in
      if \<not> result_ok r then (again, snd (os_close (net_files N) fd k))
      else let l = l\<lparr>l_repl_fd := fd, l_repl_connecting := True\<rparr>;
               (r, k) = os_connect N fd (l_leader_addr l) k in
      case r of
        RESULT_OK \<Rightarrow> on_repl_dial N l 0 k
      | RESULT_ERR _ detail \<Rightarrow> if detail \<noteq> EINPROGRESS then on_repl_dial N l (- detail) k else (l, k))"

definition arm_stream :: "'k net \<Rightarrow> loop_t \<Rightarrow> 'k \<Rightarrow> loop_t \<times> 'k" where
  "arm_stream N l k =
     (if l_repl_fd l < 0 \<or> l_repl_connecting l \<or> l_stop l then (l, k)
      else if l_repl_closing l then stream_release N l k
      else let (l, k) = (if l_repl_send l \<noteq> [] \<and> \<not> l_repl_want_out l then stream_send N l k else (l, k)) in
      if l_repl_closing l then (l, k)
      else let conn = conn_compact (l_repl_conn l); l = l\<lparr>l_repl_conn := conn\<rparr> in
      (if conn_recv_space conn = 0 then l\<lparr>l_repl_closing := True\<rparr> else l, k))"

end
