(* ===== verification/Loop_Tick.thy ===== *)
theory Loop_Tick
  imports Loop_Events Scrape
begin

text \<open>
  \<^verbatim>\<open>src/server/loop.c\<close>: event dispatch, the arm phase, one pass of the loop with its one
  flush, and starting and stopping the loop. The static scratch buffer is a parameter,
  since nothing reads it before writing it.
\<close>

section \<open>Signals and the timer\<close>

definition do_signal :: "'k net \<Rightarrow> loop_t \<Rightarrow> 'k \<Rightarrow> loop_t \<times> 'k" where
  "do_signal N l k =
     (if l_signal_fd l < 0 then (l, k)
      else let (n, _, k) = os_read_raw N (l_signal_fd l) SIGNALFD_SIGINFO_SIZE k
           in (if n > 0 then l\<lparr>l_stop := True\<rparr> else l, k))"

definition do_timer :: "'k net \<Rightarrow> loop_t \<Rightarrow> 'k \<Rightarrow> loop_t \<times> 'k" where
  "do_timer N l k =
     (if l_timer_fd l < 0 then (l, k)
      else let (n, bs, k) = os_read_raw N (l_timer_fd l) TIMERFD_READ_SIZE k
           in (if n = int TIMERFD_READ_SIZE then
                 (let fired = (le_dec bs :: u64) in l\<lparr>l_tick := l_tick l + ucast fired\<rparr>)
               else l, k))"

section \<open>Dispatch\<close>

abbreviation EV_READABLE :: u32 where "EV_READABLE \<equiv> EPOLLIN OR EPOLLERR OR EPOLLHUP"

definition tick_event :: "'k net \<Rightarrow> bytes \<Rightarrow> epoll_event_t \<Rightarrow> loop_t \<times> 'k \<Rightarrow> loop_t \<times> 'k" where
  "tick_event N scratch ev = (\<lambda>(l, k).
     let slot = UD_SLOT (ev_data ev); op = UD_OP (ev_data ev);
         readable = ev_events ev AND EV_READABLE \<noteq> 0; writable = ev_events ev AND EPOLLOUT \<noteq> 0 in
     if op = OP_LISTEN then do_accept N l k
     else if op = OP_CONN then
       (let (l, k) = (if readable then do_recv N l slot scratch k else (l, k))
        in if writable then do_send N l slot k else (l, k))
     else if op = OP_SIGNAL then do_signal N l k
     else if op = OP_TIMER then do_timer N l k
     else if op = OP_STREAM then
       (if l_repl_connecting l then do_repl_dial N l k
        else let (l, k) = (if readable then do_repl_recv N l scratch k else (l, k))
             in if writable then do_repl_send N l k else (l, k))
     else if op = OP_METRICS then scrape_accept N l k
     else if op = OP_SCRAPE then
       (let (l, k) = (if readable then scrape_recv N l slot k else (l, k))
        in if writable then scrape_send N l slot k else (l, k))
     else (l, k))"

section \<open>The arm phase\<close>

definition arm_slot :: "'k net \<Rightarrow> nat \<Rightarrow> loop_t \<times> 'k \<Rightarrow> loop_t \<times> 'k" where
  "arm_slot N i = (\<lambda>(l, k).
     let c = slot_of l i in
     if \<not> lc_in_use c then (l, k)
     else let (l, k) = (if lc_send c \<noteq> [] \<and> \<not> lc_want_out c \<and> lc_fd c \<ge> 0 then conn_send N l i k else (l, k)) in
     if lc_closing (slot_of l i) then slot_release N l i k
     else let c = slot_of l i; conn = conn_compact (lc_conn c); c = c\<lparr>lc_conn := conn\<rparr> in
     if conn_recv_space conn = 0 then slot_release N (set_slot i (c\<lparr>lc_closing := True\<rparr>) l) i k
     else (set_slot i c l, k))"

definition arm_conns :: "'k net \<Rightarrow> loop_t \<Rightarrow> 'k \<Rightarrow> loop_t \<times> 'k" where
  "arm_conns N l k = fold (arm_slot N) [0..<LOOP_MAX_CONNS] (l, k)"

section \<open>One pass\<close>

text \<open>Dialling, the arm phase and the stream, which open and close a pass.\<close>

definition arm_phase :: "'k net \<Rightarrow> loop_t \<Rightarrow> 'k \<Rightarrow> loop_t \<times> 'k" where
  "arm_phase N l k =
     (let (l, k) = repl_dial N l k; (l, k) = arm_conns N l k in arm_stream N l k)"

text \<open>What the pass promises once the flush has succeeded.\<close>

definition serve_phase :: "'k net \<Rightarrow> nat \<Rightarrow> loop_t \<Rightarrow> 'k \<Rightarrow> loop_t \<times> 'k" where
  "serve_phase N scratch_len l k =
     (let l = acks_emit l;
          (l, k) = (if l_is_follower l then (stream_report l, k) else repl_stream N l k);
          (l, k) = subs_push N scratch_len l k
      in retain_pass N l k)"

abbreviation MAX_EVENTS :: nat where "MAX_EVENTS \<equiv> LOOP_MAX_CONNS + LOOP_MAX_SCRAPES + 5"

definition flush_phase :: "'k net \<Rightarrow> loop_t \<Rightarrow> 'k \<Rightarrow> result_t \<times> loop_t \<times> 'k" where
  "flush_phase N l k =
     (if l_wal_dirty l then
        (let (began, k) = os_now_ns N k;
             (r, w, k) = wal_sync (net_files N) (l_wal l) k;
             l = l\<lparr>l_wal := w\<rparr> in
         if \<not> result_ok r then (r, l, k)
         else let (l, k) = fsync_observe N (l\<lparr>l_flushes := l_flushes l + 1\<rparr>) began k in (RESULT_OK, l, k))
      else (RESULT_OK, l, k))"

text \<open>The first half of a pass: wait, handle every event, and flush once.\<close>

definition gather_phase :: "'k net \<Rightarrow> bytes \<Rightarrow> bool \<Rightarrow> loop_t \<Rightarrow> 'k \<Rightarrow> result_t \<times> loop_t \<times> 'k" where
  "gather_phase N scratch wait l k =
     (let (l, k) = arm_phase N l k;
          timeout = (if wait \<and> \<not> l_progress l then -1 else 0);
          l = l\<lparr>l_progress := False\<rparr>;
          (r, events, k) = os_epoll_wait N (l_epoll_fd l) MAX_EVENTS timeout k in
      if \<not> result_ok r then (r, l, k)
      else let (l, k) = fold (tick_event N scratch) events (l\<lparr>l_wal_dirty := False\<rparr>, k)
           in flush_phase N l k)"

definition loop_tick :: "'k net \<Rightarrow> bytes \<Rightarrow> bool \<Rightarrow> loop_t \<Rightarrow> 'k \<Rightarrow> result_t \<times> loop_t \<times> 'k" where
  "loop_tick N scratch wait l k =
     (let (r, l, k) = gather_phase N scratch wait l k in
      if \<not> result_ok r then (r, l, k)
      else let (l, k) = serve_phase N (length scratch) l k;
               (l, k) = arm_phase N l k
           in (RESULT_OK, l, k))"

text \<open>\<open>loop_run\<close> ends when a signal stops it or a pass fails.\<close>

partial_function (option) loop_run :: "'k net \<Rightarrow> bytes \<Rightarrow> loop_t \<Rightarrow> 'k \<Rightarrow> (result_t \<times> loop_t \<times> 'k) option" where
  "loop_run N scratch l k =
     (if l_stop l then Some (RESULT_OK, l, k)
      else case loop_tick N scratch True l k of
        (r, l, k) \<Rightarrow> if \<not> result_ok r then Some (r, l, k) else loop_run N scratch l k)"

section \<open>Starting and stopping\<close>

text \<open>All bytes zero, with the descriptors at -1.\<close>

definition loop_blank :: "wal_t \<Rightarrow> session_table_t \<Rightarrow> loop_t" where
  "loop_blank w t =
     \<lparr>l_epoll_fd = -1, l_wal = w, l_listen_fd = -1, l_signal_fd = -1, l_port = 0, l_stop = False,
      l_conns = replicate LOOP_MAX_CONNS slot_reset, l_sessions = t, l_wal_dirty = False, l_progress = False,
      l_is_follower = False, l_repl_connecting = False, l_repl_want_out = False, l_repl_closing = False,
      l_timer_fd = -1, l_tick = 0, l_leader_text = [], l_leader_addr = \<lparr>sin_port = 0, sin_addr = 0\<rparr>,
      l_repl_fd = -1, l_repl_send = [], l_repl_next_dial = 0, l_repl_conn = conn_zero, l_repl_acked = 0,
      l_repl_last_err = 0, l_peer_live = replicate LOOP_MAX_REPLICAS False,
      l_peer_durable = replicate LOOP_MAX_REPLICAS 0, l_peer_cursor = replicate LOOP_MAX_REPLICAS wal_cursor_init,
      l_retain_segments = 0, l_replicas_want = 0, l_retain_floor = 0, l_retain_seen_segs = 0,
      l_retain_failed = False, l_metrics_fd = -1, l_metrics_port = 0,
      l_scrapes = replicate LOOP_MAX_SCRAPES scrape_zero, l_accepted = 0, l_closed = 0, l_writes = 0,
      l_dedup_hits = 0, l_flushes = 0, l_repl_records = 0, l_repl_degraded = 0, l_notified = 0,
      l_retain_removed = 0, l_retain_errors = 0, l_scrapes_served = 0, l_scrapes_refused = 0,
      l_acks_append = 0, l_acks_sync = 0, l_acks_repl = 0, l_refused = replicate LOOP_REFUSED_KINDS 0,
      l_fsync_ns_total = 0, l_fsync_bucket = replicate (LOOP_FSYNC_BUCKETS + 1) 0,
      l_peer_ack_ns = replicate LOOP_MAX_REPLICAS 0\<rparr>"

text \<open>Binding, listening, reading the port back and watching the listener: what follows the
  socket call for both listeners, each step only if the one before succeeded. The port field
  changes only once the bound port has been read.\<close>

definition listen_steps ::
    "'k net \<Rightarrow> int \<Rightarrow> int \<Rightarrow> u32 \<Rightarrow> u16 \<Rightarrow> int \<Rightarrow> u64 \<Rightarrow> u16 \<Rightarrow> 'k \<Rightarrow> result_t \<times> u16 \<times> 'k" where
  "listen_steps N epfd fd bind_ip port backlog dat was k =
     (let (_, k) = os_setsockopt N fd SOL_SOCKET SO_REUSEADDR 1 k;
          addr = \<lparr>sin_port = bswap16 port, sin_addr = bswap32 bind_ip\<rparr>;
          (r, k) = os_bind N fd addr k in
      if \<not> result_ok r then (r, was, k)
      else let (r, k) = os_listen N fd backlog k in
      if \<not> result_ok r then (r, was, k)
      else let (r, addr, k) = os_getsockname N fd addr k in
      if \<not> result_ok r then (r, was, k)
      else let (r, k) = os_epoll_ctl N epfd EPOLL_CTL_ADD fd EPOLLIN dat k
           in (r, bswap16 (sin_port addr), k))"

definition loop_init ::
    "'k net \<Rightarrow> wal_t \<Rightarrow> session_table_t \<Rightarrow> u32 \<Rightarrow> u16 \<Rightarrow> 'k \<Rightarrow> result_t \<times> loop_t \<times> 'k" where
  "loop_init N w t bind_ip port k =
     (let l = loop_blank w t;
          (r, epfd, k) = os_epoll_create N EPOLL_CLOEXEC (-1) k in
      if \<not> result_ok r then (r, l, k)
      else let (r, fd, k) = os_socket N AF_INET (SOCK_STREAM OR SOCK_NONBLOCK OR SOCK_CLOEXEC) 0 (-1) k in
      if \<not> result_ok r then (let (_, k) = os_close (net_files N) epfd k in (r, l, k))
      else let (r, bound, k) = listen_steps N epfd fd bind_ip port 128 (UD_MAKE OP_LISTEN 0) (l_port l) k in
      if \<not> result_ok r then
        (let (_, k) = os_close (net_files N) fd k; (_, k) = os_close (net_files N) epfd k
         in (r, l\<lparr>l_port := bound\<rparr>, k))
      else (RESULT_OK, l\<lparr>l_epoll_fd := epfd, l_listen_fd := fd, l_port := bound\<rparr>, k))"

definition loop_set_leader :: "'k net \<Rightarrow> loop_t \<Rightarrow> sockaddr_in_t \<Rightarrow> bytes \<Rightarrow> 'k \<Rightarrow> result_t \<times> loop_t \<times> 'k" where
  "loop_set_leader N l addr txt k =
     (let (l, k) = arm_timer_now N (l\<lparr>l_is_follower := True, l_leader_addr := addr, l_leader_text := txt,
            l_repl_next_dial := 0\<rparr>) k
      in if l_timer_fd l < 0 then (RESULT_ERR ERR_SYSCALL 0, l, k) else (RESULT_OK, l, k))"

definition loop_set_signal_fd :: "'k net \<Rightarrow> loop_t \<Rightarrow> int \<Rightarrow> 'k \<Rightarrow> loop_t \<times> 'k" where
  "loop_set_signal_fd N l fd k =
     (l\<lparr>l_signal_fd := fd\<rparr>,
      if fd \<ge> 0 then snd (os_epoll_ctl N (l_epoll_fd l) EPOLL_CTL_ADD fd EPOLLIN (UD_MAKE OP_SIGNAL 0) k) else k)"

definition loop_set_retention :: "loop_t \<Rightarrow> int \<Rightarrow> int \<Rightarrow> loop_t" where
  "loop_set_retention l keep_segments replicas =
     (let keep_segments = (if keep_segments < 0 then 0 else keep_segments);
          replicas = (if replicas < 0 then 0 else replicas);
          replicas = (if replicas > int LOOP_MAX_REPLICAS then int LOOP_MAX_REPLICAS else replicas)
      in l\<lparr>l_retain_segments := keep_segments, l_replicas_want := replicas, l_retain_floor := 0,
           l_retain_seen_segs := 0, l_retain_failed := False\<rparr>)"

definition loop_set_metrics_port :: "'k net \<Rightarrow> loop_t \<Rightarrow> u32 \<Rightarrow> u16 \<Rightarrow> 'k \<Rightarrow> result_t \<times> loop_t \<times> 'k" where
  "loop_set_metrics_port N l bind_ip port k =
     (let (r, fd, k) = os_socket N AF_INET (SOCK_STREAM OR SOCK_NONBLOCK OR SOCK_CLOEXEC) 0 (l_metrics_fd l) k;
          l = l\<lparr>l_metrics_fd := fd\<rparr> in
      if \<not> result_ok r then (r, l, k)
      else let (r, bound, k) = listen_steps N (l_epoll_fd l) fd bind_ip port 8 (UD_MAKE OP_METRICS 0) (l_metrics_port l) k in
      if \<not> result_ok r then
        (let (_, k) = os_close (net_files N) fd k in (r, l\<lparr>l_metrics_fd := -1, l_metrics_port := bound\<rparr>, k))
      else (RESULT_OK, l\<lparr>l_metrics_port := bound\<rparr>, k))"

text \<open>Closing a descriptor that is open, and the two loops of \<open>loop_shutdown\<close>.\<close>

definition close_fd :: "'k net \<Rightarrow> int \<Rightarrow> 'k \<Rightarrow> 'k" where
  "close_fd N fd k = (if fd \<ge> 0 then snd (os_close (net_files N) fd k) else k)"

primrec shutdown_scrapes :: "'k net \<Rightarrow> loop_scrape_t list \<Rightarrow> 'k \<Rightarrow> loop_scrape_t list \<times> 'k" where
  "shutdown_scrapes N [] k = ([], k)"
| "shutdown_scrapes N (s # ss) k =
     (let k = close_fd N (ls_fd s) k;
          s = (if ls_fd s \<ge> 0 then s\<lparr>ls_fd := -1\<rparr> else s);
          (ss, k) = shutdown_scrapes N ss k
      in (s # ss, k))"

primrec shutdown_conns :: "'k net \<Rightarrow> loop_conn_t list \<Rightarrow> 'k \<Rightarrow> loop_conn_t list \<times> 'k" where
  "shutdown_conns N [] k = ([], k)"
| "shutdown_conns N (c # cs) k =
     (let (c, k) = (if lc_in_use c \<and> lc_fd c \<ge> 0 then (slot_reset, close_fd N (lc_fd c) k) else (c, k));
          (cs, k) = shutdown_conns N cs k
      in (c # cs, k))"

primrec shutdown_cursors :: "'k net \<Rightarrow> wal_cursor_t list \<Rightarrow> 'k \<Rightarrow> wal_cursor_t list \<times> 'k" where
  "shutdown_cursors N [] k = ([], k)"
| "shutdown_cursors N (c # cs) k =
     (let (_, c, k) = wal_cursor_close (net_files N) c k; (cs, k) = shutdown_cursors N cs k in (c # cs, k))"

definition loop_shutdown :: "'k net \<Rightarrow> loop_t \<Rightarrow> 'k \<Rightarrow> loop_t \<times> 'k" where
  "loop_shutdown N l k =
     (let (scrapes, k) = shutdown_scrapes N (l_scrapes l) k;
          k = close_fd N (l_metrics_fd l) k;
          (conns, k) = shutdown_conns N (l_conns l) k;
          (cursors, k) = shutdown_cursors N (l_peer_cursor l) k;
          k = close_fd N (l_repl_fd l) k;
          k = close_fd N (l_timer_fd l) k;
          k = close_fd N (l_listen_fd l) k;
          k = close_fd N (l_signal_fd l) k;
          k = close_fd N (l_epoll_fd l) k;
          down = (\<lambda>fd. if fd \<ge> 0 then -1 else fd)
      in (l\<lparr>l_stop := True, l_scrapes := scrapes, l_metrics_fd := down (l_metrics_fd l), l_conns := conns,
            l_peer_cursor := cursors, l_peer_live := map (\<lambda>_. False) (l_peer_live l),
            l_repl_fd := down (l_repl_fd l), l_timer_fd := down (l_timer_fd l),
            l_listen_fd := down (l_listen_fd l), l_signal_fd := down (l_signal_fd l),
            l_epoll_fd := down (l_epoll_fd l)\<rparr>, k))"

end
