(* ===== verification/Loop_Inv.thy ===== *)
theory Loop_Inv
  imports Loop_Tick
begin

text \<open>
  The type invariant of the loop's state: every array has its declared length, every index
  kept in the state is within its array, and every buffer holds no more than its capacity.
  Each operation keeps it, so it holds in every state a running loop reaches.
\<close>

section \<open>The invariant\<close>

definition conn_fits :: "nat \<Rightarrow> conn_t \<Rightarrow> bool" where
  "conn_fits cap c \<longleftrightarrow> conn_inv c \<and> buf_cap c \<le> cap"

text \<open>A slot's framing state is a client's, whose first frame has to open the connection.\<close>

definition client_conn :: "conn_t \<Rightarrow> bool" where
  "client_conn c \<longleftrightarrow> conn_fits LOOP_RECV_CAP c \<and> mode c = CONN_MODE_CLIENT"

definition conn_wf :: "loop_conn_t \<Rightarrow> bool" where
  "conn_wf c \<longleftrightarrow> length (lc_send c) \<le> lc_send_cap c \<and> (lc_send_cap c = LOOP_SEND_CAP \<or> lc_send_cap c = LOOP_REPL_CAP)
     \<and> (\<forall>i. lc_replica c = Some i \<longrightarrow> i < LOOP_MAX_REPLICAS) \<and> client_conn (lc_conn c)"

definition scrape_wf :: "loop_scrape_t \<Rightarrow> bool" where
  "scrape_wf s \<longleftrightarrow> length (ls_in s) \<le> LOOP_SCRAPE_CAP \<and> length (ls_out s) \<le> LOOP_METRICS_CAP"

definition loop_wf :: "loop_t \<Rightarrow> bool" where
  "loop_wf l \<longleftrightarrow> length (l_conns l) = LOOP_MAX_CONNS \<and> list_all conn_wf (l_conns l)
     \<and> length (l_peer_live l) = LOOP_MAX_REPLICAS \<and> length (l_peer_durable l) = LOOP_MAX_REPLICAS
     \<and> length (l_peer_cursor l) = LOOP_MAX_REPLICAS \<and> length (l_peer_ack_ns l) = LOOP_MAX_REPLICAS
     \<and> length (l_scrapes l) = LOOP_MAX_SCRAPES \<and> list_all scrape_wf (l_scrapes l)
     \<and> length (l_refused l) = LOOP_REFUSED_KINDS \<and> length (l_fsync_bucket l) = LOOP_FSYNC_BUCKETS + 1
     \<and> length (l_repl_send l) \<le> STREAM_SEND_CAP \<and> conn_fits LOOP_REPL_CAP (l_repl_conn l)"

lemma loop_wf_simps [simp]:
  "loop_wf (l\<lparr>l_epoll_fd := x0\<rparr>) = loop_wf l"
  "loop_wf (l\<lparr>l_wal := x1\<rparr>) = loop_wf l"
  "loop_wf (l\<lparr>l_listen_fd := x2\<rparr>) = loop_wf l"
  "loop_wf (l\<lparr>l_signal_fd := x3\<rparr>) = loop_wf l"
  "loop_wf (l\<lparr>l_port := x4\<rparr>) = loop_wf l"
  "loop_wf (l\<lparr>l_stop := x5\<rparr>) = loop_wf l"
  "loop_wf (l\<lparr>l_wal_dirty := x6\<rparr>) = loop_wf l"
  "loop_wf (l\<lparr>l_progress := x7\<rparr>) = loop_wf l"
  "loop_wf (l\<lparr>l_is_follower := x8\<rparr>) = loop_wf l"
  "loop_wf (l\<lparr>l_repl_connecting := x9\<rparr>) = loop_wf l"
  "loop_wf (l\<lparr>l_repl_want_out := x10\<rparr>) = loop_wf l"
  "loop_wf (l\<lparr>l_repl_closing := x11\<rparr>) = loop_wf l"
  "loop_wf (l\<lparr>l_timer_fd := x12\<rparr>) = loop_wf l"
  "loop_wf (l\<lparr>l_tick := x13\<rparr>) = loop_wf l"
  "loop_wf (l\<lparr>l_leader_text := x14\<rparr>) = loop_wf l"
  "loop_wf (l\<lparr>l_leader_addr := x15\<rparr>) = loop_wf l"
  "loop_wf (l\<lparr>l_repl_fd := x16\<rparr>) = loop_wf l"
  "loop_wf (l\<lparr>l_repl_next_dial := x17\<rparr>) = loop_wf l"
  "loop_wf (l\<lparr>l_repl_acked := x18\<rparr>) = loop_wf l"
  "loop_wf (l\<lparr>l_repl_last_err := x19\<rparr>) = loop_wf l"
  "loop_wf (l\<lparr>l_retain_segments := x20\<rparr>) = loop_wf l"
  "loop_wf (l\<lparr>l_replicas_want := x21\<rparr>) = loop_wf l"
  "loop_wf (l\<lparr>l_retain_floor := x22\<rparr>) = loop_wf l"
  "loop_wf (l\<lparr>l_retain_seen_segs := x23\<rparr>) = loop_wf l"
  "loop_wf (l\<lparr>l_retain_failed := x24\<rparr>) = loop_wf l"
  "loop_wf (l\<lparr>l_metrics_fd := x25\<rparr>) = loop_wf l"
  "loop_wf (l\<lparr>l_metrics_port := x26\<rparr>) = loop_wf l"
  "loop_wf (l\<lparr>l_accepted := x27\<rparr>) = loop_wf l"
  "loop_wf (l\<lparr>l_closed := x28\<rparr>) = loop_wf l"
  "loop_wf (l\<lparr>l_writes := x29\<rparr>) = loop_wf l"
  "loop_wf (l\<lparr>l_dedup_hits := x30\<rparr>) = loop_wf l"
  "loop_wf (l\<lparr>l_flushes := x31\<rparr>) = loop_wf l"
  "loop_wf (l\<lparr>l_repl_records := x32\<rparr>) = loop_wf l"
  "loop_wf (l\<lparr>l_repl_degraded := x33\<rparr>) = loop_wf l"
  "loop_wf (l\<lparr>l_notified := x34\<rparr>) = loop_wf l"
  "loop_wf (l\<lparr>l_retain_removed := x35\<rparr>) = loop_wf l"
  "loop_wf (l\<lparr>l_retain_errors := x36\<rparr>) = loop_wf l"
  "loop_wf (l\<lparr>l_scrapes_served := x37\<rparr>) = loop_wf l"
  "loop_wf (l\<lparr>l_scrapes_refused := x38\<rparr>) = loop_wf l"
  "loop_wf (l\<lparr>l_acks_append := x39\<rparr>) = loop_wf l"
  "loop_wf (l\<lparr>l_acks_sync := x40\<rparr>) = loop_wf l"
  "loop_wf (l\<lparr>l_acks_repl := x41\<rparr>) = loop_wf l"
  "loop_wf (l\<lparr>l_fsync_ns_total := x42\<rparr>) = loop_wf l"
  "loop_wf (l\<lparr>l_sessions := t\<rparr>) = loop_wf l"
  by (simp_all add: loop_wf_def)

lemma conn_wf_simps [simp]:
  "conn_wf (c\<lparr>lc_fd := x1\<rparr>) = conn_wf c"
  "conn_wf (c\<lparr>lc_session := x2\<rparr>) = conn_wf c"
  "conn_wf (c\<lparr>lc_ack_local := x3\<rparr>) = conn_wf c"
  "conn_wf (c\<lparr>lc_ack_repl := x4\<rparr>) = conn_wf c"
  "conn_wf (c\<lparr>lc_sub := x5\<rparr>) = conn_wf c"
  "conn_wf (c\<lparr>lc_in_use := x6\<rparr>) = conn_wf c"
  "conn_wf (c\<lparr>lc_want_out := x7\<rparr>) = conn_wf c"
  "conn_wf (c\<lparr>lc_closing := x8\<rparr>) = conn_wf c"
  by (simp_all add: conn_wf_def)

lemma list_all_update: "list_all P xs \<Longrightarrow> P x \<Longrightarrow> list_all P (xs[i := x])"
  by (auto simp: list_all_iff dest!: subsetD [OF set_update_subset_insert])

lemma set_slot_wf [simp]: "loop_wf l \<Longrightarrow> conn_wf c \<Longrightarrow> loop_wf (set_slot i c l)"
  by (simp add: loop_wf_def set_slot_def list_all_update)

lemma set_scrape_wf [simp]: "loop_wf l \<Longrightarrow> scrape_wf s \<Longrightarrow> loop_wf (set_scrape i s l)"
  by (simp add: loop_wf_def set_scrape_def list_all_update)

lemma slot_wf [simp]: "loop_wf l \<Longrightarrow> i < LOOP_MAX_CONNS \<Longrightarrow> conn_wf (slot_of l i)"
  by (simp add: loop_wf_def list_all_length)

lemma scrape_of_wf [simp]: "loop_wf l \<Longrightarrow> i < LOOP_MAX_SCRAPES \<Longrightarrow> scrape_wf (l_scrapes l ! i)"
  by (simp add: loop_wf_def list_all_length)

lemma loop_wf_lists:
  "loop_wf l \<Longrightarrow> loop_wf (l\<lparr>l_peer_live := (l_peer_live l)[i := p]\<rparr>)"
  "loop_wf l \<Longrightarrow> loop_wf (l\<lparr>l_peer_durable := (l_peer_durable l)[i := d]\<rparr>)"
  "loop_wf l \<Longrightarrow> loop_wf (l\<lparr>l_peer_cursor := (l_peer_cursor l)[i := cur]\<rparr>)"
  "loop_wf l \<Longrightarrow> loop_wf (l\<lparr>l_peer_ack_ns := (l_peer_ack_ns l)[i := n]\<rparr>)"
  "loop_wf l \<Longrightarrow> loop_wf (l\<lparr>l_refused := (l_refused l)[i := n]\<rparr>)"
  "loop_wf l \<Longrightarrow> loop_wf (l\<lparr>l_fsync_bucket := (l_fsync_bucket l)[i := n]\<rparr>)"
  by (simp_all add: loop_wf_def)

lemma conn_wf_reset [simp]: "conn_wf slot_reset"
  by (simp add: conn_wf_def slot_reset_def client_conn_def conn_fits_def conn_inv_def conn_zero_def)

section \<open>Staging\<close>

lemma reply_wf [simp]: "conn_wf c \<Longrightarrow> conn_wf (snd (reply c op flags sq payload))"
  by (auto simp: reply_def conn_wf_def Let_def msg_encode_header_def)

lemma reply_record_wf: "conn_wf c \<Longrightarrow> 0 \<le> sint (r_len r) \<Longrightarrow> conn_wf (snd (reply_record c r payload))"
  by (auto simp: reply_record_def conn_wf_def Let_def msg_encode_header_def)

lemma reply_err_text_wf [simp]:
  "loop_wf l \<Longrightarrow> i < LOOP_MAX_CONNS \<Longrightarrow> loop_wf (snd (reply_err_text l i code sq txt))"
  by (simp add: reply_err_text_def Let_def split_beta loop_wf_lists)

lemma reply_err_wf [simp]: "loop_wf l \<Longrightarrow> i < LOOP_MAX_CONNS \<Longrightarrow> loop_wf (snd (reply_err l i code sq))"
  by (simp add: reply_err_def)

lemma reply_ack_wf [simp]: "conn_wf c \<Longrightarrow> conn_wf (snd (reply_ack c flags sq cs))"
  by (simp add: reply_ack_def)

section \<open>Frames\<close>

lemma retain_floor_update_wf [simp]: "loop_wf (retain_floor_update l) = loop_wf l"
  by (simp add: retain_floor_update_def split: prod.split)

lemma ack_write_wf [simp]:
  "loop_wf l \<Longrightarrow> i < LOOP_MAX_CONNS \<Longrightarrow> loop_wf (ack_write l i flags wants deg cs ws)"
  by (simp add: ack_write_def Let_def)

lemma arm_timer_now_wf [simp]: "loop_wf l \<Longrightarrow> loop_wf (fst (arm_timer_now N l k))"
  by (simp add: arm_timer_now_def Let_def split_beta)

lemma handle_hello_wf: "loop_wf l \<Longrightarrow> i < LOOP_MAX_CONNS \<Longrightarrow> loop_wf (fst (handle_hello N l i h p k))"
  by (simp add: handle_hello_def Let_def split_beta split: option.split)

lemma handle_write_wf: "loop_wf l \<Longrightarrow> i < LOOP_MAX_CONNS \<Longrightarrow> loop_wf (fst (handle_write N l i h p s k))"
  by (simp add: handle_write_def Let_def split_beta split: option.split result_t.split)

lemma handle_subscribe_wf: "loop_wf l \<Longrightarrow> i < LOOP_MAX_CONNS \<Longrightarrow> loop_wf (fst (handle_subscribe N l i h p n k))"
  by (simp add: handle_subscribe_def Let_def split_beta split: option.split)

lemma handle_read_wf: "loop_wf l \<Longrightarrow> i < LOOP_MAX_CONNS \<Longrightarrow> loop_wf (fst (handle_read N l i h p n k))"
  by (simp add: handle_read_def Let_def split_beta split: option.split)

lemma free_peer_Some: "free_peer ps = Some i \<Longrightarrow> i < length ps \<and> \<not> ps ! i"
  by (induction ps arbitrary: i) (auto split: if_splits)

lemma conn_wf_replica:
  "conn_wf c \<Longrightarrow> i < LOOP_MAX_REPLICAS \<Longrightarrow>
     conn_wf (c\<lparr>lc_replica := Some i, lc_send_cap := LOOP_REPL_CAP, lc_send := []\<rparr>)"
  by (simp add: conn_wf_def)

lemma loop_wf_lengths:
  "loop_wf l \<Longrightarrow> length (l_peer_live l) = LOOP_MAX_REPLICAS \<and> length (l_peer_durable l) = LOOP_MAX_REPLICAS
     \<and> length (l_peer_cursor l) = LOOP_MAX_REPLICAS \<and> length (l_peer_ack_ns l) = LOOP_MAX_REPLICAS"
  by (simp add: loop_wf_def)

lemma loop_wf_peer:
  "loop_wf l \<Longrightarrow> length ps = LOOP_MAX_REPLICAS \<Longrightarrow> length ds = LOOP_MAX_REPLICAS \<Longrightarrow>
     length ns = LOOP_MAX_REPLICAS \<Longrightarrow>
     loop_wf (l\<lparr>l_peer_live := ps, l_peer_durable := ds, l_peer_ack_ns := ns\<rparr>)"
  "loop_wf l \<Longrightarrow> length ds = LOOP_MAX_REPLICAS \<Longrightarrow> length ns = LOOP_MAX_REPLICAS \<Longrightarrow>
     loop_wf (l\<lparr>l_peer_durable := ds, l_peer_ack_ns := ns\<rparr>)"
  by (simp_all add: loop_wf_def)

lemma set_slot_fields [simp]:
  "l_peer_live (set_slot i c l) = l_peer_live l"
  "l_peer_durable (set_slot i c l) = l_peer_durable l"
  "l_peer_cursor (set_slot i c l) = l_peer_cursor l"
  "l_peer_ack_ns (set_slot i c l) = l_peer_ack_ns l"
  "l_wal (set_slot i c l) = l_wal l"
  "l_sessions (set_slot i c l) = l_sessions l"
  "l_tick (set_slot i c l) = l_tick l"
  "l_wal_dirty (set_slot i c l) = l_wal_dirty l"
  by (simp_all add: set_slot_def)

lemma handle_repl_start_wf: "loop_wf l \<Longrightarrow> i < LOOP_MAX_CONNS \<Longrightarrow> loop_wf (fst (handle_repl_start N l i h n k))"
proof -
  assume l: "loop_wf l" and i: "i < LOOP_MAX_CONNS"
  note len = loop_wf_lengths [OF l]
  have peer: "j < LOOP_MAX_REPLICAS" if "free_peer (l_peer_live l) = Some j" for j
    using free_peer_Some [OF that] len by simp
  show ?thesis
    using l i peer len
    by (auto simp: handle_repl_start_def Let_def split_beta loop_wf_lists loop_wf_peer conn_wf_replica
        split: option.split)
qed

lemma handle_repl_ack_wf: "loop_wf l \<Longrightarrow> loop_wf (fst (handle_repl_ack N l i h k))"
  using loop_wf_lengths [of l]
  by (simp add: handle_repl_ack_def Let_def split_beta loop_wf_peer split: option.split)

lemma handle_frame_wf [simp]: "loop_wf l \<Longrightarrow> i < LOOP_MAX_CONNS \<Longrightarrow> loop_wf (fst (handle_frame N l i h p s k))"
  by (simp add: handle_frame_def Let_def split_beta handle_hello_wf handle_write_wf handle_subscribe_wf
      handle_read_wf handle_repl_start_wf handle_repl_ack_wf)

section \<open>Serving\<close>

lemma push_records_wf: "conn_wf c \<Longrightarrow> conn_wf (fst (push_records a key xs at c n))"
proof (induction a key xs at c n rule: push_records.induct)
  case (1 a key xs at c n)
  show ?case
  proof (cases "at < length xs \<and> wal_rec_decode (drop at xs) \<noteq> None")
    case False
    with 1(2) show ?thesis by (auto simp: push_records.simps [of a key xs at])
  next
    case True
    then obtain r where r: "at < length xs" "wal_rec_decode (drop at xs) = Some r" by auto
    let ?sz = "wal_rec_size (sint (r_len r))"
    show ?thesis
    proof (cases "?sz = 0 \<or> int at + ?sz > int (length xs)")
      case True
      with 1(2) r show ?thesis by (auto simp: push_records.simps [of a key xs at])
    next
      case False
      let ?p = "if a \<or> r_partition_key r = key
        then (snd (reply_record c r (drop (at + WAL_REC_HEADER_SIZE) xs)), n + 1) else (c, n)"
      have "0 \<le> sint (r_len r)" using False by (auto simp: wal_rec_size_def split: if_splits)
      then have "conn_wf (fst ?p)" using 1(2) by (simp add: reply_record_wf)
      then have "conn_wf (fst (push_records a key xs (at + nat ?sz) (fst ?p) (snd ?p)))"
        using 1(1) [OF r refl False refl prod.collapse] by blast
      with r False show ?thesis
        by (simp add: push_records.simps [of a key xs at] split_beta Let_def)
    qed
  qed
qed

lemma subs_push_slot_wf:
  "loop_wf (fst s) \<Longrightarrow> i < LOOP_MAX_CONNS \<Longrightarrow> loop_wf (fst (subs_push_slot N n i s))"
  by (cases s) (simp add: subs_push_slot_def Let_def split_beta push_records_wf)

lemma subs_push_wf: "loop_wf l \<Longrightarrow> loop_wf (fst (subs_push N n l k))"
  using fold_invariant [where P = "\<lambda>s. loop_wf (fst s)" and Q = "\<lambda>i. i < LOOP_MAX_CONNS"
      and f = "subs_push_slot N n" and xs = "[0..<LOOP_MAX_CONNS]" and s = "(l, wal_durable_seq (l_wal l), k)"]
  by (simp add: subs_push_def split_beta subs_push_slot_wf)

lemma wal_cursor_read_length: "wal_cursor_read K w c limit n k = (r, c', got, k') \<Longrightarrow> length got \<le> n"
proof -
  have "length got \<le> n" if "cursor_attempts m K w c limit n k = (r, c', got, k')" for m c k
    using that
  proof (induction m arbitrary: c k)
    case 0
    then show ?case by simp
  next
    case (Suc m)
    obtain r1 xs k1 where pr: "os_pread_full K (c_fd c) n (c_off c) k = (r1, xs, k1)" by (metis prod_cases3)
    from os_pread_full_length [OF pr] Suc pr show ?case
      by (auto simp: Let_def split: if_splits prod.splits option.splits)
  qed
  then show "wal_cursor_read K w c limit n k = (r, c', got, k') \<Longrightarrow> length got \<le> n"
    by (auto simp: wal_cursor_read_def simp del: cursor_attempts.simps split: if_splits)
qed

lemma repl_stream_slot_wf:
  "loop_wf (fst s) \<Longrightarrow> i < LOOP_MAX_CONNS \<Longrightarrow> loop_wf (fst (repl_stream_slot N limit i s))"
proof -
  assume l: "loop_wf (fst s)" and i: "i < LOOP_MAX_CONNS"
  let ?c = "slot_of (fst s) i"
  have c: "conn_wf ?c" using l i by simp
  then have cap: "MSG_HEADER_SIZE \<le> lc_send_cap ?c" by (auto simp: conn_wf_def)
  have len: "length (fst (snd (snd (wal_cursor_read K w cur limit (lc_send_cap ?c - MSG_HEADER_SIZE) k))))
      \<le> lc_send_cap ?c - MSG_HEADER_SIZE" for K :: "'a kernel" and w cur k
    using wal_cursor_read_length by (metis prod.collapse)
  have "conn_wf (?c\<lparr>lc_send := the (msg_encode_header (lc_send_cap ?c) h) @ xs\<rparr>)"
    if "length xs \<le> lc_send_cap ?c - MSG_HEADER_SIZE" for h xs
    using c cap that by (auto simp: conn_wf_def msg_encode_header_def)
  then show ?thesis
    using l c len by (cases s) (simp add: repl_stream_slot_def Let_def split_beta loop_wf_lists)
qed

lemma repl_stream_wf: "loop_wf l \<Longrightarrow> loop_wf (fst (repl_stream N l k))"
  using fold_invariant [where P = "\<lambda>s. loop_wf (fst s)" and Q = "\<lambda>i. i < LOOP_MAX_CONNS"
      and f = "repl_stream_slot N (wal_durable_seq (l_wal l))" and xs = "[0..<LOOP_MAX_CONNS]" and s = "(l, k)"]
  by (simp add: repl_stream_def repl_stream_slot_wf)

lemma stream_frame_wf [simp]: "loop_wf l \<Longrightarrow> loop_wf (stream_frame op sq l)"
  by (auto simp: stream_frame_def loop_wf_def Let_def msg_encode_header_def)

lemma stream_report_wf: "loop_wf l \<Longrightarrow> loop_wf (stream_report l)"
  by (simp add: stream_report_def Let_def)

lemma repl_apply_wf: "loop_wf l \<Longrightarrow> loop_wf (fst (repl_apply N p s l k))"
proof (induction N p s l k rule: repl_apply.induct)
  case (1 N p s l k)
  show ?case
    using 1 by (subst repl_apply.simps) (auto simp: Let_def split: option.split prod.split)
qed

lemma emit_local_wf: "loop_wf l \<Longrightarrow> i < LOOP_MAX_CONNS \<Longrightarrow> loop_wf (emit_local i l)"
  by (simp add: emit_local_def Let_def split_beta ack_count_def)

lemma emit_repl_wf: "loop_wf l \<Longrightarrow> i < LOOP_MAX_CONNS \<Longrightarrow> loop_wf (emit_repl b v i l)"
  by (simp add: emit_repl_def Let_def split_beta ack_count_def)

lemma acks_emit_wf: "loop_wf l \<Longrightarrow> loop_wf (acks_emit l)"
  unfolding acks_emit_def Let_def
  by (rule fold_invariant [where Q = "\<lambda>i. i < LOOP_MAX_CONNS"]) (simp_all add: emit_local_wf emit_repl_wf)

lemma fsync_observe_wf: "loop_wf l \<Longrightarrow> loop_wf (fst (fsync_observe N l b k))"
  by (simp add: fsync_observe_def Let_def split_beta loop_wf_def)

lemma retain_pass_wf: "loop_wf l \<Longrightarrow> loop_wf (fst (retain_pass N l k))"
  by (simp add: retain_pass_def Let_def split_beta)

section \<open>Events\<close>

lemma conn_wf_conn: "conn_wf c \<Longrightarrow> client_conn conn \<Longrightarrow> conn_wf (c\<lparr>lc_conn := conn\<rparr>)"
  by (simp add: conn_wf_def)

lemma conn_wf_client: "conn_wf c \<Longrightarrow> client_conn (lc_conn c)"
  by (simp add: conn_wf_def)

lemma conn_init_fits: "conn_fits cap (conn_init (replicate cap 0) cap m)"
  by (simp add: conn_fits_def conn_inv_def conn_init_def)

lemma conn_recv_commit_fits: "conn_fits cap c \<Longrightarrow> conn_fits cap (snd (conn_recv_commit c n))"
  by (auto simp: conn_recv_commit_def conn_fits_def conn_inv_def Let_def)

lemma conn_feed_fits: "conn_fits cap c \<Longrightarrow> conn_fits cap (snd (conn_feed c n))"
  using conn_feed_inv [of c n "fst (conn_feed c n)" "snd (conn_feed c n)"]
  by (auto simp: conn_fits_def conn_inv_def)

lemma conn_compact_fits: "conn_fits cap c \<Longrightarrow> conn_fits cap (conn_compact c)"
  using conn_compact_inv [of c] by (auto simp: conn_fits_def conn_compact_def Let_def)

lemma conn_fill_fits: "conn_fits cap c \<Longrightarrow> conn_fits cap (c\<lparr>buf := mem_copy n (buf c) o' bs 0\<rparr>)"
  by (simp add: conn_fits_def conn_inv_def)

lemma client_conn_ops:
  "client_conn (conn_init (replicate LOOP_RECV_CAP 0) LOOP_RECV_CAP CONN_MODE_CLIENT)"
  "client_conn c \<Longrightarrow> client_conn (snd (conn_recv_commit c n))"
  "client_conn c \<Longrightarrow> client_conn (snd (conn_feed c n))"
  "client_conn c \<Longrightarrow> client_conn (conn_compact c)"
  "client_conn c \<Longrightarrow> client_conn (c\<lparr>buf := mem_copy n (buf c) o' bs 0\<rparr>)"
  using conn_feed_opens [of c n "fst (conn_feed c n)" "snd (conn_feed c n)"]
  by (simp_all add: client_conn_def conn_init_fits conn_recv_commit_fits conn_feed_fits conn_compact_fits conn_fill_fits)
    (simp_all add: conn_init_def conn_recv_commit_def conn_compact_def Let_def)

lemma conn_want_out_wf: "loop_wf l \<Longrightarrow> i < LOOP_MAX_CONNS \<Longrightarrow> loop_wf (fst (conn_want_out N l i want k))"
  by (simp add: conn_want_out_def Let_def split_beta)

lemma stream_want_out_wf: "loop_wf l \<Longrightarrow> loop_wf (fst (stream_want_out N l want k))"
  by (simp add: stream_want_out_def Let_def split_beta)

lemma on_accept_wf: "loop_wf l \<Longrightarrow> loop_wf (fst (on_accept N l res k))"
proof -
  assume l: "loop_wf l"
  have "conn_wf (slot_reset\<lparr>lc_in_use := True, lc_fd := res,
      lc_conn := conn_init (replicate LOOP_RECV_CAP 0) LOOP_RECV_CAP CONN_MODE_CLIENT\<rparr>)"
    by (intro conn_wf_conn) (simp_all add: client_conn_ops)
  with l show ?thesis by (simp add: on_accept_def Let_def split_beta split: option.split)
qed

lemma on_actions_wf: "loop_wf l \<Longrightarrow> i < LOOP_MAX_CONNS \<Longrightarrow> loop_wf (fst (on_actions N i s conn as l k))"
proof (induction N i s conn as l k rule: on_actions.induct)
  case (2 N i s conn h p n as l k)
  obtain l2 k2 where f: "handle_frame N l i h (payload_bytes conn p n) s k = (l2, k2)" by fastforce
  then have "loop_wf l2" using handle_frame_wf [OF 2(2,3)] by (metis fst_conv)
  from 2(1) [OF refl f [symmetric] this 2(3)] f show ?case by simp
next
  case (3 N i s conn code sq as l k)
  obtain b l2 where f: "reply_err l i code sq = (b, l2)" by fastforce
  then have "loop_wf l2" using reply_err_wf [OF 3(2,3)] by (metis snd_conv)
  from 3(1) [OF refl f [symmetric] this 3(3)] f show ?case by simp
qed simp_all

lemma on_recv_loop_wf:
  "loop_wf l \<Longrightarrow> i < LOOP_MAX_CONNS \<Longrightarrow> client_conn conn \<Longrightarrow> loop_wf (fst (on_recv_loop N i s conn l k))"
proof (induction N i s conn l k rule: on_recv_loop.induct)
  case (1 N i s conn l k)
  obtain as conn' where f: "conn_feed conn 8 = (as, conn')" by fastforce
  have inv: "client_conn conn'" using client_conn_ops(3) [OF 1(4), of 8] f by simp
  let ?l = "set_slot i ((slot_of l i)\<lparr>lc_conn := conn'\<rparr>) l"
  obtain l2 k2 where a: "on_actions N i s conn' as ?l k = (l2, k2)" by fastforce
  have l1: "loop_wf ?l" using 1(2,3) inv by (intro set_slot_wf conn_wf_conn) simp_all
  have l2: "loop_wf l2" using on_actions_wf [OF l1 1(3), of N s conn' as k] a by simp
  show ?case
    using 1(1) [OF refl f [symmetric] refl _ refl a [symmetric] _ l2 1(3) inv] l1 l2
    by (simp add: on_recv_loop.simps [of N i s conn] f a Let_def)
qed

lemma on_recv_wf: "loop_wf l \<Longrightarrow> i < LOOP_MAX_CONNS \<Longrightarrow> loop_wf (fst (on_recv N l i res s k))"
  by (simp add: on_recv_def Let_def on_recv_loop_wf client_conn_ops conn_wf_client)

lemma loop_send_done_wf: "loop_wf l \<Longrightarrow> i < LOOP_MAX_CONNS \<Longrightarrow> loop_wf (loop_send_done l i res)"
proof -
  assume l: "loop_wf l" "i < LOOP_MAX_CONNS"
  then have "conn_wf (slot_of l i)" by simp
  then have "conn_wf ((slot_of l i)\<lparr>lc_send := drop n (lc_send (slot_of l i))\<rparr>)"
    "conn_wf ((slot_of l i)\<lparr>lc_send := []\<rparr>)" "conn_wf ((slot_of l i)\<lparr>lc_closing := True, lc_send := []\<rparr>)" for n
    by (auto simp: conn_wf_def)
  with l show ?thesis by (simp add: loop_send_done_def Let_def)
qed

lemma do_accept_wf: "loop_wf l \<Longrightarrow> loop_wf (fst (do_accept N l k))"
  by (simp add: do_accept_def Let_def split_beta on_accept_wf)

lemma do_recv_wf: "loop_wf l \<Longrightarrow> i < LOOP_MAX_CONNS \<Longrightarrow> loop_wf (fst (do_recv N l i s k))"
  by (simp add: do_recv_def Let_def split_beta on_recv_wf conn_wf_conn client_conn_ops conn_wf_client)

lemma conn_send_wf: "loop_wf l \<Longrightarrow> i < LOOP_MAX_CONNS \<Longrightarrow> loop_wf (fst (conn_send N l i k))"
  by (simp add: conn_send_def Let_def split_beta conn_want_out_wf loop_send_done_wf)

lemma do_send_wf: "loop_wf l \<Longrightarrow> i < LOOP_MAX_CONNS \<Longrightarrow> loop_wf (fst (do_send N l i k))"
  by (simp add: do_send_def Let_def conn_want_out_wf conn_send_wf)

lemma on_repl_dial_wf: "loop_wf l \<Longrightarrow> loop_wf (fst (on_repl_dial N l res k))"
proof -
  assume l: "loop_wf l"
  have "loop_wf (l'\<lparr>l_repl_conn := conn_init (replicate LOOP_REPL_CAP 0) LOOP_REPL_CAP CONN_MODE_INTERNAL,
      l_repl_send := [], l_repl_closing := b, l_repl_acked := a\<rparr>)" if "loop_wf l'" for l' b a
    using that by (simp add: loop_wf_def conn_init_fits)
  with l show ?thesis by (simp add: on_repl_dial_def Let_def split_beta)
qed

lemma on_stream_frame_wf: "loop_wf l \<Longrightarrow> loop_wf (fst (on_stream_frame N l h p s k))"
  by (simp add: on_stream_frame_def Let_def split_beta repl_apply_wf)

lemma stream_actions_wf: "loop_wf l \<Longrightarrow> loop_wf (fst (stream_actions N s conn as l k))"
proof (induction N s conn as l k rule: stream_actions.induct)
  case (2 N s conn h p n as l k)
  obtain l2 k2 where f: "on_stream_frame N l h (payload_bytes conn p n) s k = (l2, k2)" by fastforce
  then have "loop_wf l2" using on_stream_frame_wf [OF 2(2)] by (metis fst_conv)
  from 2(1) [OF refl f [symmetric] this] f show ?case by simp
qed simp_all

lemma loop_wf_repl_conn: "loop_wf l \<Longrightarrow> conn_fits LOOP_REPL_CAP c \<Longrightarrow> loop_wf (l\<lparr>l_repl_conn := c\<rparr>)"
  by (simp add: loop_wf_def)

lemma loop_wf_repl_conn_fits: "loop_wf l \<Longrightarrow> conn_fits LOOP_REPL_CAP (l_repl_conn l)"
  by (simp add: loop_wf_def)

lemma on_repl_recv_loop_wf:
  "loop_wf l \<Longrightarrow> conn_fits LOOP_REPL_CAP conn \<Longrightarrow> loop_wf (fst (on_repl_recv_loop N s conn l k))"
proof (induction N s conn l k rule: on_repl_recv_loop.induct)
  case (1 N s conn l k)
  obtain as conn' where f: "conn_feed conn 4 = (as, conn')" by fastforce
  have inv: "conn_fits LOOP_REPL_CAP conn'" using conn_feed_fits [OF 1(3), of 4] f by simp
  let ?l = "l\<lparr>l_repl_conn := conn'\<rparr>"
  obtain l2 k2 where a: "stream_actions N s conn' as ?l k = (l2, k2)" by fastforce
  have l1: "loop_wf ?l" using 1(2) inv by (rule loop_wf_repl_conn)
  have l2: "loop_wf l2" using stream_actions_wf [OF l1, of N s conn' as k] a by simp
  show ?case
    using 1(1) [OF refl f [symmetric] refl _ refl a [symmetric] _ l2 inv] l1 l2
    by (simp add: on_repl_recv_loop.simps [of N s conn] f a Let_def)
qed

lemma on_repl_recv_wf: "loop_wf l \<Longrightarrow> loop_wf (fst (on_repl_recv N l res s k))"
  by (simp add: on_repl_recv_def on_repl_recv_loop_wf conn_recv_commit_fits loop_wf_repl_conn_fits)

lemma loop_wf_repl_send: "loop_wf l \<Longrightarrow> length xs \<le> STREAM_SEND_CAP \<Longrightarrow> loop_wf (l\<lparr>l_repl_send := xs\<rparr>)"
  by (simp add: loop_wf_def)

lemma on_repl_send_wf: "loop_wf l \<Longrightarrow> loop_wf (on_repl_send l res)"
proof -
  assume l: "loop_wf l"
  then have "length (drop n (l_repl_send l)) \<le> STREAM_SEND_CAP" for n by (auto simp: loop_wf_def)
  with l show ?thesis by (simp add: on_repl_send_def loop_wf_repl_send del: length_drop)
qed

lemma do_repl_dial_wf: "loop_wf l \<Longrightarrow> loop_wf (fst (do_repl_dial N l k))"
  by (simp add: do_repl_dial_def Let_def split_beta on_repl_dial_wf)

lemma do_repl_recv_wf: "loop_wf l \<Longrightarrow> loop_wf (fst (do_repl_recv N l s k))"
  by (simp add: do_repl_recv_def Let_def split_beta on_repl_recv_wf loop_wf_repl_conn conn_fill_fits
      loop_wf_repl_conn_fits)

lemma stream_send_wf: "loop_wf l \<Longrightarrow> loop_wf (fst (stream_send N l k))"
  by (simp add: stream_send_def Let_def split_beta stream_want_out_wf on_repl_send_wf)

lemma do_repl_send_wf: "loop_wf l \<Longrightarrow> loop_wf (fst (do_repl_send N l k))"
  by (simp add: do_repl_send_def stream_want_out_wf stream_send_wf)

lemma repl_dial_wf: "loop_wf l \<Longrightarrow> loop_wf (fst (repl_dial N l k))"
  by (simp add: repl_dial_def Let_def split_beta on_repl_dial_wf split: result_t.split)

lemma stream_release_wf: "loop_wf l \<Longrightarrow> loop_wf (fst (stream_release N l k))"
proof -
  have "loop_wf l \<Longrightarrow> loop_wf (l\<lparr>l_repl_fd := f, l_repl_closing := a, l_repl_want_out := b, l_repl_send := [],
      l_repl_next_dial := n\<rparr>)" for f a b n by (simp add: loop_wf_def)
  then show "loop_wf l \<Longrightarrow> loop_wf (fst (stream_release N l k))"
    by (simp add: stream_release_def Let_def split_beta)
qed

lemma arm_stream_wf: "loop_wf l \<Longrightarrow> loop_wf (fst (arm_stream N l k))"
  by (simp add: arm_stream_def Let_def split_beta stream_release_wf stream_send_wf loop_wf_repl_conn
      conn_compact_fits loop_wf_repl_conn_fits)

section \<open>Scrapes\<close>

lemma scrape_zero_wf [simp]: "scrape_wf (scrape_zero\<lparr>ls_fd := f, ls_opened_ns := n\<rparr>)" "scrape_wf scrape_zero"
  by (simp_all add: scrape_wf_def scrape_zero_def)

lemma scrape_wf_simps [simp]:
  "scrape_wf (s\<lparr>ls_answering := a\<rparr>) = scrape_wf s" "scrape_wf (s\<lparr>ls_sent := n\<rparr>) = scrape_wf s"
  by (simp_all add: scrape_wf_def)

lemma scrape_release_wf: "loop_wf l \<Longrightarrow> loop_wf (fst (scrape_release N l i k))"
  by (simp add: scrape_release_def Let_def split_beta)

lemma scrape_answering_wf: "loop_wf l \<Longrightarrow> i < LOOP_MAX_SCRAPES \<Longrightarrow> loop_wf (fst (scrape_answering N l i k))"
  by (simp add: scrape_answering_def Let_def split_beta)

lemma scrape_send_wf: "loop_wf l \<Longrightarrow> i < LOOP_MAX_SCRAPES \<Longrightarrow> loop_wf (fst (scrape_send N l i k))"
  by (simp add: scrape_send_def Let_def split_beta scrape_answering_wf scrape_release_wf)

lemma metrics_head_length: "length metrics_head = 94" "length metrics_unavailable = 81"
  by (simp_all add: metrics_head_def metrics_unavailable_def ascii_def)

lemma loop_metrics_length: "length (fst (loop_metrics N l cap k)) \<le> cap"
  by (simp add: loop_metrics_def Let_def split_beta)

lemma scrape_answer_wf: "loop_wf l \<Longrightarrow> i < LOOP_MAX_SCRAPES \<Longrightarrow> loop_wf (fst (scrape_answer N l i k))"
proof -
  assume l: "loop_wf l" "i < LOOP_MAX_SCRAPES"
  then have "scrape_wf (l_scrapes l ! i)" by simp
  then have "scrape_wf ((l_scrapes l ! i)\<lparr>ls_out := xs, ls_sent := 0\<rparr>)" if "length xs \<le> LOOP_METRICS_CAP" for xs
    using that by (simp add: scrape_wf_def)
  with l show ?thesis
    using loop_metrics_length [of N l "LOOP_METRICS_CAP - length metrics_head" k]
    by (simp add: scrape_answer_def Let_def split_beta scrape_send_wf metrics_head_length)
qed

lemma scrape_recv_wf: "loop_wf l \<Longrightarrow> i < LOOP_MAX_SCRAPES \<Longrightarrow> loop_wf (fst (scrape_recv N l i k))"
proof -
  assume l: "loop_wf l" "i < LOOP_MAX_SCRAPES"
  let ?s = "l_scrapes l ! i"
  have s: "scrape_wf ?s" using l by simp
  have "length (fst (snd (os_recv N (ls_fd ?s) n MSG_DONTWAIT k))) \<le> n" for n
    using os_recv_len by (metis prod.collapse)
  from this [of "LOOP_SCRAPE_CAP - length (ls_in ?s)"] have "scrape_wf (?s\<lparr>ls_in := ls_in ?s @ fst (snd (os_recv N (ls_fd ?s)
      (LOOP_SCRAPE_CAP - length (ls_in ?s)) MSG_DONTWAIT k))\<rparr>)"
    using s by (auto simp: scrape_wf_def)
  with l show ?thesis
    by (simp add: scrape_recv_def scrape_refuse_def Let_def split_beta scrape_release_wf scrape_answer_wf)
qed

lemma scrape_accept_wf: "loop_wf l \<Longrightarrow> loop_wf (fst (scrape_accept N l k))"
  by (simp add: scrape_accept_def scrape_refuse_def Let_def split_beta scrape_release_wf split: option.split)

section \<open>A pass\<close>

text \<open>epoll hands back the data a descriptor was registered with, and every registration
  names a slot within its array.\<close>

definition event_ok :: "epoll_event_t \<Rightarrow> bool" where
  "event_ok ev \<longleftrightarrow> (UD_OP (ev_data ev) = OP_CONN \<longrightarrow> UD_SLOT (ev_data ev) < LOOP_MAX_CONNS)
     \<and> (UD_OP (ev_data ev) = OP_SCRAPE \<longrightarrow> UD_SLOT (ev_data ev) < LOOP_MAX_SCRAPES)"

definition epoll_data_ok :: "'k net \<Rightarrow> bool" where
  "epoll_data_ok N \<longleftrightarrow> (\<forall>epfd mx timeout k evs k'.
     sys_epoll_wait N epfd mx timeout k = (Inr evs, k') \<longrightarrow> list_all event_ok evs)"

lemma UD_MAKE_parts: "op < 256 \<Longrightarrow> slot < 2 ^ 32 \<Longrightarrow> UD_OP (UD_MAKE op slot) = op \<and> UD_SLOT (UD_MAKE op slot) = slot"
proof
  assume op: "op < 256" and slot: "slot < 2 ^ 32"
  have "drop_bit 56 (ucast (of_nat slot :: u32) :: u64) = 0"
    by (rule bit_word_eqI) (auto simp: bit_simps)
  moreover have "drop_bit 56 (push_bit 56 (of_nat op :: u64)) = take_bit 8 (of_nat op)"
    by (rule bit_word_eqI) (auto simp: bit_simps)
  ultimately have "drop_bit 56 (UD_MAKE op slot) = take_bit 8 (of_nat op)"
    by (simp add: UD_MAKE_def drop_bit_or)
  then show "UD_OP (UD_MAKE op slot) = op"
    using op by (simp add: UD_OP_def take_bit_eq_mod unat_mod unat_of_nat)
  have "UD_MAKE op slot AND 0xFFFFFFFF = take_bit 32 (UD_MAKE op slot)"
    by (simp add: take_bit_eq_mask mask_eq_exp_minus_1)
  also have "\<dots> = ucast (of_nat slot :: u32)"
    by (rule bit_word_eqI) (auto simp: UD_MAKE_def bit_simps)
  finally show "UD_SLOT (UD_MAKE op slot) = slot"
    using slot by (simp add: UD_SLOT_def unsigned_ucast_eq unat_of_nat take_bit_eq_mod)
qed

lemma do_signal_wf: "loop_wf l \<Longrightarrow> loop_wf (fst (do_signal N l k))"
  by (simp add: do_signal_def Let_def split_beta)

lemma do_timer_wf: "loop_wf l \<Longrightarrow> loop_wf (fst (do_timer N l k))"
  by (simp add: do_timer_def Let_def split_beta)

lemma tick_event_wf: "loop_wf (fst s) \<Longrightarrow> event_ok ev \<Longrightarrow> loop_wf (fst (tick_event N scratch ev s))"
  by (cases s) (auto simp: tick_event_def event_ok_def Let_def split_beta do_accept_wf do_recv_wf do_send_wf
      do_signal_wf do_timer_wf do_repl_dial_wf do_repl_recv_wf do_repl_send_wf scrape_accept_wf scrape_recv_wf
      scrape_send_wf)

lemma replica_release_wf: "loop_wf l \<Longrightarrow> loop_wf (fst (replica_release N l i k))"
  by (simp add: replica_release_def Let_def split_beta loop_wf_def)

lemma slot_release_wf: "loop_wf l \<Longrightarrow> loop_wf (fst (slot_release N l i k))"
  by (simp add: slot_release_def Let_def split_beta replica_release_wf split: option.split)

lemma arm_slot_wf: "loop_wf (fst s) \<Longrightarrow> i < LOOP_MAX_CONNS \<Longrightarrow> loop_wf (fst (arm_slot N i s))"
  by (cases s) (simp add: arm_slot_def Let_def split_beta slot_release_wf conn_send_wf conn_wf_conn
      client_conn_ops conn_wf_client)

lemma arm_conns_wf: "loop_wf l \<Longrightarrow> loop_wf (fst (arm_conns N l k))"
  using fold_invariant [where P = "\<lambda>s. loop_wf (fst s)" and Q = "\<lambda>i. i < LOOP_MAX_CONNS"
      and f = "arm_slot N" and xs = "[0..<LOOP_MAX_CONNS]" and s = "(l, k)"]
  by (simp add: arm_conns_def arm_slot_wf)

lemma arm_phase_wf: "loop_wf l \<Longrightarrow> loop_wf (fst (arm_phase N l k))"
  by (simp add: arm_phase_def Let_def split_beta repl_dial_wf arm_conns_wf arm_stream_wf)

lemma serve_phase_wf: "loop_wf l \<Longrightarrow> loop_wf (fst (serve_phase N n l k))"
  by (simp add: serve_phase_def Let_def split_beta acks_emit_wf stream_report_wf repl_stream_wf subs_push_wf
      retain_pass_wf)

lemma flush_phase_wf: "loop_wf l \<Longrightarrow> loop_wf (fst (snd (flush_phase N l k)))"
  by (simp add: flush_phase_def Let_def split_beta fsync_observe_wf)

lemma tick_events_wf:
  "loop_wf l \<Longrightarrow> list_all event_ok evs \<Longrightarrow> loop_wf (fst (fold (tick_event N scratch) evs (l, k)))"
  by (rule fold_invariant [where P = "\<lambda>s. loop_wf (fst s)" and Q = event_ok])
    (simp_all add: tick_event_wf list_all_iff)

lemma epoll_events_ok: "epoll_data_ok N \<Longrightarrow> os_epoll_wait N fd mx timeout k = (r, evs, k') \<Longrightarrow> list_all event_ok evs"
  by (fastforce simp: os_epoll_wait_def sys_value_def epoll_data_ok_def list_all_iff
      split: prod.splits sum.splits dest: in_set_takeD)

lemma gather_phase_wf:
  assumes "epoll_data_ok N" "loop_wf l"
  shows "loop_wf (fst (snd (gather_phase N scratch wait l k)))"
proof -
  obtain l1 k1 where a: "arm_phase N l k = (l1, k1)" by fastforce
  define l2 where "l2 = l1\<lparr>l_progress := False\<rparr>"
  obtain r evs k2 where w: "os_epoll_wait N (l_epoll_fd l2) MAX_EVENTS
      (if wait \<and> \<not> l_progress l1 then - 1 else 0) k1 = (r, evs, k2)" by (metis prod_cases3)
  have evs: "list_all event_ok evs" by (rule epoll_events_ok [OF assms(1) w])
  have l2: "loop_wf l2" using arm_phase_wf [OF assms(2), of N k] a by (simp add: l2_def)
  obtain l3 k3 where e: "fold (tick_event N scratch) evs (l2\<lparr>l_wal_dirty := False\<rparr>, k2) = (l3, k3)" by fastforce
  have l3: "loop_wf l3" using tick_events_wf [of "l2\<lparr>l_wal_dirty := False\<rparr>" evs N scratch k2] l2 evs e by simp
  show ?thesis
    using a w l2 e flush_phase_wf [OF l3, of N k3]
    by (simp add: gather_phase_def Let_def l2_def [symmetric] split_beta)
qed

lemma loop_tick_wf:
  assumes "epoll_data_ok N" "loop_wf l"
  shows "loop_wf (fst (snd (loop_tick N scratch wait l k)))"
proof -
  obtain r l1 k1 where g: "gather_phase N scratch wait l k = (r, l1, k1)" by (metis prod_cases3)
  have l1: "loop_wf l1" using gather_phase_wf [OF assms, of scratch wait k] g by simp
  show ?thesis
    using g l1 arm_phase_wf [OF serve_phase_wf [OF l1, of N "length scratch" k1],
      of N "snd (serve_phase N (length scratch) l1 k1)"]
    by (simp add: loop_tick_def split_beta)
qed

lemma loop_blank_wf: "loop_wf (loop_blank w t)"
  by (simp add: loop_wf_def loop_blank_def list_all_iff client_conn_def conn_fits_def conn_inv_def conn_zero_def)

section \<open>Every state a loop reaches\<close>

text \<open>The states of a running loop: after \<open>loop_init\<close> and any of the settings, then after
  any number of passes, whatever they returned.\<close>

inductive loop_reaches :: "'k net \<Rightarrow> loop_t \<Rightarrow> bool" for N where
  init: "loop_init N w t ip pt k = (r, l, k') \<Longrightarrow> loop_reaches N l"
| leader: "loop_reaches N l \<Longrightarrow> loop_set_leader N l addr txt k = (r, l', k') \<Longrightarrow> loop_reaches N l'"
| signals: "loop_reaches N l \<Longrightarrow> loop_set_signal_fd N l fd k = (l', k') \<Longrightarrow> loop_reaches N l'"
| retention: "loop_reaches N l \<Longrightarrow> loop_reaches N (loop_set_retention l keep replicas)"
| metrics: "loop_reaches N l \<Longrightarrow> loop_set_metrics_port N l ip port k = (r, l', k') \<Longrightarrow> loop_reaches N l'"
| tick: "loop_reaches N l \<Longrightarrow> loop_tick N scratch wait l k = (r, l', k') \<Longrightarrow> loop_reaches N l'"

lemma loop_reaches_wf: "loop_reaches N l \<Longrightarrow> epoll_data_ok N \<Longrightarrow> loop_wf l"
proof (induction rule: loop_reaches.induct)
  case (init w t ip port k r l k')
  then show ?case
    by (auto simp: loop_init_def Let_def loop_blank_wf split: prod.splits if_splits)
next
  case (leader l addr tx k r l' k')
  have "loop_wf (fst (arm_timer_now N (l\<lparr>l_is_follower := True, l_leader_addr := addr, l_leader_text := tx,
      l_repl_next_dial := 0\<rparr>) k))" using leader by simp
  with leader(2) show ?case by (auto simp: loop_set_leader_def split: prod.splits if_splits)
next
  case (signals l fd k l' k')
  then show ?case by (auto simp: loop_set_signal_fd_def)
next
  case (retention l keep replicas)
  then show ?case by (simp add: loop_set_retention_def)
next
  case (metrics l ip port k r l' k')
  then show ?case by (auto simp: loop_set_metrics_port_def Let_def split: prod.splits if_splits)
next
  case (tick l scratch wait k r l' k')
  then show ?case using loop_tick_wf [of N l scratch wait k] by simp
qed

text \<open>C11. The state of a running loop is always well formed: whatever clients, replicas, the
  leader and the kernel send, every array keeps its length, every staged reply, request and
  response stays within its buffer, every framing state keeps its indices in order, and every
  replica index names one of the two replicas. The hypothesis is that epoll hands back the
  data a descriptor was registered with.\<close>

theorem loop_state_well_formed:
  assumes "loop_reaches N l" "epoll_data_ok N"
  shows "loop_wf l"
  by (rule loop_reaches_wf [OF assms])

lemma net_example_data_ok: "epoll_data_ok net_example"
  by (simp add: epoll_data_ok_def net_example_def)

theorem loop_state_well_formed_witness:
  "loop_wf (fst (snd (loop_tick net_example (replicate 64 0) True
     (fst (snd (loop_init net_example wal_example session_table_init 0x7F000001 7400 fs_example))) fs_example)))"
proof -
  obtain r l k where i: "loop_init net_example wal_example session_table_init 0x7F000001 7400 fs_example = (r, l, k)"
    by (metis prod_cases3)
  obtain r' l' k' where t: "loop_tick net_example (replicate 64 0) True l fs_example = (r', l', k')"
    by (metis prod_cases3)
  from loop_reaches.tick [OF loop_reaches.init [OF i] t] net_example_data_ok
  have "loop_wf l'" by (rule loop_state_well_formed)
  with i t show ?thesis by simp
qed

end
