(* ===== verification/Loop_Steps.thy ===== *)
theory Loop_Steps
  imports Loop_Inv
begin

text \<open>
  What the operations of a pass change, stated once for every invariant of the loop: two
  locales name the few steps that touch the log, the acknowledgements owed and the replicas'
  slots, and prove that a property those steps keep is kept by the whole pass. The property
  carries a budget, the bytes the pass may still parse, which bounds the records it appends.
\<close>

section \<open>What a connection keeps\<close>

definition conn_keeps :: "loop_conn_t \<Rightarrow> loop_conn_t \<Rightarrow> bool" where
  "conn_keeps c c' \<longleftrightarrow> lc_ack_local c' = lc_ack_local c \<and> lc_ack_repl c' = lc_ack_repl c
     \<and> lc_replica c' = lc_replica c \<and> lc_in_use c' = lc_in_use c
     \<and> (opened (lc_conn c) \<longrightarrow> opened (lc_conn c'))"

lemma conn_keeps_refl [simp]: "conn_keeps c c"
  by (simp add: conn_keeps_def)

lemma conn_keeps_simps [simp]:
  "conn_keeps c (c'\<lparr>lc_fd := x1\<rparr>) = conn_keeps c c'"
  "conn_keeps c (c'\<lparr>lc_send := x2\<rparr>) = conn_keeps c c'"
  "conn_keeps c (c'\<lparr>lc_send_cap := x3\<rparr>) = conn_keeps c c'"
  "conn_keeps c (c'\<lparr>lc_session := x4\<rparr>) = conn_keeps c c'"
  "conn_keeps c (c'\<lparr>lc_sub := x5\<rparr>) = conn_keeps c c'"
  "conn_keeps c (c'\<lparr>lc_want_out := x6\<rparr>) = conn_keeps c c'"
  "conn_keeps c (c'\<lparr>lc_closing := x7\<rparr>) = conn_keeps c c'"
  "conn_keeps (c\<lparr>lc_sub := x8\<rparr>) c' = conn_keeps c c'"
  "conn_keeps (c\<lparr>lc_closing := x9\<rparr>) c' = conn_keeps c c'"
  by (simp_all add: conn_keeps_def)

lemma conn_keeps_conn:
  "conn_keeps c c' \<Longrightarrow> (opened (lc_conn c') \<longrightarrow> opened conn) \<Longrightarrow> conn_keeps c (c'\<lparr>lc_conn := conn\<rparr>)"
  by (simp add: conn_keeps_def)

lemma conn_keeps_nth [simp]:
  "conn_keeps c c' \<Longrightarrow> conn_keeps c (xs ! i) \<Longrightarrow> conn_keeps c (xs[i := c'] ! i)"
  by (cases "i < length xs") (simp_all add: list_update_beyond)

lemma conn_keeps_updated [simp]:
  "conn_keeps c c' \<Longrightarrow> conn_keeps (xs ! i) c' \<Longrightarrow> conn_keeps (xs[i := c] ! i) c'"
  by (cases "i < length xs") (simp_all add: list_update_beyond)

lemma conn_compact_opened [simp]: "opened (conn_compact c) = opened c"
  by (simp add: conn_compact_def Let_def)

lemma reply_keeps [simp]: "conn_keeps c (snd (reply c' op flags sq p)) = conn_keeps c c'"
  by (simp add: reply_def Let_def)

lemma reply_record_keeps [simp]: "conn_keeps c (snd (reply_record c' r p)) = conn_keeps c c'"
  by (simp add: reply_record_def Let_def)

lemma reply_ack_keeps [simp]: "conn_keeps c (snd (reply_ack c' flags sq cs)) = conn_keeps c c'"
  by (simp add: reply_ack_def)

lemma push_records_keeps [simp]: "conn_keeps c (fst (push_records a key xs at c' n)) = conn_keeps c c'"
proof (induction a key xs at c' n rule: push_records.induct)
  case (1 a key xs at c' n)
  show ?case
    using 1 by (subst push_records.simps) (auto simp: Let_def split: option.split prod.split if_splits)
qed

lemma set_slot_twice [simp]: "set_slot i a (set_slot i b l) = set_slot i a l"
  by (simp add: set_slot_def)

lemma set_slot_progress: "(set_slot i c l)\<lparr>l_progress := x\<rparr> = set_slot i c (l\<lparr>l_progress := x\<rparr>)"
  by (simp add: set_slot_def)

section \<open>Steps on one slot\<close>

text \<open>Everything but slot \<open>i\<close> stays, as far as the other slots can tell.\<close>

definition beside :: "nat \<Rightarrow> loop_t \<Rightarrow> loop_t \<Rightarrow> bool" where
  "beside i l l' \<longleftrightarrow> l_wal l' = l_wal l \<and> l_tick l' = l_tick l
     \<and> length (l_conns l') = length (l_conns l) \<and> (\<forall>j. j \<noteq> i \<longrightarrow> slot_of l' j = slot_of l j)"

lemma beside_refl [simp]: "beside i l l" by (simp add: beside_def)

lemma beside_trans: "beside i a b \<Longrightarrow> beside i b c \<Longrightarrow> beside i a c" by (simp add: beside_def)

lemma beside_set_slot [simp]: "beside i l (set_slot i c l') = beside i l l'"
  by (simp add: beside_def set_slot_def)

lemma beside_reply_err [simp]: "beside i l (snd (reply_err l i code sq))"
  by (auto simp: beside_def reply_err_def reply_err_text_def Let_def split_beta set_slot_def)

lemma reply_err_slots [simp]: "length (l_conns (snd (reply_err l i code sq))) = length (l_conns l)"
  using beside_reply_err [of i l code sq] by (simp add: beside_def)

section \<open>Steps that leave the log alone\<close>

text \<open>The property looks at the log, the dirty mark, the slots and the replicas' marks only.\<close>

locale quiet_invariant =
  fixes N :: "'k net" and P :: "nat \<Rightarrow> loop_t \<Rightarrow> bool"
  assumes core: "P n l \<Longrightarrow> l_wal l' = l_wal l \<Longrightarrow> l_wal_dirty l' = l_wal_dirty l \<Longrightarrow>
      l_conns l' = l_conns l \<Longrightarrow> l_peer_live l' = l_peer_live l \<Longrightarrow> P n l'"
    and slot: "P n l \<Longrightarrow> conn_keeps (slot_of l i) c \<Longrightarrow> P n (set_slot i c l)"
    and release: "P n l \<Longrightarrow> i < LOOP_MAX_CONNS \<Longrightarrow> P n (fst (slot_release N l i k))"
begin

lemma core_simps [simp]:
  "P n (l\<lparr>l_epoll_fd := x0\<rparr>) = P n l"
  "P n (l\<lparr>l_listen_fd := x1\<rparr>) = P n l"
  "P n (l\<lparr>l_signal_fd := x2\<rparr>) = P n l"
  "P n (l\<lparr>l_port := x3\<rparr>) = P n l"
  "P n (l\<lparr>l_stop := x4\<rparr>) = P n l"
  "P n (l\<lparr>l_sessions := x5\<rparr>) = P n l"
  "P n (l\<lparr>l_progress := x6\<rparr>) = P n l"
  "P n (l\<lparr>l_is_follower := x7\<rparr>) = P n l"
  "P n (l\<lparr>l_repl_connecting := x8\<rparr>) = P n l"
  "P n (l\<lparr>l_repl_want_out := x9\<rparr>) = P n l"
  "P n (l\<lparr>l_repl_closing := x10\<rparr>) = P n l"
  "P n (l\<lparr>l_timer_fd := x11\<rparr>) = P n l"
  "P n (l\<lparr>l_tick := x12\<rparr>) = P n l"
  "P n (l\<lparr>l_leader_text := x13\<rparr>) = P n l"
  "P n (l\<lparr>l_leader_addr := x14\<rparr>) = P n l"
  "P n (l\<lparr>l_repl_fd := x15\<rparr>) = P n l"
  "P n (l\<lparr>l_repl_send := x16\<rparr>) = P n l"
  "P n (l\<lparr>l_repl_next_dial := x17\<rparr>) = P n l"
  "P n (l\<lparr>l_repl_conn := x18\<rparr>) = P n l"
  "P n (l\<lparr>l_repl_acked := x19\<rparr>) = P n l"
  "P n (l\<lparr>l_repl_last_err := x20\<rparr>) = P n l"
  "P n (l\<lparr>l_peer_durable := x21\<rparr>) = P n l"
  "P n (l\<lparr>l_peer_cursor := x22\<rparr>) = P n l"
  "P n (l\<lparr>l_retain_segments := x23\<rparr>) = P n l"
  "P n (l\<lparr>l_replicas_want := x24\<rparr>) = P n l"
  "P n (l\<lparr>l_retain_floor := x25\<rparr>) = P n l"
  "P n (l\<lparr>l_retain_seen_segs := x26\<rparr>) = P n l"
  "P n (l\<lparr>l_retain_failed := x27\<rparr>) = P n l"
  "P n (l\<lparr>l_metrics_fd := x28\<rparr>) = P n l"
  "P n (l\<lparr>l_metrics_port := x29\<rparr>) = P n l"
  "P n (l\<lparr>l_scrapes := x30\<rparr>) = P n l"
  "P n (l\<lparr>l_accepted := x31\<rparr>) = P n l"
  "P n (l\<lparr>l_closed := x32\<rparr>) = P n l"
  "P n (l\<lparr>l_writes := x33\<rparr>) = P n l"
  "P n (l\<lparr>l_dedup_hits := x34\<rparr>) = P n l"
  "P n (l\<lparr>l_flushes := x35\<rparr>) = P n l"
  "P n (l\<lparr>l_repl_records := x36\<rparr>) = P n l"
  "P n (l\<lparr>l_repl_degraded := x37\<rparr>) = P n l"
  "P n (l\<lparr>l_notified := x38\<rparr>) = P n l"
  "P n (l\<lparr>l_retain_removed := x39\<rparr>) = P n l"
  "P n (l\<lparr>l_retain_errors := x40\<rparr>) = P n l"
  "P n (l\<lparr>l_scrapes_served := x41\<rparr>) = P n l"
  "P n (l\<lparr>l_scrapes_refused := x42\<rparr>) = P n l"
  "P n (l\<lparr>l_acks_append := x43\<rparr>) = P n l"
  "P n (l\<lparr>l_acks_sync := x44\<rparr>) = P n l"
  "P n (l\<lparr>l_acks_repl := x45\<rparr>) = P n l"
  "P n (l\<lparr>l_refused := x46\<rparr>) = P n l"
  "P n (l\<lparr>l_fsync_ns_total := x47\<rparr>) = P n l"
  "P n (l\<lparr>l_fsync_bucket := x48\<rparr>) = P n l"
  "P n (l\<lparr>l_peer_ack_ns := x49\<rparr>) = P n l"
  by (rule iffI; erule core; simp)+

lemma reply_err_text_kept [simp]: "P n l \<Longrightarrow> P n (snd (reply_err_text l i code sq txt))"
  by (simp add: reply_err_text_def Let_def split_beta slot)

lemma reply_err_kept [simp]: "P n l \<Longrightarrow> P n (snd (reply_err l i code sq))"
  by (simp add: reply_err_def)

lemma arm_timer_now_kept [simp]: "P n l \<Longrightarrow> P n (fst (arm_timer_now N l k))"
  by (simp add: arm_timer_now_def Let_def split_beta)

lemma conn_want_out_kept [simp]: "P n l \<Longrightarrow> P n (fst (conn_want_out N l i want k))"
  by (simp add: conn_want_out_def Let_def split_beta slot)

lemma stream_want_out_kept [simp]: "P n l \<Longrightarrow> P n (fst (stream_want_out N l want k))"
  by (simp add: stream_want_out_def Let_def split_beta)

lemma loop_send_done_kept [simp]: "P n l \<Longrightarrow> P n (loop_send_done l i res)"
  by (simp add: loop_send_done_def Let_def slot)

lemma conn_send_kept [simp]: "P n l \<Longrightarrow> P n (fst (conn_send N l i k))"
  by (simp add: conn_send_def Let_def split_beta)

lemma on_repl_send_kept [simp]: "P n l \<Longrightarrow> P n (on_repl_send l res)"
  by (simp add: on_repl_send_def)

lemma stream_send_kept [simp]: "P n l \<Longrightarrow> P n (fst (stream_send N l k))"
  by (simp add: stream_send_def Let_def split_beta)

lemma stream_frame_kept [simp]: "P n l \<Longrightarrow> P n (stream_frame op sq l)"
  by (simp add: stream_frame_def Let_def)

lemma on_repl_dial_kept [simp]: "P n l \<Longrightarrow> P n (fst (on_repl_dial N l res k))"
  by (simp add: on_repl_dial_def Let_def split_beta)

lemma repl_dial_kept: "P n l \<Longrightarrow> P n (fst (repl_dial N l k))"
  by (simp add: repl_dial_def Let_def split_beta split: result_t.split)

lemma stream_release_kept [simp]: "P n l \<Longrightarrow> P n (fst (stream_release N l k))"
  by (simp add: stream_release_def Let_def split_beta)

lemma arm_stream_kept: "P n l \<Longrightarrow> P n (fst (arm_stream N l k))"
  by (simp add: arm_stream_def Let_def split_beta)

lemma arm_slot_kept: "P n (fst s) \<Longrightarrow> i < LOOP_MAX_CONNS \<Longrightarrow> P n (fst (arm_slot N i s))"
  by (cases s) (simp add: arm_slot_def Let_def split_beta slot release conn_keeps_conn)

lemma arm_phase_kept: "P n l \<Longrightarrow> P n (fst (arm_phase N l k))"
proof -
  assume l: "P n l"
  have "P n (fst (fold (arm_slot N) [0..<LOOP_MAX_CONNS] (repl_dial N l k)))"
    by (rule fold_invariant [where P = "\<lambda>s. P n (fst s)" and Q = "\<lambda>i. i < LOOP_MAX_CONNS"])
      (auto simp: arm_slot_kept repl_dial_kept l)
  then show ?thesis by (simp add: arm_phase_def arm_conns_def Let_def split_beta arm_stream_kept)
qed

lemma stream_report_kept: "P n l \<Longrightarrow> P n (stream_report l)"
  by (simp add: stream_report_def Let_def)

lemma repl_stream_slot_kept: "P n (fst s) \<Longrightarrow> P n (fst (repl_stream_slot N limit i s))"
  by (cases s) (simp add: repl_stream_slot_def Let_def split_beta slot)

lemma repl_stream_kept: "P n l \<Longrightarrow> P n (fst (repl_stream N l k))"
  using fold_invariant [where P = "\<lambda>s. P n (fst s)" and Q = "\<lambda>_. True" and s = "(l, k)"
      and f = "repl_stream_slot N (wal_durable_seq (l_wal l))" and xs = "[0..<LOOP_MAX_CONNS]"]
  by (simp add: repl_stream_def repl_stream_slot_kept)

lemma subs_push_slot_kept: "P n (fst s) \<Longrightarrow> P n (fst (subs_push_slot N m i s))"
  by (cases s) (simp add: subs_push_slot_def Let_def split_beta slot set_slot_progress)

lemma subs_push_kept: "P n l \<Longrightarrow> P n (fst (subs_push N m l k))"
  using fold_invariant [where P = "\<lambda>s. P n (fst s)" and Q = "\<lambda>_. True" and f = "subs_push_slot N m"
      and s = "(l, wal_durable_seq (l_wal l), k)" and xs = "[0..<LOOP_MAX_CONNS]"]
  by (simp add: subs_push_def split_beta subs_push_slot_kept)

lemma scrape_release_kept [simp]: "P n l \<Longrightarrow> P n (fst (scrape_release N l i k))"
  by (simp add: scrape_release_def Let_def split_beta set_scrape_def)

lemma scrape_answering_kept [simp]: "P n l \<Longrightarrow> P n (fst (scrape_answering N l i k))"
  by (simp add: scrape_answering_def Let_def split_beta set_scrape_def)

lemma scrape_send_kept [simp]: "P n l \<Longrightarrow> P n (fst (scrape_send N l i k))"
  by (simp add: scrape_send_def Let_def split_beta set_scrape_def)

lemma scrape_answer_kept [simp]: "P n l \<Longrightarrow> P n (fst (scrape_answer N l i k))"
  by (simp add: scrape_answer_def Let_def split_beta set_scrape_def)

lemma scrape_recv_kept: "P n l \<Longrightarrow> P n (fst (scrape_recv N l i k))"
  by (simp add: scrape_recv_def scrape_refuse_def Let_def split_beta set_scrape_def)

lemma scrape_accept_kept: "P n l \<Longrightarrow> P n (fst (scrape_accept N l k))"
  by (simp add: scrape_accept_def scrape_refuse_def Let_def split_beta set_scrape_def split: option.split)

lemma do_signal_kept: "P n l \<Longrightarrow> P n (fst (do_signal N l k))"
  by (simp add: do_signal_def Let_def split_beta)

lemma do_timer_kept: "P n l \<Longrightarrow> P n (fst (do_timer N l k))"
  by (simp add: do_timer_def Let_def split_beta)

lemma do_send_kept: "P n l \<Longrightarrow> P n (fst (do_send N l i k))"
  by (simp add: do_send_def Let_def)

lemma do_repl_dial_kept: "P n l \<Longrightarrow> P n (fst (do_repl_dial N l k))"
  by (simp add: do_repl_dial_def Let_def split_beta)

lemma do_repl_send_kept: "P n l \<Longrightarrow> P n (fst (do_repl_send N l k))"
  by (simp add: do_repl_send_def)

lemma handle_hello_kept: "P n l \<Longrightarrow> P n (fst (handle_hello N l i h p k))"
  by (simp add: handle_hello_def Let_def split_beta slot split: option.split prod.split)

lemma handle_subscribe_kept: "P n l \<Longrightarrow> P n (fst (handle_subscribe N l i h p m k))"
  by (simp add: handle_subscribe_def Let_def split_beta slot split: option.split)

lemma handle_read_kept: "P n l \<Longrightarrow> P n (fst (handle_read N l i h p m k))"
  by (simp add: handle_read_def Let_def split_beta slot split: option.split)

lemma retain_floor_update_kept [simp]: "P n l \<Longrightarrow> P n (retain_floor_update l)"
  by (simp add: retain_floor_update_def split: prod.split)

lemma handle_repl_ack_kept: "P n l \<Longrightarrow> P n (fst (handle_repl_ack N l i h k))"
  by (simp add: handle_repl_ack_def Let_def split_beta split: option.split)

end

section \<open>What a frame leaves of its own slot\<close>

text \<open>No handler touches the framing state or frees the slot, which is what lets the receive
  loop carry the framing state along.\<close>

definition same_conn :: "loop_conn_t \<Rightarrow> loop_conn_t \<Rightarrow> bool" where
  "same_conn c c' \<longleftrightarrow> lc_conn c' = lc_conn c \<and> lc_in_use c' = lc_in_use c"

lemma same_conn_simps [simp]:
  "same_conn c c"
  "same_conn c (c'\<lparr>lc_send := x2\<rparr>) = same_conn c c'"
  "same_conn c (c'\<lparr>lc_send_cap := x3\<rparr>) = same_conn c c'"
  "same_conn c (c'\<lparr>lc_session := x4\<rparr>) = same_conn c c'"
  "same_conn c (c'\<lparr>lc_sub := x5\<rparr>) = same_conn c c'"
  "same_conn c (c'\<lparr>lc_replica := x6\<rparr>) = same_conn c c'"
  "same_conn c (c'\<lparr>lc_closing := x7\<rparr>) = same_conn c c'"
  "same_conn c (c'\<lparr>lc_ack_local := x8\<rparr>) = same_conn c c'"
  "same_conn c (c'\<lparr>lc_ack_repl := x9\<rparr>) = same_conn c c'"
  by (simp_all add: same_conn_def)

lemma same_conn_nth [simp]: "same_conn c c' \<Longrightarrow> same_conn c (xs ! i) \<Longrightarrow> same_conn c (xs[i := c'] ! i)"
  by (cases "i < length xs") (simp_all add: list_update_beyond)

lemma reply_same_conn [simp]: "same_conn c (snd (reply c' op flags sq p)) = same_conn c c'"
  by (simp add: reply_def Let_def)

lemma reply_ack_same_conn [simp]: "same_conn c (snd (reply_ack c' flags sq cs)) = same_conn c c'"
  by (simp add: reply_ack_def)

lemma l_conns_set_slot [simp]: "l_conns (set_slot i c l) = (l_conns l)[i := c]"
  by (simp add: set_slot_def)

lemma reply_err_text_same_conn [simp]:
  "same_conn c (slot_of l i) \<Longrightarrow> same_conn c (slot_of (snd (reply_err_text l i code sq txt)) i)"
  by (simp add: reply_err_text_def Let_def split_beta)

lemma reply_err_same_conn [simp]:
  "same_conn c (slot_of l i) \<Longrightarrow> same_conn c (slot_of (snd (reply_err l i code sq)) i)"
  by (simp add: reply_err_def)

lemma arm_timer_now_conns [simp]: "l_conns (fst (arm_timer_now N l k)) = l_conns l"
  by (simp add: arm_timer_now_def Let_def split_beta)

lemma retain_floor_update_conns [simp]: "l_conns (retain_floor_update l) = l_conns l"
  by (simp add: retain_floor_update_def split: prod.split)

lemma ack_write_same_conn [simp]:
  "same_conn c (slot_of l i) \<Longrightarrow> same_conn c (slot_of (ack_write l i flags wants deg cs ws) i)"
  by (simp add: ack_write_def Let_def)

lemma handle_frame_same_conn: "same_conn (slot_of l i) (slot_of (fst (handle_frame N l i h p s k)) i)"
proof -
  have "same_conn (slot_of l i) (slot_of (fst (handle_hello N l i h p k)) i)"
    by (simp add: handle_hello_def Let_def split_beta split: option.split prod.split)
  moreover have "same_conn (slot_of l i) (slot_of (fst (handle_write N l i h p s k)) i)"
    by (simp add: handle_write_def Let_def split_beta split: option.split result_t.split)
  moreover have "same_conn (slot_of l i) (slot_of (fst (handle_subscribe N l i h p m k)) i)" for m
    by (simp add: handle_subscribe_def Let_def split_beta split: option.split)
  moreover have "same_conn (slot_of l i) (slot_of (fst (handle_read N l i h p m k)) i)" for m
    by (simp add: handle_read_def Let_def split_beta split: option.split)
  moreover have "same_conn (slot_of l i) (slot_of (fst (handle_repl_start N l i h m k)) i)" for m
    by (simp add: handle_repl_start_def Let_def split_beta split: option.split)
  moreover have "same_conn (slot_of l i) (slot_of (fst (handle_repl_ack N l i h k)) i)"
    by (simp add: handle_repl_ack_def Let_def split_beta split: option.split)
  ultimately show ?thesis by (simp add: handle_frame_def Let_def split_beta)
qed

lemma same_conn_trans: "same_conn a b \<Longrightarrow> same_conn b c \<Longrightarrow> same_conn a c"
  by (simp add: same_conn_def)

lemma on_actions_same_conn: "same_conn (slot_of l i) (slot_of (fst (on_actions N i s conn as l k)) i)"
proof (induction N i s conn as l k rule: on_actions.induct)
  case (2 N i s conn h p n as l k)
  obtain l2 k2 where f: "handle_frame N l i h (payload_bytes conn p n) s k = (l2, k2)" by fastforce
  have "same_conn (slot_of l i) (slot_of l2 i)"
    using handle_frame_same_conn [of l i N h "payload_bytes conn p n" s k] f by simp
  from same_conn_trans [OF this 2(1) [OF refl f [symmetric]]] f show ?case by simp
next
  case (3 N i s conn code sq as l k)
  obtain b l2 where f: "reply_err l i code sq = (b, l2)" by fastforce
  have "same_conn (slot_of l i) (slot_of l2 i)" using reply_err_same_conn [of "slot_of l i" l i code sq] f by simp
  from same_conn_trans [OF this 3(1) [OF refl f [symmetric]]] f show ?case by simp
next
  case (4 N i s conn as l k)
  let ?l = "set_slot i ((slot_of l i)\<lparr>lc_closing := True\<rparr>) l"
  have "same_conn (slot_of l i) (slot_of ?l i)" by simp
  from same_conn_trans [OF this 4] show ?case by simp
qed simp

section \<open>One record of the stream\<close>

text \<open>How one turn of \<open>repl_apply\<close> ends: nothing left, a record refused before anything is
  written, an append that failed, or a record applied.\<close>

lemma repl_apply_cases:
  obtains (finished) "p = []" "repl_apply N p s l k = (l, k)"
    | (refused) "p \<noteq> []" "repl_apply N p s l k = (l\<lparr>l_repl_closing := True\<rparr>, k)"
    | (failed) rec1 res w rec2 k' where "p \<noteq> []" "wal_rec_decode p = Some rec1" "r_seq rec1 = wal_next_seq (l_wal l)"
        "wal_append_at (net_files N) (l_wal l) rec1 (Some (drop WAL_REC_HEADER_SIZE p)) s k = (res, w, rec2, k')"
        "res \<noteq> RESULT_OK" "repl_apply N p s l k = (l\<lparr>l_wal := w, l_repl_closing := True\<rparr>, k')"
    | (applied) rec1 w rec2 k' size where "p \<noteq> []" "wal_rec_decode p = Some rec1"
        "size = nat (wal_rec_size (sint (r_len rec1)))" "56 \<le> size" "size \<le> length p"
        "wal_rec_verify p rec1" "r_seq rec1 = wal_next_seq (l_wal l)"
        "wal_append_at (net_files N) (l_wal l) rec1 (Some (drop WAL_REC_HEADER_SIZE p)) s k = (RESULT_OK, w, rec2, k')"
        "repl_apply N p s l k = repl_apply N (drop size p) s
           (l\<lparr>l_wal := w, l_sessions := session_from_record rec2 (l_sessions l), l_repl_last_err := 0,
              l_wal_dirty := True, l_repl_records := l_repl_records l + 1\<rparr>) k'"
proof (cases "p = []")
  case True
  then show ?thesis by (intro finished) (simp_all add: repl_apply.simps)
next
  case ne: False
  show ?thesis
  proof (cases "wal_rec_decode p")
    case None
    with ne show ?thesis by (intro refused) (simp_all add: repl_apply.simps [of N p])
  next
    case (Some rec1)
    let ?size = "wal_rec_size (sint (r_len rec1))"
    show ?thesis
    proof (cases "?size = 0 \<or> ?size > int (length p) \<or> \<not> wal_rec_verify p rec1
        \<or> r_seq rec1 \<noteq> wal_next_seq (l_wal l)")
      case True
      with ne Some show ?thesis by (intro refused) (auto simp: repl_apply.simps [of N p] Let_def)
    next
      case False
      obtain res w rec2 k' where a: "wal_append_at (net_files N) (l_wal l) rec1
          (Some (drop WAL_REC_HEADER_SIZE p)) s k = (res, w, rec2, k')" by (metis prod_cases4)
      have size: "56 \<le> ?size" using wal_rec_size_min False by blast
      show ?thesis
      proof (cases "res = RESULT_OK")
        case True
        with ne Some False a size show ?thesis
          by (intro applied [OF ne Some refl]) (auto simp: repl_apply.simps [of N p] Let_def result_ok_def)
      next
        case err: False
        with ne Some False a show ?thesis
          by (intro failed [OF ne Some _ a err]) (auto simp: repl_apply.simps [of N p] Let_def result_ok_def)
      qed
    qed
  qed
qed

section \<open>One write\<close>

text \<open>What an accepted write asks to be told, and what it leaves behind.\<close>

abbreviation ack_level :: "msg_header_t \<Rightarrow> u16" where
  "ack_level h \<equiv> h_flags h AND (MSG_FLAG_ACK_REQ OR MSG_FLAG_SYNC OR MSG_FLAG_REPLICATED)"

definition owe_ack :: "msg_header_t \<Rightarrow> nat \<Rightarrow> u64 \<Rightarrow> u64 \<Rightarrow> loop_t \<Rightarrow> loop_t" where
  "owe_ack h i client_seq wal_seq l =
     (if ack_req_flag (h_flags h)
      then ack_write l i (ack_level h) (wants_repl_flag (h_flags h)) (degradable_flag (h_flags h)) client_seq wal_seq
      else l)"

definition note_write :: "nat \<Rightarrow> msg_header_t \<Rightarrow> wal_t \<Rightarrow> loop_t \<Rightarrow> loop_t" where
  "note_write s h w l =
     (let t = l_sessions l;
          t = t\<lparr>st_entries := (st_entries t)[s := (st_entries t ! s)\<lparr>se_last := h_sequence h\<rparr>]\<rparr>
      in l\<lparr>l_wal := w, l_writes := l_writes l + 1, l_wal_dirty := True, l_sessions := session_touch t s\<rparr>)"

text \<open>The branches of \<open>handle_write\<close>, in the source's order.\<close>

lemma handle_write_cases:
  obtains (no_session) "session_lookup (l_sessions l) (lc_session (slot_of l i)) = None"
      "handle_write N l i h p s k = (let l1 = snd (reply_err l i MSG_ERR_NO_SESSION (h_sequence h))
         in set_slot i ((slot_of l1 i)\<lparr>lc_closing := True\<rparr>) l1, k)"
    | (follower) e where "session_lookup (l_sessions l) (lc_session (slot_of l i)) = Some e" "l_is_follower l"
      "handle_write N l i h p s k =
         (snd (reply_err_text l i MSG_ERR_NOT_LEADER (h_sequence h) (l_leader_text l)), k)"
    | (no_replicas) e where "session_lookup (l_sessions l) (lc_session (slot_of l i)) = Some e" "\<not> l_is_follower l"
      "wants_repl_flag (h_flags h)" "\<not> repl_live l" "\<not> degradable_flag (h_flags h)"
      "handle_write N l i h p s k = (snd (reply_err l i MSG_ERR_NO_REPLICAS (h_sequence h)), k)"
    | (duplicate) e where "session_lookup (l_sessions l) (lc_session (slot_of l i)) = Some e" "\<not> l_is_follower l"
      "wants_repl_flag (h_flags h) \<longrightarrow> repl_live l \<or> degradable_flag (h_flags h)"
      "h_sequence h \<le> se_last (st_entries (l_sessions l) ! e)"
      "handle_write N l i h p s k = (owe_ack h i (se_last (st_entries (l_sessions l) ! e)) (wal_durable_seq (l_wal l))
         (l\<lparr>l_dedup_hits := l_dedup_hits l + 1\<rparr>), k)"
    | (failed) e code d w r' k' where "session_lookup (l_sessions l) (lc_session (slot_of l i)) = Some e"
      "\<not> l_is_follower l" "wants_repl_flag (h_flags h) \<longrightarrow> repl_live l \<or> degradable_flag (h_flags h)"
      "se_last (st_entries (l_sessions l) ! e) < h_sequence h"
      "wal_append (net_files N) (l_wal l) (write_record (slot_of l i) h p) (if p = [] then None else Some p) s k
         = (RESULT_ERR code d, w, r', k')"
      "handle_write N l i h p s k = (snd (reply_err (l\<lparr>l_wal := w\<rparr>) i
         (if code = ERR_INVALID then MSG_ERR_PAYLOAD_TOO_BIG else MSG_ERR_STORAGE) (h_sequence h)), k')"
    | (stored) e w r' k' where "session_lookup (l_sessions l) (lc_session (slot_of l i)) = Some e"
      "\<not> l_is_follower l" "wants_repl_flag (h_flags h) \<longrightarrow> repl_live l \<or> degradable_flag (h_flags h)"
      "se_last (st_entries (l_sessions l) ! e) < h_sequence h"
      "wal_append (net_files N) (l_wal l) (write_record (slot_of l i) h p) (if p = [] then None else Some p) s k
         = (RESULT_OK, w, r', k')"
      "handle_write N l i h p s k = (owe_ack h i (h_sequence h) (r_seq r') (note_write e h w l), k')"
proof (cases "session_lookup (l_sessions l) (lc_session (slot_of l i))")
  case None
  then show ?thesis by (intro no_session) (simp_all add: handle_write_def Let_def split_beta)
next
  case (Some e)
  let ?refuse = "wants_repl_flag (h_flags h) \<and> \<not> repl_live l \<and> \<not> degradable_flag (h_flags h)"
  show ?thesis
  proof (cases "l_is_follower l \<or> ?refuse \<or> h_sequence h \<le> se_last (st_entries (l_sessions l) ! e)")
    case True
    then consider "l_is_follower l" | "\<not> l_is_follower l" "?refuse"
      | "\<not> l_is_follower l" "\<not> ?refuse" "h_sequence h \<le> se_last (st_entries (l_sessions l) ! e)" by blast
    then show ?thesis
    proof cases
      case 1
      with Some show ?thesis by (intro follower) (simp_all add: handle_write_def)
    next
      case 2
      with Some show ?thesis by (intro no_replicas) (simp_all add: handle_write_def)
    next
      case 3
      with Some show ?thesis
        by (intro duplicate) (auto simp: handle_write_def Let_def owe_ack_def)
    qed
  next
    case False
    obtain res w r' k' where a: "wal_append (net_files N) (l_wal l) (write_record (slot_of l i) h p)
        (if p = [] then None else Some p) s k = (res, w, r', k')" by (metis prod_cases4)
    have body: "handle_write N l i h p s k =
        (case res of
           RESULT_ERR code _ \<Rightarrow> (snd (reply_err (l\<lparr>l_wal := w\<rparr>) i
             (if code = ERR_INVALID then MSG_ERR_PAYLOAD_TOO_BIG else MSG_ERR_STORAGE) (h_sequence h)), k')
         | RESULT_OK \<Rightarrow> (owe_ack h i (h_sequence h) (r_seq r') (note_write e h w l), k'))"
      using False
      by (auto simp: handle_write_def Some Let_def a owe_ack_def note_write_def split: result_t.split)
    show ?thesis
    proof (cases res)
      case RESULT_OK
      with Some False a body show ?thesis by (intro stored) (auto simp: not_le)
    next
      case (RESULT_ERR code d)
      with Some False a body show ?thesis by (intro failed) (auto simp: not_le)
    qed
  qed
qed

section \<open>Every event of a pass\<close>

text \<open>\<open>F\<close> is what a slot that has not been opened satisfies and REPL_START may rely on.\<close>

locale pass_invariant = quiet_invariant N P for N :: "'k net" and P +
  fixes F :: "loop_t \<Rightarrow> nat \<Rightarrow> bool"
  assumes spend: "P (Suc n) l \<Longrightarrow> P n l"
    and fresh: "P n l \<Longrightarrow> i < LOOP_MAX_CONNS \<Longrightarrow> \<not> opened (lc_conn (slot_of l i)) \<Longrightarrow> F l i"
    and fresh_slot: "F l i \<Longrightarrow> F (set_slot i ((slot_of l i)\<lparr>lc_conn := conn\<rparr>) l) i"
    and write_frame: "P (Suc n) l \<Longrightarrow> i < LOOP_MAX_CONNS \<Longrightarrow> P n (fst (handle_write N l i h p s k))"
    and repl_start: "P n l \<Longrightarrow> i < LOOP_MAX_CONNS \<Longrightarrow> lc_in_use (slot_of l i) \<Longrightarrow>
      opened (lc_conn (slot_of l i)) \<Longrightarrow> F l i \<Longrightarrow> P n (fst (handle_repl_start N l i h m k))"
    and accept_conn: "P n l \<Longrightarrow> P n (fst (on_accept N l fd k))"
    and apply_records: "P (n + length p) l \<Longrightarrow> P n (fst (repl_apply N p s l k))"
begin

lemma spend_all: "P (n + m) l \<Longrightarrow> P n l"
  by (induction m) (auto dest: spend)

lemma spend_to: "P m l \<Longrightarrow> n \<le> m \<Longrightarrow> P n l"
  using spend_all [of n "m - n" l] by simp

lemma handle_frame_kept:
  assumes "P (Suc n) l" "i < LOOP_MAX_CONNS" "lc_in_use (slot_of l i)"
    and "opening_op (h_op h) \<Longrightarrow> opened (lc_conn (slot_of l i)) \<and> F l i"
  shows "P n (fst (handle_frame N l i h p s k))"
proof -
  note Pn = spend [OF assms(1)]
  have "h_op h = MSG_OP_REPL_START \<Longrightarrow> P n (fst (handle_repl_start N l i h m k))" for m
    using repl_start [OF Pn assms(2,3)] assms(4) by (simp add: opening_op_def)
  then show ?thesis
    using write_frame [OF assms(1,2)] Pn
    by (simp add: handle_frame_def Let_def split_beta slot handle_hello_kept handle_subscribe_kept
        handle_read_kept handle_repl_ack_kept)
qed

lemma on_actions_kept:
  "P (n + actions_size as) l \<Longrightarrow> i < LOOP_MAX_CONNS \<Longrightarrow> lc_in_use (slot_of l i) \<Longrightarrow>
   (opening_frames as \<Longrightarrow> opened (lc_conn (slot_of l i)) \<and> F l i) \<Longrightarrow> \<not> opening_frames (tl as) \<Longrightarrow>
   P n (fst (on_actions N i s conn as l k))"
proof (induction as arbitrary: l k)
  case Nil
  then show ?case by simp
next
  case (Cons a as)
  have tail: "\<not> opening_frames as" "\<not> opening_frames (tl as)"
    using Cons.prems(5) by (simp, cases as) (auto simp: opening_frames_def)
  show ?case
  proof (cases a)
    case (CONN_ACTION_FRAME h p m)
    obtain l2 k2 where f: "handle_frame N l i h (payload_bytes conn p m) s k = (l2, k2)" by fastforce
    have "P (Suc (n + m + actions_size as)) l" using Cons.prems(1) CONN_ACTION_FRAME by (simp add: ac_simps)
    from handle_frame_kept [OF this Cons.prems(2,3), of h "payload_bytes conn p m" s k] Cons.prems(4)
    have "P (n + m + actions_size as) l2" using CONN_ACTION_FRAME f by simp
    then have l2: "P (n + actions_size as) l2" by (rule spend_to) simp
    have "lc_in_use (slot_of l2 i)"
      using handle_frame_same_conn [of l i N h "payload_bytes conn p m" s k] f Cons.prems(3)
      by (simp add: same_conn_def)
    from Cons.IH [OF l2 Cons.prems(2) this _ tail(2), of k2] tail(1) show ?thesis
      by (simp add: CONN_ACTION_FRAME f)
  next
    case (CONN_ACTION_REPLY_ERR code sq)
    obtain b l2 where f: "reply_err l i code sq = (b, l2)" by fastforce
    have "P (n + actions_size as) (snd (reply_err l i code sq))"
      using Cons.prems(1) CONN_ACTION_REPLY_ERR by simp
    then have l2: "P (n + actions_size as) l2" using f by simp
    have "lc_in_use (slot_of l2 i)"
      using reply_err_same_conn [of "slot_of l i" l i code sq] f Cons.prems(3) by (simp add: same_conn_def)
    from Cons.IH [OF l2 Cons.prems(2) this _ tail(2), of k] tail(1) show ?thesis
      by (simp add: CONN_ACTION_REPLY_ERR f)
  next
    case CONN_ACTION_CLOSE
    let ?l = "set_slot i ((slot_of l i)\<lparr>lc_closing := True\<rparr>) l"
    have l2: "P (n + actions_size as) ?l" using Cons.prems(1) CONN_ACTION_CLOSE by (simp add: slot)
    have "lc_in_use (slot_of ?l i)"
      using Cons.prems(3) by (cases "i < length (l_conns l)") (simp_all add: list_update_beyond)
    from Cons.IH [OF l2 Cons.prems(2) this _ tail(2), of k] tail(1) show ?thesis
      by (simp add: CONN_ACTION_CLOSE)
  qed
qed

lemma on_recv_loop_kept:
  "P (n + (buf_len conn - buf_off conn)) l \<Longrightarrow> i < LOOP_MAX_CONNS \<Longrightarrow> loop_wf l \<Longrightarrow> client_conn conn \<Longrightarrow>
   lc_in_use (slot_of l i) \<Longrightarrow> opened (lc_conn (slot_of l i)) = opened conn \<Longrightarrow>
   P n (fst (on_recv_loop N i s conn l k))"
proof (induction "buf_len conn - buf_off conn" arbitrary: conn l k rule: less_induct)
  case less
  obtain as conn' where f: "conn_feed conn 8 = (as, conn')" by fastforce
  let ?l = "set_slot i ((slot_of l i)\<lparr>lc_conn := conn'\<rparr>) l"
  let ?room = "buf_len conn' - buf_off conn'"
  obtain l2 k2 where a: "on_actions N i s conn' as ?l k = (l2, k2)" by fastforce
  have client: "client_conn conn'" using client_conn_ops(3) [OF less.prems(4), of 8] f by simp
  have "mode conn = CONN_MODE_CLIENT" using less.prems(4) by (simp add: client_conn_def)
  note opens = conn_feed_opens [OF f this]
  have "P (n + (buf_len conn - buf_off conn)) ?l"
    by (rule slot [OF less.prems(1)]) (use opens less.prems(6) in \<open>simp add: conn_keeps_conn\<close>)
  moreover have "n + ?room + actions_size as \<le> n + (buf_len conn - buf_off conn)"
    using conn_feed_size [OF f] by simp
  ultimately have l1: "P (n + ?room + actions_size as) ?l" by (rule spend_to)
  have wf1: "loop_wf ?l" using less.prems(2,3) client by (intro set_slot_wf conn_wf_conn) simp_all
  have s1: "lc_in_use (slot_of ?l i)" "lc_conn (slot_of ?l i) = conn'"
    using less.prems(2,3,5) by (simp_all add: loop_wf_def)
  have "opening_frames as \<Longrightarrow> F l i"
    using opens fresh [OF less.prems(1,2)] less.prems(6) by auto
  then have op: "opening_frames as \<Longrightarrow> opened (lc_conn (slot_of ?l i)) \<and> F ?l i"
    using opens s1 by (simp add: fresh_slot)
  have l2: "P (n + ?room) l2"
    using on_actions_kept [OF l1 less.prems(2) s1(1) op] opens a by (metis fst_conv)
  have same: "same_conn (slot_of ?l i) (slot_of l2 i)"
    using on_actions_same_conn [of ?l i N s conn' as k] a by simp
  have wf2: "loop_wf l2" using on_actions_wf [OF wf1 less.prems(2), of N s conn' as k] a by simp
  show ?case
  proof (cases "as = [] \<or> lc_closing (slot_of l2 i)")
    case True
    with spend_all [OF l2] spend_all [OF spend_all [OF l1]] show ?thesis
      by (auto simp: on_recv_loop.simps [of N i s conn] f a Let_def)
  next
    case False
    have "?room < buf_len conn - buf_off conn" using conn_feed_progress [OF f] False by simp
    from less.hyps [OF this l2 less.prems(2) wf2 client] same s1 False show ?thesis
      by (simp add: on_recv_loop.simps [of N i s conn] f a Let_def same_conn_def)
  qed
qed

lemma unparsed_room: "conn_fits cap c \<Longrightarrow> buf_len (snd (conn_recv_commit c m)) - buf_off (snd (conn_recv_commit c m)) \<le> cap"
  using conn_recv_commit_fits [of cap c m] by (auto simp: conn_fits_def conn_inv_def)

lemma conn_recv_commit_opened [simp]: "opened (snd (conn_recv_commit c m)) = opened c"
  by (simp add: conn_recv_commit_def Let_def)

lemma on_recv_kept:
  assumes "P (n + LOOP_RECV_CAP) l" "i < LOOP_MAX_CONNS" "loop_wf l"
  shows "P n (fst (on_recv N l i res s k))"
proof -
  let ?conn = "snd (conn_recv_commit (lc_conn (slot_of l i)) (nat res))"
  have client: "client_conn (lc_conn (slot_of l i))" using assms(2,3) by (simp add: conn_wf_client)
  then have "P (n + (buf_len ?conn - buf_off ?conn)) l"
    by (intro spend_to [OF assms(1)] add_left_mono unparsed_room) (simp add: client_conn_def)
  from on_recv_loop_kept [OF this assms(2,3) client_conn_ops(2) [OF client]]
  show ?thesis using spend_all [OF assms(1)] by (simp add: on_recv_def Let_def slot)
qed

lemma do_recv_kept:
  assumes "P (n + LOOP_RECV_CAP) l" "i < LOOP_MAX_CONNS" "loop_wf l"
  shows "P n (fst (do_recv N l i s k))"
proof -
  have fill: "P m (set_slot i ((slot_of l i)\<lparr>lc_conn := (lc_conn (slot_of l i))\<lparr>buf := b\<rparr>\<rparr>) l)" if "P m l" for m b
    by (rule slot [OF that]) (simp add: conn_keeps_conn)
  have "P n l" using spend_all [OF assms(1)] .
  then show ?thesis
    using fill fill [OF assms(1)] assms(2,3)
    by (simp add: do_recv_def Let_def split_beta on_recv_kept conn_wf_conn client_conn_ops conn_wf_client)
qed

lemma do_accept_kept: "P n l \<Longrightarrow> P n (fst (do_accept N l k))"
  by (simp add: do_accept_def Let_def split_beta accept_conn)

lemma stream_actions_kept: "P (n + actions_size as) l \<Longrightarrow> P n (fst (stream_actions N s conn as l k))"
proof (induction as arbitrary: l k)
  case (Cons a as)
  show ?case
  proof (cases a)
    case (CONN_ACTION_FRAME h p m)
    obtain l2 k2 where f: "on_stream_frame N l h (payload_bytes conn p m) s k = (l2, k2)" by fastforce
    have "P (n + actions_size as + length (payload_bytes conn p m)) l"
      by (rule spend_to [OF Cons.prems]) (auto simp: CONN_ACTION_FRAME payload_bytes_def min_def split: option.split)
    from apply_records [OF this] spend_all [OF this]
    have "P (n + actions_size as) (fst (on_stream_frame N l h (payload_bytes conn p m) s k))"
      by (simp add: on_stream_frame_def Let_def split_beta)
    with Cons.IH [of l2 k2] f show ?thesis by (simp add: CONN_ACTION_FRAME)
  qed (use Cons in simp_all)
qed simp

lemma on_repl_recv_loop_kept:
  "P (n + (buf_len conn - buf_off conn)) l \<Longrightarrow> P n (fst (on_repl_recv_loop N s conn l k))"
proof (induction "buf_len conn - buf_off conn" arbitrary: conn l k rule: less_induct)
  case less
  obtain as conn' where f: "conn_feed conn 4 = (as, conn')" by fastforce
  let ?room = "buf_len conn' - buf_off conn'"
  obtain l2 k2 where a: "stream_actions N s conn' as (l\<lparr>l_repl_conn := conn'\<rparr>) k = (l2, k2)" by fastforce
  have "n + ?room + actions_size as \<le> n + (buf_len conn - buf_off conn)" using conn_feed_size [OF f] by simp
  from spend_to [OF less.prems this]
  have l1: "P (n + ?room + actions_size as) (l\<lparr>l_repl_conn := conn'\<rparr>)" by simp
  have l2: "P (n + ?room) l2" using stream_actions_kept [OF l1, of s conn' k] a by simp
  show ?case
  proof (cases "as = [] \<or> l_repl_closing l2")
    case True
    with spend_all [OF l2] spend_all [OF less.prems] show ?thesis
      by (auto simp: on_repl_recv_loop.simps [of N s conn] f a Let_def)
  next
    case False
    have "?room < buf_len conn - buf_off conn" using conn_feed_progress [OF f] False by simp
    from less.hyps [OF this l2] False show ?thesis
      by (simp add: on_repl_recv_loop.simps [of N s conn] f a Let_def)
  qed
qed

lemma do_repl_recv_kept:
  assumes "P (n + LOOP_REPL_CAP) l" "loop_wf l"
  shows "P n (fst (do_repl_recv N l s k))"
proof -
  have "P n (fst (on_repl_recv N l' res s k'))" if "P (n + LOOP_REPL_CAP) l'" "loop_wf l'" for l' res k'
  proof -
    let ?conn = "snd (conn_recv_commit (l_repl_conn l') (nat res))"
    have "P (n + (buf_len ?conn - buf_off ?conn)) l'"
      by (intro spend_to [OF that(1)] add_left_mono unparsed_room loop_wf_repl_conn_fits that(2))
    then show ?thesis using spend_all [OF that(1)] by (simp add: on_repl_recv_def on_repl_recv_loop_kept)
  qed
  then show ?thesis using spend_all [OF assms(1)] assms
    by (simp add: do_repl_recv_def Let_def split_beta loop_wf_repl_conn conn_fill_fits loop_wf_repl_conn_fits)
qed

lemma tick_event_kept:
  assumes "P (n + LOOP_REPL_CAP) (fst s)" "loop_wf (fst s)" "event_ok ev"
  shows "P n (fst (tick_event N scratch ev s))"
proof -
  obtain l k where s: "s = (l, k)" by fastforce
  have "P n l" "P (n + LOOP_RECV_CAP) l" using assms(1) by (auto simp: s intro: spend_to)
  with assms show ?thesis
    by (auto simp: s tick_event_def event_ok_def Let_def split_beta do_accept_kept do_recv_kept do_send_kept
        do_signal_kept do_timer_kept do_repl_dial_kept do_repl_recv_kept do_repl_send_kept scrape_accept_kept
        scrape_recv_kept)
qed

lemma tick_events_kept:
  "P (n + length evs * LOOP_REPL_CAP) l \<Longrightarrow> loop_wf l \<Longrightarrow> list_all event_ok evs \<Longrightarrow>
   P n (fst (fold (tick_event N scratch) evs (l, k)))"
proof (induction evs arbitrary: l k)
  case (Cons ev evs)
  obtain l2 k2 where e: "tick_event N scratch ev (l, k) = (l2, k2)" by fastforce
  have "P (n + length evs * LOOP_REPL_CAP + LOOP_REPL_CAP) l"
    by (rule spend_to [OF Cons.prems(1)]) simp
  then have "P (n + length evs * LOOP_REPL_CAP) l2" "loop_wf l2"
    using tick_event_kept [of _ "(l, k)" ev scratch] tick_event_wf [of "(l, k)" ev N scratch] Cons.prems e by simp_all
  then show ?case using Cons e by simp
qed simp

end

end
