(* ===== verification/Loop_Peers.thy ===== *)
theory Loop_Peers
  imports Loop_Steps
begin

text \<open>
  Replica slots. A replica takes one of two marks (\<open>l_peer_live\<close>, what it has confirmed, its
  cursor) when its REPL_START is accepted and gives it back when its connection is released.
  Nothing but the connection's \<open>replica\<close> field ties the two together; that they always
  correspond one to one rests on the framing layer letting no second opening frame through.
\<close>

section \<open>Holders of marks\<close>

text \<open>\<open>rs\<close> says for each slot which mark it holds, \<open>live\<close> which marks are taken.\<close>

definition held :: "nat option list \<Rightarrow> bool list \<Rightarrow> bool" where
  "held rs live \<longleftrightarrow>
     (\<forall>i < length rs. \<forall>j. rs ! i = Some j \<longrightarrow> j < length live \<and> live ! j)
     \<and> (\<forall>i < length rs. \<forall>i' < length rs. \<forall>j. rs ! i = Some j \<longrightarrow> rs ! i' = Some j \<longrightarrow> i = i')
     \<and> (\<forall>j < length live. live ! j \<longrightarrow> (\<exists>i < length rs. rs ! i = Some j))"

lemma heldD:
  assumes "held rs live"
  shows "i < length rs \<Longrightarrow> rs ! i = Some j \<Longrightarrow> j < length live \<and> live ! j"
    and "i < length rs \<Longrightarrow> i' < length rs \<Longrightarrow> rs ! i = Some j \<Longrightarrow> rs ! i' = Some j \<Longrightarrow> i = i'"
    and "j < length live \<Longrightarrow> live ! j \<Longrightarrow> \<exists>i < length rs. rs ! i = Some j"
  using assms unfolding held_def by blast+

lemma held_start:
  assumes h: "held rs live" and i: "rs ! i = None" "i < length rs" and j: "j < length live" "\<not> live ! j"
  shows "held (rs[i := Some j]) (live[j := True])"
  unfolding held_def
proof (intro conjI allI impI)
  fix m n assume m: "m < length (rs[i := Some j])" "rs[i := Some j] ! m = Some n"
  then show "n < length (live[j := True])" "live[j := True] ! n"
    using heldD(1) [OF h, of m n] i j by (auto simp: nth_list_update split: if_splits)
next
  fix m m' n assume m: "m < length (rs[i := Some j])" "m' < length (rs[i := Some j])"
    "rs[i := Some j] ! m = Some n" "rs[i := Some j] ! m' = Some n"
  then show "m = m'"
    using heldD(1) [OF h, of m n] heldD(1) [OF h, of m' n] heldD(2) [OF h, of m m' n] i j
    by (auto simp: nth_list_update split: if_splits)
next
  fix n assume n: "n < length (live[j := True])" "live[j := True] ! n"
  show "\<exists>m < length (rs[i := Some j]). rs[i := Some j] ! m = Some n"
  proof (cases "n = j")
    case True
    with i show ?thesis by (intro exI [of _ i]) simp
  next
    case False
    with n heldD(3) [OF h, of n] obtain m where "m < length rs" "rs ! m = Some n" by auto
    with i show ?thesis by (intro exI [of _ m]) (auto simp: nth_list_update)
  qed
qed

lemma held_release:
  assumes h: "held rs live" and i: "rs ! i = Some j" "i < length rs"
  shows "held (rs[i := None]) (live[j := False])"
  unfolding held_def
proof (intro conjI allI impI)
  fix m n assume m: "m < length (rs[i := None])" "rs[i := None] ! m = Some n"
  then have "m \<noteq> i" using i by auto
  with m have n: "rs ! m = Some n" "m < length rs" by simp_all
  with \<open>m \<noteq> i\<close> have "n \<noteq> j" using heldD(2) [OF h n(2) i(2) n(1)] i(1) by auto
  with heldD(1) [OF h n(2,1)] show "n < length (live[j := False])" "live[j := False] ! n" by simp_all
next
  fix m m' n assume m: "m < length (rs[i := None])" "m' < length (rs[i := None])"
    "rs[i := None] ! m = Some n" "rs[i := None] ! m' = Some n"
  then have "m \<noteq> i" "m' \<noteq> i" using i by auto
  with m show "m = m'" using heldD(2) [OF h, of m m' n] by simp
next
  fix n assume n: "n < length (live[j := False])" "live[j := False] ! n"
  then have "n \<noteq> j" by (auto simp: nth_list_update)
  with n heldD(3) [OF h, of n] obtain m where "m < length rs" "rs ! m = Some n" by (auto simp: nth_list_update)
  with i \<open>n \<noteq> j\<close> show "\<exists>m < length (rs[i := None]). rs[i := None] ! m = Some n"
    by (intro exI [of _ m]) (auto simp: nth_list_update)
qed

definition replica_slot_ok :: "loop_conn_t \<Rightarrow> bool" where
  "replica_slot_ok c \<longleftrightarrow> (lc_replica c \<noteq> None \<longrightarrow> lc_in_use c \<and> opened (lc_conn c))"

definition peers_ok :: "loop_t \<Rightarrow> bool" where
  "peers_ok l \<longleftrightarrow> length (l_conns l) = LOOP_MAX_CONNS \<and> length (l_peer_live l) = LOOP_MAX_REPLICAS
     \<and> held (map lc_replica (l_conns l)) (l_peer_live l) \<and> list_all replica_slot_ok (l_conns l)"

lemma peers_ok_core:
  "peers_ok l \<Longrightarrow> l_conns l' = l_conns l \<Longrightarrow> l_peer_live l' = l_peer_live l \<Longrightarrow> peers_ok l'"
  by (simp add: peers_ok_def)

definition keeps_replica :: "loop_conn_t \<Rightarrow> loop_conn_t \<Rightarrow> bool" where
  "keeps_replica c c' \<longleftrightarrow> lc_replica c' = lc_replica c \<and> lc_in_use c' = lc_in_use c
     \<and> (opened (lc_conn c) \<longrightarrow> opened (lc_conn c'))"

lemma peers_ok_slot:
  assumes "peers_ok l" "keeps_replica (slot_of l i) c"
  shows "peers_ok (set_slot i c l)"
proof (cases "i < LOOP_MAX_CONNS")
  case True
  have "(map lc_replica (l_conns l))[i := lc_replica c] = map lc_replica (l_conns l)"
    using assms True by (simp add: keeps_replica_def peers_ok_def list_update_same_conv)
  moreover have "replica_slot_ok c"
    using assms True by (auto simp: replica_slot_ok_def keeps_replica_def peers_ok_def list_all_length)
  ultimately show ?thesis using assms(1) by (simp add: peers_ok_def map_update list_all_update set_slot_def)
next
  case False
  with assms(1) show ?thesis by (simp add: peers_ok_def set_slot_def list_update_beyond)
qed

lemma peers_ok_release:
  assumes "peers_ok l" "i < LOOP_MAX_CONNS"
  shows "peers_ok (fst (slot_release N l i k))"
proof -
  have reset: "lc_replica slot_reset = None" "replica_slot_ok slot_reset"
    by (simp_all add: slot_reset_def replica_slot_ok_def)
  note ok = assms(1) [unfolded peers_ok_def]
  show ?thesis
  proof (cases "lc_replica (slot_of l i)")
    case None
    then have "(map lc_replica (l_conns l))[i := None] = map lc_replica (l_conns l)"
      using assms(2) ok by (simp add: list_update_same_conv)
    then show ?thesis
      using ok None reset assms(1)
      by (simp add: slot_release_def Let_def split_beta peers_ok_def map_update list_all_update set_slot_def)
  next
    case (Some j)
    have "held ((map lc_replica (l_conns l))[i := None]) ((l_peer_live l)[j := False])"
      using held_release [of "map lc_replica (l_conns l)" "l_peer_live l" i j] ok Some assms(2) by simp
    moreover have "j < LOOP_MAX_REPLICAS" "lc_in_use (slot_of l i)"
      using ok Some assms(2) by (auto simp: held_def list_all_length replica_slot_ok_def)
    ultimately show ?thesis
      using ok Some reset
      by (simp add: slot_release_def replica_release_def Let_def split_beta peers_ok_def map_update
          list_all_update set_slot_def)
  qed
qed

lemma conn_keeps_replica: "conn_keeps c c' \<Longrightarrow> keeps_replica c c'"
  by (simp add: conn_keeps_def keeps_replica_def)

interpretation peers: quiet_invariant N "\<lambda>_. peers_ok" for N
  by unfold_locales (auto intro: peers_ok_core peers_ok_slot conn_keeps_replica peers_ok_release)

lemma keeps_replica_simps [simp]:
  "keeps_replica c c"
  "keeps_replica c (c'\<lparr>lc_ack_local := x1\<rparr>) = keeps_replica c c'"
  "keeps_replica c (c'\<lparr>lc_ack_repl := x2\<rparr>) = keeps_replica c c'"
  "keeps_replica c (snd (reply_ack c' flags sq cs)) = keeps_replica c c'"
  by (simp_all add: keeps_replica_def reply_ack_def reply_def Let_def)

lemma peers_ok_wal [simp]: "peers_ok (l\<lparr>l_wal := w\<rparr>) = peers_ok l" "peers_ok (l\<lparr>l_wal_dirty := b\<rparr>) = peers_ok l"
  by (simp_all add: peers_ok_def)

lemma ack_write_peers: "peers_ok l \<Longrightarrow> peers_ok (ack_write l i flags wants deg cs ws)"
  by (simp add: ack_write_def Let_def peers_ok_slot)

lemma handle_write_peers: "peers_ok l \<Longrightarrow> peers_ok (fst (handle_write N l i h p s k))"
  by (simp add: handle_write_def Let_def split_beta ack_write_peers peers.slot split: option.split result_t.split)

lemma handle_repl_start_peers:
  assumes "peers_ok l" "i < LOOP_MAX_CONNS" "lc_in_use (slot_of l i)" "opened (lc_conn (slot_of l i))"
    and "lc_replica (slot_of l i) = None"
  shows "peers_ok (fst (handle_repl_start N l i h m k))"
proof -
  note ok = assms(1) [unfolded peers_ok_def]
  have "peers_ok ((set_slot i ((slot_of l i)\<lparr>lc_replica := Some j, lc_send_cap := x, lc_send := y\<rparr>) l)
      \<lparr>l_peer_live := (l_peer_live l)[j := True]\<rparr>)" if "free_peer (l_peer_live l) = Some j" for j x y
  proof -
    have "held ((map lc_replica (l_conns l))[i := Some j]) ((l_peer_live l)[j := True])"
      using held_start [of "map lc_replica (l_conns l)" "l_peer_live l" i j] free_peer_Some [OF that] assms(2,5) ok
      by simp
    then show ?thesis
      using ok assms by (simp add: peers_ok_def map_update list_all_update set_slot_def replica_slot_ok_def)
  qed
  note start = this
  show ?thesis
  proof (cases "free_peer (l_peer_live l)")
    case None
    with assms(1) show ?thesis by (simp add: handle_repl_start_def Let_def split_beta peers.slot)
  next
    case (Some j)
    have durable: "peers_ok (l'\<lparr>l_peer_live := v, l_peer_durable := d, l_peer_ack_ns := a\<rparr>) =
        peers_ok (l'\<lparr>l_peer_live := v\<rparr>)" for l' v d a
      by (simp add: peers_ok_def)
    have cursor: "peers_ok ((set_slot i c (l\<lparr>l_peer_cursor := cs\<rparr>))\<lparr>l_peer_live := v\<rparr>) =
        peers_ok ((set_slot i c l)\<lparr>l_peer_live := v\<rparr>)" for c cs v
      by (simp add: peers_ok_def set_slot_def)
    show ?thesis
      using start [OF Some] assms(1) Some
      by (simp add: handle_repl_start_def Let_def split_beta peers.slot durable cursor)
  qed
qed

lemma on_accept_peers: "peers_ok l \<Longrightarrow> peers_ok (fst (on_accept N l fd k))"
proof -
  assume l: "peers_ok l"
  note ok = l [unfolded peers_ok_def]
  have "peers_ok (set_slot i (slot_reset\<lparr>lc_in_use := True, lc_fd := fd, lc_conn := c\<rparr>) l)"
    if "slot_alloc l = Some i" for i c
  proof -
    have free: "free_slot cs = Some m \<Longrightarrow> m < length cs \<and> \<not> lc_in_use (cs ! m)" for cs m
      by (induction cs arbitrary: m) (auto split: if_splits)
    have i: "i < LOOP_MAX_CONNS" "\<not> lc_in_use (slot_of l i)"
      using free that ok by (fastforce simp: slot_alloc_def)+
    then have "lc_replica (slot_of l i) = None" using ok by (auto simp: list_all_length replica_slot_ok_def)
    then have "(map lc_replica (l_conns l))[i := None] = map lc_replica (l_conns l)"
      using i ok by (simp add: list_update_same_conv)
    then show ?thesis
      using ok by (simp add: peers_ok_def map_update list_all_update set_slot_def slot_reset_def replica_slot_ok_def)
  qed
  with l show ?thesis by (simp add: on_accept_def Let_def split_beta split: option.split)
qed

lemma repl_apply_peers: "peers_ok l \<Longrightarrow> peers_ok (fst (repl_apply N p s l k))"
proof (induction "length p" arbitrary: p l k rule: less_induct)
  case less
  show ?case
    by (rule repl_apply_cases [of p N s l k]) (use less in simp_all)
qed

interpretation peers_pass: pass_invariant N "\<lambda>_. peers_ok" "\<lambda>l i. lc_replica (slot_of l i) = None" for N
proof unfold_locales
  fix l i
  assume "peers_ok l" "i < LOOP_MAX_CONNS" "\<not> opened (lc_conn (slot_of l i))"
  then show "lc_replica (slot_of l i) = None"
    by (auto simp: peers_ok_def list_all_length replica_slot_ok_def)
next
  fix l i conn
  assume "lc_replica (slot_of l i) = None"
  then show "lc_replica (slot_of (set_slot i ((slot_of l i)\<lparr>lc_conn := conn\<rparr>) l) i) = None"
    by (cases "i < length (l_conns l)") (simp_all add: list_update_beyond)
qed (simp_all add: handle_write_peers handle_repl_start_peers on_accept_peers repl_apply_peers)

section \<open>The rest of a pass\<close>

lemma acks_emit_peers: "peers_ok l \<Longrightarrow> peers_ok (acks_emit l)"
proof -
  have count: "peers_ok l \<Longrightarrow> peers_ok (ack_count flags l)" for flags l
    by (simp add: ack_count_def)
  have loc: "peers_ok l \<Longrightarrow> peers_ok (emit_local i l)" for i l
    by (simp add: emit_local_def Let_def split_beta count peers_ok_slot)
  have "peers_ok l \<Longrightarrow> peers_ok (set_slot i ((slot_of l i)\<lparr>lc_ack_repl := a\<rparr>) l)" for i l a
    by (simp add: peers_ok_slot)
  then have rep: "peers_ok l \<Longrightarrow> peers_ok (emit_repl b v i l)" for b v i l
    by (simp add: emit_repl_def Let_def split_beta count peers_ok_slot)
  assume "peers_ok l"
  then show ?thesis
    unfolding acks_emit_def Let_def
    by (intro fold_invariant [where P = peers_ok and Q = "\<lambda>_. True"]) (auto simp: loc rep)
qed

lemma retain_pass_peers: "peers_ok l \<Longrightarrow> peers_ok (fst (retain_pass N l k))"
  by (simp add: retain_pass_def Let_def split_beta)

lemma serve_phase_peers: "peers_ok l \<Longrightarrow> peers_ok (fst (serve_phase N m l k))"
  by (simp add: serve_phase_def Let_def split_beta acks_emit_peers peers.stream_report_kept
      peers.repl_stream_kept peers.subs_push_kept retain_pass_peers)

lemma flush_phase_peers: "peers_ok l \<Longrightarrow> peers_ok (fst (snd (flush_phase N l k)))"
  by (simp add: flush_phase_def fsync_observe_def Let_def split_beta)

lemma gather_phase_peers:
  assumes "epoll_data_ok N" "loop_wf l" "peers_ok l"
  shows "peers_ok (fst (snd (gather_phase N scratch wait l k)))"
proof -
  obtain l1 k1 where a: "arm_phase N l k = (l1, k1)" by fastforce
  have l1: "peers_ok l1" "loop_wf l1"
    using peers.arm_phase_kept [OF assms(3), of N k] arm_phase_wf [OF assms(2), of N k] a by simp_all
  obtain r evs k2 where w: "os_epoll_wait N (l_epoll_fd l1) MAX_EVENTS
      (if wait \<and> \<not> l_progress l1 then - 1 else 0) k1 = (r, evs, k2)" by (metis prod_cases3)
  have evs: "list_all event_ok evs" by (rule epoll_events_ok [OF assms(1) w])
  obtain l3 k3 where e: "fold (tick_event N scratch) evs (l1\<lparr>l_progress := False, l_wal_dirty := False\<rparr>, k2) = (l3, k3)"
    by fastforce
  have l3: "peers_ok l3"
    using peers_pass.tick_events_kept [where evs = evs and N = N and scratch = scratch and k = k2
        and l = "l1\<lparr>l_progress := False, l_wal_dirty := False\<rparr>"]
      l1 evs e by simp
  show ?thesis
    using a w l1 e flush_phase_peers [OF l3, of N k3]
    by (simp add: gather_phase_def Let_def split_beta)
qed

lemma loop_tick_peers:
  assumes "epoll_data_ok N" "loop_wf l" "peers_ok l"
  shows "peers_ok (fst (snd (loop_tick N scratch wait l k)))"
proof -
  obtain r l1 k1 where g: "gather_phase N scratch wait l k = (r, l1, k1)" by (metis prod_cases3)
  have l1: "peers_ok l1" using gather_phase_peers [OF assms, of scratch wait k] g by simp
  show ?thesis
    using g l1 peers.arm_phase_kept [OF serve_phase_peers [OF l1, of N "length scratch" k1],
      of N "snd (serve_phase N (length scratch) l1 k1)"]
    by (simp add: loop_tick_def split_beta)
qed

lemma loop_reaches_peers: "loop_reaches N l \<Longrightarrow> epoll_data_ok N \<Longrightarrow> peers_ok l"
proof (induction rule: loop_reaches.induct)
  case (init w t ip port k r l k')
  have "lc_replica slot_reset = None" "replica_slot_ok slot_reset"
    by (simp_all add: slot_reset_def replica_slot_ok_def)
  then have "peers_ok (loop_blank w t)"
    by (simp add: loop_blank_def peers_ok_def held_def list_all_iff nth_Cons')
  with init show ?case by (auto simp: loop_init_def Let_def split: prod.splits if_splits)
next
  case (leader l addr tx k r l' k')
  have "peers_ok (fst (arm_timer_now N (l\<lparr>l_is_follower := True, l_leader_addr := addr, l_leader_text := tx,
      l_repl_next_dial := 0\<rparr>) k))" using leader by simp
  with leader(2) show ?case by (auto simp: loop_set_leader_def split: prod.splits if_splits)
next
  case (signals l fd k l' k')
  then show ?case by (auto simp: loop_set_signal_fd_def)
next
  case (retention l keep replicas)
  then show ?case by (simp add: loop_set_retention_def)
next
  case (metrics l ip port k r l' k')
  then show ?case by (auto simp: loop_set_metrics_port_def Let_def split: prod.splits if_splits)
next
  case (tick l scratch wait k r l' k')
  then show ?case using loop_tick_peers [of N l scratch wait k] loop_reaches_wf [OF tick(1)] by simp
qed

text \<open>C9. Replica marks and replica connections correspond one to one in every state a loop
  reaches: a connection that holds a mark is in use and has been opened, its mark is live, no
  two connections hold the same mark, and every live mark is held by a connection. A replica
  that goes away therefore always gives its mark back, and no mark is leaked by a client that
  sends a second REPL_START or one after HELLO, because the framing layer refuses it.\<close>

theorem replica_marks_exact:
  assumes "loop_reaches N l" "epoll_data_ok N"
  shows "(\<forall>c \<in> set (l_conns l). lc_replica c \<noteq> None \<longrightarrow> lc_in_use c \<and> opened (lc_conn c))
    \<and> (\<forall>j < LOOP_MAX_REPLICAS. l_peer_live l ! j \<longleftrightarrow> (\<exists>!i. i < LOOP_MAX_CONNS \<and> lc_replica (slot_of l i) = Some j))"
proof -
  have ok: "peers_ok l" by (rule loop_reaches_peers [OF assms])
  then have h: "held (map lc_replica (l_conns l)) (l_peer_live l)" and n: "length (l_conns l) = LOOP_MAX_CONNS"
    "length (l_peer_live l) = LOOP_MAX_REPLICAS" by (simp_all add: peers_ok_def)
  have "\<exists>!i. i < LOOP_MAX_CONNS \<and> lc_replica (slot_of l i) = Some j" if "j < LOOP_MAX_REPLICAS" "l_peer_live l ! j" for j
    using heldD(3) [OF h, of j] heldD(2) [OF h] that n by (intro ex_ex1I) auto
  moreover have "l_peer_live l ! j" if "i < LOOP_MAX_CONNS" "lc_replica (slot_of l i) = Some j" for i j
    using heldD(1) [OF h, of i j] that n by simp
  moreover have "\<forall>c \<in> set (l_conns l). lc_replica c \<noteq> None \<longrightarrow> lc_in_use c \<and> opened (lc_conn c)"
    using ok by (simp add: peers_ok_def list_all_iff replica_slot_ok_def)
  ultimately show ?thesis by blast
qed

theorem replica_marks_exact_witness:
  "\<not> l_peer_live (fst (snd (loop_init net_example wal_example session_table_init 0x7F000001 7400 fs_example))) ! 0
   \<and> \<not> l_peer_live (fst (snd (loop_init net_example wal_example session_table_init 0x7F000001 7400 fs_example))) ! 1"
proof -
  obtain r l k where i: "loop_init net_example wal_example session_table_init 0x7F000001 7400 fs_example = (r, l, k)"
    by (metis prod_cases3)
  have none: "lc_replica (slot_of l m) = None" if "m < LOOP_MAX_CONNS" for m
    using i that by (auto simp: loop_init_def Let_def loop_blank_def slot_reset_def split: prod.splits if_splits)
  have "\<not> l_peer_live l ! j" if "j < LOOP_MAX_REPLICAS" for j
    using replica_marks_exact [OF loop_reaches.init [OF i] net_example_data_ok] none that by fastforce
  from this [of 0] this [of 1] i show ?thesis by simp
qed

end
