(* ===== verification/Loop_Acks.thy ===== *)
theory Loop_Acks
  imports Loop_Steps
begin

text \<open>
  What an acknowledgement promises. Between two passes every acknowledgement still owed names
  a sequence the log has flushed; during a pass one may name a record just appended, and the
  one flush of the pass comes before any of them is staged. So no client is ever told about a
  record this node could still lose, and none is told of a second copy that no replica has
  confirmed.
\<close>

section \<open>Acknowledgements within a bound\<close>

definition ack_ok :: "u64 \<Rightarrow> loop_conn_t \<Rightarrow> bool" where
  "ack_ok h c \<longleftrightarrow> a_wal_seq (lc_ack_local c) \<le> h \<and> a_wal_seq (lc_ack_repl c) \<le> h
     \<and> (wants_repl_flag (a_flags (lc_ack_local c)) \<longrightarrow> a_flags (lc_ack_local c) AND MSG_FLAG_DEGRADED \<noteq> 0)"

definition acks_ok :: "u64 \<Rightarrow> loop_t \<Rightarrow> bool" where
  "acks_ok h l \<longleftrightarrow> list_all (ack_ok h) (l_conns l)"

definition log_high :: "loop_t \<Rightarrow> u64" where
  "log_high l = (if l_wal_dirty l then wal_next_seq (l_wal l) - 1 else wal_durable_seq (l_wal l))"

text \<open>Between passes, and within one that may still append \<open>n\<close> records.\<close>

definition settled :: "loop_t \<Rightarrow> bool" where
  "settled l \<longleftrightarrow> wal_inv (l_wal l) \<and> acks_ok (wal_durable_seq (l_wal l)) l"

definition pass_ok :: "nat \<Rightarrow> loop_t \<Rightarrow> bool" where
  "pass_ok n l \<longleftrightarrow> wal_inv (l_wal l) \<and> acks_ok (log_high l) l \<and> unat (wal_next_seq (l_wal l)) + n < 2 ^ 64"

lemma ack_ok_mono: "ack_ok h c \<Longrightarrow> h \<le> h' \<Longrightarrow> ack_ok h' c"
  by (auto simp: ack_ok_def)

lemma acks_ok_mono: "acks_ok h l \<Longrightarrow> h \<le> h' \<Longrightarrow> acks_ok h' l"
  by (auto simp: acks_ok_def list_all_iff intro: ack_ok_mono)

lemma ack_ok_zero [simp]: "lc_ack_local c = ack_zero \<Longrightarrow> lc_ack_repl c = ack_zero \<Longrightarrow> ack_ok h c"
  by (simp add: ack_ok_def ack_zero_def)

lemma slot_reset_acks [simp]: "lc_ack_local slot_reset = ack_zero" "lc_ack_repl slot_reset = ack_zero"
  by (simp_all add: slot_reset_def)

text \<open>A slot may be replaced by one whose acknowledgements stay within the bound.\<close>

lemma acks_ok_slot: "acks_ok h l \<Longrightarrow> (ack_ok h (slot_of l i) \<Longrightarrow> ack_ok h c) \<Longrightarrow> acks_ok h (set_slot i c l)"
  by (cases "i < length (l_conns l)")
    (auto simp: acks_ok_def set_slot_def list_update_beyond list_all_length nth_list_update)

lemma acks_ok_conns: "l_conns l' = l_conns l \<Longrightarrow> acks_ok h l' = acks_ok h l"
  by (simp add: acks_ok_def)

lemma ack_ok_keeps: "conn_keeps c c' \<Longrightarrow> ack_ok h c \<Longrightarrow> ack_ok h c'"
  by (simp add: conn_keeps_def ack_ok_def)

lemma log_high_cong: "l_wal l' = l_wal l \<Longrightarrow> l_wal_dirty l' = l_wal_dirty l \<Longrightarrow> log_high l' = log_high l"
  by (simp only: log_high_def)

lemma log_high_set_slot [simp]: "log_high (set_slot i c l) = log_high l"
  by (simp add: log_high_def)

lemma slot_release_log [simp]:
  "l_wal (fst (slot_release N l i k)) = l_wal l" "l_wal_dirty (fst (slot_release N l i k)) = l_wal_dirty l"
  by (simp_all add: slot_release_def replica_release_def Let_def split_beta split: option.split)

lemma slot_release_acks: "acks_ok h l \<Longrightarrow> acks_ok h (fst (slot_release N l i k))"
proof -
  assume l: "acks_ok h l"
  have "l_conns (fst (slot_release N l i k)) = (if lc_in_use (slot_of l i) then (l_conns l)[i := slot_reset] else l_conns l)"
    by (simp add: slot_release_def replica_release_def Let_def split_beta split: option.split)
  with l show ?thesis by (simp add: acks_ok_def list_all_update)
qed

interpretation settled: quiet_invariant N "\<lambda>_. settled" for N
proof unfold_locales
  fix l l' :: loop_t assume "settled l" "l_wal l' = l_wal l" "l_conns l' = l_conns l"
  then show "settled l'" by (simp add: settled_def acks_ok_def)
next
  fix l i c assume "settled l" "conn_keeps (slot_of l i) c"
  then show "settled (set_slot i c l)" by (auto simp: settled_def intro: acks_ok_slot ack_ok_keeps)
next
  fix l i k assume "settled l"
  then show "settled (fst (slot_release N l i k))" by (simp add: settled_def slot_release_acks)
qed

interpretation pass: quiet_invariant N pass_ok for N
proof unfold_locales
  fix n and l l' :: loop_t assume "pass_ok n l" "l_wal l' = l_wal l" "l_wal_dirty l' = l_wal_dirty l" "l_conns l' = l_conns l"
  then show "pass_ok n l'" unfolding pass_ok_def acks_ok_def log_high_def by presburger
next
  fix n l i c assume "pass_ok n l" "conn_keeps (slot_of l i) c"
  then show "pass_ok n (set_slot i c l)" by (auto simp: pass_ok_def intro: acks_ok_slot ack_ok_keeps)
next
  fix n l i k assume "pass_ok n l"
  then show "pass_ok n (fst (slot_release N l i k))"
    by (simp add: pass_ok_def slot_release_acks log_high_cong [of "fst (slot_release N l i k)" l])
qed

section \<open>Staging keeps the bound\<close>

lemma ack_stage_wal_seq: "a_wal_seq (ack_stage a flags deg cs ws dl) = max (a_wal_seq a) ws"
  by (auto simp: ack_stage_def Let_def max_def)

lemma ack_stage_flags: "a_flags (ack_stage a flags deg cs ws dl) = a_flags a OR flags"
  by (simp add: ack_stage_def Let_def)

lemma flag_or: "(x OR y) AND (m :: 16 word) \<noteq> 0 \<longleftrightarrow> x AND m \<noteq> 0 \<or> y AND m \<noteq> 0"
  by (simp add: bit.conj_disj_distrib2 or_eq_0_iff)

lemma acks_ok_degraded [simp]: "acks_ok h (l\<lparr>l_repl_degraded := x\<rparr>) = acks_ok h l"
  by (simp add: acks_ok_def)

lemma ack_write_acks:
  assumes "acks_ok h l" "ws \<le> h" "wants = wants_repl_flag flags"
  shows "acks_ok h (ack_write l i flags wants deg cs ws)"
proof -
  have d: "(MSG_FLAG_DEGRADED :: u16) AND MSG_FLAG_DEGRADED \<noteq> 0" "(MSG_FLAG_DEGRADED :: u16) AND MSG_FLAG_REPLICATED = 0"
    by simp_all
  show ?thesis
    using assms d
    by (auto simp: ack_write_def Let_def         ack_ok_def ack_stage_wal_seq ack_stage_flags flag_or intro!: acks_ok_slot)
qed

lemma ack_write_log [simp]:
  "l_wal (ack_write l i flags wants deg cs ws) = l_wal l"
  "l_wal_dirty (ack_write l i flags wants deg cs ws) = l_wal_dirty l"
  by (simp_all add: ack_write_def Let_def)

section \<open>Appending\<close>

lemma wal_inv_durable: "wal_inv w \<Longrightarrow> wal_durable_seq w \<le> wal_next_seq w - 1 \<and> wal_next_seq w - 1 < wal_next_seq w"
proof -
  assume "wal_inv w"
  then have "s_durable_seq (w_active w) < s_next_seq (w_active w)" "s_next_seq (w_active w) \<noteq> 0"
    by (auto simp: wal_inv_def seg_ok_def)
  then show ?thesis by (simp add: wal_durable_seq_def wal_next_seq_def word_le_pred word_pred_less)
qed

text \<open>A record appended by a pass with room raises the bound to its own sequence; one that
  fails leaves it.\<close>

lemma pass_ok_append:
  assumes "pass_ok (Suc n) l" "wal_append K (l_wal l) r payload scratch k = (res, w, r', k')"
  shows "if res = RESULT_OK
    then pass_ok n (l\<lparr>l_wal := w, l_wal_dirty := True\<rparr>) \<and> log_high (l\<lparr>l_wal := w, l_wal_dirty := True\<rparr>) = r_seq r'
    else pass_ok n (l\<lparr>l_wal := w\<rparr>)"
proof -
  note ok = assms(1) [unfolded pass_ok_def]
  have nx: "wal_next_seq (l_wal l) \<noteq> - 1"
  proof
    assume "wal_next_seq (l_wal l) = - 1"
    then have "unat (wal_next_seq (l_wal l)) = 2 ^ 64 - 1" by (simp add: unsigned_minus_1_eq_mask mask_eq_exp_minus_1)
    with ok show False by simp
  qed
  note step = wal_append_step [OF _ nx assms(2)]
  note d = wal_inv_durable [of "l_wal l"]
  have high: "log_high l \<le> wal_next_seq (l_wal l) - 1" using d ok by (auto simp: log_high_def)
  show ?thesis
  proof (cases "res = RESULT_OK")
    case True
    have nxt: "wal_next_seq w = wal_next_seq (l_wal l) + 1" "wal_inv w" "r_seq r' = wal_next_seq (l_wal l)"
      using step ok True by simp_all
    have "unat (wal_next_seq (l_wal l) + 1) = unat (wal_next_seq (l_wal l)) + 1"
      using ok by (intro unat_add1_64) simp
    moreover have "log_high l \<le> wal_next_seq (l_wal l)"
      using high d ok by (meson less_imp_le order_trans)
    ultimately show ?thesis
      using ok nxt True acks_ok_mono [of "log_high l" l "wal_next_seq (l_wal l)"]
      by (simp add: pass_ok_def log_high_def acks_ok_def)
  next
    case False
    have nxt: "wal_next_seq w = wal_next_seq (l_wal l)" "wal_inv w" "wal_durable_seq (l_wal l) \<le> wal_durable_seq w"
      using step ok False by simp_all
    then have "log_high l \<le> log_high (l\<lparr>l_wal := w\<rparr>)" by (simp add: log_high_def)
    then show ?thesis
      using ok nxt False acks_ok_mono [of "log_high l" l "log_high (l\<lparr>l_wal := w\<rparr>)"]
      by (simp add: pass_ok_def acks_ok_def)
  qed
qed

lemma pass_ok_spend: "pass_ok (Suc n) l \<Longrightarrow> pass_ok n l"
  by (simp add: pass_ok_def)

lemma pass_ok_slot: "pass_ok n l \<Longrightarrow> (ack_ok (log_high l) (slot_of l i) \<Longrightarrow> ack_ok (log_high l) c) \<Longrightarrow>
    pass_ok n (set_slot i c l)"
  by (simp add: pass_ok_def acks_ok_slot)

lemma pass_ok_ack_write:
  "pass_ok n l \<Longrightarrow> ws \<le> log_high l \<Longrightarrow> wants = wants_repl_flag flags \<Longrightarrow>
     pass_ok n (ack_write l i flags wants deg cs ws)"
  using ack_write_acks [of "log_high l" l ws wants flags i deg cs]
    log_high_cong [of "ack_write l i flags wants deg cs ws" l]
  by (simp add: pass_ok_def)

lemma durable_high: "pass_ok n l \<Longrightarrow> wal_durable_seq (l_wal l) \<le> log_high l"
  using wal_inv_durable [of "l_wal l"] by (auto simp: pass_ok_def log_high_def)

lemma ack_flags_repl [simp]: "((f :: u16) AND 7) AND MSG_FLAG_REPLICATED = f AND MSG_FLAG_REPLICATED"
  by (simp add: and.assoc)

lemma owe_ack_pass: "pass_ok n l \<Longrightarrow> ws \<le> log_high l \<Longrightarrow> pass_ok n (owe_ack h i cs ws l)"
  by (simp add: owe_ack_def pass_ok_ack_write)

lemma handle_write_pass:
  assumes "pass_ok (Suc n) l"
  shows "pass_ok n (fst (handle_write N l i h p s k))"
proof -
  note n = pass_ok_spend [OF assms]
  show ?thesis
  proof (cases rule: handle_write_cases [of l i N h p s k])
    case no_session
    with n show ?thesis by (simp add: Let_def pass.slot)
  next
    case (duplicate e)
    have "wal_durable_seq (l_wal l) \<le> log_high (l\<lparr>l_dedup_hits := l_dedup_hits l + 1\<rparr>)"
      using durable_high [OF n] log_high_cong [of "l\<lparr>l_dedup_hits := l_dedup_hits l + 1\<rparr>" l] by simp
    with duplicate n show ?thesis by (simp add: owe_ack_pass)
  next
    case (failed e code d w r' k')
    then have "pass_ok n (l\<lparr>l_wal := w\<rparr>)" using pass_ok_append [OF assms failed(5)] by simp
    with failed show ?thesis by simp
  next
    case (stored e w r' k')
    have app: "pass_ok n (l\<lparr>l_wal := w, l_wal_dirty := True\<rparr>)"
      "log_high (l\<lparr>l_wal := w, l_wal_dirty := True\<rparr>) = r_seq r'"
      using pass_ok_append [OF assms stored(5)] by simp_all
    have "pass_ok n (note_write e h w l)"
      by (rule pass.core [OF app(1)]) (simp_all add: note_write_def Let_def)
    moreover have "log_high (note_write e h w l) = r_seq r'"
      using app(2) log_high_cong [of "note_write e h w l" "l\<lparr>l_wal := w, l_wal_dirty := True\<rparr>"]
      by (simp add: note_write_def Let_def)
    ultimately show ?thesis using stored by (simp add: owe_ack_pass)
  qed (use n in simp_all)
qed

lemma pass_ok_to: "pass_ok m l \<Longrightarrow> n \<le> m \<Longrightarrow> pass_ok n l"
  by (simp add: pass_ok_def)

lemma pass_ok_append_at:
  assumes "pass_ok (Suc n) l" "wal_append_at K (l_wal l) r payload scratch k = (res, w, r', k')"
    and "r_seq r = wal_next_seq (l_wal l)"
  shows "if res = RESULT_OK then pass_ok n (l\<lparr>l_wal := w, l_wal_dirty := True\<rparr>) else pass_ok n (l\<lparr>l_wal := w\<rparr>)"
proof -
  obtain res1 w1 r1 k1 where a: "wal_append K (l_wal l) r payload scratch k = (res1, w1, r1, k1)" by (metis prod_cases4)
  note app = pass_ok_append [OF assms(1) a]
  have "wal_next_seq (l_wal l) \<noteq> - 1"
    using assms(1) unat_less64 [of "wal_next_seq (l_wal l)"]
    by (auto simp: pass_ok_def unsigned_minus_1_eq_mask mask_eq_exp_minus_1)
  then have "res1 = RESULT_OK \<longrightarrow> r_seq r1 = r_seq r"
    using wal_append_step [OF _ _ a] assms(1,3) by (simp add: pass_ok_def)
  with app assms(2,3) a show ?thesis
    by (auto simp: wal_append_at_def Let_def result_ok_def split: if_splits)
qed

lemma repl_apply_pass: "pass_ok (n + length p) l \<Longrightarrow> pass_ok n (fst (repl_apply N p s l k))"
proof (induction "length p" arbitrary: p l k rule: less_induct)
  case less
  have n: "pass_ok n l" by (rule pass_ok_to [OF less.prems]) simp
  show ?case
  proof (cases rule: repl_apply_cases [of p N s l k])
    case (failed rec1 res w rec2 k')
    have "pass_ok (Suc n) l" by (rule pass_ok_to [OF less.prems]) (use failed(1) in \<open>simp add: Suc_le_eq\<close>)
    from pass_ok_append_at [OF this failed(4,3)] failed(5,6) show ?thesis by simp
  next
    case (applied rec1 w rec2 k' size)
    have "pass_ok (Suc (n + length (drop size p))) l"
      by (rule pass_ok_to [OF less.prems]) (use applied(4,5) in simp)
    from pass_ok_append_at [OF this applied(8,7)]
    have "pass_ok (n + length (drop size p)) (l\<lparr>l_wal := w, l_wal_dirty := True\<rparr>)" by simp
    then have "pass_ok (n + length (drop size p)) (l\<lparr>l_wal := w, l_sessions := session_from_record rec2 (l_sessions l),
        l_repl_last_err := 0, l_wal_dirty := True, l_repl_records := l_repl_records l + 1\<rparr>)"
      by (rule pass.core) simp_all
    with less.hyps [of "drop size p"] applied show ?thesis by simp
  qed (use n in simp_all)
qed

lemma handle_repl_start_pass: "pass_ok n l \<Longrightarrow> pass_ok n (fst (handle_repl_start N l i h m k))"
proof -
  assume l: "pass_ok n l"
  have "pass_ok n ((set_slot i ((slot_of l i)\<lparr>lc_replica := Some j, lc_send_cap := x, lc_send := y\<rparr>) l')
      \<lparr>l_peer_live := v, l_peer_durable := d, l_peer_ack_ns := a\<rparr>)"
    if "l_conns l' = l_conns l" "l_wal l' = l_wal l" "l_wal_dirty l' = l_wal_dirty l" for j x y l' v d a
  proof -
    have "pass_ok n (set_slot i ((slot_of l i)\<lparr>lc_replica := Some j, lc_send_cap := x, lc_send := y\<rparr>) l)"
      by (rule pass_ok_slot [OF l]) (simp add: ack_ok_def)
    then show ?thesis using that by (auto simp: pass_ok_def acks_ok_def log_high_def set_slot_def)
  qed
  with l show ?thesis
    by (simp add: handle_repl_start_def Let_def split_beta pass.slot split: option.split)
qed

lemma on_accept_pass: "pass_ok n l \<Longrightarrow> pass_ok n (fst (on_accept N l fd k))"
  by (simp add: on_accept_def Let_def split_beta pass_ok_slot split: option.split)

interpretation pass: pass_invariant N pass_ok "\<lambda>_ _. True" for N
  by unfold_locales
    (simp_all add: pass_ok_spend handle_write_pass handle_repl_start_pass on_accept_pass repl_apply_pass)

section \<open>The flush\<close>

lemma settled_pass:
  "settled l \<Longrightarrow> unat (wal_next_seq (l_wal l)) + n < 2 ^ 64 \<Longrightarrow> pass_ok n (l\<lparr>l_wal_dirty := False\<rparr>)"
  by (simp add: settled_def pass_ok_def log_high_def acks_ok_def)

lemma fsync_observe_frame [simp]:
  "l_conns (fst (fsync_observe N l b k)) = l_conns l" "l_wal (fst (fsync_observe N l b k)) = l_wal l"
  by (simp_all add: fsync_observe_def Let_def split_beta)

lemma flush_phase_settled:
  assumes "pass_ok n l" "flush_phase N l k = (RESULT_OK, l', k')"
  shows "settled l'"
proof (cases "l_wal_dirty l")
  case False
  with assms show ?thesis by (simp add: flush_phase_def settled_def pass_ok_def log_high_def)
next
  case True
  obtain began k1 where t: "os_now_ns N k = (began, k1)" by fastforce
  obtain r s k2 where sy: "wal_seg_sync (net_files N) (w_active (l_wal l)) k1 = (r, s, k2)" by (metis prod_cases3)
  let ?w = "(l_wal l)\<lparr>w_active := s\<rparr>"
  have ok: "wal_inv (l_wal l)" using assms(1) by (simp add: pass_ok_def)
  then have "seg_ok (w_active (l_wal l))" by (simp add: wal_inv_def)
  note sync = wal_seg_sync_ok [OF sy this]
  have r: "r = RESULT_OK" and l': "l' = fst (fsync_observe N (l\<lparr>l_wal := ?w, l_flushes := l_flushes l + 1\<rparr>) began k2)"
    using assms(2) True t sy
    by (auto simp: flush_phase_def wal_sync_def Let_def split_beta result_ok_def split: if_splits)
  then have "wal_inv ?w" "wal_durable_seq ?w = wal_next_seq (l_wal l) - 1"
    using sync ok by (simp_all add: wal_inv_def wal_durable_seq_def wal_next_seq_def)
  then show ?thesis
    using assms(1) True by (simp add: l' settled_def pass_ok_def log_high_def acks_ok_def)
qed

text \<open>Every event of a pass parses at most one receive buffer, and epoll reports at most
  \<open>MAX_EVENTS\<close> of them, so a pass appends fewer records than this.\<close>

abbreviation PASS_ROOM :: nat where "PASS_ROOM \<equiv> MAX_EVENTS * LOOP_REPL_CAP"

interpretation log: quiet_invariant N "\<lambda>_ l. l_wal l = w" for N w
  by unfold_locales simp_all

lemma gather_phase_settled:
  assumes "settled l" "loop_wf l" "epoll_data_ok N" "unat (wal_next_seq (l_wal l)) + PASS_ROOM < 2 ^ 64"
    and "gather_phase N scratch wait l k = (RESULT_OK, l', k')"
  shows "settled l'"
proof -
  obtain l1 k1 where a: "arm_phase N l k = (l1, k1)" by fastforce
  have l1: "settled l1" "loop_wf l1"
    using settled.arm_phase_kept [OF assms(1), of N k] arm_phase_wf [OF assms(2), of N k] a by simp_all
  have wal1: "l_wal l1 = l_wal l" using log.arm_phase_kept [OF refl, of N l k] a by simp
  obtain r evs k2 where w: "os_epoll_wait N (l_epoll_fd l1) MAX_EVENTS
      (if wait \<and> \<not> l_progress l1 then - 1 else 0) k1 = (r, evs, k2)" by (metis prod_cases3)
  have evs: "list_all event_ok evs" "length evs \<le> MAX_EVENTS"
    using epoll_events_ok [OF assms(3) w] w by (auto simp: os_epoll_wait_def split: prod.splits)
  obtain l3 k3 where e: "fold (tick_event N scratch) evs (l1\<lparr>l_progress := False, l_wal_dirty := False\<rparr>, k2) = (l3, k3)"
    by fastforce
  have "pass_ok PASS_ROOM (l1\<lparr>l_progress := False, l_wal_dirty := False\<rparr>)"
    using settled_pass [of "l1\<lparr>l_progress := False\<rparr>" PASS_ROOM] l1 wal1 assms(4) by simp
  then have "pass_ok (0 + length evs * LOOP_REPL_CAP) (l1\<lparr>l_progress := False, l_wal_dirty := False\<rparr>)"
    by (rule pass_ok_to) (use evs(2) in simp)
  from pass.tick_events_kept [OF this, of N scratch k2] l1 evs(1) e have l3: "pass_ok 0 l3" by simp
  have "flush_phase N l3 k3 = (RESULT_OK, l', k')"
    using assms(5) a w e by (auto simp: gather_phase_def Let_def result_ok_def split: if_splits)
  then show ?thesis by (rule flush_phase_settled [OF l3])
qed

section \<open>What is staged\<close>

text \<open>The frames a step adds to a connection's send buffer.\<close>

definition staged :: "(frame \<Rightarrow> bool) \<Rightarrow> loop_conn_t \<Rightarrow> loop_conn_t \<Rightarrow> bool" where
  "staged ok c c' \<longleftrightarrow> (\<exists>fs. lc_send c' = lc_send c @ concat (map frame_bytes fs) \<and> list_all ok fs)"

text \<open>An ACK that may be sent when \<open>d\<close> is durable here and \<open>best\<close> on some replica.\<close>

definition honest :: "u64 \<Rightarrow> u64 \<Rightarrow> frame \<Rightarrow> bool" where
  "honest d best f \<longleftrightarrow> (h_op (fst f) = MSG_OP_ACK \<longrightarrow> h_sequence (fst f) \<le> d
     \<and> (wants_repl_flag (h_flags (fst f)) \<and> h_flags (fst f) AND MSG_FLAG_DEGRADED = 0 \<longrightarrow> h_sequence (fst f) \<le> best))"

lemma staged_refl [simp]: "staged ok c c"
  unfolding staged_def by (intro exI [of _ "[]"]) simp

lemma staged_trans: "staged ok a b \<Longrightarrow> staged ok b c \<Longrightarrow> staged ok a c"
proof -
  assume "staged ok a b" "staged ok b c"
  then obtain fs gs where "lc_send b = lc_send a @ concat (map frame_bytes fs)" "list_all ok fs"
    "lc_send c = lc_send b @ concat (map frame_bytes gs)" "list_all ok gs" by (auto simp: staged_def)
  then show "staged ok a c" unfolding staged_def by (intro exI [of _ "fs @ gs"]) simp
qed

lemma staged_simps [simp]:
  "staged ok c (c'\<lparr>lc_ack_local := x1\<rparr>) = staged ok c c'"
  "staged ok c (c'\<lparr>lc_ack_repl := x2\<rparr>) = staged ok c c'"
  by (simp_all add: staged_def)

lemma reply_staged:
  "ok (msg_header_new op MSG_RECORD_NONE flags (of_nat (length p)) 0 sq, p) \<Longrightarrow> staged ok c (snd (reply c op flags sq p))"
  unfolding staged_def reply_def
  by (auto simp: Let_def msg_encode_header_def frame_bytes_def
      intro: exI [of _ "[]"] exI [of _ "[(msg_header_new op MSG_RECORD_NONE flags (of_nat (length p)) 0 sq, p)]"])

lemma honest_new [simp]:
  "honest d best (msg_header_new op rt flags n key sq, p) \<longleftrightarrow> (op = MSG_OP_ACK \<longrightarrow> sq \<le> d
     \<and> (wants_repl_flag flags \<and> flags AND MSG_FLAG_DEGRADED = 0 \<longrightarrow> sq \<le> best))"
  by (simp add: honest_def msg_header_new_def)

lemma reply_ack_staged:
  "sq \<le> d \<Longrightarrow> (wants_repl_flag flags \<and> flags AND MSG_FLAG_DEGRADED = 0 \<longrightarrow> sq \<le> best) \<Longrightarrow>
     staged (honest d best) c (snd (reply_ack c flags sq cs))"
  unfolding reply_ack_def by (rule reply_staged) simp

text \<open>One slot: the bound holds for what is staged, and what is cleared is within any bound.\<close>

lemma settled_slot: "settled l \<Longrightarrow>
    (ack_ok (wal_durable_seq (l_wal l)) (slot_of l i) \<Longrightarrow> ack_ok (wal_durable_seq (l_wal l)) c) \<Longrightarrow> settled (set_slot i c l)"
  by (simp add: settled_def acks_ok_slot)

lemma ack_ok_clear [simp]:
  "ack_ok h c \<Longrightarrow> ack_ok h (c\<lparr>lc_ack_local := ack_clear a\<rparr>)" "ack_ok h c \<Longrightarrow> ack_ok h (c\<lparr>lc_ack_repl := ack_clear a\<rparr>)"
  by (simp_all add: ack_ok_def ack_clear_def)

lemma ack_ok_reply [simp]: "ack_ok h (snd (reply c op flags sq p)) = ack_ok h c"
  by (simp add: reply_def Let_def ack_ok_def)

lemma ack_ok_reply_ack [simp]: "ack_ok h (snd (reply_ack c flags sq cs)) = ack_ok h c"
  by (simp add: reply_ack_def)

lemma settled_ack_ok: "settled l \<Longrightarrow> i < length (l_conns l) \<Longrightarrow> ack_ok (wal_durable_seq (l_wal l)) (slot_of l i)"
  by (simp add: settled_def acks_ok_def list_all_length)

lemma settled_counts [simp]: "settled (ack_count flags l) = settled l"
  by (simp add: ack_count_def)

lemma ack_count_frame [simp]:
  "l_wal (ack_count flags l) = l_wal l" "l_conns (ack_count flags l) = l_conns l"
  by (simp_all add: ack_count_def)

lemma emit_local_settled:
  assumes "settled l" "i < length (l_conns l)"
  shows "settled (emit_local i l) \<and> l_wal (emit_local i l) = l_wal l
    \<and> length (l_conns (emit_local i l)) = length (l_conns l)
    \<and> staged (honest (wal_durable_seq (l_wal l)) best) (slot_of l j) (slot_of (emit_local i l) j)"
proof -
  note ok = settled_ack_ok [OF assms]
  then have st: "staged (honest (wal_durable_seq (l_wal l)) best) (slot_of l i)
      (snd (reply_ack (slot_of l i) (a_flags (lc_ack_local (slot_of l i))) (a_wal_seq (lc_ack_local (slot_of l i))) cs))" for cs
    by (intro reply_ack_staged) (auto simp: ack_ok_def)
  have "settled (emit_local i l)"
    using assms by (simp add: emit_local_def Let_def split_beta settled_slot)
  then show ?thesis
    using st assms(2) by (cases "j = i") (simp_all add: emit_local_def Let_def split_beta)
qed

text \<open>The branches of the replicated half of one slot.\<close>

lemma emit_repl_cases:
  fixes l :: loop_t and i :: nat
  defines "c \<equiv> slot_of l i" and "a \<equiv> lc_ack_repl (slot_of l i)"
  obtains (idle) "\<not> a_due a" "emit_repl best live i l = l"
    | (confirmed) "a_due a" "best \<ge> a_wal_seq a" "wal_durable_seq (l_wal l) \<ge> a_wal_seq a"
      "emit_repl best live i l = ack_count (a_flags a) (set_slot i
         ((snd (reply_ack c (a_flags a) (a_wal_seq a) (a_client_seq a)))\<lparr>lc_ack_repl := ack_clear a\<rparr>) l)"
    | (waiting) "a_due a" "\<not> (best \<ge> a_wal_seq a \<and> wal_durable_seq (l_wal l) \<ge> a_wal_seq a)"
      "live" "l_tick l < a_deadline a" "emit_repl best live i l = l"
    | (degraded) n where "a_due a" "emit_repl best live i l = (ack_count (a_flags a OR MSG_FLAG_DEGRADED) (set_slot i
         ((snd (reply_ack c (a_flags a OR MSG_FLAG_DEGRADED) (a_wal_seq a) (a_client_seq a)))
           \<lparr>lc_ack_repl := ack_clear a\<rparr>) l))\<lparr>l_repl_degraded := n\<rparr>"
    | (refused) "a_due a" "emit_repl best live i l = (let l1 = snd (reply_err l i MSG_ERR_NO_REPLICAS (a_client_seq a))
        in set_slot i ((slot_of l1 i)\<lparr>lc_ack_repl := ack_clear a\<rparr>) l1)"
proof (cases "a_due a")
  case False
  then show ?thesis by (intro idle) (simp_all add: emit_repl_def a_def)
next
  case due: True
  show ?thesis
  proof (cases "best \<ge> a_wal_seq a \<and> wal_durable_seq (l_wal l) \<ge> a_wal_seq a")
    case True
    with due show ?thesis
      by (intro confirmed) (simp_all add: emit_repl_def a_def c_def Let_def split_beta)
  next
    case short: False
    show ?thesis
    proof (cases "live \<and> l_tick l < a_deadline a")
      case True
      with due short show ?thesis by (intro waiting) (auto simp: emit_repl_def a_def)
    next
      case False
      show ?thesis
      proof (cases "a_degradable a")
        case True
        with due short False show ?thesis
          by (intro degraded [OF due]) (auto simp: emit_repl_def a_def c_def Let_def split_beta)
      next
        case err: False
        with due short False show ?thesis
          by (intro refused [OF due]) (auto simp: emit_repl_def a_def Let_def split_beta)
      qed
    qed
  qed
qed

lemma emit_repl_settled:
  assumes "settled l" "i < length (l_conns l)"
  shows "settled (emit_repl best live i l) \<and> l_wal (emit_repl best live i l) = l_wal l
    \<and> length (l_conns (emit_repl best live i l)) = length (l_conns l)
    \<and> staged (honest (wal_durable_seq (l_wal l)) best) (slot_of l j) (slot_of (emit_repl best live i l) j)"
proof -
  let ?c = "slot_of l i" let ?a = "lc_ack_repl ?c" let ?ok = "honest (wal_durable_seq (l_wal l)) best"
  note ok = settled_ack_ok [OF assms]
  have deg: "(a_flags ?a OR MSG_FLAG_DEGRADED) AND MSG_FLAG_DEGRADED \<noteq> 0" by (simp add: flag_or)
  show ?thesis
  proof (cases rule: emit_repl_cases [of l i best live])
    case confirmed
    have "staged ?ok ?c (snd (reply_ack ?c (a_flags ?a) (a_wal_seq ?a) (a_client_seq ?a)))"
      by (rule reply_ack_staged) (use ok confirmed in \<open>simp_all add: ack_ok_def\<close>)
    with confirmed assms show ?thesis by (cases "j = i") (simp_all add: settled_slot)
  next
    case (degraded n)
    have "staged ?ok ?c (snd (reply_ack ?c (a_flags ?a OR MSG_FLAG_DEGRADED) (a_wal_seq ?a) (a_client_seq ?a)))"
      by (rule reply_ack_staged) (use ok deg in \<open>simp_all add: ack_ok_def\<close>)
    with degraded assms show ?thesis by (cases "j = i") (simp_all add: settled_slot)
  next
    case refused
    let ?l1 = "snd (reply_err l i MSG_ERR_NO_REPLICAS (a_client_seq ?a))"
    have "settled ?l1" using assms(1) by simp
    moreover have "l_wal ?l1 = l_wal l" "length (l_conns ?l1) = length (l_conns l)"
      by (simp_all add: reply_err_def reply_err_text_def Let_def split_beta)
    ultimately have l1: "settled ?l1" "l_wal ?l1 = l_wal l" "length (l_conns ?l1) = length (l_conns l)" by simp_all
    have "staged ?ok (slot_of l j) (slot_of ?l1 j)"
      using assms(2) by (cases "j = i")
        (simp_all add: reply_err_def reply_err_text_def Let_def split_beta reply_staged)
    moreover have "settled (set_slot i ((slot_of ?l1 i)\<lparr>lc_ack_repl := ack_clear ?a\<rparr>) ?l1)"
      by (rule settled_slot [OF l1(1)]) simp
    ultimately show ?thesis
      using refused l1 assms(2) by (cases "j = i") (simp_all add: Let_def)
  qed (use assms in simp_all)
qed

lemma acks_emit_settled:
  assumes "settled l" "length (l_conns l) = LOOP_MAX_CONNS"
  shows "settled (acks_emit l) \<and> l_wal (acks_emit l) = l_wal l
    \<and> staged (honest (wal_durable_seq (l_wal l)) (repl_best l)) (slot_of l j) (slot_of (acks_emit l) j)"
proof -
  let ?ok = "honest (wal_durable_seq (l_wal l)) (repl_best l)"
  let ?Q = "\<lambda>m. settled m \<and> l_wal m = l_wal l \<and> length (l_conns m) = LOOP_MAX_CONNS \<and> staged ?ok (slot_of l j) (slot_of m j)"
  let ?f = "\<lambda>i m. if \<not> lc_in_use (slot_of m i) then m else emit_repl (repl_best l) (repl_live l) i (emit_local i m)"
  have "?Q (fold ?f [0..<LOOP_MAX_CONNS] l)"
  proof (rule fold_invariant [where P = ?Q and Q = "\<lambda>i. i < LOOP_MAX_CONNS"])
    fix i m assume i: "i < LOOP_MAX_CONNS" and m: "?Q m"
    let ?m = "emit_local i m"
    have loc: "settled ?m \<and> l_wal ?m = l_wal m \<and> length (l_conns ?m) = length (l_conns m)
        \<and> staged ?ok (slot_of m j) (slot_of ?m j)"
      using emit_local_settled [of m i "repl_best l" j] i m by simp
    have "settled (emit_repl (repl_best l) (repl_live l) i ?m) \<and> l_wal (emit_repl (repl_best l) (repl_live l) i ?m) = l_wal ?m
        \<and> length (l_conns (emit_repl (repl_best l) (repl_live l) i ?m)) = length (l_conns ?m)
        \<and> staged ?ok (slot_of ?m j) (slot_of (emit_repl (repl_best l) (repl_live l) i ?m) j)"
      using emit_repl_settled [of ?m i "repl_best l" "repl_live l" j] i m loc by simp
    with loc m show "?Q (?f i m)" by (auto intro: staged_trans)
  qed (use assms in auto)
  then show ?thesis unfolding acks_emit_def Let_def by blast
qed

lemma retain_pass_frame:
  "l_conns (fst (retain_pass N l k)) = l_conns l"
  "l_wal (fst (retain_pass N l k)) = l_wal l
    \<or> (\<exists>f k'. l_wal (fst (retain_pass N l k)) = fst (snd (wal_retain (net_files N) (l_wal l) f k')))"
  by (auto simp: retain_pass_def Let_def split_beta)

lemma retain_pass_settled: "settled l \<Longrightarrow> settled (fst (retain_pass N l k))"
  using retain_pass_frame [of N l k] wal_retain_inv [of "l_wal l" "net_files N"]
  by (auto simp: settled_def acks_ok_def wal_durable_seq_def)

lemma loop_tick_settled:
  assumes "settled l" "loop_wf l" "epoll_data_ok N" "unat (wal_next_seq (l_wal l)) + PASS_ROOM < 2 ^ 64"
    and "loop_tick N scratch wait l k = (RESULT_OK, l', k')"
  shows "settled l'"
proof -
  obtain r l1 k1 where g: "gather_phase N scratch wait l k = (r, l1, k1)" by (metis prod_cases3)
  have r: "r = RESULT_OK" using assms(5) g by (auto simp: loop_tick_def result_ok_def split: if_splits prod.splits)
  have l1: "settled l1" using gather_phase_settled [OF assms(1-4)] g r by simp
  have "loop_wf l1" using gather_phase_wf [OF assms(3,2), of scratch wait k] g by simp
  then have "length (l_conns l1) = LOOP_MAX_CONNS" by (simp add: loop_wf_def)
  from acks_emit_settled [OF l1 this] have "settled (acks_emit l1)" by simp
  then have "settled (fst (serve_phase N (length scratch) l1 k1))"
    by (simp add: serve_phase_def Let_def split_beta settled.stream_report_kept settled.repl_stream_kept
        settled.subs_push_kept retain_pass_settled)
  from settled.arm_phase_kept [OF this, of N "snd (serve_phase N (length scratch) l1 k1)"]
  show ?thesis using assms(5) g r by (simp add: loop_tick_def split_beta)
qed

section \<open>A loop that serves\<close>

text \<open>A loop started on a log in order, and every pass of it that succeeded: \<open>loop_run\<close>
  ends with the first that fails. Sequences have to stay clear of \<open>2 ^ 64\<close> by one pass.\<close>

inductive loop_serves :: "'k net \<Rightarrow> loop_t \<Rightarrow> bool" for N where
  init: "wal_inv w \<Longrightarrow> loop_init N w t ip pt k = (r, l, k') \<Longrightarrow> loop_serves N l"
| leader: "loop_serves N l \<Longrightarrow> loop_set_leader N l addr txt k = (r, l', k') \<Longrightarrow> loop_serves N l'"
| signals: "loop_serves N l \<Longrightarrow> loop_set_signal_fd N l fd k = (l', k') \<Longrightarrow> loop_serves N l'"
| retention: "loop_serves N l \<Longrightarrow> loop_serves N (loop_set_retention l keep replicas)"
| metrics: "loop_serves N l \<Longrightarrow> loop_set_metrics_port N l ip port k = (r, l', k') \<Longrightarrow> loop_serves N l'"
| tick: "loop_serves N l \<Longrightarrow> unat (wal_next_seq (l_wal l)) + PASS_ROOM < 2 ^ 64 \<Longrightarrow>
    loop_tick N scratch wait l k = (RESULT_OK, l', k') \<Longrightarrow> loop_serves N l'"

lemma loop_serves_reaches: "loop_serves N l \<Longrightarrow> loop_reaches N l"
  by (induction rule: loop_serves.induct) (auto intro: loop_reaches.intros)

lemma loop_serves_settled: "loop_serves N l \<Longrightarrow> epoll_data_ok N \<Longrightarrow> settled l"
proof (induction rule: loop_serves.induct)
  case (init w t ip port k r l k')
  then have "settled (loop_blank w t)" by (simp add: settled_def loop_blank_def acks_ok_def list_all_iff)
  with init show ?case by (auto simp: loop_init_def Let_def split: prod.splits if_splits)
next
  case (leader l addr tx k r l' k')
  have "settled (fst (arm_timer_now N (l\<lparr>l_is_follower := True, l_leader_addr := addr, l_leader_text := tx,
      l_repl_next_dial := 0\<rparr>) k))" using leader by simp
  with leader(2) show ?case by (auto simp: loop_set_leader_def split: prod.splits if_splits)
next
  case (signals l fd k l' k')
  then show ?case by (auto simp: loop_set_signal_fd_def)
next
  case (retention l keep replicas)
  then show ?case by (simp add: loop_set_retention_def)
next
  case (metrics l ip port k r l' k')
  then show ?case by (auto simp: loop_set_metrics_port_def Let_def split: prod.splits if_splits)
next
  case (tick l scratch wait k l' k')
  from loop_tick_settled [OF tick.IH [OF tick.prems] loop_reaches_wf [OF loop_serves_reaches [OF tick.hyps(1)] tick.prems]
      tick.prems tick.hyps(2,3)]
  show ?case .
qed


lemma net_example_gathers: "\<exists>l' k'. gather_phase net_example scratch wait l k = (RESULT_OK, l', k')"
  by (simp add: gather_phase_def flush_phase_def Let_def split_beta os_epoll_wait_def sys_value_def
      net_example_def result_ok_def)


section \<open>Every write is answered\<close>

text \<open>The answers owed: the frame each half of a slot gets. A replicated one is still waited
  for only while a live replica may confirm it before the deadline.\<close>

definition ack_frame :: "u16 \<Rightarrow> u64 \<Rightarrow> u64 \<Rightarrow> bytes" where
  "ack_frame flags sq client_seq =
     frame_bytes (msg_header_new MSG_OP_ACK MSG_RECORD_NONE flags 8 0 sq, ack_image \<lparr>ack_client_seq = client_seq\<rparr>)"

definition refusal_frame :: "u16 \<Rightarrow> u64 \<Rightarrow> bytes" where
  "refusal_frame code sq = frame_bytes (msg_header_new MSG_OP_ERR MSG_RECORD_NONE 0 8 0 sq,
     err_image \<lparr>err_code = code, err_text_len = 0, err_pad = 0\<rparr>)"

definition confirmed :: "loop_t \<Rightarrow> loop_ack_t \<Rightarrow> bool" where
  "confirmed l a \<longleftrightarrow> a_wal_seq a \<le> repl_best l \<and> a_wal_seq a \<le> wal_durable_seq (l_wal l)"

definition still_waiting :: "loop_t \<Rightarrow> loop_ack_t \<Rightarrow> bool" where
  "still_waiting l a \<longleftrightarrow> \<not> confirmed l a \<and> repl_live l \<and> l_tick l < a_deadline a"

definition local_answer :: "loop_ack_t \<Rightarrow> bytes" where
  "local_answer a = (if a_due a then ack_frame (a_flags a) (a_wal_seq a) (a_client_seq a) else [])"

definition repl_answer :: "loop_t \<Rightarrow> loop_ack_t \<Rightarrow> bytes" where
  "repl_answer l a =
     (if \<not> a_due a \<or> still_waiting l a then []
      else if confirmed l a then ack_frame (a_flags a) (a_wal_seq a) (a_client_seq a)
      else if a_degradable a then ack_frame (a_flags a OR MSG_FLAG_DEGRADED) (a_wal_seq a) (a_client_seq a)
      else refusal_frame MSG_ERR_NO_REPLICAS (a_client_seq a))"

lemma reply_ack_frame:
  "length (lc_send c) + 40 \<le> lc_send_cap c \<Longrightarrow>
     snd (reply_ack c flags sq cs) = c\<lparr>lc_send := lc_send c @ ack_frame flags sq cs\<rparr>"
  by (simp add: reply_ack_def reply_def Let_def msg_encode_ack_def msg_encode_header_def msg_payload_put_def ack_frame_def
      frame_bytes_def)

lemma reply_err_frame:
  "length (lc_send (slot_of l i)) + 40 \<le> lc_send_cap (slot_of l i) \<Longrightarrow> i < length (l_conns l) \<Longrightarrow>
     slot_of (snd (reply_err l i code sq)) i = (slot_of l i)\<lparr>lc_send := lc_send (slot_of l i) @ refusal_frame code sq\<rparr>"
  by (simp add: reply_err_def reply_err_text_def reply_def Let_def split_beta msg_encode_err_def msg_encode_header_def
      msg_payload_put_def refusal_frame_def frame_bytes_def)

text \<open>One step of the pass touches its own slot only, and what the pass reads stays.\<close>

abbreviation emit_slot :: "u64 \<Rightarrow> bool \<Rightarrow> nat \<Rightarrow> loop_t \<Rightarrow> loop_t" where
  "emit_slot best live i l \<equiv> if \<not> lc_in_use (slot_of l i) then l else emit_repl best live i (emit_local i l)"

lemma ack_count_tick [simp]: "l_tick (ack_count flags l) = l_tick l"
  by (simp add: ack_count_def)

lemma beside_count [simp]: "beside i l (ack_count flags l') = beside i l l'"
  by (simp add: beside_def)

lemma beside_degraded [simp]: "beside i l (l'\<lparr>l_repl_degraded := n\<rparr>) = beside i l l'"
  by (simp add: beside_def)

lemma emit_local_beside: "beside i l (emit_local i l)"
  by (simp add: emit_local_def Let_def split_beta)

lemma emit_repl_beside: "beside i l (emit_repl best live i l)"
  by (cases rule: emit_repl_cases [of l i best live]) (simp_all add: Let_def)

lemma emit_slot_beside: "beside i l (emit_slot best live i l)"
  using beside_trans [OF emit_local_beside emit_repl_beside] by simp

lemma emit_slots_beside:
  "i \<notin> set js \<Longrightarrow> l_wal (fold (emit_slot best live) js l) = l_wal l
     \<and> l_tick (fold (emit_slot best live) js l) = l_tick l
     \<and> length (l_conns (fold (emit_slot best live) js l)) = length (l_conns l)
     \<and> slot_of (fold (emit_slot best live) js l) i = slot_of l i"
proof (induction js arbitrary: l)
  case (Cons j js)
  have "beside j l (emit_slot best live j l)" by (rule emit_slot_beside)
  with Cons.prems have "l_wal (emit_slot best live j l) = l_wal l" "l_tick (emit_slot best live j l) = l_tick l"
    "length (l_conns (emit_slot best live j l)) = length (l_conns l)" "slot_of (emit_slot best live j l) i = slot_of l i"
    by (simp_all only: beside_def) auto
  with Cons.IH [of "emit_slot best live j l"] Cons.prems show ?case by (simp del: if_not_P)
qed simp

text \<open>What the step of a slot does to the slot itself.\<close>

lemma emit_local_own:
  "i < length (l_conns l) \<Longrightarrow> length (lc_send (slot_of l i)) + 40 \<le> lc_send_cap (slot_of l i) \<Longrightarrow>
     slot_of (emit_local i l) i = (slot_of l i)
       \<lparr>lc_send := lc_send (slot_of l i) @ local_answer (lc_ack_local (slot_of l i)),
        lc_ack_local := if a_due (lc_ack_local (slot_of l i)) then ack_clear (lc_ack_local (slot_of l i)) else lc_ack_local (slot_of l i)\<rparr>"
  by (simp add: emit_local_def Let_def split_beta reply_ack_frame local_answer_def)

lemma ack_frame_length [simp]: "length (ack_frame flags sq cs) = 40"
  by (simp add: ack_frame_def ack_image_def)

lemma emit_repl_own:
  assumes "i < length (l_conns l)" "length (lc_send (slot_of l i)) + 40 \<le> lc_send_cap (slot_of l i)"
    and b: "best = repl_best m" "live = repl_live m" "l_wal l = l_wal m" "l_tick l = l_tick m"
  shows "slot_of (emit_repl best live i l) i = (slot_of l i)
    \<lparr>lc_send := lc_send (slot_of l i) @ repl_answer m (lc_ack_repl (slot_of l i)),
     lc_ack_repl := if a_due (lc_ack_repl (slot_of l i)) \<and> \<not> still_waiting m (lc_ack_repl (slot_of l i))
       then ack_clear (lc_ack_repl (slot_of l i)) else lc_ack_repl (slot_of l i)\<rparr>"
  using assms(1,2)
  by (auto simp: emit_repl_def Let_def split_beta reply_ack_frame reply_err_frame repl_answer_def still_waiting_def
      confirmed_def b)

lemma emit_slot_own:
  fixes l :: loop_t and i :: nat
  defines "c \<equiv> slot_of l i"
  assumes i: "i < length (l_conns l)" and use: "lc_in_use c" and room: "length (lc_send c) + 80 \<le> lc_send_cap c"
    and b: "l_wal l = l_wal m" "l_tick l = l_tick m"
  shows "slot_of (emit_slot (repl_best m) (repl_live m) i l) i = c
    \<lparr>lc_send := lc_send c @ local_answer (lc_ack_local c) @ repl_answer m (lc_ack_repl c),
     lc_ack_local := if a_due (lc_ack_local c) then ack_clear (lc_ack_local c) else lc_ack_local c,
     lc_ack_repl := if a_due (lc_ack_repl c) \<and> \<not> still_waiting m (lc_ack_repl c)
       then ack_clear (lc_ack_repl c) else lc_ack_repl c\<rparr>"
proof -
  let ?l = "emit_local i l"
  have loc: "slot_of ?l i = c\<lparr>lc_send := lc_send c @ local_answer (lc_ack_local c),
      lc_ack_local := if a_due (lc_ack_local c) then ack_clear (lc_ack_local c) else lc_ack_local c\<rparr>"
    using emit_local_own [of i l] i room by (simp add: c_def)
  have "i < length (l_conns ?l)" "l_wal ?l = l_wal m" "l_tick ?l = l_tick m"
    using emit_local_beside [of i l] i b by (simp_all add: beside_def)
  moreover have "length (local_answer (lc_ack_local c)) \<le> 40" by (simp add: local_answer_def)
  ultimately have "slot_of (emit_repl (repl_best m) (repl_live m) i ?l) i = (slot_of ?l i)
      \<lparr>lc_send := lc_send (slot_of ?l i) @ repl_answer m (lc_ack_repl (slot_of ?l i)),
       lc_ack_repl := if a_due (lc_ack_repl (slot_of ?l i)) \<and> \<not> still_waiting m (lc_ack_repl (slot_of ?l i))
         then ack_clear (lc_ack_repl (slot_of ?l i)) else lc_ack_repl (slot_of ?l i)\<rparr>"
    using room by (intro emit_repl_own) (simp_all add: loc)
  with use show ?thesis by (simp add: loc c_def)
qed

text \<open>C2. Every write is answered. A pass gives each connection in use, whose output has room
  for the two frames, exactly the answers it owes and in order: the ACK of what was flushed,
  then, for a write waiting on a replica, the ACK when one confirmed it, the degraded ACK or
  the refusal once the deadline is reached or no replica is live, and nothing while one may
  still confirm it. What was answered is owed no longer.\<close>

theorem acks_emit_answers:
  assumes "i < LOOP_MAX_CONNS" "length (l_conns l) = LOOP_MAX_CONNS" "lc_in_use (slot_of l i)"
    and "length (lc_send (slot_of l i)) + 80 \<le> lc_send_cap (slot_of l i)"
  shows "lc_send (slot_of (acks_emit l) i) = lc_send (slot_of l i)
      @ local_answer (lc_ack_local (slot_of l i)) @ repl_answer l (lc_ack_repl (slot_of l i))
    \<and> \<not> a_due (lc_ack_local (slot_of (acks_emit l) i))
    \<and> (a_due (lc_ack_repl (slot_of (acks_emit l) i)) \<longleftrightarrow> a_due (lc_ack_repl (slot_of l i)) \<and> still_waiting l (lc_ack_repl (slot_of l i)))
    \<and> (a_deadline (lc_ack_repl (slot_of l i)) \<le> l_tick l \<or> \<not> repl_live l \<longrightarrow> \<not> a_due (lc_ack_repl (slot_of (acks_emit l) i)))"
proof -
  let ?f = "emit_slot (repl_best l) (repl_live l)"
  let ?m = "fold ?f [0..<i] l"
  have split: "[0..<LOOP_MAX_CONNS] = [0..<i] @ i # [Suc i..<LOOP_MAX_CONNS]"
    using assms(1) upt_add_eq_append [of 0 i "LOOP_MAX_CONNS - i"] by (simp add: upt_conv_Cons)
  have m: "l_wal ?m = l_wal l" "l_tick ?m = l_tick l" "length (l_conns ?m) = length (l_conns l)" "slot_of ?m i = slot_of l i"
    using emit_slots_beside [of i "[0..<i]" "repl_best l" "repl_live l" l] by simp_all
  have "slot_of (acks_emit l) i = slot_of (fold ?f [Suc i..<LOOP_MAX_CONNS] (?f i ?m)) i"
    by (simp only: acks_emit_def Let_def split fold_append o_apply fold.simps)
  also have "\<dots> = slot_of (?f i ?m) i"
    using emit_slots_beside [of i "[Suc i..<LOOP_MAX_CONNS]" "repl_best l" "repl_live l" "?f i ?m"] by simp
  finally show ?thesis
    using emit_slot_own [of i ?m l] assms m by (auto simp: ack_clear_def still_waiting_def)
qed

text \<open>A loop whose third slot owes both kinds of answer: sequence 1 is durable, and the deadline
  for a replica to confirm it is this tick, with none live.\<close>

definition loop_owing :: loop_t where
  "loop_owing = set_slot 2 (slot_reset\<lparr>lc_in_use := True,
       lc_ack_local := ack_stage ack_zero MSG_FLAG_SYNC False 7 1 0,
       lc_ack_repl := ack_stage ack_zero MSG_FLAG_REPLICATED True 8 1 0\<rparr>)
     (loop_blank wal_example session_table_init)"

theorem acks_emit_answers_witness:
  "lc_send (slot_of (acks_emit loop_owing) 2) = ack_frame MSG_FLAG_SYNC 1 7
       @ ack_frame (MSG_FLAG_REPLICATED OR MSG_FLAG_DEGRADED) 1 8
     \<and> \<not> a_due (lc_ack_repl (slot_of (acks_emit loop_owing) 2))"
proof -
  have slot: "slot_of loop_owing 2 = slot_reset\<lparr>lc_in_use := True,
       lc_ack_local := ack_stage ack_zero MSG_FLAG_SYNC False 7 1 0,
       lc_ack_repl := ack_stage ack_zero MSG_FLAG_REPLICATED True 8 1 0\<rparr>"
    by (simp add: loop_owing_def loop_blank_def)
  have live: "\<not> repl_live loop_owing" "repl_best loop_owing = 0"
    by (simp_all add: loop_owing_def loop_blank_def repl_live_def repl_best_def set_slot_def list_ex_iff
        numeral_eq_Suc)
  have "length (l_conns loop_owing) = LOOP_MAX_CONNS" by (simp add: loop_owing_def loop_blank_def)
  from acks_emit_answers [of 2 loop_owing, OF _ this]
  show ?thesis
    by (simp add: slot slot_reset_def live local_answer_def repl_answer_def still_waiting_def confirmed_def
        ack_stage_def ack_zero_def)
qed

end
