(* ===== verification/Loop_Writes.thy ===== *)
theory Loop_Writes
  imports Loop_Steps
begin

text \<open>
  What the writes of all clients do to the log. The reference is a log behind a table of
  high-water marks, one per session: a write at or below its session's mark is dropped, one
  above it is appended and moves the mark. \<open>handle_write\<close>, with its table of sessions, its
  connections and its acknowledgements, refines it, so every property of the reference is one
  of the server.
\<close>

section \<open>The high-water marks\<close>

definition marks :: "session_table_t \<Rightarrow> u64 \<Rightarrow> u64 option" where
  "marks t sid = map_option (\<lambda>j. se_last (st_entries t ! j)) (session_lookup t sid)"

lemma find_session_ids:
  "map se_id es = map se_id es' \<Longrightarrow> find_session es sid = find_session es' sid"
proof (induction es arbitrary: es')
  case (Cons e es)
  then show ?case by (cases es') auto
qed simp

lemma find_session_mark:
  assumes "find_session es sid = Some j"
  shows "find_session (es[j := e\<lparr>se_id := sid\<rparr>]) x = find_session es x"
proof -
  have "j < length es" "se_id (es ! j) = sid" using find_session_Some [OF assms] by auto
  then have "map se_id (es[j := e\<lparr>se_id := sid\<rparr>]) = map se_id es"
    by (simp add: map_update) (metis list_update_id map_update nth_map)
  then show ?thesis by (rule find_session_ids)
qed

lemma marks_set:
  assumes "session_lookup t sid = Some j" "se_id e = sid" "st_entries t' = (st_entries t)[j := e]"
  shows "marks t' = (marks t)(sid \<mapsto> se_last e)"
proof
  fix x
  have f: "find_session (st_entries t) sid = Some j" "sid \<noteq> 0"
    using assms(1) by (auto simp: session_lookup_def split: if_splits)
  note j = find_session_Some [OF f(1)]
  have "e = e\<lparr>se_id := sid\<rparr>" using assms(2) by simp
  then have look: "session_lookup t' x = session_lookup t x"
    using find_session_mark [OF f(1), of e] by (simp add: session_lookup_def assms(3))
  show "marks t' x = ((marks t)(sid \<mapsto> se_last e)) x"
  proof (cases "x = sid")
    case True
    with look assms j show ?thesis by (simp add: marks_def)
  next
    case False
    have "j' \<noteq> j" if "session_lookup t x = Some j'" for j'
      using that False j find_session_Some [of "st_entries t" x j'] by (auto simp: session_lookup_def split: if_splits)
    with look False show ?thesis by (cases "session_lookup t x") (simp_all add: marks_def assms(3))
  qed
qed

lemma marks_note_write:
  assumes "session_lookup (l_sessions l) sid = Some e"
  shows "marks (l_sessions (note_write e h w l)) = (marks (l_sessions l))(sid \<mapsto> h_sequence h)"
proof -
  let ?s = "st_entries (l_sessions l) ! e"
  have e: "e < length (st_entries (l_sessions l))" "se_id ?s = sid"
    using assms find_session_Some by (auto simp: session_lookup_def split: if_splits)
  have "marks (l_sessions (note_write e h w l)) = (marks (l_sessions l))(sid \<mapsto>
      se_last (?s\<lparr>se_last := h_sequence h, se_seen := st_next_seen (l_sessions l)\<rparr>))"
    by (rule marks_set [OF assms]) (use e in \<open>simp_all add: note_write_def Let_def session_touch_def\<close>)
  then show ?thesis by simp
qed

section \<open>What a write leaves alone\<close>

definition same_writers :: "loop_t \<Rightarrow> loop_t \<Rightarrow> bool" where
  "same_writers l l' \<longleftrightarrow> l_is_follower l' = l_is_follower l \<and> l_peer_live l' = l_peer_live l
     \<and> map lc_session (l_conns l') = map lc_session (l_conns l)"

lemma same_writers_refl [simp]: "same_writers l l" by (simp add: same_writers_def)

lemma same_writers_trans: "same_writers a b \<Longrightarrow> same_writers b c \<Longrightarrow> same_writers a c"
  by (simp add: same_writers_def)

lemma map_update_same: "f c = f (xs ! i) \<Longrightarrow> map f (xs[i := c]) = map f xs"
  by (cases "i < length xs") (metis list_update_id map_update, simp add: list_update_beyond)

lemma same_writers_slot:
  "same_writers l l' \<Longrightarrow> lc_session c = lc_session (slot_of l' i) \<Longrightarrow> same_writers l (set_slot i c l')"
  by (simp add: same_writers_def set_slot_def map_update_same)

lemma reply_session [simp]: "lc_session (snd (reply c op flags sq p)) = lc_session c"
  by (simp add: reply_def Let_def)

lemma reply_err_text_writers [simp]: "same_writers l (snd (reply_err_text l i code sq tx))"
  by (auto simp: reply_err_text_def Let_def split_beta same_writers_def set_slot_def map_update_same)

lemma reply_err_text_log [simp]:
  "l_wal (snd (reply_err_text l i code sq tx)) = l_wal l" "l_sessions (snd (reply_err_text l i code sq tx)) = l_sessions l"
  by (simp_all add: reply_err_text_def Let_def split_beta)

lemma reply_err_writers [simp]: "same_writers l (snd (reply_err l i code sq))"
  by (simp add: reply_err_def)

lemma reply_err_log [simp]:
  "l_wal (snd (reply_err l i code sq)) = l_wal l" "l_sessions (snd (reply_err l i code sq)) = l_sessions l"
  by (simp_all add: reply_err_def)

lemma owe_ack_writers: "same_writers l (owe_ack h i cs sq l)"
  by (auto simp: owe_ack_def ack_write_def Let_def same_writers_def set_slot_def map_update_same)

lemma owe_ack_log [simp]: "l_wal (owe_ack h i cs sq l) = l_wal l" "l_sessions (owe_ack h i cs sq l) = l_sessions l"
  by (simp_all add: owe_ack_def ack_write_def Let_def)

section \<open>The reference\<close>

definition client_record :: "u64 \<Rightarrow> msg_header_t \<Rightarrow> bytes \<Rightarrow> wal_rec_t" where
  "client_record sid h p =
     \<lparr>r_crc = 0, r_len = of_nat (length p), r_term = 1, r_seq = 0, r_session = sid, r_client_seq = h_sequence h,
      r_record_type = h_record_type h, r_flags = h_flags h, r_pad = 0, r_partition_key = h_partition_key h\<rparr>"

text \<open>What a write from a session with a mark is refused for, apart from its sequence.\<close>

definition refuses :: "loop_t \<Rightarrow> msg_header_t \<Rightarrow> bool" where
  "refuses l h \<longleftrightarrow> l_is_follower l \<or> wants_repl_flag (h_flags h) \<and> \<not> repl_live l \<and> \<not> degradable_flag (h_flags h)"

type_synonym marked_log = "wal_t \<times> (u64 \<Rightarrow> u64 option)"

definition store_write ::
    "'k kernel \<Rightarrow> (msg_header_t \<Rightarrow> bool) \<Rightarrow> bytes \<Rightarrow> u64 \<times> frame \<Rightarrow> marked_log \<times> 'k
       \<Rightarrow> wal_rec_t option \<times> marked_log \<times> 'k" where
  "store_write K refused s = (\<lambda>(sid, h, p) ((w, M), k).
     if refused h \<or> (case M sid of None \<Rightarrow> True | Some m \<Rightarrow> h_sequence h \<le> m) then (None, (w, M), k)
     else case wal_append K w (client_record sid h p) (if p = [] then None else Some p) s k of
       (r, w, rec', k) \<Rightarrow> if r = RESULT_OK then (Some rec', (w, M(sid \<mapsto> h_sequence h)), k) else (None, (w, M), k))"

primrec store_writes ::
    "'k kernel \<Rightarrow> (msg_header_t \<Rightarrow> bool) \<Rightarrow> bytes \<Rightarrow> (u64 \<times> frame) list \<Rightarrow> marked_log \<times> 'k
       \<Rightarrow> wal_rec_t list \<times> marked_log \<times> 'k" where
  "store_writes K refused s [] x = ([], x)"
| "store_writes K refused s (wr # wrs) x =
     (let (r, x) = store_write K refused s wr x; (rs, x) = store_writes K refused s wrs x
      in ((case r of None \<Rightarrow> rs | Some r \<Rightarrow> r # rs), x))"

text \<open>The writes of clients in the order their frames arrive, each with its connection's slot.\<close>

primrec client_writes ::
    "'k net \<Rightarrow> bytes \<Rightarrow> (nat \<times> frame) list \<Rightarrow> loop_t \<times> 'k \<Rightarrow> loop_t \<times> 'k" where
  "client_writes N s [] x = x"
| "client_writes N s (wr # wrs) x = (case wr of (i, h, p) \<Rightarrow>
     client_writes N s wrs (handle_write N (fst x) i h p s (snd x)))"

abbreviation marked :: "loop_t \<Rightarrow> marked_log" where
  "marked l \<equiv> (l_wal l, marks (l_sessions l))"

abbreviation by_session :: "loop_t \<Rightarrow> nat \<times> frame \<Rightarrow> u64 \<times> frame" where
  "by_session l wr \<equiv> (lc_session (slot_of l (fst wr)), snd wr)"

lemma write_record_client: "write_record c h p = client_record (lc_session c) h p"
  by (simp add: write_record_def client_record_def)

lemma note_write_writers [simp]: "same_writers l (note_write e h w l)"
  by (simp add: same_writers_def note_write_def Let_def)

lemma same_writers_wal [simp]: "same_writers (l\<lparr>l_wal := w\<rparr>) l' = same_writers l l'"
  by (simp add: same_writers_def)

lemma same_writers_hits [simp]: "same_writers (l\<lparr>l_dedup_hits := n\<rparr>) l' = same_writers l l'"
  by (simp add: same_writers_def)

lemma same_writers_refuses: "same_writers l l' \<Longrightarrow> refuses l' = refuses l"
  by (intro ext) (simp add: same_writers_def refuses_def repl_live_def)

lemma same_writers_by_session:
  assumes "same_writers l l'" "i < length (l_conns l)"
  shows "lc_session (slot_of l' i) = lc_session (slot_of l i)"
proof -
  have "map lc_session (l_conns l') = map lc_session (l_conns l)" using assms(1) by (simp add: same_writers_def)
  moreover from this have "length (l_conns l') = length (l_conns l)" by (metis length_map)
  ultimately show ?thesis using assms(2) by (metis nth_map)
qed

text \<open>One frame.\<close>

lemma handle_write_stores:
  "same_writers l (fst (handle_write N l i h p s k))
   \<and> (marked (fst (handle_write N l i h p s k)), snd (handle_write N l i h p s k))
     = snd (store_write (net_files N) (refuses l) s (lc_session (slot_of l i), h, p) (marked l, k))"
proof (cases rule: handle_write_cases [of l i N h p s k])
  case no_session
  then show ?thesis
    by (simp add: store_write_def marks_def Let_def same_writers_slot)
next
  case (follower e)
  then show ?thesis by (simp add: store_write_def refuses_def)
next
  case (no_replicas e)
  then show ?thesis by (simp add: store_write_def refuses_def)
next
  case (duplicate e)
  have "same_writers l (owe_ack h i cs sq (l\<lparr>l_dedup_hits := n\<rparr>))" for cs sq n
    using owe_ack_writers [of "l\<lparr>l_dedup_hits := n\<rparr>"] by simp
  with duplicate show ?thesis by (simp add: store_write_def marks_def)
next
  case (failed e code d w r' k')
  have "same_writers l (snd (reply_err (l\<lparr>l_wal := w\<rparr>) i c sq))" for c sq
    using reply_err_writers [of "l\<lparr>l_wal := w\<rparr>"] by (simp only: same_writers_wal)
  moreover have "\<not> refuses l h" "marks (l_sessions l) (lc_session (slot_of l i)) = Some (se_last (st_entries (l_sessions l) ! e))"
    "\<not> h_sequence h \<le> se_last (st_entries (l_sessions l) ! e)"
    using failed(1-4) by (auto simp: marks_def refuses_def)
  ultimately show ?thesis
    using failed by (simp add: store_write_def write_record_client)
next
  case (stored e w r' k')
  have "same_writers l (owe_ack h i cs sq (note_write e h w l))" for cs sq
    using same_writers_trans [OF note_write_writers owe_ack_writers] .
  moreover have "marks (l_sessions (note_write e h w l)) = (marks (l_sessions l))(lc_session (slot_of l i) \<mapsto> h_sequence h)"
    by (rule marks_note_write [OF stored(1)])
  moreover have "l_wal (note_write e h w l) = w" by (simp add: note_write_def Let_def)
  moreover have "marks (l_sessions l) (lc_session (slot_of l i)) = Some (se_last (st_entries (l_sessions l) ! e))"
    "\<not> refuses l h" "\<not> h_sequence h \<le> se_last (st_entries (l_sessions l) ! e)"
    using stored(1-4) by (auto simp: marks_def refuses_def)
  ultimately show ?thesis
    using stored by (simp add: store_write_def write_record_client)
qed

lemma client_writes_store:
  "\<forall>wr \<in> set ws. fst wr < length (l_conns l) \<Longrightarrow>
   same_writers l (fst (client_writes N s ws (l, k)))
   \<and> (marked (fst (client_writes N s ws (l, k))), snd (client_writes N s ws (l, k)))
     = snd (store_writes (net_files N) (refuses l) s (map (by_session l) ws) (marked l, k))"
proof (induction ws arbitrary: l k)
  case (Cons wr ws)
  obtain i h p where wr: "wr = (i, h, p)" by (metis prod_cases3)
  obtain l1 k1 where one: "handle_write N l i h p s k = (l1, k1)" by (metis surj_pair)
  have same: "same_writers l l1" and step: "(marked l1, k1)
      = snd (store_write (net_files N) (refuses l) s (lc_session (slot_of l i), h, p) (marked l, k))"
    using handle_write_stores [of l N i h p s k] one by simp_all
  have len: "length (l_conns l1) = length (l_conns l)"
    using same unfolding same_writers_def by (metis length_map)
  have sess: "map (by_session l1) ws = map (by_session l) ws"
    using Cons.prems same_writers_by_session [OF same] by (auto simp: split_beta)
  from Cons.IH [of l1 k1] Cons.prems len
  have "same_writers l1 (fst (client_writes N s ws (l1, k1)))
   \<and> (marked (fst (client_writes N s ws (l1, k1))), snd (client_writes N s ws (l1, k1)))
     = snd (store_writes (net_files N) (refuses l) s (map (by_session l) ws) (marked l1, k1))"
    by (simp add: sess same_writers_refuses [OF same])
  with step same show ?case by (auto simp: wr one Let_def split_beta intro: same_writers_trans)
qed simp

section \<open>What the reference stores\<close>

lemma wal_rec_encode_client:
  "wal_rec_encode b r p = (n, b', r') \<Longrightarrow> r_session r' = r_session r \<and> r_client_seq r' = r_client_seq r"
  by (auto simp: wal_rec_encode_def Let_def split: if_splits)

lemma wal_seg_append_client:
  assumes "wal_seg_append K sg r p s k = (res, sg', r', k')"
  shows "r_session r' = r_session r \<and> r_client_seq r' = r_client_seq r"
proof -
  obtain n b' r1 where enc: "wal_rec_encode s (r\<lparr>r_seq := s_next_seq sg\<rparr>) p = (n, b', r1)"
    by (metis prod_cases3)
  have "r' = r1" using assms enc by (auto simp: wal_seg_append_def Let_def split: if_splits prod.splits)
  then show ?thesis using wal_rec_encode_client [OF enc] by simp
qed

lemma wal_append_client:
  assumes "wal_append K w r p s k = (res, w', r', k')"
  shows "r_session r' = r_session r \<and> r_client_seq r' = r_client_seq r"
proof (cases "wal_rec_size (sint (r_len r)) = 0 \<or> wal_rec_size (sint (r_len r)) > int (w_seg_capacity w)")
  case False
  obtain r1 w1 k1 where room: "(if \<not> wal_seg_fits (w_active w) (sint (r_len r)) then wal_rollover K w k
      else (RESULT_OK, w, k)) = (r1, w1, k1)" by (metis prod_cases3)
  obtain r2 s2 rr k2 where app: "wal_seg_append K (w_active w1) r p s k1 = (r2, s2, rr, k2)"
    by (metis prod_cases4)
  have "r' = rr \<or> r' = r"
    using False assms room app by (auto simp: wal_append_def Let_def split: if_splits)
  then show ?thesis using wal_seg_append_client [OF app] by auto
qed (use assms in \<open>auto simp: wal_append_def Let_def\<close>)

lemma store_write_step:
  assumes "store_write K refused s (sid, h, p) ((w, M), k) = (r, (w', M'), k')"
  obtains (dropped) "r = None" "M' = M" "w' = w" "k' = k"
    "refused h \<or> M sid = None \<or> (\<exists>m. M sid = Some m \<and> h_sequence h \<le> m)"
  | (failed) res rec' m where "r = None" "M' = M" "res \<noteq> RESULT_OK" "\<not> refused h" "M sid = Some m" "m < h_sequence h"
    "wal_append K w (client_record sid h p) (if p = [] then None else Some p) s k = (res, w', rec', k')"
  | (stored) rec' m where "r = Some rec'" "M' = M(sid \<mapsto> h_sequence h)" "\<not> refused h" "M sid = Some m" "m < h_sequence h"
    "wal_append K w (client_record sid h p) (if p = [] then None else Some p) s k = (RESULT_OK, w', rec', k')"
    "r_session rec' = sid" "r_client_seq rec' = h_sequence h"
proof -
  obtain res w1 rec' k1 where a: "wal_append K w (client_record sid h p) (if p = [] then None else Some p) s k
      = (res, w1, rec', k1)" by (metis prod_cases4)
  note same = wal_append_client [OF a, unfolded client_record_def, simplified]
  show ?thesis
  proof (cases "refused h \<or> (case M sid of None \<Rightarrow> True | Some m \<Rightarrow> h_sequence h \<le> m)")
    case True
    with assms show ?thesis by (intro dropped) (auto simp: store_write_def split: option.splits)
  next
    case False
    then obtain m where m: "\<not> refused h" "M sid = Some m" "m < h_sequence h" by (auto simp: not_le split: option.splits)
    have fresh: "\<not> h_sequence h \<le> m" using m(3) by simp
    show ?thesis
    proof (cases "res = RESULT_OK")
      case True
      with m a assms same fresh show ?thesis by (intro stored [of rec' m]) (auto simp: store_write_def)
    next
      case bad: False
      with m a assms fresh show ?thesis by (intro failed [OF _ _ bad m, of rec']) (auto simp: store_write_def)
    qed
  qed
qed

lemma store_writes_marks:
  "store_writes K refused s ws ((w, M), k) = (rs, (w', M'), k') \<Longrightarrow> M sid = Some m \<Longrightarrow> \<exists>m'. M' sid = Some m' \<and> m \<le> m'"
proof (induction ws arbitrary: w M k rs m)
  case (Cons wr ws)
  obtain sd h p where wr: "wr = (sd, h, p)" by (metis prod_cases3)
  obtain r w1 M1 k1 where one: "store_write K refused s (sd, h, p) ((w, M), k) = (r, (w1, M1), k1)"
    by (metis surj_pair)
  obtain rs1 where rest: "store_writes K refused s ws ((w1, M1), k1) = (rs1, (w', M'), k')"
    using Cons.prems(1) by (auto simp: wr one split: prod.splits)
  from one have "\<exists>m1. M1 sid = Some m1 \<and> m \<le> m1"
    by (rule store_write_step) (use Cons.prems(2) in auto)
  then obtain m1 where "M1 sid = Some m1" "m \<le> m1" by blast
  with Cons.IH [OF rest] show ?case by (meson order_trans)
qed auto

text \<open>Per session, client sequences ascend; all are above the mark before and within the one
  after.\<close>

abbreviation ascending :: "wal_rec_t list \<Rightarrow> bool" where
  "ascending \<equiv> sorted_wrt (\<lambda>a b. r_session a = r_session b \<longrightarrow> r_client_seq a < r_client_seq b)"

lemma store_writes_ascending:
  "store_writes K refused s ws ((w, M), k) = (rs, (w', M'), k') \<Longrightarrow>
     ascending rs \<and> (\<forall>r \<in> set rs. \<exists>m m'. M (r_session r) = Some m \<and> M' (r_session r) = Some m'
        \<and> m < r_client_seq r \<and> r_client_seq r \<le> m')"
proof (induction ws arbitrary: w M k rs)
  case (Cons wr ws)
  obtain sd h p where wr: "wr = (sd, h, p)" by (metis prod_cases3)
  obtain r w1 M1 k1 where one: "store_write K refused s (sd, h, p) ((w, M), k) = (r, (w1, M1), k1)"
    by (metis surj_pair)
  obtain rs1 where rest: "store_writes K refused s ws ((w1, M1), k1) = (rs1, (w', M'), k')"
    and rs: "rs = (case r of None \<Rightarrow> rs1 | Some r \<Rightarrow> r # rs1)"
    using Cons.prems by (auto simp: wr one split: prod.splits)
  note IH = Cons.IH [OF rest]
  from one show ?case
  proof (cases rule: store_write_step)
    case (stored rec' m)
    have up: "\<exists>m1. M x = Some m1 \<and> m1 < c" if "M1 x = Some m'" "m' < c" for x m' c
      using that stored by (cases "x = sd") (auto intro: less_trans)
    have above: "r_session rec' = r_session q \<longrightarrow> r_client_seq rec' < r_client_seq q" if "q \<in> set rs1" for q
      using IH that stored by fastforce
    have "\<exists>m'. M' sd = Some m' \<and> h_sequence h \<le> m'"
      using store_writes_marks [OF rest, of sd] stored by simp
    moreover have "\<exists>m m'. M (r_session q) = Some m \<and> M' (r_session q) = Some m' \<and> m < r_client_seq q \<and> r_client_seq q \<le> m'"
      if q: "q \<in> set rs1" for q
      using IH q up by meson
    ultimately show ?thesis using stored IH rs above by simp
  qed (use IH rs in simp_all)
qed auto

text \<open>Sequences are dense: one per record stored.\<close>

lemma store_writes_dense:
  "store_writes K refused s ws ((w, M), k) = (rs, (w', M'), k') \<Longrightarrow> wal_inv w \<Longrightarrow>
     unat (wal_next_seq w) + length ws < 2 ^ 64 \<Longrightarrow>
     wal_inv w' \<and> length rs \<le> length ws \<and> wal_next_seq w' = wal_next_seq w + of_nat (length rs)
     \<and> (\<forall>j < length rs. r_seq (rs ! j) = wal_next_seq w + of_nat j)"
proof (induction ws arbitrary: w M k rs)
  case (Cons wr ws)
  obtain sd h p where wr: "wr = (sd, h, p)" by (metis prod_cases3)
  obtain r w1 M1 k1 where one: "store_write K refused s (sd, h, p) ((w, M), k) = (r, (w1, M1), k1)"
    by (metis surj_pair)
  obtain rs1 where rest: "store_writes K refused s ws ((w1, M1), k1) = (rs1, (w', M'), k')"
    and rs: "rs = (case r of None \<Rightarrow> rs1 | Some r \<Rightarrow> r # rs1)"
    using Cons.prems(1) by (auto simp: wr one split: prod.splits)
  have nx: "wal_next_seq w \<noteq> - 1" using Cons.prems(3) by (auto simp: unsigned_minus_1_eq_mask mask_eq_exp_minus_1)
  have room: "unat (wal_next_seq w) + length ws < 2 ^ 64" using Cons.prems(3) by simp
  from one show ?case
  proof (cases rule: store_write_step)
    case dropped
    with Cons.IH [OF rest] Cons.prems(2) room rs show ?thesis by simp
  next
    case (failed res rec' m)
    from wal_append_step [OF Cons.prems(2) nx failed(7)] failed(3)
    have "wal_inv w1" "wal_next_seq w1 = wal_next_seq w" by simp_all
    with Cons.IH [OF rest] room rs failed(1) show ?thesis by simp
  next
    case (stored rec' m)
    from wal_append_step [OF Cons.prems(2) nx stored(6)]
    have w1: "wal_inv w1" "wal_next_seq w1 = wal_next_seq w + 1" "r_seq rec' = wal_next_seq w" by simp_all
    have "unat (wal_next_seq w1) = unat (wal_next_seq w) + 1"
      using w1(2) nx Cons.prems(3) by (simp add: unat_word_ariths)
    with Cons.IH [OF rest w1(1)] Cons.prems(3) rs stored(1) w1(2,3) show ?thesis
      by (auto simp: nth_Cons' less_Suc_eq_0_disj algebra_simps)
  qed
qed auto

text \<open>A write at or below its session's mark changes nothing.\<close>

lemma store_writes_idle:
  "\<forall>(sid, h, p) \<in> set ws. \<exists>m. M sid = Some m \<and> h_sequence h \<le> m \<Longrightarrow> store_writes K refused s ws ((w, M), k) = ([], (w, M), k)"
  by (induction ws) (auto simp: store_write_def)

section \<open>Exactly once\<close>

text \<open>C4. What a server does with the writes of all its clients, in the order they arrive, is
  what a log behind a table of high-water marks does: the same records appended by the same
  calls, the same log, the same marks. Sessions, refusals, duplicates, failed appends and
  acknowledgements are all in the handler; the reference has none of the connections.\<close>

theorem writes_refine_marks:
  assumes "\<forall>wr \<in> set ws. fst wr < length (l_conns l)"
  shows "(marked (fst (client_writes N s ws (l, k))), snd (client_writes N s ws (l, k)))
     = snd (store_writes (net_files N) (refuses l) s (map (by_session l) ws) (marked l, k))"
  by (rule conjunct2 [OF client_writes_store [OF assms]])

text \<open>C3. A client's write is stored exactly once. The records a run of writes appends get
  consecutive sequences; those of one session carry ascending client sequences, each above
  the mark the session had before and within the one it has after, so none repeats another
  or an older one; and whatever is sent again at or below its session's mark, on any
  connection, leaves the log, the marks and the disk as they were.\<close>

theorem writes_stored_once:
  assumes "\<forall>wr \<in> set ws. fst wr < length (l_conns l)" "wal_inv (l_wal l)"
    and "unat (wal_next_seq (l_wal l)) + length ws < 2 ^ 64"
    and "client_writes N s ws (l, k) = (l', k')"
    and "store_writes (net_files N) (refuses l) s (map (by_session l) ws) (marked l, k) = (rs, x)"
  shows "wal_next_seq (l_wal l') = wal_next_seq (l_wal l) + of_nat (length rs)
    \<and> (\<forall>j < length rs. r_seq (rs ! j) = wal_next_seq (l_wal l) + of_nat j)
    \<and> sorted_wrt (\<lambda>a b. r_session a = r_session b \<longrightarrow> r_client_seq a < r_client_seq b) rs
    \<and> (\<forall>r \<in> set rs. \<exists>m m'. marks (l_sessions l) (r_session r) = Some m \<and> marks (l_sessions l') (r_session r) = Some m'
         \<and> m < r_client_seq r \<and> r_client_seq r \<le> m')
    \<and> (\<forall>again. (\<forall>(i, h, p) \<in> set again. i < length (l_conns l)
           \<and> (\<exists>m. marks (l_sessions l') (lc_session (slot_of l' i)) = Some m \<and> h_sequence h \<le> m)) \<longrightarrow>
         (let (l'', k'') = client_writes N s again (l', k') in marked l'' = marked l' \<and> k'' = k'))"
proof (intro conjI allI impI)
  have x: "x = (marked l', k')" and same: "same_writers l l'"
    using client_writes_store [OF assms(1), of N s k] assms(4,5) by simp_all
  note run = assms(5) [unfolded x]
  from store_writes_dense [OF run assms(2)] assms(3)
  show "wal_next_seq (l_wal l') = wal_next_seq (l_wal l) + of_nat (length rs)"
    "\<And>j. j < length rs \<Longrightarrow> r_seq (rs ! j) = wal_next_seq (l_wal l) + of_nat j"
    by simp_all
  from store_writes_ascending [OF run]
  show "ascending rs" "\<forall>r \<in> set rs. \<exists>m m'. marks (l_sessions l) (r_session r) = Some m
      \<and> marks (l_sessions l') (r_session r) = Some m' \<and> m < r_client_seq r \<and> r_client_seq r \<le> m'"
    by simp_all
  fix again :: "(nat \<times> frame) list"
  assume again: "\<forall>(i, h, p) \<in> set again. i < length (l_conns l)
    \<and> (\<exists>m. marks (l_sessions l') (lc_session (slot_of l' i)) = Some m \<and> h_sequence h \<le> m)"
  have "length (l_conns l') = length (l_conns l)" using same unfolding same_writers_def by (metis length_map)
  then have "\<forall>wr \<in> set again. fst wr < length (l_conns l')" using again by (auto simp: split_beta)
  note again_store = client_writes_store [OF this, of N s k']
  have "store_writes (net_files N) (refuses l') s (map (by_session l') again) (marked l', k') = ([], marked l', k')"
    by (rule store_writes_idle) (use again in fastforce)
  with again_store show "let (l'', k'') = client_writes N s again (l', k') in marked l'' = marked l' \<and> k'' = k'"
    by (simp add: split_beta)
qed

lemma ack_stage_due [simp]: "a_due (ack_stage a flags d cs sq dl)"
  by (simp add: ack_stage_def Let_def)

lemma ack_stage_client_seq: "cs \<le> a_client_seq (ack_stage a flags d cs sq dl)"
  by (simp add: ack_stage_def Let_def not_less)

lemma owe_ack_local:
  assumes "i < length (l_conns l)" "h_flags h = MSG_FLAG_ACK_REQ"
  shows "a_due (lc_ack_local (slot_of (owe_ack h i cs sq l) i))
    \<and> cs \<le> a_client_seq (lc_ack_local (slot_of (owe_ack h i cs sq l) i))"
  using assms by (simp add: owe_ack_def ack_write_def Let_def ack_stage_client_seq)

text \<open>A write for local durability, above its session's mark, that moves the mark was stored, and
  its acknowledgement is owed.\<close>

lemma local_write_stored:
  assumes "i < length (l_conns l)" "marks (l_sessions l) (lc_session (slot_of l i)) = Some m" "\<not> l_is_follower l"
    and "m < h_sequence h" "h_flags h = MSG_FLAG_ACK_REQ"
    and "handle_write N l i h p s k = (l', k')" "marks (l_sessions l') (lc_session (slot_of l i)) \<noteq> Some m"
  shows "(\<exists>rec'. fst (store_write (net_files N) (refuses l) s (lc_session (slot_of l i), h, p) (marked l, k)) = Some rec'
        \<and> r_client_seq rec' = h_sequence h)
    \<and> marks (l_sessions l') (lc_session (slot_of l i)) = Some (h_sequence h)
    \<and> a_due (lc_ack_local (slot_of l' i)) \<and> h_sequence h \<le> a_client_seq (lc_ack_local (slot_of l' i))"
proof (cases rule: handle_write_cases [of l i N h p s k])
  case (stored e w r' k')
  have len: "i < length (l_conns (note_write e h w l))" using assms(1) by (simp add: note_write_def Let_def)
  have f: "\<not> refuses l h" "\<not> h_sequence h \<le> m" using assms(3-5) by (simp_all add: refuses_def)
  have rec': "r_client_seq r' = h_sequence h"
    using wal_append_client [OF stored(5)] by (simp add: write_record_def)
  have mk: "marks (l_sessions (note_write e h w l)) (lc_session (slot_of l i)) = Some (h_sequence h)"
    using marks_note_write [OF stored(1)] by simp
  have st: "fst (store_write (net_files N) (refuses l) s (lc_session (slot_of l i), h, p) (marked l, k)) = Some r'"
    using f assms(2) stored(5) by (simp add: store_write_def write_record_client)
  have l': "l' = owe_ack h i (h_sequence h) (r_seq r') (note_write e h w l)" using stored(6) assms(6) by simp
  show ?thesis
    using st rec' mk owe_ack_local [OF len assms(5)] by (simp add: l')
qed (use assms in \<open>auto simp: marks_def\<close>)

text \<open>C35. A refused write can be reported durable. A client that asks for a second copy while no
  replica is live is refused; if its next write, with a higher sequence, is stored, the mark
  passes the refused one: the acknowledgement owed then names a client sequence at or above
  it, although nothing with that sequence is in the log, and a resend of it is answered as a
  duplicate and never stored.\<close>

theorem refused_write_reported_durable:
  assumes "i < length (l_conns l)" "marks (l_sessions l) (lc_session (slot_of l i)) = Some m"
    and "\<not> l_is_follower l" "\<not> repl_live l"
    and "m < h_sequence ha" "h_sequence ha < h_sequence hb"
    and "h_flags ha = MSG_FLAG_ACK_REQ OR MSG_FLAG_REPLICATED" "h_flags hb = MSG_FLAG_ACK_REQ"
    and "client_writes N s [(i, ha, pa), (i, hb, pb)] (l, k) = (l', k')"
    and "marks (l_sessions l') (lc_session (slot_of l i)) = Some (h_sequence hb)"
  shows "(\<exists>rec' x. store_writes (net_files N) (refuses l) s (map (by_session l) [(i, ha, pa), (i, hb, pb)]) (marked l, k)
        = ([rec'], x) \<and> r_client_seq rec' = h_sequence hb)
    \<and> a_due (lc_ack_local (slot_of l' i)) \<and> h_sequence ha < a_client_seq (lc_ack_local (slot_of l' i))
    \<and> (\<forall>hc pc. h_sequence hc = h_sequence ha \<longrightarrow>
         (let (l'', k'') = client_writes N s [(i, hc, pc)] (l', k') in marked l'' = marked l' \<and> k'' = k'))"
proof -
  obtain l1 k1 where one: "handle_write N l i ha pa s k = (l1, k1)" by (metis surj_pair)
  have ref: "refuses l ha" using assms(4,7) by (simp add: refuses_def)
  obtain e where e: "session_lookup (l_sessions l) (lc_session (slot_of l i)) = Some e"
    "se_last (st_entries (l_sessions l) ! e) = m" using assms(2) by (auto simp: marks_def)
  have l1: "l1 = snd (reply_err l i MSG_ERR_NO_REPLICAS (h_sequence ha))" "k1 = k"
    using one e assms(3,4,7) by (simp_all add: handle_write_def)
  have same: "same_writers l l1" by (simp add: l1)
  have len: "i < length (l_conns l1)" using same assms(1) unfolding same_writers_def by (metis length_map)
  have sess: "lc_session (slot_of l1 i) = lc_session (slot_of l i)"
    by (rule same_writers_by_session [OF same assms(1)])
  have two: "handle_write N l1 i hb pb s k = (l', k')" using assms(9) one l1(2) by simp
  have mark: "marks (l_sessions l1) (lc_session (slot_of l1 i)) = Some m"
    and lead: "\<not> l_is_follower l1" and log1: "marked l1 = marked l"
    using assms(2,3) same sess by (simp_all add: l1(1) same_writers_def)
  have moved: "marks (l_sessions l') (lc_session (slot_of l1 i)) \<noteq> Some m"
    using assms(5,6,10) sess by simp
  note w = local_write_stored [OF len mark lead less_trans [OF assms(5,6)] assms(8) two moved]
  have drop: "store_write (net_files N) (refuses l) s (lc_session (slot_of l i), ha, pa) (marked l, k) = (None, marked l, k)"
    using ref by (simp add: store_write_def)
  show ?thesis
  proof (intro conjI allI impI)
    obtain rec' x where st: "store_write (net_files N) (refuses l) s (lc_session (slot_of l i), hb, pb) (marked l, k)
        = (Some rec', x)" and rec': "r_client_seq rec' = h_sequence hb"
      using w by (cases "store_write (net_files N) (refuses l) s (lc_session (slot_of l i), hb, pb) (marked l, k)")
        (auto simp: same_writers_refuses [OF same] sess log1)
    show "\<exists>rec' x. store_writes (net_files N) (refuses l) s (map (by_session l) [(i, ha, pa), (i, hb, pb)]) (marked l, k)
        = ([rec'], x) \<and> r_client_seq rec' = h_sequence hb"
      by (intro exI [of _ rec'] exI [of _ x]) (simp add: drop st rec')
    show "a_due (lc_ack_local (slot_of l' i))" "h_sequence ha < a_client_seq (lc_ack_local (slot_of l' i))"
      using w less_le_trans [OF assms(6)] by simp_all
    fix hc :: msg_header_t and pc :: bytes
    assume hc: "h_sequence hc = h_sequence ha"
    have same': "same_writers l1 l'" using handle_write_stores [of l1 N i hb pb s k] two by simp
    have len': "i < length (l_conns l')" using same' len unfolding same_writers_def by (metis length_map)
    have "lc_session (slot_of l' i) = lc_session (slot_of l1 i)" by (rule same_writers_by_session [OF same' len])
    with w hc assms(6) have "store_writes (net_files N) (refuses l') s (map (by_session l') [(i, hc, pc)]) (marked l', k')
        = ([], marked l', k')"
      by (intro store_writes_idle) (simp add: less_imp_le)
    then show "let (l'', k'') = client_writes N s [(i, hc, pc)] (l', k') in marked l'' = marked l' \<and> k'' = k'"
      using client_writes_store [of "[(i, hc, pc)]" l' N s k'] len' by (simp add: split_beta)
  qed
qed

section \<open>Examples\<close>

text \<open>A loop with one connection, of session 9, which has written nothing yet.\<close>

definition loop_writing :: loop_t where
  "loop_writing = set_slot 2 (slot_reset\<lparr>lc_in_use := True, lc_session := 9\<rparr>)
     (loop_blank wal_example (session_observe session_table_init 9 0))"

abbreviation write_example :: "u16 \<Rightarrow> u64 \<Rightarrow> msg_header_t" where
  "write_example flags sq \<equiv> msg_header_new MSG_OP_WRITE MSG_RECORD_NONE flags 1 0 sq"

lemma mem_pwrite_ok:
  assumes "mf_index fd k = Some i"
  shows "fst (os_pwrite_full mem_kernel fd bs at k) = RESULT_OK"
proof -
  have "sys_pwrite64 mem_kernel fd bs at k = (Inr (length bs), mf_store i (write_at at bs (mf_view k fd)) k)"
    using assms by (simp add: mem_kernel_def)
  then show ?thesis
    by (cases "bs = []") (simp_all add: os_pwrite_full_def os_pwrite_full_loop.simps [of mem_kernel fd bs]
        os_pwrite_full_loop.simps [of mem_kernel fd "[]"])
qed

lemma mem_append_ok:
  assumes "rec_fits r p" "length p \<le> 8"
  obtains w rec' k where "wal_append mem_kernel wal_example r (Some p) (replicate 64 0) fs_example = (RESULT_OK, w, rec', k)"
proof -
  let ?r = "r\<lparr>r_seq := 1\<rparr>" let ?n = "length (rec_bytes ?r p)"
  have fits: "rec_fits ?r p" using assms(1) by (simp add: rec_fits_def)
  have n: "?n \<le> 64" using assms(2) by simp
  have size: "wal_rec_size (sint (r_len r)) = int ?n" "?n \<noteq> 0" using wal_rec_size_fits [OF fits] by simp_all
  have enc: "wal_rec_encode (replicate 64 0) ?r (Some p) = (int ?n, rec_bytes ?r p @ drop ?n (replicate 64 0), rec_written ?r p)"
    using n by (intro wal_rec_encode_eq [OF fits]) simp_all
  have "mf_index 10 fs_example = Some 0" by (simp add: mf_index_def fs_example_def)
  from mem_pwrite_ok [OF this, of "rec_bytes ?r p" 0]
  obtain k where pw: "os_pwrite_full mem_kernel 10 (rec_bytes ?r p) 0 fs_example = (RESULT_OK, k)"
    by (metis prod.collapse)
  have "\<exists>w rec' k. wal_append mem_kernel wal_example r (Some p) (replicate 64 0) fs_example = (RESULT_OK, w, rec', k)"
    using enc n pw size
    by (simp add: wal_append_def wal_seg_append_def wal_example_def seg_reset_def wal_seg_fits_def
        Let_def result_ok_def del: length_rec_bytes)
  with that show ?thesis by blast
qed

lemma loop_writing_facts:
  "length (l_conns loop_writing) = LOOP_MAX_CONNS" "lc_session (slot_of loop_writing 2) = 9"
  "l_wal loop_writing = wal_example" "\<not> l_is_follower loop_writing" "\<not> repl_live loop_writing"
  "marks (l_sessions loop_writing) 9 = Some 0"
  by (simp_all add: loop_writing_def loop_blank_def set_slot_def repl_live_def list_ex_iff
      marks_def session_lookup_def session_observe_def session_table_init_def slot_for_new_def)

lemma loop_writing_stores:
  assumes "flags = MSG_FLAG_ACK_REQ"
  obtains w k rec' where "store_write mem_kernel (refuses loop_writing) (replicate 64 0) (9, write_example flags 5, [1])
      (marked loop_writing, fs_example) = (Some rec', (w, (marks (l_sessions loop_writing))(9 \<mapsto> 5)), k)"
proof -
  obtain w rec' k where a: "wal_append mem_kernel wal_example (client_record 9 (write_example flags 5) [1]) (Some [1])
      (replicate 64 0) fs_example = (RESULT_OK, w, rec', k)"
    by (rule mem_append_ok [of "client_record 9 (write_example flags 5) [1]" "[1]"])
      (simp_all add: rec_fits_def client_record_def)
  have "\<not> refuses loop_writing (write_example flags 5)"
    using assms by (simp add: refuses_def loop_writing_facts msg_header_new_def)
  with a that show ?thesis by (simp add: store_write_def loop_writing_facts msg_header_new_def)
qed

abbreviation writes_example :: "(nat \<times> frame) list" where
  "writes_example \<equiv> [(2, write_example MSG_FLAG_ACK_REQ 5, [1]), (2, write_example MSG_FLAG_ACK_REQ 5, [1])]"

lemma writes_example_stored:
  obtains w k rec' where "store_writes (net_files net_example) (refuses loop_writing) (replicate 64 0)
      (map (by_session loop_writing) writes_example) (marked loop_writing, fs_example)
      = ([rec'], (w, (marks (l_sessions loop_writing))(9 \<mapsto> 5)), k)"
proof -
  obtain w k rec' where st: "store_write mem_kernel (refuses loop_writing) (replicate 64 0)
      (9, write_example MSG_FLAG_ACK_REQ 5, [1]) (marked loop_writing, fs_example)
      = (Some rec', (w, (marks (l_sessions loop_writing))(9 \<mapsto> 5)), k)"
    by (rule loop_writing_stores [OF refl])
  have dup: "store_write mem_kernel (refuses loop_writing) (replicate 64 0)
      (9, write_example MSG_FLAG_ACK_REQ 5, [1]) ((w, (marks (l_sessions loop_writing))(9 \<mapsto> 5)), k)
      = (None, (w, (marks (l_sessions loop_writing))(9 \<mapsto> 5)), k)"
    by (simp add: store_write_def msg_header_new_def)
  have "net_files net_example = mem_kernel" by (simp add: net_example_def)
  with that [of rec' w k] show ?thesis by (simp add: loop_writing_facts(2) st dup)
qed

theorem writes_refine_marks_witness:
  "marks (l_sessions (fst (client_writes net_example (replicate 64 0) writes_example (loop_writing, fs_example)))) 9 = Some 5"
proof -
  obtain w k rec' where st: "store_writes (net_files net_example) (refuses loop_writing) (replicate 64 0)
      (map (by_session loop_writing) writes_example) (marked loop_writing, fs_example)
      = ([rec'], (w, (marks (l_sessions loop_writing))(9 \<mapsto> 5)), k)" by (rule writes_example_stored)
  have "\<forall>wr \<in> set writes_example. fst wr < length (l_conns loop_writing)" by (simp add: loop_writing_facts)
  from writes_refine_marks [OF this, of net_example "replicate 64 0" fs_example, unfolded st]
  show ?thesis by (simp only: snd_conv prod.inject fun_upd_same)
qed

theorem writes_stored_once_witness:
  "wal_next_seq (l_wal (fst (client_writes net_example (replicate 64 0) writes_example (loop_writing, fs_example)))) = 2"
proof -
  obtain w k rec' where st: "store_writes (net_files net_example) (refuses loop_writing) (replicate 64 0)
      (map (by_session loop_writing) writes_example) (marked loop_writing, fs_example)
      = ([rec'], (w, (marks (l_sessions loop_writing))(9 \<mapsto> 5)), k)" by (rule writes_example_stored)
  obtain l' k' where run: "client_writes net_example (replicate 64 0) writes_example (loop_writing, fs_example) = (l', k')"
    by (metis surj_pair)
  have "\<forall>wr \<in> set writes_example. fst wr < length (l_conns loop_writing)" "wal_inv (l_wal loop_writing)"
    "unat (wal_next_seq (l_wal loop_writing)) + length writes_example < 2 ^ 64"
    by (simp_all add: loop_writing_facts wal_example_def wal_inv_def seg_ok_def seg_reset_def wal_next_seq_def)
  from writes_stored_once [OF this run st] show ?thesis
    unfolding run by (simp add: loop_writing_facts wal_example_def wal_next_seq_def seg_reset_def)
qed

text \<open>The session's first write asks for a second copy and is refused, the next one does not.\<close>

abbreviation refused_example :: "(nat \<times> frame) list" where
  "refused_example \<equiv> [(2, write_example (MSG_FLAG_ACK_REQ OR MSG_FLAG_REPLICATED) 4, [1]),
     (2, write_example MSG_FLAG_ACK_REQ 5, [1])]"

theorem refused_write_reported_durable_witness:
  "\<exists>l' k' rec' x. client_writes net_example (replicate 64 0) refused_example (loop_writing, fs_example) = (l', k')
     \<and> store_writes mem_kernel (refuses loop_writing) (replicate 64 0)
         (map (by_session loop_writing) refused_example) (marked loop_writing, fs_example) = ([rec'], x)
     \<and> r_client_seq rec' = 5 \<and> a_due (lc_ack_local (slot_of l' 2)) \<and> 4 < a_client_seq (lc_ack_local (slot_of l' 2))"
proof -
  obtain l' k' where run: "client_writes net_example (replicate 64 0) refused_example (loop_writing, fs_example) = (l', k')"
    by (metis surj_pair)
  obtain w k rec' where st: "store_write mem_kernel (refuses loop_writing) (replicate 64 0)
      (9, write_example MSG_FLAG_ACK_REQ 5, [1]) (marked loop_writing, fs_example)
      = (Some rec', (w, (marks (l_sessions loop_writing))(9 \<mapsto> 5)), k)"
    by (rule loop_writing_stores [OF refl])
  have net: "net_files net_example = mem_kernel" by (simp add: net_example_def)
  have ref: "refuses loop_writing (write_example (MSG_FLAG_ACK_REQ OR MSG_FLAG_REPLICATED) 4)"
    by (simp add: refuses_def loop_writing_facts msg_header_new_def)
  have drop: "store_write mem_kernel (refuses loop_writing) (replicate 64 0)
      (9, write_example (MSG_FLAG_ACK_REQ OR MSG_FLAG_REPLICATED) 4, [1]) x = (None, x)" for x
    using ref by (simp add: store_write_def split_beta)
  have "marks (l_sessions l') (lc_session (slot_of loop_writing 2)) = Some 5"
    using client_writes_store [of refused_example loop_writing net_example "replicate 64 0" fs_example] st run net
    by (simp only: store_writes.simps list.map fst_conv snd_conv loop_writing_facts(2) drop net Let_def prod.case)
      (simp add: loop_writing_facts(1))
  moreover have "2 < length (l_conns loop_writing)" "marks (l_sessions loop_writing) (lc_session (slot_of loop_writing 2)) = Some 0"
    by (simp_all add: loop_writing_facts)
  ultimately show ?thesis
    using refused_write_reported_durable [of 2 loop_writing 0, OF _ _ loop_writing_facts(4,5) _ _ _ _ run] run
    by (auto simp: msg_header_new_def net_example_def)
qed

end
