(* ===== verification/Loop_Delivery.thy ===== *)
theory Loop_Delivery
  imports Loop_Writes
begin

text \<open>
  What the log's readers get. A subscriber is sent one NOTIFY frame for each record of its key
  that its cursor passes, in order; a replica is sent the records its cursor passes as they
  are in the log; and a follower appends the records of its leader's stream, each at its
  leader's sequence and with its leader's bytes.
\<close>

section \<open>Subscribers\<close>

definition notify_frame :: "bytes \<Rightarrow> bytes" where
  "notify_frame b = (let r = rec_of b in
     frame_bytes (msg_header_new MSG_OP_NOTIFY (r_record_type r) 0 (r_len r) (r_partition_key r) (r_seq r),
       take (unat (r_len r)) (drop WAL_REC_HEADER_SIZE b)))"

text \<open>A block that is a whole record: its size, and room for its frame where it fits itself.\<close>

lemma block_size:
  assumes "int (length b) = wal_rec_size (sint (r_len (rec_of b)))" "b \<noteq> []"
  shows "WAL_REC_HEADER_SIZE + unat (r_len (rec_of b)) \<le> length b" "sint (r_len (rec_of b)) = int (unat (r_len (rec_of b)))"
proof -
  have ne: "wal_rec_size (sint (r_len (rec_of b))) \<noteq> 0" using assms by (metis length_0_conv of_nat_eq_0_iff)
  then have le: "unat (r_len (rec_of b)) \<le> WAL_MAX_PAYLOAD" by (simp add: wal_rec_size_zero_iff)
  then show "sint (r_len (rec_of b)) = int (unat (r_len (rec_of b)))" by (intro sint_small) simp
  have "length b = WAL_REC_HEADER_SIZE + (unat (r_len (rec_of b)) + 7) div 8 * 8"
    using assms(1) wal_rec_size_eq [OF le] by simp
  then show "WAL_REC_HEADER_SIZE + unat (r_len (rec_of b)) \<le> length b" by linarith
qed

lemma length_notify_frame:
  assumes "int (length b) = wal_rec_size (sint (r_len (rec_of b)))" "b \<noteq> []"
  shows "length (notify_frame b) = MSG_HEADER_SIZE + unat (r_len (rec_of b))" "length (notify_frame b) \<le> length b"
  using block_size [OF assms] by (simp_all add: notify_frame_def Let_def)

lemma reply_record_block:
  assumes b: "int (length b) = wal_rec_size (sint (r_len (rec_of b)))" "b \<noteq> []"
    and room: "length b \<le> lc_send_cap c - length (lc_send c)"
  shows "reply_record c (rec_of b) (drop WAL_REC_HEADER_SIZE b @ rest)
    = (True, c\<lparr>lc_send := lc_send c @ notify_frame b\<rparr>)"
proof -
  define n where "n = unat (r_len (rec_of b))"
  note sz = block_size [OF b, folded n_def]
  have w: "word_of_int (int n) = r_len (rec_of b)" by (simp add: n_def)
  have "take n (drop 56 b @ rest) = take n (drop 56 b)" using sz(1) by simp
  moreover have "\<not> int (lc_send_cap c - length (lc_send c)) < int MSG_HEADER_SIZE + int n"
    "\<not> lc_send_cap c - length (lc_send c) < MSG_HEADER_SIZE" using sz(1) room by simp_all
  ultimately show ?thesis
    using w by (simp add: reply_record_def Let_def sz(2) msg_encode_header_def notify_frame_def frame_bytes_def n_def [symmetric])
qed

lemma push_records_blocks:
  "rec_blocks limit sq bss \<Longrightarrow> length (concat bss) \<le> lc_send_cap c - length (lc_send c) \<Longrightarrow>
     push_records all_keys key (pre @ concat bss) (length pre) c n =
       (c\<lparr>lc_send := lc_send c @ concat (map notify_frame (filter (\<lambda>b. all_keys \<or> r_partition_key (rec_of b) = key) bss))\<rparr>,
        n + of_nat (length (filter (\<lambda>b. all_keys \<or> r_partition_key (rec_of b) = key) bss)))"
proof (induction bss arbitrary: pre c n sq)
  case Nil
  then show ?case by (simp add: push_records.simps)
next
  case (Cons b bss)
  have b: "int (length b) = wal_rec_size (sint (r_len (rec_of b)))" "b \<noteq> []" and rest: "rec_blocks limit (sq + 1) bss"
    using Cons.prems(1) by simp_all
  note sz = block_size [OF b] and fl = length_notify_frame [OF b]
  have dec: "wal_rec_decode (b @ concat bss) = Some (rec_of b)"
    using sz(1) rec_of_take [of 56 "b @ concat bss"] rec_of_take [of 56 b] by (simp add: wal_rec_decode_def)
  have room: "length b \<le> lc_send_cap c - length (lc_send c)" using Cons.prems(2) by simp
  let ?w = "all_keys \<or> r_partition_key (rec_of b) = key"
  define c1 where "c1 = (if ?w then c\<lparr>lc_send := lc_send c @ notify_frame b\<rparr> else c)"
  define n1 where "n1 = (if ?w then n + 1 else n)"
  have "push_records all_keys key (pre @ concat (b # bss)) (length pre) c n
      = push_records all_keys key ((pre @ b) @ concat bss) (length (pre @ b)) c1 n1"
    using b sz(1) dec reply_record_block [OF b room, of "concat bss"]
    by (subst push_records.simps) (simp add: Let_def c1_def n1_def b(1) [symmetric])
  also have "\<dots> = (c1\<lparr>lc_send := lc_send c1 @ concat (map notify_frame (filter (\<lambda>b. all_keys \<or> r_partition_key (rec_of b) = key) bss))\<rparr>,
      n1 + of_nat (length (filter (\<lambda>b. all_keys \<or> r_partition_key (rec_of b) = key) bss)))"
    using Cons.prems(2) fl(2) by (intro Cons.IH [OF rest]) (auto simp: c1_def)
  finally show ?case by (simp add: c1_def n1_def)
qed

text \<open>One turn of a subscriber that is being served.\<close>

definition served :: "loop_conn_t \<Rightarrow> bool" where
  "served c \<longleftrightarrow> lc_in_use c \<and> \<not> lc_closing c \<and> \<not> su_waiting (lc_sub c) \<and> su_active (lc_sub c) \<and> \<not> lc_want_out c
     \<and> length (lc_send c) + MSG_HEADER_SIZE \<le> lc_send_cap c
     \<and> \<not> (su_once (lc_sub c) \<and> c_next_seq (su_cursor (lc_sub c)) > su_until (lc_sub c))"

definition wanted :: "loop_sub_t \<Rightarrow> bytes \<Rightarrow> bool" where
  "wanted sub b \<longleftrightarrow> su_all_keys sub \<or> r_partition_key (rec_of b) = su_key sub"

definition sub_limit :: "loop_sub_t \<Rightarrow> u64 \<Rightarrow> u64" where
  "sub_limit sub durable = (if su_once sub \<and> durable > su_until sub then su_until sub else durable)"

lemma subs_push_slot_served:
  fixes l :: loop_t and i :: nat
  defines "c \<equiv> slot_of l i"
  assumes i: "i < length (l_conns l)" and served: "served c"
    and run: "subs_push_slot N scratch_len i (l, durable, k) = (l', durable', k')"
    and ok: "\<not> lc_closing (slot_of l' i)"
  shows "\<exists>bss. rec_blocks (sub_limit (lc_sub c) durable) (c_next_seq (su_cursor (lc_sub c))) bss
    \<and> c_next_seq (su_cursor (lc_sub (slot_of l' i))) = c_next_seq (su_cursor (lc_sub c)) + of_nat (length bss)
    \<and> lc_send (slot_of l' i) = lc_send c @ concat (map notify_frame (filter (wanted (lc_sub c)) bss))
    \<and> l_notified l' = l_notified l + of_nat (length (filter (wanted (lc_sub c)) bss))"
proof -
  let ?sub = "lc_sub c" let ?room = "lc_send_cap c - length (lc_send c)"
  let ?want = "if ?room > scratch_len then scratch_len else ?room"
  obtain r cur got k1 where rd: "wal_cursor_read (net_files N) (l_wal l) (su_cursor ?sub) (sub_limit ?sub durable) ?want k
      = (r, cur, got, k1)" by (metis prod_cases4)
  define c1 where "c1 = c\<lparr>lc_sub := ?sub\<lparr>su_cursor := cur\<rparr>\<rparr>"
  have room: "\<not> ?room < MSG_HEADER_SIZE" using served by (auto simp: served_def)
  have guards: "(\<not> lc_in_use c \<or> lc_closing c) = False" "su_waiting ?sub = False"
    "(\<not> su_active ?sub \<or> lc_want_out c) = False"
    "(su_once ?sub \<and> c_next_seq (su_cursor ?sub) > su_until ?sub) = False"
    using served by (auto simp: served_def)
  have step: "subs_push_slot N scratch_len i (l, durable, k) =
      (let l1 = set_slot i c1 l in
       if \<not> result_ok r then
         (let (_, l2) = reply_err l1 i MSG_ERR_NO_HISTORY (c_next_seq cur)
          in (set_slot i ((slot_of l2 i)\<lparr>lc_closing := True\<rparr>) l2, sub_limit ?sub durable, k1))
       else let l2 = (if got \<noteq> [] then l1\<lparr>l_progress := True\<rparr> else l1);
                (c2, n) = push_records (su_all_keys ?sub) (su_key ?sub) got 0 c1 (l_notified l2)
            in ((set_slot i c2 l2)\<lparr>l_notified := n\<rparr>, sub_limit ?sub durable, k1))"
    using rd by (simp only: subs_push_slot_def c_def [symmetric] prod.case Let_def guards room if_False c1_def
        sub_limit_def [symmetric])
  show ?thesis
  proof (cases "result_ok r")
    case False
    then show ?thesis using step run i ok by (auto simp: Let_def split_beta reply_err_def reply_err_text_def)
  next
    case True
    then have "r = RESULT_OK" by (simp add: result_ok_def split: result_t.splits)
    from wal_cursor_read_blocks [OF rd [unfolded this]] obtain bss where got: "got = concat bss"
      and blk: "rec_blocks (sub_limit ?sub durable) (c_next_seq (su_cursor ?sub)) bss"
      and fit: "length got \<le> ?want" and nx: "c_next_seq cur = c_next_seq (su_cursor ?sub) + of_nat (length bss)" by blast
    have "length (concat bss) \<le> lc_send_cap c1 - length (lc_send c1)"
      using fit got by (auto simp: c1_def split: if_splits)
    from push_records_blocks [OF blk this, of "su_all_keys ?sub" "su_key ?sub" "[]"] got
    have push: "push_records (su_all_keys ?sub) (su_key ?sub) got 0 c1 n =
        (c1\<lparr>lc_send := lc_send c @ concat (map notify_frame (filter (wanted ?sub) bss))\<rparr>,
         n + of_nat (length (filter (wanted ?sub) bss)))" for n
      by (simp add: c1_def wanted_def [abs_def])
    have "l' = (set_slot i (c1\<lparr>lc_send := lc_send c @ concat (map notify_frame (filter (wanted ?sub) bss))\<rparr>)
        (if got \<noteq> [] then (set_slot i c1 l)\<lparr>l_progress := True\<rparr> else set_slot i c1 l))
        \<lparr>l_notified := l_notified l + of_nat (length (filter (wanted ?sub) bss))\<rparr>"
      using step run True push by (auto simp: Let_def set_slot_def)
    then show ?thesis using blk nx i by (intro exI [of _ bss]) (simp add: c1_def)
  qed
qed

lemma beside_core:
  "beside i l l1 \<Longrightarrow> l_wal l2 = l_wal l1 \<Longrightarrow> l_tick l2 = l_tick l1 \<Longrightarrow> l_conns l2 = l_conns l1 \<Longrightarrow> beside i l l2"
  by (simp add: beside_def)

lemma reply_err_beside: "beside i l l1 \<Longrightarrow> beside i l (snd (reply_err l1 i code sq))"
  by (rule beside_trans [OF _ beside_reply_err])

lemma subs_push_slot_beside:
  assumes "subs_push_slot N scratch_len i (l, durable, k) = (l', durable', k')"
  shows "beside i l l' \<and> durable' \<le> durable"
proof -
  have prog: "beside i l (m\<lparr>l_progress := x\<rparr>) = beside i l m" "beside i l (m\<lparr>l_notified := y\<rparr>) = beside i l m" for m x y
    by (simp_all add: beside_def)
  have err: "beside i l (snd (reply_err (set_slot i c l) i code sq))" for c code sq
    by (rule reply_err_beside) simp
  show ?thesis
    using assms err
    by (auto simp: subs_push_slot_def Let_def split_beta prog split: if_splits)
qed

lemma rec_blocks_mono: "rec_blocks a sq bss \<Longrightarrow> a \<le> b \<Longrightarrow> rec_blocks b sq bss"
  by (induction a sq bss rule: rec_blocks.induct) auto

lemma sub_limit_mono: "a \<le> b \<Longrightarrow> sub_limit sub a \<le> sub_limit sub b"
  by (auto simp: sub_limit_def)

lemma subs_push_slots_beside:
  "fold (subs_push_slot N scratch_len) js (l, durable, k) = (l', durable', k') \<Longrightarrow> i \<notin> set js \<Longrightarrow>
     l_wal l' = l_wal l \<and> length (l_conns l') = length (l_conns l) \<and> slot_of l' i = slot_of l i \<and> durable' \<le> durable"
proof (induction js arbitrary: l durable k)
  case (Cons j js)
  obtain l1 d1 k1 where one: "subs_push_slot N scratch_len j (l, durable, k) = (l1, d1, k1)" by (metis prod_cases3)
  from subs_push_slot_beside [OF one] Cons.prems(2)
  have "l_wal l1 = l_wal l" "length (l_conns l1) = length (l_conns l)" "slot_of l1 i = slot_of l i" "d1 \<le> durable"
    by (simp_all add: beside_def)
  with Cons.IH [of l1 d1 k1] Cons.prems one show ?case by auto
qed simp

lemma split_slots: "i < n \<Longrightarrow> [0..<n] = [0..<i] @ i # [Suc i..<n]"
  using upt_add_eq_append [of 0 i "n - i"] by (simp add: upt_conv_Cons)

text \<open>C8. A subscriber misses nothing and sees nothing early. In the pass over all connections,
  one that is being served and is not dropped is sent exactly one NOTIFY frame, in order, for
  each record of the key it follows among those its cursor moves past, each frame complete;
  those records are consecutive from where the cursor stood, all of them are durable, and
  none is past where a READ ends.\<close>

theorem subscriber_gets_every_record:
  assumes "i < LOOP_MAX_CONNS" "length (l_conns l) = LOOP_MAX_CONNS" "served (slot_of l i)"
    and "subs_push N scratch_len l k = (l', k')" "\<not> lc_closing (slot_of l' i)"
  shows "\<exists>bss. rec_blocks (sub_limit (lc_sub (slot_of l i)) (wal_durable_seq (l_wal l))) (c_next_seq (su_cursor (lc_sub (slot_of l i)))) bss
    \<and> c_next_seq (su_cursor (lc_sub (slot_of l' i))) = c_next_seq (su_cursor (lc_sub (slot_of l i))) + of_nat (length bss)
    \<and> lc_send (slot_of l' i) = lc_send (slot_of l i) @ concat (map notify_frame (filter (wanted (lc_sub (slot_of l i))) bss))"
proof -
  let ?f = "subs_push_slot N scratch_len"
  obtain l1 d1 k1 where before: "fold ?f [0..<i] (l, wal_durable_seq (l_wal l), k) = (l1, d1, k1)" by (metis prod_cases3)
  obtain l2 d2 k2 where own: "?f i (l1, d1, k1) = (l2, d2, k2)" by (metis prod_cases3)
  obtain l3 d3 k3 where after: "fold ?f [Suc i..<LOOP_MAX_CONNS] (l2, d2, k2) = (l3, d3, k3)" by (metis prod_cases3)
  have l': "l' = l3"
    using assms(4) before own after split_slots [OF assms(1)]
    by (simp only: subs_push_def fold_append fold.simps o_apply prod.case Let_def prod.inject)
  have b: "l_wal l1 = l_wal l" "length (l_conns l1) = LOOP_MAX_CONNS" "slot_of l1 i = slot_of l i"
    "d1 \<le> wal_durable_seq (l_wal l)"
    using subs_push_slots_beside [OF before, of i] assms(2) by simp_all
  have a: "slot_of l' i = slot_of l2 i" using subs_push_slots_beside [OF after, of i] l' by simp
  have "i < length (l_conns l1)" "served (slot_of l1 i)" "\<not> lc_closing (slot_of l2 i)" using b assms a by simp_all
  from subs_push_slot_served [OF this(1,2) own this(3)] show ?thesis
    using rec_blocks_mono [OF _ sub_limit_mono [OF b(4)]] unfolding a b(3) by blast
qed

text \<open>A subscriber of key 7 at sequence 1, on a log whose one record has that key.\<close>

definition loop_following :: loop_t where
  "loop_following = set_slot 2 (slot_reset\<lparr>lc_in_use := True,
       lc_sub := (lc_sub slot_reset)\<lparr>su_cursor := cursor_example, su_key := 7, su_active := True\<rparr>\<rparr>)
     (loop_blank (wal_example\<lparr>w_active := (w_active wal_example)\<lparr>s_durable_seq := 5\<rparr>\<rparr>) session_table_init)"

lemma idle_slots: "\<forall>j \<in> set js. \<not> lc_in_use (slot_of l j) \<Longrightarrow> fold (subs_push_slot N n) js (l, durable, k) = (l, durable, k)"
proof (induction js)
  case (Cons j js)
  then have "subs_push_slot N n j (l, durable, k) = (l, durable, k)" by (simp add: subs_push_slot_def Let_def)
  with Cons show ?case by simp
qed simp

theorem subscriber_gets_every_record_witness:
  "\<exists>bss. bss \<noteq> [] \<and> rec_blocks 5 1 bss \<and> lc_send (slot_of (fst (subs_push net_example 100 loop_following fs_one_record)) 2)
     = concat (map notify_frame (filter (wanted (lc_sub (slot_of loop_following 2))) bss))"
proof -
  let ?c = "slot_of loop_following 2"
  have c: "?c = slot_reset\<lparr>lc_in_use := True,
      lc_sub := (lc_sub slot_reset)\<lparr>su_cursor := cursor_example, su_key := 7, su_active := True\<rparr>\<rparr>"
    by (simp add: loop_following_def loop_blank_def)
  have len: "length (l_conns loop_following) = LOOP_MAX_CONNS" by (simp add: loop_following_def loop_blank_def)
  have wal: "w_seg_base (l_wal loop_following) = [1]" "wal_durable_seq (l_wal loop_following) = 5"
    by (simp_all add: loop_following_def loop_blank_def wal_example_def wal_durable_seq_def set_slot_def)
  have served: "served ?c" by (simp add: c served_def slot_reset_def)
  have ne: "rec_image r \<noteq> []" for r by (auto dest: arg_cong [where f = length])
  have blocks: "rec_blocks 5 1 [rec_image (rec_at 1 7)]"
    using rec_codec.of_image [of "rec_at 1 7" "[]"] ne by (simp add: rec_at_def wal_rec_size_def)
  define c1 where "c1 = ?c\<lparr>lc_sub := (lc_sub ?c)\<lparr>su_cursor := cursor_example\<lparr>c_off := 56, c_next_seq := 2\<rparr>\<rparr>\<rparr>"
  from push_records_blocks [OF blocks, of c1 False 7 "[]"]
  obtain x n where push: "push_records False 7 (rec_image (rec_at 1 7)) 0 c1 (l_notified loop_following) = (c1\<lparr>lc_send := x\<rparr>, n)"
    by (auto simp: c1_def c slot_reset_def)
  have files: "net_files net_example = mem_kernel" by (simp add: net_example_def)
  have noted: "l_notified (set_slot i y m) = l_notified m" for i y m by (simp add: set_slot_def)
  obtain l2 where own: "subs_push_slot net_example 100 2 (loop_following, 5, fs_one_record) = (l2, 5, fs_one_record)"
    and l2: "slot_of l2 2 = c1\<lparr>lc_send := x\<rparr>" "l_wal l2 = l_wal loop_following"
    using cursor_example_read [OF wal(1)] push
    by (simp add: subs_push_slot_def Let_def c [simplified] slot_reset_def files c1_def noted ne result_ok_def
        cursor_example_def len)
  have idle: "\<not> lc_in_use (slot_of loop_following j)" if "j \<noteq> 2" "j < LOOP_MAX_CONNS" for j
    using that by (simp add: loop_following_def loop_blank_def slot_reset_def)
  have "beside 2 loop_following l2" using subs_push_slot_beside [OF own] by simp
  then have "\<forall>j \<in> set [Suc 2..<LOOP_MAX_CONNS]. \<not> lc_in_use (slot_of l2 j)"
    using idle by (simp add: beside_def)
  from idle_slots [OF this] have after: "fold (subs_push_slot net_example 100) [Suc 2..<LOOP_MAX_CONNS] (l2, 5, fs_one_record)
    = (l2, 5, fs_one_record)" .
  have before: "fold (subs_push_slot net_example 100) [0..<2] (loop_following, 5, fs_one_record)
    = (loop_following, 5, fs_one_record)" by (rule idle_slots) (use idle in simp)
  have "[0..<LOOP_MAX_CONNS] = [0..<2] @ 2 # [Suc 2..<LOOP_MAX_CONNS]" by (rule split_slots) simp
  then have run: "subs_push net_example 100 loop_following fs_one_record = (l2, fs_one_record)"
    by (simp only: subs_push_def wal(2) fold_append fold.simps o_apply before own after prod.case Let_def)
  have closing: "\<not> lc_closing (slot_of l2 2)" by (simp add: l2 c1_def c slot_reset_def)
  obtain bss where b: "rec_blocks 5 1 bss" "2 = 1 + (of_nat (length bss) :: u64)"
    "lc_send (slot_of l2 2) = concat (map notify_frame (filter (wanted (lc_sub ?c)) bss))"
    using subscriber_gets_every_record [OF _ len served run closing] wal(2)
    by (auto simp: l2 c1_def c slot_reset_def cursor_example_def sub_limit_def)
  from b(2) have "bss \<noteq> []" by auto
  with b(1,3) show ?thesis using run by (intro exI [of _ bss]) simp
qed

text \<open>A request leaves the end of an earlier one standing: a connection whose READ is finished and
  that then subscribes beyond where the READ ended keeps the READ's end, so its subscription is
  closed with a last frame on its first turn and follows nothing.\<close>

lemma subscribe_keeps_read_end:
  assumes "i < length (l_conns l)" "handle_subscribe N l i h p n k = (l', k')"
  shows "su_once (lc_sub (slot_of l' i)) = su_once (lc_sub (slot_of l i))
    \<and> su_until (lc_sub (slot_of l' i)) = su_until (lc_sub (slot_of l i))"
  using assms
  by (auto simp: handle_subscribe_def Let_def split_beta reply_err_def reply_err_text_def reply_def arm_timer_now_def
      split: option.splits if_splits prod.splits)

lemma subscribe_after_read_ends:
  assumes "i < length (l_conns l)" "su_once (lc_sub (slot_of l i))" "handle_subscribe N l i h p n k = (l', k')"
    and "served (slot_of l' i\<lparr>lc_sub := (lc_sub (slot_of l' i))\<lparr>su_once := False\<rparr>\<rparr>)" "length (l_conns l') = length (l_conns l)"
    and "c_next_seq (su_cursor (lc_sub (slot_of l' i))) > su_until (lc_sub (slot_of l i))"
  shows "\<not> su_active (lc_sub (slot_of (fst (subs_push_slot N scratch_len i (l', durable, k''))) i))"
  using assms subscribe_keeps_read_end [OF assms(1,3)]
  by (auto simp: subs_push_slot_def Let_def split_beta served_def reply_def)

text \<open>The limit of a READ stays for the slots behind it in the same pass.\<close>

lemma read_narrows_the_pass:
  assumes "served (slot_of l i)" "su_once (lc_sub (slot_of l i))" "su_until (lc_sub (slot_of l i)) < durable"
  shows "fst (snd (subs_push_slot N scratch_len i (l, durable, k))) = su_until (lc_sub (slot_of l i))"
  using assms by (auto simp: subs_push_slot_def Let_def split_beta served_def)

section \<open>The follower\<close>

text \<open>A leader's records, with the payloads, as one payload of its stream; and what a follower
  does with them, one append and one session at a time. \<open>True\<close> says that all were applied.\<close>

abbreviation stream_bytes :: "(wal_rec_t \<times> bytes) list \<Rightarrow> bytes" where
  "stream_bytes rs \<equiv> concat (map (\<lambda>(r, p). rec_bytes r p) rs)"

primrec apply_all ::
    "'k kernel \<Rightarrow> bytes \<Rightarrow> (wal_rec_t \<times> bytes) list \<Rightarrow> wal_t \<Rightarrow> session_table_t \<Rightarrow> 'k
       \<Rightarrow> bool \<times> wal_t \<times> session_table_t \<times> 'k" where
  "apply_all K s [] w t k = (True, w, t, k)"
| "apply_all K s (rp # rs) w t k =
     (let (res, w, r, k) = wal_append K w (rec_written (fst rp) (snd rp)) (Some (snd rp)) s k
      in if res = RESULT_OK then apply_all K s rs w (session_from_record r t) k else (False, w, t, k))"

lemma wal_append_prefix:
  assumes "rec_fits r p"
  shows "wal_append K w r (Some (p @ rest)) s k = wal_append K w r (Some p) s k"
  unfolding wal_append_def by (simp only: wal_seg_append_prefix [OF assms])

text \<open>What a leader encoded, a follower encodes again: the same bytes.\<close>

lemma rec_written_fits [simp]: "rec_fits (rec_written r p) p = rec_fits r p"
  by (simp add: rec_fits_def)

lemma rec_bytes_written: "rec_bytes (rec_written r p) p = rec_bytes r p"
  by (simp add: rec_bytes_def rec_body_def rec_written_def rec_body_image_def)

lemma rec_written_again: "rec_written (rec_written r p) p = rec_written r p"
  by (simp add: rec_written_def rec_body_def rec_body_image_def)

lemma reencode_identity:
  "rec_fits r p \<Longrightarrow> length (rec_bytes r p) \<le> length s \<Longrightarrow>
     wal_rec_encode s (rec_written r p) (Some p)
       = (int (length (rec_bytes r p)), rec_bytes r p @ drop (length (rec_bytes r p)) s, rec_written r p)"
  using wal_rec_encode_eq [of "rec_written r p" p s "Some p"] by (simp add: rec_bytes_written rec_written_again)

lemma repl_apply_record:
  assumes fits: "rec_fits r p" and inv: "wal_inv (l_wal l)" "wal_next_seq (l_wal l) \<noteq> - 1"
    and sq: "r_seq r = wal_next_seq (l_wal l)"
    and a: "wal_append (net_files N) (l_wal l) (rec_written r p) (Some p) s k = (res, w, r', k')"
  shows "repl_apply N (rec_bytes r p @ rest) s l k =
    (if res = RESULT_OK then repl_apply N rest s
        (l\<lparr>l_wal := w, l_sessions := session_from_record r' (l_sessions l), l_repl_last_err := 0,
           l_wal_dirty := True, l_repl_records := l_repl_records l + 1\<rparr>) k'
     else (l\<lparr>l_wal := w, l_repl_closing := True\<rparr>, k'))"
proof -
  define x n where "x = rec_bytes r p @ rest" and "n = length (rec_bytes r p)"
  have x: "x \<noteq> []" "n \<noteq> 0" "n \<le> length x" "drop n x = rest"
    by (auto simp: x_def n_def dest: arg_cong [where f = length])
  have size: "wal_rec_size (sint (r_len (rec_written r p))) = int (length (rec_bytes r p))"
    using wal_rec_size_fits [OF fits] by simp
  have pl: "drop WAL_REC_HEADER_SIZE (rec_bytes r p @ rest) = p @ replicate (rec_padding (length p)) 0 @ rest"
    by (simp add: rec_bytes_image)
  have "wal_append (net_files N) (l_wal l) (rec_written r p) (Some (drop WAL_REC_HEADER_SIZE (rec_bytes r p @ rest))) s k
      = (res, w, r', k')"
    unfolding pl using fits by (subst wal_append_prefix) (simp_all add: a)
  moreover have "res = RESULT_OK \<Longrightarrow> r_seq r' = wal_next_seq (l_wal l)"
    using wal_append_step [OF inv a] by simp
  ultimately have at: "wal_append_at (net_files N) (l_wal l) (rec_written r p)
      (Some (drop WAL_REC_HEADER_SIZE (rec_bytes r p @ rest))) s k = (res, w, r', k')"
    by (auto simp: wal_append_at_def Let_def sq result_ok_def split: result_t.split)
  show ?thesis
    using x size at sq wal_rec_verify_bytes [OF fits, of rest] wal_rec_decode_bytes [of r p rest]
    unfolding x_def [symmetric] n_def [symmetric]
    by (subst repl_apply.simps) (simp add: Let_def result_ok_def split: result_t.split)
qed

text \<open>Bytes that do not begin with the record that should come next.\<close>

definition damaged :: "bytes \<Rightarrow> u64 \<Rightarrow> bool" where
  "damaged x sq \<longleftrightarrow> x \<noteq> [] \<and> (case wal_rec_decode x of None \<Rightarrow> True
     | Some r \<Rightarrow> wal_rec_size (sint (r_len r)) = 0 \<or> wal_rec_size (sint (r_len r)) > int (length x)
         \<or> \<not> wal_rec_verify x r \<or> r_seq r \<noteq> sq)"

lemma repl_apply_nil [simp]: "repl_apply N [] s l k = (l, k)"
  by (simp add: repl_apply.simps [of N "[]"])

lemma repl_apply_damaged:
  "damaged x (wal_next_seq (l_wal l)) \<Longrightarrow> repl_apply N x s l k = (l\<lparr>l_repl_closing := True\<rparr>, k)"
  by (subst repl_apply.simps) (auto simp: damaged_def Let_def split: option.splits)

lemma repl_apply_rest:
  assumes "rest = [] \<or> damaged rest (wal_next_seq (l_wal l))"
  shows "repl_apply N rest s l k = (if rest = [] then l else l\<lparr>l_repl_closing := True\<rparr>, k)"
proof (cases "rest = []")
  case False
  then have "damaged rest (wal_next_seq (l_wal l))" using assms by simp
  then show ?thesis using False by (simp only: repl_apply_damaged if_False)
qed simp

lemma repl_apply_stream:
  "\<forall>(r, p) \<in> set rs. rec_fits r p \<Longrightarrow> \<forall>j < length rs. r_seq (fst (rs ! j)) = wal_next_seq (l_wal l) + of_nat j \<Longrightarrow>
   wal_inv (l_wal l) \<Longrightarrow> unat (wal_next_seq (l_wal l)) + length rs < 2 ^ 64 \<Longrightarrow> \<not> l_repl_closing l \<Longrightarrow>
   rest = [] \<or> damaged rest (wal_next_seq (l_wal l) + of_nat (length rs)) \<Longrightarrow>
   repl_apply N (stream_bytes rs @ rest) s l k = (l', k') \<Longrightarrow>
     \<exists>ok. apply_all (net_files N) s rs (l_wal l) (l_sessions l) k = (ok, l_wal l', l_sessions l', k')
       \<and> l_repl_closing l' = (\<not> ok \<or> rest \<noteq> []) \<and> wal_inv (l_wal l')
       \<and> (ok \<longrightarrow> wal_next_seq (l_wal l') = wal_next_seq (l_wal l) + of_nat (length rs)
            \<and> l_repl_records l' = l_repl_records l + of_nat (length rs) \<and> (rs \<noteq> [] \<longrightarrow> l_wal_dirty l'))"
proof (induction rs arbitrary: l k)
  case Nil
  from Nil.prems(6) have "rest = [] \<or> damaged rest (wal_next_seq (l_wal l))" by simp
  note repl_apply_rest [OF this, of N s k]
  then have "l' = (if rest = [] then l else l\<lparr>l_repl_closing := True\<rparr>)" "k' = k"
    using Nil.prems(7) by simp_all
  with Nil.prems(3,5) show ?case by (intro exI [of _ True]) simp
next
  case (Cons rp rs)
  obtain r p where rp: "rp = (r, p)" by (metis surj_pair)
  obtain res w r' k1 where a: "wal_append (net_files N) (l_wal l) (rec_written r p) (Some p) s k = (res, w, r', k1)"
    by (metis prod_cases4)
  have fits: "rec_fits r p" using Cons.prems(1) by (simp add: rp)
  have sq: "r_seq r = wal_next_seq (l_wal l)" using Cons.prems(2) [rule_format, of 0] by (simp add: rp)
  have nx: "wal_next_seq (l_wal l) \<noteq> - 1" using Cons.prems(4) by (auto simp: unsigned_minus_1_eq_mask mask_eq_exp_minus_1)
  note step = repl_apply_record [OF fits Cons.prems(3) nx sq a, of "stream_bytes rs @ rest"]
  show ?case
  proof (cases "res = RESULT_OK")
    case False
    have "wal_inv w" using wal_append_step [OF Cons.prems(3) nx a] by simp
    moreover have "stream_bytes (rp # rs) @ rest = rec_bytes r p @ stream_bytes rs @ rest" by (simp add: rp)
    then have "(l', k') = (l\<lparr>l_wal := w, l_repl_closing := True\<rparr>, k1)"
      using step False Cons.prems(7) by (simp only: if_False)
    ultimately show ?thesis using a False by (intro exI [of _ False]) (simp add: rp)
  next
    case True
    define l1 where "l1 = l\<lparr>l_wal := w, l_sessions := session_from_record r' (l_sessions l), l_repl_last_err := 0,
           l_wal_dirty := True, l_repl_records := l_repl_records l + 1\<rparr>"
    have w: "wal_inv w" "wal_next_seq w = wal_next_seq (l_wal l) + 1"
      using wal_append_step [OF Cons.prems(3) nx a] True by simp_all
    then have un: "unat (wal_next_seq w) = unat (wal_next_seq (l_wal l)) + 1"
      using nx Cons.prems(4) by (simp add: unat_word_ariths)
    have next_seqs: "\<forall>j < length rs. r_seq (fst (rs ! j)) = wal_next_seq (l_wal l1) + of_nat j"
    proof (intro allI impI)
      fix j assume "j < length rs"
      with Cons.prems(2) [rule_format, of "Suc j"] show "r_seq (fst (rs ! j)) = wal_next_seq (l_wal l1) + of_nat j"
        by (simp add: l1_def w(2) add.assoc)
    qed
    have run: "repl_apply N (stream_bytes rs @ rest) s l1 k1 = (l', k')"
      using step True Cons.prems(7) by (simp add: rp l1_def del: repl_apply.simps)
    have tail: "rest = [] \<or> damaged rest (wal_next_seq (l_wal l1) + of_nat (length rs))"
      using Cons.prems(6) by (simp add: l1_def w(2) add.assoc)
    have fs: "\<forall>(r, p) \<in> set rs. rec_fits r p" using Cons.prems(1) by simp
    have l1: "wal_inv (l_wal l1)" "unat (wal_next_seq (l_wal l1)) + length rs < 2 ^ 64" "\<not> l_repl_closing l1"
      using w(1) un Cons.prems(4,5) by (simp_all add: l1_def)
    obtain ok where
      ih: "apply_all (net_files N) s rs (l_wal l1) (l_sessions l1) k1 = (ok, l_wal l', l_sessions l', k')"
        "l_repl_closing l' = (\<not> ok \<or> rest \<noteq> [])" "wal_inv (l_wal l')"
        "ok \<longrightarrow> wal_next_seq (l_wal l') = wal_next_seq (l_wal l1) + of_nat (length rs)
           \<and> l_repl_records l' = l_repl_records l1 + of_nat (length rs) \<and> (rs \<noteq> [] \<longrightarrow> l_wal_dirty l')"
      using Cons.IH [OF fs next_seqs l1 tail run] by blast
    have dirty: "ok \<longrightarrow> l_wal_dirty l'"
    proof (cases "rs = []")
      case True
      then have "rest = [] \<or> damaged rest (wal_next_seq (l_wal l1))" using tail by simp
      from repl_apply_rest [OF this, of N s k1] have "l' = (if rest = [] then l1 else l1\<lparr>l_repl_closing := True\<rparr>)"
        using run True by simp
      then show ?thesis by (simp add: l1_def)
    next
      case False
      with ih(4) show ?thesis by blast
    qed
    have "apply_all (net_files N) s (rp # rs) (l_wal l) (l_sessions l) k = (ok, l_wal l', l_sessions l', k')"
      using ih(1) a True by (simp add: rp l1_def)
    with ih(2-4) dirty show ?thesis by (intro exI [of _ ok]) (simp add: l1_def w(2) add.assoc)
  qed
qed

text \<open>C5. A follower's log is its leader's. Given the records of its leader's log from the
  sequence after its own last one on, and whatever follows them in the payload, a follower
  makes exactly one append for each, in order and with the leader's header and payload, whose
  encoding is the leader's bytes, and rebuilds the writing session from it; the first append
  that fails, or bytes after them that are not the next record, end the stream, and nothing
  behind that place is applied.\<close>

theorem follower_keeps_leader_log:
  assumes "\<forall>(r, p) \<in> set rs. rec_fits r p \<and> length (rec_bytes r p) \<le> length s"
    and "\<forall>j < length rs. r_seq (fst (rs ! j)) = wal_next_seq (l_wal l) + of_nat j"
    and "wal_inv (l_wal l)" "unat (wal_next_seq (l_wal l)) + length rs < 2 ^ 64" "\<not> l_repl_closing l"
    and "rest = [] \<or> damaged rest (wal_next_seq (l_wal l) + of_nat (length rs))"
    and "repl_apply N (concat (map (\<lambda>(r, p). rec_bytes r p) rs) @ rest) s l k = (l', k')"
  shows "(\<exists>ok. apply_all (net_files N) s rs (l_wal l) (l_sessions l) k = (ok, l_wal l', l_sessions l', k')
      \<and> l_repl_closing l' = (\<not> ok \<or> rest \<noteq> [])
      \<and> (ok \<longrightarrow> wal_next_seq (l_wal l') = wal_next_seq (l_wal l) + of_nat (length rs)))
    \<and> (\<forall>(r, p) \<in> set rs. wal_rec_encode s (rec_written r p) (Some p)
         = (int (length (rec_bytes r p)), rec_bytes r p @ drop (length (rec_bytes r p)) s, rec_written r p))"
proof -
  have "\<forall>(r, p) \<in> set rs. rec_fits r p" using assms(1) by auto
  from repl_apply_stream [OF this assms(2-7)] reencode_identity assms(1) show ?thesis by blast
qed

theorem follower_keeps_leader_log_witness:
  "\<exists>l' k'. repl_apply net_example (rec_bytes (rec_at 1 7) []) (replicate 64 0)
      (loop_blank wal_example session_table_init) fs_example = (l', k') \<and> \<not> l_repl_closing l' \<and> wal_next_seq (l_wal l') = 2"
proof -
  let ?l = "loop_blank wal_example session_table_init" let ?r = "rec_at 1 7"
  have files: "net_files net_example = mem_kernel" by (simp add: net_example_def)
  have l: "l_wal ?l = wal_example" "wal_next_seq wal_example = 1" "wal_inv wal_example" "\<not> l_repl_closing ?l"
    by (simp_all add: loop_blank_def wal_example_def wal_inv_def seg_ok_def seg_reset_def wal_next_seq_def)
  obtain l' k' where run: "repl_apply net_example (concat (map (\<lambda>(r, p). rec_bytes r p) [(?r, [])]) @ []) (replicate 64 0) ?l fs_example
    = (l', k')" by (metis surj_pair)
  have fits: "rec_fits ?r []" "r_seq ?r = 1" by (simp_all add: rec_fits_def rec_at_def)
  obtain w rec' k1 where a: "wal_append mem_kernel wal_example (rec_written ?r []) (Some []) (replicate 64 0) fs_example
      = (RESULT_OK, w, rec', k1)"
    using fits(1) by (rule_tac mem_append_ok [of "rec_written ?r []" "[]"]) simp_all
  show ?thesis
    using follower_keeps_leader_log [OF _ _ _ _ l(4) _ run] run a l fits
    by (auto simp: files)
qed

end
