(* ===== verification/Loop_Replication.thy ===== *)
theory Loop_Replication
  imports Loop_Delivery
begin

text \<open>
  The two ends of a replication stream together: what one turn of the leader puts into the
  frame of a replica, read from the bytes of its log, and what the follower's log becomes when
  that frame arrives.
\<close>

section \<open>What a cursor reads out of a log\<close>

lemma seq_run_nth:
  "seq_run base es \<Longrightarrow> j < length es \<Longrightarrow> rec_fits (fst (es ! j)) (snd (es ! j)) \<and> r_seq (fst (es ! j)) = base + of_nat j"
proof (induction es arbitrary: base j)
  case (Cons e es)
  then show ?case by (cases j) (auto simp: add.assoc)
qed simp

lemma seq_run_fits: "seq_run base es \<Longrightarrow> e \<in> set es \<Longrightarrow> rec_fits (fst e) (snd e)"
  using seq_run_nth by (metis in_set_conv_nth)

text \<open>Whole records at the front of a log's bytes are the records of the log.\<close>

lemma rec_blocks_disk:
  "rec_blocks limit base bss \<Longrightarrow> seq_run base es \<Longrightarrow> concat bss @ x = disk es @ tail \<Longrightarrow>
     unat limit + 1 = unat base + length es \<Longrightarrow> unat base + length es < 2 ^ 64 \<Longrightarrow>
     length bss \<le> length es \<and> concat bss = disk (take (length bss) es)"
proof (induction es arbitrary: base bss)
  case Nil
  then show ?case by (cases bss) (auto simp: word_le_nat_alt)
next
  case (Cons e es)
  show ?case
  proof (cases bss)
    case (Cons b bs)
    obtain r p where e: "e = (r, p)" by (cases e)
    have fits: "rec_fits r p" "seq_run (base + 1) es" using Cons.prems(2) by (simp_all add: e)
    have b: "int (length b) = wal_rec_size (sint (r_len (rec_of b)))" "b \<noteq> []" "rec_blocks limit (base + 1) bs"
      using Cons.prems(1) by (simp_all add: Cons)
    have eq: "b @ concat bs @ x = rec_bytes r p @ disk es @ tail" using Cons.prems(3) by (simp add: Cons e)
    have "rec_of b = rec_of (b @ concat bs @ x)"
      using block_size(1) [OF b(1,2)] rec_of_take [of 56 "b @ concat bs @ x"] rec_of_take [of 56 b] by simp
    also have "\<dots> = rec_written r p"
      unfolding eq using wal_rec_decode_bytes [of r p "disk es @ tail"] by (simp add: wal_rec_decode_def)
    finally have same: "b = rec_bytes r p" "concat bs @ x = disk es @ tail"
      using b(1) wal_rec_size_fits [OF fits(1)] eq by simp_all
    have "unat (base + 1) = unat base + 1" using Cons.prems(5) by (intro unat_add1_64) simp
    with Cons.IH [OF b(3) fits(2) same(2)] Cons.prems(4,5) show ?thesis by (simp add: Cons e same(1))
  qed simp
qed

text \<open>A read by a cursor that stands at a record which fits the buffer makes progress, and
  what it hands out is a front part of the records that stand there.\<close>

lemma wal_cursor_read_disk:
  fixes es :: "entry list" and c :: wal_cursor_t
  defines "sq \<equiv> c_next_seq c"
  assumes reads: "file_reads K view" "seq_run sq es" "es \<noteq> []" "drop (c_off c) (view k (c_fd c)) = disk es @ tail"
    and lim: "unat limit + 1 = unat sq + length es" "unat sq + length es < 2 ^ 64"
    and room: "length (rec_bytes (fst (hd es)) (snd (hd es))) \<le> n"
    and run: "wal_cursor_read K w c limit n k = (RESULT_OK, c', out, k')"
  shows "\<exists>m. 0 < m \<and> m \<le> length es \<and> out = disk (take m es) \<and> c_next_seq c' = sq + of_nat m"
proof -
  obtain e es' where es: "es = e # es'" using reads(3) by (cases es) auto
  obtain r p where e: "e = (r, p)" by (cases e)
  have "sq \<le> limit" using lim(1) by (simp add: word_le_nat_alt es)
  then have att: "cursor_attempts (Suc 1) K w c limit n k = (RESULT_OK, c', out, k')"
    using run unfolding Suc_1 by (auto simp: wal_cursor_read_def sq_def split: if_splits)
  obtain r1 buf k1 where pr: "os_pread_full K (c_fd c) n (c_off c) k = (r1, buf, k1)" by (metis prod_cases3)
  have ok: "r1 = RESULT_OK" using att pr by (cases r1) auto
  have buf: "buf = take n (disk es @ tail)" using os_pread_full_exact(2) [OF reads(1) pr ok] reads(4) by simp
  define tl where "tl = take (n - length (rec_bytes r p)) (disk es' @ tail)"
  have split: "buf = disk [e] @ tl" using room by (simp add: buf es e tl_def del: length_rec_bytes)
  obtain r2 at sq' where wk: "cursor_walk buf limit 0 sq = (r2, at, sq')" by (metis prod_cases3)
  have "cursor_walk buf limit 0 sq = cursor_walk buf limit (length (disk [e])) (sq + 1)"
    using cursor_walk_run [of sq "[e]" limit "[]" tl] reads(2) \<open>sq \<le> limit\<close> by (simp add: split es)
  with wk have "length (disk [e]) \<le> at" "at \<le> length buf"
    using cursor_walk_blocks [of buf limit "length (disk [e])" "sq + 1" r2 at sq'] by (auto simp: split)
  then have at: "0 < at" "at \<le> length buf" by (simp_all add: e)
  with att pr ok wk have out: "out = take at buf" by (auto simp: sq_def split: if_splits)
  obtain bss where b: "out = concat bss" "rec_blocks limit sq bss" "c_next_seq c' = sq + of_nat (length bss)"
    using wal_cursor_read_blocks [OF run] unfolding sq_def by blast
  have "concat bss @ drop (length out) (disk es @ tail) = disk es @ tail"
    using out at(2) unfolding b(1) [symmetric] buf by (metis append_take_drop_id length_take min.absorb4 min.commute min_def take_take)
  note m = rec_blocks_disk [OF b(2) reads(2) this lim]
  have "out \<noteq> []" using out at by auto
  then have "bss \<noteq> []" using b(1) by auto
  with m b(1,3) show ?thesis by (intro exI [of _ "length bss"]) simp
qed

section \<open>From the leader's log to the follower's\<close>

text \<open>A connection that is streaming to a replica and is ready for its next frame.\<close>

definition streaming :: "loop_t \<Rightarrow> nat \<Rightarrow> nat \<Rightarrow> bool" where
  "streaming l i idx \<longleftrightarrow> i < length (l_conns l) \<and> idx < length (l_peer_cursor l) \<and> lc_in_use (slot_of l i)
     \<and> \<not> lc_closing (slot_of l i) \<and> lc_replica (slot_of l i) = Some idx \<and> lc_send (slot_of l i) = []"

definition repl_frame :: "u64 \<Rightarrow> bytes \<Rightarrow> frame" where
  "repl_frame first got = (msg_header_new MSG_OP_REPL_DATA MSG_RECORD_NONE 0 (of_nat (length got)) 0 first, got)"

lemma repl_stream_slot_sends:
  fixes l :: loop_t and i idx :: nat
  defines "c \<equiv> slot_of l i"
  assumes st: "streaming l i idx" and room: "MSG_HEADER_SIZE < lc_send_cap c"
    and rd: "wal_cursor_read (net_files N) (l_wal l) (l_peer_cursor l ! idx) limit (lc_send_cap c - MSG_HEADER_SIZE) k
      = (r, cur, got, k1)"
    and run: "repl_stream_slot N limit i (l, k) = (l', k')"
  shows "l_peer_cursor l' ! idx = cur"
    "slot_of l' i = (if r \<noteq> RESULT_OK then c\<lparr>lc_closing := True\<rparr> else if got = [] then c
       else c\<lparr>lc_send := frame_bytes (repl_frame (c_next_seq (l_peer_cursor l ! idx)) got)\<rparr>)"
proof -
  have ready: "(\<not> lc_in_use c \<or> lc_closing c \<or> lc_replica c = None \<or> lc_send c \<noteq> []) = False" "the (lc_replica c) = idx"
    "i < length (l_conns l)" "idx < length (l_peer_cursor l)"
    using st by (simp_all add: streaming_def c_def)
  have "repl_stream_slot N limit i (l, k) =
      (let m = l\<lparr>l_peer_cursor := (l_peer_cursor l)[idx := cur]\<rparr> in
       if \<not> result_ok r then (set_slot i (c\<lparr>lc_closing := True\<rparr>) m, k1)
       else if got = [] then (m, k1)
       else ((set_slot i (c\<lparr>lc_send := frame_bytes (repl_frame (c_next_seq (l_peer_cursor l ! idx)) got)\<rparr>) m)
         \<lparr>l_progress := True, l_repl_records := l_repl_records l + (c_next_seq cur - c_next_seq (l_peer_cursor l ! idx))\<rparr>, k1))"
    using ready room rd
    by (simp only: repl_stream_slot_def c_def [symmetric] prod.case Let_def if_False)
      (simp add: msg_encode_header_def frame_bytes_def repl_frame_def set_slot_def)
  with run ready(3,4) show "l_peer_cursor l' ! idx = cur"
    "slot_of l' i = (if r \<noteq> RESULT_OK then c\<lparr>lc_closing := True\<rparr> else if got = [] then c
       else c\<lparr>lc_send := frame_bytes (repl_frame (c_next_seq (l_peer_cursor l ! idx)) got)\<rparr>)"
    by (auto simp: Let_def set_slot_def result_ok_def c_def split: if_splits result_t.splits)
qed

text \<open>C6. Leader to follower, byte by byte. When a replica's cursor stands in the leader's log
  before the records of a run, the last of them the last durable one, one turn of the leader
  either drops the replica (a read failed) or sends one frame that holds a non-empty front part
  of exactly these records and moves the cursor past them. A follower whose log ends where the
  cursor stood, given that frame, appends exactly those records in order, and unless an append
  of its own fails its next sequence is again where the leader's cursor stands.\<close>

theorem replication_step_agrees:
  assumes "streaming l i idx" "file_reads (net_files N) view"
    and "seq_run (c_next_seq (l_peer_cursor l ! idx)) es" "es \<noteq> []"
    and "drop (c_off (l_peer_cursor l ! idx)) (view k (c_fd (l_peer_cursor l ! idx))) = disk es @ tail"
    and "unat limit + 1 = unat (c_next_seq (l_peer_cursor l ! idx)) + length es" "unat limit + 1 < 2 ^ 64"
    and "MSG_HEADER_SIZE + length (rec_bytes (fst (hd es)) (snd (hd es))) \<le> lc_send_cap (slot_of l i)"
    and "repl_stream_slot N limit i (l, k) = (l', k')"
    and "wal_inv (l_wal f)" "wal_next_seq (l_wal f) = c_next_seq (l_peer_cursor l ! idx)" "\<not> l_repl_closing f"
  shows "lc_closing (slot_of l' i) \<or>
    (\<exists>m fr. 0 < m \<and> m \<le> length es \<and> fr = repl_frame (c_next_seq (l_peer_cursor l ! idx)) (disk (take m es))
      \<and> lc_send (slot_of l' i) = frame_bytes fr
      \<and> c_next_seq (l_peer_cursor l' ! idx) = c_next_seq (l_peer_cursor l ! idx) + of_nat m
      \<and> (\<forall>f' kf'. on_stream_frame M f (fst fr) (snd fr) s kf = (f', kf') \<longrightarrow>
          (\<exists>ok. apply_all (net_files M) s (take m es) (l_wal f) (l_sessions f) kf = (ok, l_wal f', l_sessions f', kf')
             \<and> l_repl_closing f' = (\<not> ok)
             \<and> (ok \<longrightarrow> wal_next_seq (l_wal f') = c_next_seq (l_peer_cursor l' ! idx)))))"
proof -
  let ?cur = "l_peer_cursor l ! idx"
  obtain r cur got k1 where rd: "wal_cursor_read (net_files N) (l_wal l) ?cur limit
      (lc_send_cap (slot_of l i) - MSG_HEADER_SIZE) k = (r, cur, got, k1)" by (metis prod_cases4)
  have pos: "0 < length (rec_bytes (fst (hd es)) (snd (hd es)))" by simp
  have room: "MSG_HEADER_SIZE < lc_send_cap (slot_of l i)" using assms(8) pos by linarith
  note sent = repl_stream_slot_sends [OF assms(1) room rd assms(9)]
  show ?thesis
  proof (cases "r = RESULT_OK")
    case True
    have fits: "length (rec_bytes (fst (hd es)) (snd (hd es))) \<le> lc_send_cap (slot_of l i) - MSG_HEADER_SIZE"
      using assms(8) by linarith
    have below: "unat (c_next_seq ?cur) + length es < 2 ^ 64" using assms(6,7) by linarith
    from wal_cursor_read_disk [OF assms(2-5) assms(6) below fits rd [unfolded True]]
    obtain m where m: "0 < m" "m \<le> length es" "got = disk (take m es)" "c_next_seq cur = c_next_seq ?cur + of_nat m"
      by blast
    define rs where "rs = take m es"
    have run: "seq_run (c_next_seq ?cur) rs" "length rs = m" "disk rs = stream_bytes rs @ []"
      using seq_run_take [OF assms(3)] m(2) by (simp_all add: rs_def disk_def)
    have ne: "got \<noteq> []" using m(1,3) assms(4) by (cases es; cases m) (auto dest: arg_cong [where f = length])
    have follow: "\<exists>ok. apply_all (net_files M) s rs (l_wal f) (l_sessions f) kf = (ok, l_wal f', l_sessions f', kf')
        \<and> l_repl_closing f' = (\<not> ok) \<and> (ok \<longrightarrow> wal_next_seq (l_wal f') = c_next_seq cur)"
      if go: "repl_apply M (disk rs) s f kf = (f', kf')" for f' kf'
    proof -
      have each: "\<forall>(r, p) \<in> set rs. rec_fits r p" using seq_run_fits [OF run(1)] by auto
      have seqs: "\<forall>j < length rs. r_seq (fst (rs ! j)) = wal_next_seq (l_wal f) + of_nat j"
        using seq_run_nth [OF run(1)] assms(11) by simp
      have bound: "unat (wal_next_seq (l_wal f)) + length rs < 2 ^ 64" using below m(2) run(2) assms(11) by simp
      from repl_apply_stream [OF each seqs assms(10) bound assms(12) _ go [unfolded run(3)]] show ?thesis
        using m(4) run(2) assms(11) by auto
    qed
    show ?thesis
    proof (intro disjI2 exI conjI)
      show "lc_send (slot_of l' i) = frame_bytes (repl_frame (c_next_seq ?cur) (disk (take m es)))"
        using sent(2) True ne m(3) by simp
      show "c_next_seq (l_peer_cursor l' ! idx) = c_next_seq ?cur + of_nat m" using sent(1) m(4) by simp
      show "\<forall>f' kf'. on_stream_frame M f (fst (repl_frame (c_next_seq ?cur) (disk (take m es))))
          (snd (repl_frame (c_next_seq ?cur) (disk (take m es)))) s kf = (f', kf') \<longrightarrow>
          (\<exists>ok. apply_all (net_files M) s (take m es) (l_wal f) (l_sessions f) kf = (ok, l_wal f', l_sessions f', kf')
             \<and> l_repl_closing f' = (\<not> ok)
             \<and> (ok \<longrightarrow> wal_next_seq (l_wal f') = c_next_seq (l_peer_cursor l' ! idx)))"
        using follow unfolding rs_def sent(1) by (simp add: on_stream_frame_def repl_frame_def msg_header_new_def)
    qed (use m in simp_all)
  qed (simp add: sent(2))
qed

text \<open>A leader whose log holds one record, streaming to a replica that has none, and a follower
  whose log is empty.\<close>

definition leader_files :: mem_fs where
  "leader_files = \<lparr>mf_files = [(wal_seg_name 1, rec_bytes (rec_at 1 7) [] @ replicate 40 0)], mf_listed = False\<rparr>"

definition loop_leading :: loop_t where
  "loop_leading = set_slot 2 (slot_reset\<lparr>lc_in_use := True, lc_replica := Some 0\<rparr>)
     ((loop_blank wal_example session_table_init)\<lparr>l_peer_cursor := [cursor_example, wal_cursor_init]\<rparr>)"

lemma loop_leading_facts:
  "slot_of loop_leading 2 = slot_reset\<lparr>lc_in_use := True, lc_replica := Some 0\<rparr>"
  "l_peer_cursor loop_leading = [cursor_example, wal_cursor_init]" "l_wal loop_leading = wal_example"
  "2 < length (l_conns loop_leading)"
  by (simp_all add: loop_leading_def loop_blank_def set_slot_def)

lemma leader_view: "mf_view leader_files 10 = disk [(rec_at 1 7, [])] @ replicate 40 0"
  by (simp add: leader_files_def mf_view_def mf_index_def)

lemma leader_read:
  "\<exists>cur got. wal_cursor_read mem_kernel wal_example cursor_example 1 8160 leader_files = (RESULT_OK, cur, got, leader_files)"
proof -
  let ?b = "rec_bytes (rec_at 1 7) []"
  have run: "seq_run 1 [(rec_at 1 7, [])]" by (simp add: rec_at_def rec_fits_def)
  have len: "length ?b = 56" by simp
  have "cursor_walk (?b @ replicate 40 0) 1 0 1 = (RESULT_OK, 56, 2)"
    using cursor_walk_run [OF run, of 1 "[]" "replicate 40 0"] len
    by (simp add: rec_at_def cursor_walk.simps del: length_rec_bytes)
  moreover have "os_pread_full mem_kernel 10 8160 0 leader_files = (RESULT_OK, ?b @ replicate 40 0, leader_files)"
    using len by (simp add: mem_pread_full leader_view del: length_rec_bytes)
  moreover have "wal_cursor_read mem_kernel wal_example cursor_example 1 8160 leader_files
      = cursor_attempts (Suc 1) mem_kernel wal_example cursor_example 1 8160 leader_files"
    unfolding Suc_1 by (simp add: wal_cursor_read_def cursor_example_def wal_first_seq_def wal_example_def)
  ultimately show ?thesis by (simp add: cursor_example_def)
qed

theorem replication_step_agrees_witness:
  "\<exists>p. lc_send (slot_of (fst (repl_stream_slot net_example 1 2 (loop_leading, leader_files))) 2)
       = frame_bytes (repl_frame 1 p)
     \<and> p = rec_bytes (rec_at 1 7) []
     \<and> c_next_seq (l_peer_cursor (fst (repl_stream_slot net_example 1 2 (loop_leading, leader_files))) ! 0) = 2"
proof -
  let ?f = "loop_blank wal_example session_table_init" and ?e = "(rec_at 1 7, []) :: entry"
  obtain l' k' where run: "repl_stream_slot net_example 1 2 (loop_leading, leader_files) = (l', k')" by (metis surj_pair)
  have files: "net_files net_example = mem_kernel" by (simp add: net_example_def)
  have c: "c_fd cursor_example = 10" "c_off cursor_example = 0" "c_next_seq cursor_example = 1"
    by (simp_all add: cursor_example_def)
  have st: "streaming loop_leading 2 0" using loop_leading_facts by (simp add: streaming_def slot_reset_def)
  have follower: "wal_inv (l_wal ?f)" "wal_next_seq (l_wal ?f) = c_next_seq (l_peer_cursor loop_leading ! 0)"
    "\<not> l_repl_closing ?f"
    by (simp_all add: loop_blank_def wal_example_def wal_inv_def seg_ok_def seg_reset_def wal_next_seq_def
        loop_leading_facts c)
  have es: "seq_run (c_next_seq (l_peer_cursor loop_leading ! 0)) [?e]" by (simp add: loop_leading_facts c rec_at_def rec_fits_def)
  have view: "drop (c_off (l_peer_cursor loop_leading ! 0)) (mf_view leader_files (c_fd (l_peer_cursor loop_leading ! 0)))
      = disk [?e] @ replicate 40 0" by (simp add: loop_leading_facts c leader_view)
  have reads: "file_reads (net_files net_example) mf_view" by (simp add: files mem_kernel_reads)
  have cap: "lc_send_cap (slot_of loop_leading 2) = 8192" "length (rec_bytes (rec_at 1 7) []) = 56"
    by (simp_all add: loop_leading_facts slot_reset_def)
  have room: "lc_send_cap (slot_of loop_leading 2) - MSG_HEADER_SIZE = 8160" using cap(1) by simp
  obtain cur got where rd: "wal_cursor_read (net_files net_example) (l_wal loop_leading) (l_peer_cursor loop_leading ! 0) 1
      (lc_send_cap (slot_of loop_leading 2) - MSG_HEADER_SIZE) leader_files = (RESULT_OK, cur, got, leader_files)"
    using leader_read unfolding files room loop_leading_facts(2,3) nth_Cons_0 by blast
  have open': "\<not> lc_closing (slot_of l' 2)"
    using repl_stream_slot_sends(2) [OF st _ rd run] cap by (simp add: loop_leading_facts slot_reset_def split: if_splits)
  note step = replication_step_agrees [OF st reads es _ view _ _ _ run follower, where M = net_example and s = "[]" and kf = fs_example]
  have "\<exists>m fr. 0 < m \<and> m \<le> length [?e] \<and> fr = repl_frame (c_next_seq (l_peer_cursor loop_leading ! 0)) (disk (take m [?e]))
      \<and> lc_send (slot_of l' 2) = frame_bytes fr
      \<and> c_next_seq (l_peer_cursor l' ! 0) = c_next_seq (l_peer_cursor loop_leading ! 0) + of_nat m"
    using step open' cap by (simp add: loop_leading_facts c del: length_rec_bytes) blast
  then obtain m where m: "0 < m" "m \<le> 1" "lc_send (slot_of l' 2) = frame_bytes (repl_frame 1 (disk (take m [?e])))"
    "c_next_seq (l_peer_cursor l' ! 0) = 1 + of_nat m" unfolding loop_leading_facts(2) nth_Cons_0 c by force
  then have "m = 1" by linarith
  with m show ?thesis by (simp add: run)
qed

end
