(* ===== verification/Loop_Retain.thy ===== *)
theory Loop_Retain
  imports Loop_Tick Wal_Read
begin

text \<open>
  Retention on a running node (\<^verbatim>\<open>src/server/loop.c\<close>, \<^verbatim>\<open>retain_floor_update\<close> and \<^verbatim>\<open>retain_pass\<close>): the
  floor the replicas have confirmed, and what a pass may delete under it.
\<close>

section \<open>The floor\<close>

text \<open>What the replicas that are attached have confirmed.\<close>

definition live_marks :: "loop_t \<Rightarrow> u64 list" where
  "live_marks l = map snd (filter fst (zip (l_peer_live l) (l_peer_durable l)))"

lemma floor_scan_rest:
  "0 < live \<Longrightarrow> floor_scan ps live lowest =
     (live + length (filter fst ps), fold min (map snd (filter fst ps)) lowest)"
proof (induction ps arbitrary: live lowest)
  case Nil
  then show ?case by simp
next
  case (Cons p ps)
  have "(if snd p < lowest then snd p else lowest) = min (snd p) lowest" by (auto simp: min_def)
  then show ?case using Cons by simp
qed

lemma floor_scan_min:
  "floor_scan ps 0 lowest =
     (length (filter fst ps), if filter fst ps = [] then lowest else Min (set (map snd (filter fst ps))))"
proof (induction ps)
  case Nil
  then show ?case by simp
next
  case (Cons p ps)
  have "fold min (map snd (filter fst ps)) (snd p) = Min (set (snd p # map snd (filter fst ps)))"
    by (simp only: Min.set_eq_fold)
  then show ?case using Cons by (simp add: floor_scan_rest)
qed

lemma retain_floor_update_eq:
  "l_retain_floor (retain_floor_update l) =
    (if 0 < l_replicas_want l \<and> l_replicas_want l \<le> int (length (live_marks l))
     then max (l_retain_floor l) (Min (set (live_marks l))) else l_retain_floor l)"
proof -
  define xs where "xs = live_marks l"
  define m where "m = Min (set xs)"
  have scan: "floor_scan (zip (l_peer_live l) (l_peer_durable l)) 0 0 = (length xs, if xs = [] then 0 else m)"
    by (simp add: floor_scan_min xs_def m_def live_marks_def)
  show ?thesis
    unfolding xs_def [symmetric] m_def [symmetric] retain_floor_update_def scan
    by (cases "xs = []") (auto simp: max_def not_less)
qed

section \<open>A pass\<close>

text \<open>Deleting below the mark for \<open>keep\<close> segments, or below anything lower, leaves that many.\<close>

lemma retain_keeps_count:
  assumes sorted: "sorted_wrt (<) (w_seg_base w)" and ne: "w_seg_base w \<noteq> []"
    and run: "wal_retain K w keep_from k = (r, w', n, k')"
    and le: "keep_from \<le> wal_retain_mark w keep" and mark: "wal_retain_mark w keep \<noteq> 0"
  shows "keep \<le> int (length (w_seg_base w'))"
proof -
  let ?b = "w_seg_base w"
  define j where "j = length ?b - nat keep"
  have j: "0 < keep" "keep < int (length ?b)" "wal_retain_mark w keep = ?b ! j"
    using mark by (auto simp: wal_retain_mark_def j_def split: if_splits)
  have jl: "j < length ?b" "int (length ?b) - int j = keep" using j by (auto simp: j_def)
  obtain d where d: "w_seg_base w' = drop d ?b" "d < length ?b" "\<forall>i < d. ?b ! Suc i \<le> keep_from"
    using wal_retain_sound [OF ne run] by blast
  have "d \<le> j"
  proof (rule ccontr)
    assume "\<not> d \<le> j"
    then have "?b ! d \<le> ?b ! j" using d(3) [rule_format, of "d - 1"] le j(3) by simp
    moreover have "?b ! j < ?b ! d" using sorted \<open>\<not> d \<le> j\<close> d(2) by (simp add: sorted_wrt_nth_less)
    ultimately show False by simp
  qed
  then show ?thesis using d(1,2) jl by simp
qed

definition deletes_confirmed :: "loop_t \<Rightarrow> loop_t \<Rightarrow> bool" where
  "deletes_confirmed l l' \<longleftrightarrow> (\<exists>d. w_seg_base (l_wal l') = drop d (w_seg_base (l_wal l))
     \<and> d < length (w_seg_base (l_wal l))
     \<and> (0 < l_replicas_want l \<longrightarrow> (\<forall>i < d. unat (w_seg_base (l_wal l) ! Suc i) \<le> unat (l_retain_floor l) + 1))
     \<and> (0 < d \<longrightarrow> l_retain_segments l \<le> int (length (w_seg_base (l_wal l')))))"

lemma deletes_nothing: "w_seg_base (l_wal l) \<noteq> [] \<Longrightarrow> l_wal l' = l_wal l \<Longrightarrow> deletes_confirmed l l'"
  by (auto simp: deletes_confirmed_def intro!: exI [of _ 0])

lemma unat_le_succ: "unat (a + 1 :: u64) \<le> unat a + 1"
  by (simp add: unat_word_ariths)

lemma retain_pass_confirmed:
  assumes sorted: "sorted_wrt (<) (w_seg_base (l_wal l))" and ne: "w_seg_base (l_wal l) \<noteq> []"
  shows "deletes_confirmed l (fst (retain_pass N l k))"
proof -
  define mark where "mark = wal_retain_mark (l_wal l) (l_retain_segments l)"
  define keep_from where "keep_from =
    (if l_replicas_want l > 0 \<and> l_retain_floor l + 1 < mark then l_retain_floor l + 1 else mark)"
  obtain r w n k' where run: "wal_retain (net_files N) (l_wal l) keep_from k = (r, w, n, k')" by (metis prod_cases4)
  show ?thesis
  proof (cases "l_wal (fst (retain_pass N l k)) = l_wal l")
    case True
    then show ?thesis using deletes_nothing [OF ne] by blast
  next
    case False
    then have m: "mark \<noteq> 0" and w: "l_wal (fst (retain_pass N l k)) = w"
      using run by (auto simp: retain_pass_def Let_def mark_def keep_from_def split_beta split: if_splits)
    obtain d where d: "w_seg_base w = drop d (w_seg_base (l_wal l))" "d < length (w_seg_base (l_wal l))"
        "\<forall>i < d. w_seg_base (l_wal l) ! Suc i \<le> keep_from"
      using wal_retain_sound [OF ne run] by blast
    have le: "keep_from \<le> mark" by (auto simp: keep_from_def intro: less_imp_le)
    have "l_retain_segments l \<le> int (length (w_seg_base w))"
      using retain_keeps_count [OF sorted ne run le [unfolded mark_def]] m by (simp add: mark_def)
    moreover have "unat (w_seg_base (l_wal l) ! Suc i) \<le> unat (l_retain_floor l) + 1"
      if "i < d" "0 < l_replicas_want l" for i
    proof -
      have "keep_from \<le> l_retain_floor l + 1" using that(2) by (auto simp: keep_from_def)
      then have "w_seg_base (l_wal l) ! Suc i \<le> l_retain_floor l + 1" using d(3) that(1) by fastforce
      then show ?thesis using unat_le_succ [of "l_retain_floor l"] by (simp add: word_le_nat_alt)
    qed
    ultimately show ?thesis unfolding deletes_confirmed_def w using d(1,2) by blast
  qed
qed


text \<open>Three segments, one to keep, one replica expected and attached that confirmed sequence 6.\<close>

definition loop_retaining :: loop_t where
  "loop_retaining = (loop_blank (wal_example\<lparr>w_seg_base := [1, 5, 9]\<rparr>) session_table_init)
     \<lparr>l_retain_segments := 1, l_replicas_want := 1, l_peer_live := [True, False], l_peer_durable := [6, 0],
      l_retain_floor := 6\<rparr>"


end
