(* ===== verification/Loop_Metrics.thy ===== *)
theory Loop_Metrics
  imports Scrape Loop_Tick
begin

text \<open>
  The metrics document (\<open>Metrics\<close>) is never cut short. Its text is appended piece by piece and a piece
  that does not fit is dropped without a word, so whether a scrape is told everything rests on how long
  the pieces can get: the lemmas add that up, with twenty digits for every number.
\<close>

section \<open>Pieces\<close>

text \<open>\<open>f\<close> writes into a buffer of \<open>cap\<close> bytes and \<open>g\<close> into one of \<open>big\<close> the same text, of at most \<open>n\<close>
  bytes; it ends a line when \<open>e\<close> holds.\<close>

definition piece :: "nat \<Rightarrow> nat \<Rightarrow> (bytes \<Rightarrow> bytes) \<Rightarrow> (bytes \<Rightarrow> bytes) \<Rightarrow> nat \<Rightarrow> bool \<Rightarrow> bool" where
  "piece cap big f g n e \<longleftrightarrow> (\<exists>t. appends cap f n t \<and> appends big g n t \<and> (e \<longrightarrow> t \<noteq> [] \<and> last t = 10))"

definition append_all :: "(bytes \<Rightarrow> bytes) list \<Rightarrow> bytes \<Rightarrow> bytes" where
  "append_all fs = fold (\<lambda>f b. f b) fs"

lemma piece_str: "piece cap big (fmt_str cap s) (fmt_str big s) (length s) False"
  using appends_str [of cap s] appends_str [of big s] unfolding piece_def by blast

lemma piece_u64: "piece cap big (fmt_u64 cap v) (fmt_u64 big v) 20 False"
  using appends_u64 [of cap v] appends_u64 [of big v] unfolding piece_def by blast

lemma piece_ns: "piece cap big (fmt_ns_seconds cap v) (fmt_ns_seconds big v) 30 False"
  using appends_ns_seconds [of cap v] appends_ns_seconds [of big v] unfolding piece_def by blast

lemma piece_line: "piece cap big (fmt_str cap [CHR 0x0A]) (fmt_str big [CHR 0x0A]) 1 True"
proof -
  have "ascii [CHR 0x0A] \<noteq> []" "last (ascii [CHR 0x0A]) = 10" by (simp_all add: ascii_def)
  then show ?thesis
    using appends_str [of cap "[CHR 0x0A]"] appends_str [of big "[CHR 0x0A]"] unfolding piece_def by auto
qed

lemma piece_comp:
  assumes "piece cap big f f' m e'" "piece cap big g g' n e"
  shows "piece cap big (\<lambda>b. g (f b)) (\<lambda>b. g' (f' b)) (m + n) e"
proof -
  obtain s t where "appends cap f m s" "appends big f' m s" "appends cap g n t" "appends big g' n t"
      "e \<longrightarrow> t \<noteq> [] \<and> last t = 10"
    using assms unfolding piece_def by blast
  then show ?thesis
    using appends_comp [of cap f m s g n t] appends_comp [of big f' m s g' n t] unfolding piece_def by (intro exI [of _ "s @ t"]) simp
qed

lemma piece_all_one: "piece cap big f g n e \<Longrightarrow> piece cap big (append_all [f]) (append_all [g]) n e"
  by (simp add: append_all_def)

lemma piece_all_Cons:
  "piece cap big f g m e' \<Longrightarrow> piece cap big (append_all fs) (append_all gs) n e \<Longrightarrow>
     piece cap big (append_all (f # fs)) (append_all (g # gs)) (m + n) e"
  using piece_comp [of cap big f g m e' "append_all fs" "append_all gs" n e] by (simp add: append_all_def comp_def)

text \<open>The families and samples, as lists of appends.\<close>

lemma m_type_all: "m_type c name type = append_all [fmt_str c ''# TYPE '', fmt_str c name, fmt_str c '' '', fmt_str c type,
    fmt_str c [CHR 0x0A]]"
  by (simp add: append_all_def m_type_def [abs_def] Let_def fun_eq_iff)

lemma m_one_all: "m_one c name type v = append_all [m_type c name type, fmt_str c name, fmt_str c '' '', fmt_u64 c v,
    fmt_str c [CHR 0x0A]]"
  by (simp add: append_all_def m_one_def [abs_def] m_type_def Let_def fun_eq_iff)

lemma m_label_all: "m_label c name label value v = append_all [fmt_str c name, fmt_str c ''{'', fmt_str c label,
    fmt_str c (''='' @ [CHR 0x22]), fmt_str c value, fmt_str c ([CHR 0x22] @ ''} ''), fmt_u64 c v, fmt_str c [CHR 0x0A]]"
  by (simp add: append_all_def m_label_def [abs_def] Let_def fun_eq_iff)

lemma piece_type:
  "piece cap big (m_type cap name type) (m_type big name type)
     (length ''# TYPE '' + (length name + (length '' '' + (length type + 1)))) True"
  unfolding m_type_all by (intro piece_all_one piece_all_Cons piece_line) (rule piece_str)+

lemma piece_one:
  "piece cap big (m_one cap name type v) (m_one big name type v)
     (length ''# TYPE '' + (length name + (length '' '' + (length type + 1))) + (length name + (length '' '' + (20 + 1)))) True"
  unfolding m_one_all by (intro piece_all_one piece_all_Cons piece_line) (rule piece_type piece_str piece_u64)+

lemma piece_label:
  "piece cap big (m_label cap name label value v) (m_label big name label value v)
     (length name + (length ''{'' + (length label + (length (''='' @ [CHR 0x22]) + (length value
        + (length ([CHR 0x22] @ ''} '') + (20 + 1))))))) True"
  unfolding m_label_all by (intro piece_all_one piece_all_Cons piece_line) (rule piece_str piece_u64)+

lemma piece_all_append:
  "piece cap big (append_all fs) (append_all gs) m e' \<Longrightarrow> piece cap big (append_all fs') (append_all gs') n e \<Longrightarrow>
     piece cap big (append_all (fs @ fs')) (append_all (gs @ gs')) (m + n) e"
  using piece_comp [of cap big "append_all fs" "append_all gs" m e' "append_all fs'" "append_all gs'" n e]
  by (simp add: append_all_def comp_def)

lemmas pieces = piece_all_one piece_all_Cons piece_one piece_label piece_type piece_str piece_u64 piece_ns

section \<open>The document\<close>

lemma piece_weaken: "piece cap big f g n e \<Longrightarrow> n \<le> m \<Longrightarrow> piece cap big f g m e"
  unfolding piece_def by (blast intro: appends_weaken)

lemma slots_range: "[0..<LOOP_MAX_REPLICAS] = [0, 1]"
  by (simp add: upt_rec)

lemma piece_role: "piece cap big (append_all (role_parts cap l now)) (append_all (role_parts big l now)) 1000 True"
proof (cases "l_is_follower l")
  case True
  show ?thesis
    unfolding role_parts_def if_P [OF True]
    by (rule piece_weaken, (rule pieces)+) simp
next
  case False
  show ?thesis
    unfolding role_parts_def if_not_P [OF False] slots_range slot_text_def
    by (simp only: list.map concat.simps append.simps nth_Cons_0 nth_Cons_Suc One_nat_def,
      rule piece_weaken, (rule pieces)+) simp
qed

lemma lists_ranges:
  "[0..<LOOP_REFUSED_KINDS] = [0, 1, 2, 3, 4, 5]" "[0..<LOOP_FSYNC_BUCKETS] = [0, 1, 2, 3, 4, 5, 6]"
  by (simp_all add: upt_rec)

lemma piece_document:
  "piece cap big (append_all (metrics_parts cap l now)) (append_all (metrics_parts big l now)) 9000 True"
  unfolding metrics_parts_def lists_ranges refused_text_def fsync_bound_text_def
  by (simp only: list.map append.simps nth_Cons_0 nth_Cons_numeral nth_Cons_Suc One_nat_def,
    rule piece_weaken, (rule pieces piece_role piece_all_append)+) simp

text \<open>C12. A scrape is told everything. With the room the endpoint gives it (\<open>LOOP_METRICS_CAP\<close> less the
  head of the answer), or any more, the document is the one an arbitrarily large buffer would hold,
  whatever the counters, marks and ages are, and it is neither empty nor refused, so the endpoint never
  answers 503 for want of room.\<close>

theorem metrics_document_complete:
  assumes "LOOP_METRICS_CAP - length metrics_head \<le> cap" "cap \<le> big"
  shows "fst (loop_metrics N l cap k) = fold (\<lambda>f b. f b) (metrics_parts big l (fst (os_now_ns N k))) []
    \<and> fst (loop_metrics N l cap k) \<noteq> [] \<and> length (fst (loop_metrics N l cap k)) < cap"
proof -
  obtain now k' where now: "os_now_ns N k = (now, k')" by fastforce
  have cap: "9000 < cap" using assms(1) by (simp add: metrics_head_def ascii_def)
  obtain t where t: "appends cap (append_all (metrics_parts cap l now)) 9000 t"
      "appends big (append_all (metrics_parts big l now)) 9000 t" "t \<noteq> []" "last t = 10"
    using piece_document [of cap big l now] unfolding piece_def by blast
  then have doc: "append_all (metrics_parts cap l now) [] = t" "append_all (metrics_parts big l now) [] = t" "length t < cap"
    using cap assms(2) by (auto simp: appends_def)
  then show ?thesis
    using t(3,4) cap by (simp add: loop_metrics_def now append_all_def)
qed

theorem metrics_document_complete_witness:
  "fst (loop_metrics net_example (loop_blank wal_example session_table_init) 16290 fs_example) \<noteq> []"
  by (rule metrics_document_complete [of _ 16290, THEN conjunct2, THEN conjunct1])
    (simp_all add: metrics_head_def ascii_def)

end
