(* ===== verification/Arguments.thy ===== *)
theory Arguments
  imports Net Fmt Wal
begin

text \<open>
  The command line of \<^verbatim>\<open>src/server/main.c\<close>: reading numbers and addresses, and the loop
  over the arguments with its checks. A C string is the list of its bytes before the NUL.
  What it accepts is shown in \<open>Arguments_Facts\<close>.
\<close>

section \<open>Texts\<close>

primrec parse_u64_from :: "bytes \<Rightarrow> u64 \<Rightarrow> u64 option" where
  "parse_u64_from [] v = Some v"
| "parse_u64_from (c # cs) v =
     (if c < 48 \<or> c > 57 then None
      else if v > 0xFFFFFFFFFFFFFFFF div 10 then None
      else parse_u64_from cs (v * 10 + ucast (c - 48)))"

definition parse_u64 :: "bytes \<Rightarrow> u64 option" where
  "parse_u64 s = (if s = [] then None else parse_u64_from s 0)"

text \<open>One octet: its digits, and the text after them.\<close>

fun parse_octet :: "bytes \<Rightarrow> u32 \<Rightarrow> nat \<Rightarrow> (u32 \<times> bytes) option" where
  "parse_octet (c # cs) v digits =
     (if c \<ge> 48 \<and> c \<le> 57 then
        (let v = v * 10 + ucast (c - 48) in if v > 255 then None else parse_octet cs v (digits + 1))
      else if digits = 0 then None else Some (v, c # cs))"
| "parse_octet [] v digits = (if digits = 0 then None else Some (v, []))"

primrec parse_octets :: "nat \<Rightarrow> bytes \<Rightarrow> u32 \<Rightarrow> (u32 \<times> bytes) option" where
  "parse_octets 0 s ip = Some (ip, s)"
| "parse_octets (Suc n) s ip =
     (case parse_octet s 0 0 of
        None \<Rightarrow> None
      | Some (v, s) \<Rightarrow>
          let ip = push_bit 8 ip OR v in
          if n = 0 then Some (ip, s)
          else (case s of [] \<Rightarrow> None | c # s \<Rightarrow> if c \<noteq> 46 then None else parse_octets n s ip))"

definition parse_ip :: "bytes \<Rightarrow> (u32 \<times> bytes) option" where
  "parse_ip s = parse_octets 4 s 0"

definition parse_addr :: "bytes \<Rightarrow> sockaddr_in_t option" where
  "parse_addr s =
     (case parse_ip s of
        None \<Rightarrow> None
      | Some (ip, s) \<Rightarrow>
          (case s of
             [] \<Rightarrow> None
           | c # s \<Rightarrow>
               if c \<noteq> 58 then None
               else (case parse_u64 s of
                       None \<Rightarrow> None
                     | Some port \<Rightarrow>
                         if port = 0 \<or> port > 65535 then None
                         else Some \<lparr>sin_port = bswap16 (ucast port), sin_addr = bswap32 ip\<rparr>)))"

section \<open>Output\<close>

definition out :: "'k net \<Rightarrow> int \<Rightarrow> string \<Rightarrow> 'k \<Rightarrow> 'k" where
  "out N fd s k = snd (os_write_raw N fd (ascii s) k)"

definition out_text :: "'k net \<Rightarrow> int \<Rightarrow> bytes \<Rightarrow> 'k \<Rightarrow> 'k" where
  "out_text N fd s k = snd (os_write_raw N fd s k)"

text \<open>The digits go out one byte at a time, the last one computed first.\<close>

definition out_u64 :: "'k net \<Rightarrow> int \<Rightarrow> u64 \<Rightarrow> 'k \<Rightarrow> 'k" where
  "out_u64 N fd v k = fold (\<lambda>c k. snd (os_write_raw N fd [c] k)) (rev (u64_digits v)) k"

abbreviation NL :: string where "NL \<equiv> [CHR 0x0A]"

definition usage_text :: string where
  "usage_text = concat (map (\<lambda>s. s @ NL)
     [''msgsrvd'',
      '''',
      ''  msgsrvd --dir PATH [--bind ADDR] [--port N]'',
      ''          [--segment-size BYTES] [--leader ADDR:PORT]'',
      ''          [--retain-segments N] [--replicas N]'',
      ''          [--metrics-port N]'',
      ''      Serve the write-ahead log in PATH. The directory must'',
      ''      exist. --port 0 asks the kernel to choose one.'',
      ''      Defaults: --bind 127.0.0.1, --port 7400,'',
      ''      --segment-size 268435456.'',
      '''',
      ''      With --leader this node is a replica: it streams that'',
      ''      node's log into its own and answers a client's write'',
      ''      with the leader's address. Without it, it is the leader'',
      ''      and replicas stream from it.'',
      '''',
      ''  msgsrvd --dir PATH --inspect'',
      ''      Scan the log, say what is in it, and exit. Nothing is'',
      ''      listened on. Answers which of two nodes is further'',
      ''      along, which is what a promotion has to know.'',
      '''',
      ''  msgsrvd --selfcheck'',
      ''      Run the in-process checks and exit.''])"

definition usage :: "'k net \<Rightarrow> 'k \<Rightarrow> 'k" where
  "usage N k = out N 2 usage_text k"

section \<open>The argument loop\<close>

abbreviation DEFAULT_PORT :: u64 where "DEFAULT_PORT \<equiv> 7400"
abbreviation DEFAULT_SEG_SIZE :: u64 where "DEFAULT_SEG_SIZE \<equiv> 256 * 1024 * 1024"

record options =
  o_dir :: "bytes option"
  o_leader :: "bytes option"
  o_bind_text :: bytes
  o_bind_ip :: u32
  o_port :: u64
  o_seg_size :: u64
  o_retain :: u64
  o_replicas :: u64
  o_metrics_port :: u64
  o_selfcheck :: bool
  o_inspect :: bool

definition default_options :: options where
  "default_options = \<lparr>o_dir = None, o_leader = None, o_bind_text = ascii ''127.0.0.1'', o_bind_ip = 0x7F000001,
     o_port = DEFAULT_PORT, o_seg_size = DEFAULT_SEG_SIZE, o_retain = 0, o_replicas = 0, o_metrics_port = 0,
     o_selfcheck = False, o_inspect = False\<rparr>"

datatype flag = FLAG_DIR | FLAG_PORT | FLAG_SEGMENT_SIZE | FLAG_BIND | FLAG_RETAIN | FLAG_REPLICAS
  | FLAG_METRICS_PORT | FLAG_LEADER

definition flag_names :: "(bytes \<times> flag) list" where
  "flag_names = [(ascii ''--dir'', FLAG_DIR), (ascii ''--port'', FLAG_PORT),
     (ascii ''--segment-size'', FLAG_SEGMENT_SIZE), (ascii ''--bind'', FLAG_BIND),
     (ascii ''--retain-segments'', FLAG_RETAIN), (ascii ''--replicas'', FLAG_REPLICAS),
     (ascii ''--metrics-port'', FLAG_METRICS_PORT), (ascii ''--leader'', FLAG_LEADER)]"

text \<open>A number within \<open>[lo, hi]\<close>.\<close>

definition number_in :: "bytes \<Rightarrow> u64 \<Rightarrow> u64 \<Rightarrow> u64 option" where
  "number_in s lo hi = (case parse_u64 s of Some v \<Rightarrow> if v < lo \<or> v > hi then None else Some v | None \<Rightarrow> None)"

text \<open>One flag with its value: the options after it, or what is wrong with the value.\<close>

definition take_flag :: "flag \<Rightarrow> bytes \<Rightarrow> options \<Rightarrow> string + options" where
  "take_flag f v o' =
     (let number = (\<lambda>lo hi complaint set.
        case number_in v lo hi of Some n \<Rightarrow> Inr (set n) | None \<Rightarrow> Inl (complaint @ NL)) in
      case f of
        FLAG_DIR \<Rightarrow> Inr (o'\<lparr>o_dir := Some v\<rparr>)
      | FLAG_PORT \<Rightarrow> number 0 65535 ''msgsrvd: --port must be 0 to 65535'' (\<lambda>n. o'\<lparr>o_port := n\<rparr>)
      | FLAG_BIND \<Rightarrow>
          (case parse_ip v of
             Some (ip, _) \<Rightarrow> Inr (o'\<lparr>o_bind_text := v, o_bind_ip := ip\<rparr>)
           | None \<Rightarrow> Inl (''msgsrvd: --bind wants an address like 192.0.2.13'' @ NL))
      | FLAG_LEADER \<Rightarrow> Inr (o'\<lparr>o_leader := Some v\<rparr>)
      | FLAG_RETAIN \<Rightarrow> number 0 (of_nat WAL_MAX_SEGMENTS) ''msgsrvd: --retain-segments must be 0 to 1024''
          (\<lambda>n. o'\<lparr>o_retain := n\<rparr>)
      | FLAG_REPLICAS \<Rightarrow> number 0 2 ''msgsrvd: --replicas must be 0 to 2'' (\<lambda>n. o'\<lparr>o_replicas := n\<rparr>)
      | FLAG_METRICS_PORT \<Rightarrow> number 0 65535 ''msgsrvd: --metrics-port must be 0 to 65535''
          (\<lambda>n. o'\<lparr>o_metrics_port := n\<rparr>)
      | FLAG_SEGMENT_SIZE \<Rightarrow> number (of_nat WAL_REC_MAX_SIZE) (- 1)
          ''msgsrvd: --segment-size must hold one whole record'' (\<lambda>n. o'\<lparr>o_seg_size := n\<rparr>))"

fun parse_args :: "'k net \<Rightarrow> bytes list \<Rightarrow> options \<Rightarrow> 'k \<Rightarrow> options option \<times> 'k" where
  "parse_args N [] o' k = (Some o', k)"
| "parse_args N (a # as) o' k =
     (case map_of flag_names a of
        Some f \<Rightarrow>
          (case as of
             [] \<Rightarrow>
               (let k = out N 2 ''msgsrvd: '' k; k = out_text N 2 a k; k = out N 2 ('' needs a value'' @ NL @ NL) k
                in (None, usage N k))
           | v # as \<Rightarrow>
               (case take_flag f v o' of
                  Inl complaint \<Rightarrow> (None, out N 2 complaint k)
                | Inr o' \<Rightarrow> parse_args N as o' k))
      | None \<Rightarrow>
          if a = ascii ''--selfcheck'' then parse_args N as (o'\<lparr>o_selfcheck := True\<rparr>) k
          else if a = ascii ''--inspect'' then parse_args N as (o'\<lparr>o_inspect := True\<rparr>) k
          else
            (let k = out N 2 ''msgsrvd: unrecognised argument: '' k; k = out_text N 2 a k;
                 k = out N 2 (NL @ NL) k
             in (None, usage N k)))"

end
