(* ===== verification/Selfcheck_Core.thy ===== *)
theory Selfcheck_Core
  imports Crc32c Err_Stack Msg Fmt
begin

text \<open>
  \<^verbatim>\<open>src/server/selfcheck.c\<close>, the program's tests of itself: the checks of the arena, the checksum,
  the frame header, the payload codecs and the error stack. Each is the C function with its
  comparisons in the source's order and returns 0 when all of them hold; a buffer is threaded
  through, and what a check leaves in it is returned where a later one reads it. The lemmas say
  that the model passes the program's tests.
\<close>

section \<open>Arena\<close>

text \<open>\<open>base\<close> is the arena's memory.\<close>

definition selfcheck_arena :: "arena_t \<Rightarrow> bytes \<Rightarrow> int \<times> arena_t \<times> bytes" where
  "selfcheck_arena a base =
     (let (s1, a) = arena_alloc a 100; (s2, a) = arena_alloc a 200 in
      if span_empty s1 \<or> span_empty s2 \<or> off s1 = off s2 then (1, a, base)
      else if off s2 < add32 (off s1) (len s1) then (1, a, base)
      else case arena_ptr a s1 of
        None \<Rightarrow> (1, a, base)
      | Some p1 \<Rightarrow> (0, a, mem_zero (nat (len s1)) base (nat p1)))"

lemma selfcheck_arena_passes:
  assumes "312 \<le> cap" "cap < 2 ^ 31"
  shows "fst (selfcheck_arena (arena_init cap) base) = 0"
proof -
  have "(107 :: int) AND NOT 7 = 104" "(207 :: int) AND NOT 7 = 200" by simp_all
  then show ?thesis
    using assms by (simp add: selfcheck_arena_def arena_init_def arena_alloc_def add32_def SPAN_def arena_ptr_def
        span_ptr_def span_empty_def Let_def)
qed

section \<open>Checksum\<close>

definition check_vector :: bytes where
  "check_vector = ascii ''123456789''"

text \<open>The loop over every split point, from \<open>i\<close> on; \<open>n\<close> turns are left.\<close>

primrec check_splits :: "nat \<Rightarrow> nat \<Rightarrow> u32 \<Rightarrow> int" where
  "check_splits 0 i whole = 0"
| "check_splits (Suc n) i whole =
     (if crc32c (crc32c 0 (take i check_vector)) (take (9 - i) (drop i check_vector)) \<noteq> whole then 1
      else check_splits n (i + 1) whole)"

definition selfcheck_crc32c :: "bool \<Rightarrow> int" where
  "selfcheck_crc32c available =
     (if \<not> available then 1
      else let whole = crc32c 0 (take 9 check_vector) in
      if whole \<noteq> 0xE3069283 then 1
      else if crc32c 0 (ascii ''a'') \<noteq> 0xC1D04330 then 1
      else if crc32c 0 (take 0 check_vector) \<noteq> 0 then 1
      else let split = crc32c (crc32c 0 (take 4 check_vector)) (take 5 (drop 4 check_vector)) in
      if split \<noteq> whole then 1
      else check_splits 10 0 whole)"

lemma crc32c_append: "crc32c (crc32c c xs) ys = crc32c c (xs @ ys)"
  by (simp add: crc32c_eq crc_tail_append)

lemma check_splits_pass: "check_splits n i (crc32c 0 check_vector) = 0"
  by (induction n arbitrary: i) (simp_all add: crc32c_append check_vector_def ascii_def)

lemma selfcheck_crc32c_passes: "selfcheck_crc32c True = 0"
proof -
  have v: "check_vector = [0x31, 0x32, 0x33, 0x34, 0x35, 0x36, 0x37, 0x38, 0x39]"
    by (simp add: check_vector_def ascii_def)
  have whole: "take 9 check_vector = check_vector" by (simp add: v)
  have "take 4 check_vector @ take 5 (drop 4 check_vector) = check_vector" by (simp add: v)
  moreover have "crc32c 0 (ascii ''a'') = 0xC1D04330" by (simp add: crc_eval ascii_def)
  moreover have "crc32c 0 check_vector = 0xE3069283" by (simp only: v crc32c_check_value)
  ultimately show ?thesis
    using check_splits_pass [of 10 0]
    by (simp add: selfcheck_crc32c_def Let_def crc32c_append whole crc32c_def [of _ "[]"] del: check_splits.simps)
qed

section \<open>Frame header\<close>

definition put :: "nat \<Rightarrow> bytes \<Rightarrow> bytes \<Rightarrow> bytes" where
  "put at bs b = mem_copy (length bs) b at bs 0"

lemma put_splice [simp]:
  "at + length bs \<le> length b \<Longrightarrow> put at bs b = take at b @ bs @ drop (at + length bs) b"
  by (simp add: put_def mem_copy_splice)

definition selfcheck_header :: int where
  "selfcheck_header =
     (let b = replicate 64 0;
          hdr_out = msg_header_new MSG_OP_WRITE MSG_RECORD_NONE (MSG_FLAG_ACK_REQ OR MSG_FLAG_SYNC) 128 42 1 in
      case msg_encode_header (length b) hdr_out of
        None \<Rightarrow> 1
      | Some img \<Rightarrow>
      case msg_decode_header (put 0 img b) of
        None \<Rightarrow> 1
      | Some h \<Rightarrow>
      if h_magic h \<noteq> MSG_MAGIC \<or> h_version h \<noteq> MSG_VERSION \<or> h_op h \<noteq> MSG_OP_WRITE
        \<or> h_record_type h \<noteq> MSG_RECORD_NONE \<or> h_payload_len h \<noteq> 128 \<or> h_partition_key h \<noteq> 42
        \<or> h_sequence h \<noteq> 1 \<or> h_flags h \<noteq> (MSG_FLAG_ACK_REQ OR MSG_FLAG_SYNC) \<or> \<not> msg_header_valid h then 1
      else let h = h\<lparr>h_op := MSG_OP_HELLO\<rparr> in
      if \<not> msg_header_valid h then 1
      else let h = h\<lparr>h_op := MSG_OP_REPL_START\<rparr> in
      if \<not> msg_header_valid h then 1
      else let h = h\<lparr>h_op := MSG_OP_MAX + 1\<rparr> in
      if msg_header_valid h then 1
      else let h = h\<lparr>h_op := MSG_OP_WRITE, h_version := 1\<rparr> in
      if msg_header_valid h then 1
      else let h = h\<lparr>h_version := MSG_VERSION, h_payload_len := of_nat MSG_MAX_PAYLOAD\<rparr> in
      if \<not> msg_header_valid h then 1
      else let h = h\<lparr>h_payload_len := of_nat MSG_MAX_PAYLOAD + 1\<rparr> in
      if msg_header_valid h then 1 else 0)"

lemma selfcheck_header_passes: "selfcheck_header = 0"
  by (simp add: selfcheck_header_def Let_def msg_encode_header_def msg_decode_header_def header_codec.of_image
      msg_header_new_def msg_header_valid_def)

section \<open>Payload codecs\<close>

text \<open>The frame's length and the buffer with the frame in it. A NULL name is the empty one.\<close>

definition build_hello :: "bytes \<Rightarrow> u64 \<Rightarrow> bytes \<Rightarrow> nat \<times> bytes" where
  "build_hello b session name =
     (let payload_len = MSG_HELLO_SIZE + length name; total = MSG_HEADER_SIZE + payload_len in
      if length b < total \<or> length name > MSG_MAX_NAME then (0, b)
      else let hello = \<lparr>hello_session = session, hello_name_len = of_nat (length name), hello_pad0 = 0, hello_pad1 = 0\<rparr>;
               h = msg_header_new MSG_OP_HELLO MSG_RECORD_NONE MSG_FLAG_ACK_REQ (of_nat payload_len) 0 0 in
      case msg_encode_header (length b) h of
        None \<Rightarrow> (0, b)
      | Some img \<Rightarrow> let b = put 0 img b in
      case msg_encode_hello (length b - MSG_HEADER_SIZE) hello of
        None \<Rightarrow> (0, b)
      | Some img \<Rightarrow> let b = put MSG_HEADER_SIZE img b in
      (total, if length name > 0 then put (MSG_HEADER_SIZE + MSG_HELLO_SIZE) name b else b))"

lemma build_hello_eq:
  fixes name :: bytes and session :: u64
  assumes "48 + length name \<le> length b" "length name \<le> MSG_MAX_NAME"
  defines "h \<equiv> msg_header_new MSG_OP_HELLO MSG_RECORD_NONE MSG_FLAG_ACK_REQ (of_nat (MSG_HELLO_SIZE + length name)) 0 0"
    and "p \<equiv> \<lparr>hello_session = session, hello_name_len = of_nat (length name), hello_pad0 = 0, hello_pad1 = 0\<rparr>"
  shows "build_hello b session name
    = (48 + length name, header_image h @ hello_image p @ name @ drop (48 + length name) b)"
proof -
  have "\<not> length b - MSG_HEADER_SIZE < MSG_HELLO_SIZE" using assms(1) by simp
  then show ?thesis
    using assms
    by (simp add: build_hello_def Let_def msg_encode_header_def msg_encode_hello_def msg_payload_put_def add.commute)
qed

text \<open>The blocks of \<^verbatim>\<open>selfcheck_payloads\<close>, in order. \<open>b\<close> is the function's 64-byte buffer.\<close>

definition check_hello :: "bytes \<Rightarrow> int \<times> bytes" where
  "check_hello b =
     (let name = ascii ''mynorthweb''; name_len = length name; (total, b) = build_hello b 0 name in
      if total \<noteq> MSG_HEADER_SIZE + MSG_HELLO_SIZE + name_len then (1, b)
      else case msg_decode_header (take total b) of
        None \<Rightarrow> (1, b)
      | Some h \<Rightarrow>
      if h_op h \<noteq> MSG_OP_HELLO \<or> sint (h_payload_len h) \<noteq> int (MSG_HELLO_SIZE + name_len) then (1, b)
      else let n = nat (sint (h_payload_len h)); p = take n (drop MSG_HEADER_SIZE b) in
      case msg_decode_hello p of
        None \<Rightarrow> (1, b)
      | Some hello \<Rightarrow>
      if hello_session hello \<noteq> 0 \<or> hello_name_len hello \<noteq> of_nat name_len then (1, b)
      else if \<not> msg_hello_valid hello n then (1, b)
      else case msg_hello_name p of
        None \<Rightarrow> (1, b)
      | Some tail \<Rightarrow>
      if mem_cmp tail name name_len \<noteq> 0 then (1, b)
      else if msg_hello_valid hello (n - 1) then (1, b)
      else let hello = hello\<lparr>hello_name_len := of_nat (MSG_MAX_NAME + 1)\<rparr> in
      if msg_hello_valid hello (MSG_HELLO_SIZE + MSG_MAX_NAME + 1) then (1, b)
      else let (total, b) = build_hello b 0x1234 []; p = take MSG_HELLO_SIZE (drop MSG_HEADER_SIZE b) in
      if total \<noteq> MSG_HEADER_SIZE + MSG_HELLO_SIZE then (1, b)
      else case msg_decode_hello p of
        None \<Rightarrow> (1, b)
      | Some hello \<Rightarrow>
      if hello_session hello \<noteq> 0x1234 \<or> hello_name_len hello \<noteq> 0 \<or> \<not> msg_hello_valid hello MSG_HELLO_SIZE
        \<or> msg_hello_name p \<noteq> None then (1, b) else (0, b))"

definition check_ack :: "bytes \<Rightarrow> int \<times> bytes" where
  "check_ack b =
     (let out = \<lparr>ack_client_seq = 987654321\<rparr> in
      case msg_encode_ack (length b) out of
        None \<Rightarrow> (1, b)
      | Some img \<Rightarrow> let b = put 0 img b in
      case msg_decode_ack (take MSG_ACK_SIZE b) of
        None \<Rightarrow> (1, b)
      | Some ack \<Rightarrow>
      if ack_client_seq ack \<noteq> ack_client_seq out then (1, b)
      else if msg_encode_ack (MSG_ACK_SIZE - 1) out \<noteq> None \<or> msg_decode_ack (take (MSG_ACK_SIZE - 1) b) \<noteq> None
      then (1, b) else (0, b))"

definition check_err_payload :: "bytes \<Rightarrow> int \<times> bytes" where
  "check_err_payload b =
     (let addr = ascii ''192.0.2.13:7400''; addr_len = length addr; payload_len = MSG_ERR_SIZE + addr_len;
          out = \<lparr>err_code = MSG_ERR_NOT_LEADER, err_text_len = of_nat addr_len, err_pad = 0\<rparr> in
      case msg_encode_err (length b) out of
        None \<Rightarrow> (1, b)
      | Some img \<Rightarrow> let b = put MSG_ERR_SIZE addr (put 0 img b); p = take payload_len b in
      case msg_decode_err p of
        None \<Rightarrow> (1, b)
      | Some err \<Rightarrow>
      if err_code err \<noteq> MSG_ERR_NOT_LEADER \<or> err_text_len err \<noteq> of_nat addr_len \<or> \<not> msg_err_valid err payload_len
      then (1, b)
      else case msg_err_text p of
        None \<Rightarrow> (1, b)
      | Some tail \<Rightarrow>
      if mem_cmp tail addr addr_len \<noteq> 0 then (1, b)
      else if msg_err_valid err MSG_ERR_SIZE then (1, b) else (0, b))"

definition check_read_subscribe :: "bytes \<Rightarrow> int \<times> bytes" where
  "check_read_subscribe b =
     (let r_out = \<lparr>read_min_seq = 4242\<rparr> in
      case msg_encode_read (length b) r_out of
        None \<Rightarrow> (1, b)
      | Some img \<Rightarrow> let b = put 0 img b in
      case msg_decode_read (take MSG_READ_SIZE b) of
        None \<Rightarrow> (1, b)
      | Some r_in \<Rightarrow>
      if read_min_seq r_in \<noteq> read_min_seq r_out then (1, b)
      else let s_out = \<lparr>sub_min_seq = 4242, sub_from_seq = 99\<rparr> in
      case msg_encode_subscribe (length b) s_out of
        None \<Rightarrow> (1, b)
      | Some img \<Rightarrow> let b = put 0 img b in
      case msg_decode_subscribe (take MSG_SUBSCRIBE_SIZE b) of
        None \<Rightarrow> (1, b)
      | Some s_in \<Rightarrow>
      if sub_min_seq s_in \<noteq> sub_min_seq s_out \<or> sub_from_seq s_in \<noteq> sub_from_seq s_out then (1, b)
      else if msg_decode_subscribe (take (MSG_SUBSCRIBE_SIZE - 1) b) \<noteq> None then (1, b) else (0, b))"

definition selfcheck_payloads :: int where
  "selfcheck_payloads =
     (let (rc, b) = check_hello (replicate 64 0) in
      if rc \<noteq> 0 then rc else let (rc, b) = check_ack b in
      if rc \<noteq> 0 then rc else let (rc, b) = check_err_payload b in
      if rc \<noteq> 0 then rc else fst (check_read_subscribe b))"

lemma mem_cmp_prefix: "mem_cmp (xs @ ys) xs (length xs) = 0"
  by (induction xs) simp_all

lemmas payload_ops = msg_payload_get_def msg_payload_put_def msg_decode_hello_def msg_encode_hello_def
  msg_decode_ack_def msg_encode_ack_def msg_decode_err_def msg_encode_err_def msg_decode_read_def
  msg_encode_read_def msg_decode_subscribe_def msg_encode_subscribe_def

lemma check_ack_passes: "length b = 64 \<Longrightarrow> fst (check_ack b) = 0 \<and> length (snd (check_ack b)) = 64"
  by (simp add: check_ack_def Let_def payload_ops ack_codec.of_image_exact)

lemma check_read_subscribe_passes: "length b = 64 \<Longrightarrow> fst (check_read_subscribe b) = 0"
  by (simp add: check_read_subscribe_def Let_def payload_ops read_codec.of_image_exact subscribe_codec.of_image_exact)

lemma check_err_payload_passes:
  assumes "length b = 64"
  shows "fst (check_err_payload b) = 0 \<and> length (snd (check_err_payload b)) = 64"
proof -
  define addr where "addr = ascii ''192.0.2.13:7400''"
  have n: "length addr = 15" by (simp add: addr_def ascii_def)
  then have "mem_cmp (addr @ ys) addr 15 = 0" for ys using mem_cmp_prefix [of addr ys] by simp
  moreover have "mem_cmp addr addr 15 = 0" using n mem_cmp_prefix [of addr "[]"] by simp
  ultimately show ?thesis
    using assms
    by (simp add: check_err_payload_def addr_def [symmetric] n Let_def payload_ops err_codec.of_image_exact
        msg_err_valid_def msg_err_text_def)
qed

lemma check_hello_passes:
  assumes "length b = 64"
  shows "fst (check_hello b) = 0 \<and> length (snd (check_hello b)) = 64"
proof -
  define name where "name = ascii ''mynorthweb''"
  have n: "length name = 10" by (simp add: name_def ascii_def)
  then have "mem_cmp (name @ ys) name 10 = 0" for ys using mem_cmp_prefix [of name ys] by simp
  moreover have "mem_cmp name name 10 = 0" using n mem_cmp_prefix [of name "[]"] by simp
  ultimately show ?thesis
    using assms
    by (simp add: check_hello_def name_def [symmetric] n Let_def payload_ops build_hello_eq hello_codec.of_image_exact
        msg_decode_header_def header_codec.of_image msg_header_new_def msg_hello_valid_def msg_hello_name_def)
qed

lemma selfcheck_payloads_passes: "selfcheck_payloads = 0"
proof -
  obtain r1 b1 where h: "check_hello (replicate 64 0) = (r1, b1)" by (metis surj_pair)
  obtain r2 b2 where a: "check_ack b1 = (r2, b2)" by (metis surj_pair)
  obtain r3 b3 where e: "check_err_payload b2 = (r3, b3)" by (metis surj_pair)
  show ?thesis
    using check_hello_passes [of "replicate 64 0"] check_ack_passes [of b1] check_err_payload_passes [of b2]
      check_read_subscribe_passes [of b3] h a e
    by (simp add: selfcheck_payloads_def)
qed

section \<open>Error stack\<close>

text \<open>\<open>file\<close> is what \<^verbatim>\<open>__FILE__\<close> expands to; \<open>-7\<close> and \<open>-4\<close> are ERR_STORAGE and ERR_INVALID.\<close>

definition selfcheck_err :: "string \<Rightarrow> err_t \<Rightarrow> int \<times> err_t" where
  "selfcheck_err file e =
     (let at = (\<lambda>line code detail. \<lparr>fr_file = Some file, fr_func = Some ''selfcheck_err'', fr_line = line,
            fr_code = code, fr_detail = detail\<rparr>);
          e = err_push_frame e (at 3439 (-7) ERR_DTL_NONE);
          e = err_push_frame e (at 3440 (-7) (ERR_DTL_FD 7));
          e = err_push_frame e (at 3441 (-4) (ERR_DTL_INT 1234)) in
      if \<not> err_has_error e \<or> err_frame_count e \<noteq> 3 then (1, e) else (0, e))"

lemma selfcheck_err_passes: "fst (selfcheck_err file err_init) = 0"
  by (simp add: selfcheck_err_def Let_def err_init_def err_push_frame_def ERR_MAX_FRAMES_def err_has_error_def
      err_frame_count_def)

end
