(* ===== verification/Arguments_Facts.thy ===== *)
theory Arguments_Facts
  imports Arguments Selfcheck_Core
begin

text \<open>
  What the command line accepts (\<^verbatim>\<open>src/server/main.c\<close>): which texts are numbers and which number they
  are, and the ranges of the options a program that starts has been given. The number reader of the
  self checks (\<^verbatim>\<open>src/server/selfcheck.c\<close>, \<^verbatim>\<open>sc_number_at\<close>) is modelled here beside it.
\<close>

section \<open>Numbers\<close>

lemma foldl_decimal: "foldl (\<lambda>v d. v * 10 + digit_value d) a ds = a * 10 ^ length ds + decimal_value ds"
proof (induction ds arbitrary: a)
  case Nil
  then show ?case by simp
next
  case (Cons d ds)
  have "decimal_value (d # ds) = digit_value d * 10 ^ length ds + decimal_value ds"
    unfolding decimal_value_def [of "d # ds"] using Cons.IH [of "digit_value d"] by simp
  then show ?case using Cons.IH [of "a * 10 + digit_value d"] by (simp add: algebra_simps)
qed

lemma decimal_value_Cons: "decimal_value (d # ds) = digit_value d * 10 ^ length ds + decimal_value ds"
  unfolding decimal_value_def [of "d # ds"] using foldl_decimal [of "digit_value d" ds] by simp

lemma digit_word: "is_digit d \<Longrightarrow> (ucast (d - 48) :: u64) = of_nat (digit_value d)"
proof -
  assume d: "is_digit d"
  then have "unat (d - 48) = digit_value d"
    by (simp add: is_digit_def digit_value_def word_le_nat_alt unat_sub)
  moreover have "(ucast (d - 48) :: u64) = of_nat (unat (d - 48))" by simp
  ultimately show ?thesis by (simp only:)
qed

lemma parse_u64_from_digits:
  "parse_u64_from cs v = Some r \<Longrightarrow>
     list_all is_digit cs \<and> r = v * of_nat (10 ^ length cs) + of_nat (decimal_value cs)"
proof (induction cs arbitrary: v)
  case Nil
  then show ?case by simp
next
  case (Cons c cs)
  then have d: "is_digit c" by (auto simp: is_digit_def split: if_splits)
  have "parse_u64_from cs (v * 10 + ucast (c - 48)) = Some r" using Cons.prems by (simp split: if_splits)
  from Cons.IH [OF this] d show ?case by (simp add: digit_word decimal_value_Cons algebra_simps)
qed

lemma parse_u64_from_small:
  "list_all is_digit cs \<Longrightarrow> unat v * 10 ^ length cs + decimal_value cs < 2 ^ 64 \<Longrightarrow>
     parse_u64_from cs v = Some (v * of_nat (10 ^ length cs) + of_nat (decimal_value cs))"
proof (induction cs arbitrary: v)
  case Nil
  then show ?case by simp
next
  case (Cons c cs)
  have d: "is_digit c" "list_all is_digit cs" using Cons.prems(1) by simp_all
  let ?v = "v * 10 + ucast (c - 48) :: u64"
  have small: "(unat v * 10 + digit_value c) * 10 ^ length cs + decimal_value cs < 2 ^ 64"
    using Cons.prems(2) by (simp add: decimal_value_Cons algebra_simps)
  moreover have "unat v * 10 + digit_value c \<le> (unat v * 10 + digit_value c) * 10 ^ length cs" by simp
  ultimately have lt: "unat v * 10 + digit_value c < 2 ^ 64" by linarith
  have v: "?v = of_nat (unat v * 10 + digit_value c)" using d(1) by (simp add: digit_word)
  then have un: "unat ?v = unat v * 10 + digit_value c" using lt by (simp only: unat_of_nat) simp
  have "\<not> v > 0xFFFFFFFFFFFFFFFF div 10" using lt by (simp add: word_less_nat_alt)
  moreover have "parse_u64_from cs ?v = Some (?v * of_nat (10 ^ length cs) + of_nat (decimal_value cs))"
    using Cons.IH [OF d(2), of ?v] small un by simp
  moreover have "\<not> (c < 48 \<or> 57 < c)" using d(1) by (auto simp: is_digit_def)
  ultimately show ?case using v d(1) by (simp add: digit_word decimal_value_Cons algebra_simps)
qed

lemma parse_u64_value:
  "parse_u64 s = Some v \<Longrightarrow> s \<noteq> [] \<and> list_all is_digit s \<and> v = of_nat (decimal_value s)"
  using parse_u64_from_digits [of s 0 v] by (auto simp: parse_u64_def split: if_splits)

lemma parse_u64_exact:
  "s \<noteq> [] \<Longrightarrow> list_all is_digit s \<Longrightarrow> decimal_value s < 2 ^ 64 \<Longrightarrow> parse_u64 s = Some (of_nat (decimal_value s))"
  using parse_u64_from_small [of s 0] by (simp add: parse_u64_def)

lemma digits_text: "rev (u64_digits v) \<noteq> []" "list_all is_digit (rev (u64_digits v))"
  "decimal_value (rev (u64_digits v)) < 2 ^ 64" "of_nat (decimal_value (rev (u64_digits v))) = v"
  using u64_digits_value [of v] u64_digits_max(2) [of v] unat_less64 [of v] by (auto simp: list_all_iff)

text \<open>The self checks' own number reader: the digits at the front, or the sentinel when there is none.\<close>

primrec number_from :: "bytes \<Rightarrow> u64 \<Rightarrow> bool \<Rightarrow> u64" where
  "number_from [] v any = (if any then v else 0xFFFFFFFFFFFFFFFF)"
| "number_from (c # cs) v any =
     (if 48 \<le> c \<and> c \<le> 57 then number_from cs (v * 10 + ucast (c - 48)) True
      else if any then v else 0xFFFFFFFFFFFFFFFF)"

definition sc_number_at :: "bytes \<Rightarrow> nat \<Rightarrow> u64" where
  "sc_number_at s from = number_from (drop from s) 0 False"

primrec find_from :: "bytes \<Rightarrow> bytes \<Rightarrow> nat \<Rightarrow> int" where
  "find_from needle [] i = -1"
| "find_from needle (c # cs) i =
     (if length needle > Suc (length cs) then -1
      else if mem_cmp (c # cs) needle (length needle) = 0 then int i else find_from needle cs (i + 1))"

definition sc_find :: "bytes \<Rightarrow> bytes \<Rightarrow> int" where
  "sc_find hay needle = (if needle = [] \<or> length needle > length hay then -1 else find_from needle hay 0)"

definition sc_metric :: "bytes \<Rightarrow> bytes \<Rightarrow> u64" where
  "sc_metric body name =
     (let at = sc_find body name in
      if at < 0 then 0xFFFFFFFFFFFFFFFF else sc_number_at body (nat at + length name))"

lemma number_from_digits:
  "list_all is_digit ds \<Longrightarrow> rest = [] \<or> \<not> is_digit (hd rest) \<Longrightarrow> ds \<noteq> [] \<or> any \<Longrightarrow>
     number_from (ds @ rest) v any = v * of_nat (10 ^ length ds) + of_nat (decimal_value ds)"
proof (induction ds arbitrary: v any)
  case Nil
  then show ?case by (cases rest) (auto simp: is_digit_def)
next
  case (Cons d ds)
  have d: "is_digit d" "list_all is_digit ds" using Cons.prems(1) by simp_all
  have "number_from (ds @ rest) (v * 10 + ucast (d - 48)) True
      = (v * 10 + ucast (d - 48)) * of_nat (10 ^ length ds) + of_nat (decimal_value ds)"
    using Cons.IH [OF d(2) Cons.prems(2), of True] by simp
  then show ?case using d(1) by (simp add: is_digit_def) (simp add: digit_word is_digit_def decimal_value_Cons algebra_simps)
qed

text \<open>C36. Numbers written are the numbers read. What \<open>parse_u64\<close> accepts is a non-empty text of digits,
  every value below 2^64 is read exactly, and what \<open>fmt_u64\<close> prints is read back, by the command line
  and, from the middle of a document, by the self checks. A value of 2^64 or more need not be refused,
  as its comment says it is, but may wrap: 2^64 itself is read as 0.\<close>

theorem numbers_read_back:
  "parse_u64 (rev (u64_digits v)) = Some v
   \<and> (rest = [] \<or> \<not> is_digit (hd rest) \<longrightarrow> sc_number_at (b @ rev (u64_digits v) @ rest) (length b) = v)
   \<and> (parse_u64 s = Some u \<longrightarrow> s \<noteq> [] \<and> list_all is_digit s \<and> u = of_nat (decimal_value s))
   \<and> (s \<noteq> [] \<and> list_all is_digit s \<and> decimal_value s < 2 ^ 64 \<longrightarrow> parse_u64 s = Some (of_nat (decimal_value s)))
   \<and> parse_u64 (ascii ''18446744073709551616'') = Some 0"
proof (intro conjI impI)
  show "parse_u64 (rev (u64_digits v)) = Some v"
    using parse_u64_exact [OF digits_text(1-3)] digits_text(4) by metis
  show "sc_number_at (b @ rev (u64_digits v) @ rest) (length b) = v" if "rest = [] \<or> \<not> is_digit (hd rest)"
    using number_from_digits [OF digits_text(2) that, of v False 0] digits_text(1,4) by (simp add: sc_number_at_def)
  show "s \<noteq> []" "list_all is_digit s" "u = of_nat (decimal_value s)" if "parse_u64 s = Some u"
    using parse_u64_value [OF that] by simp_all
  show "parse_u64 s = Some (of_nat (decimal_value s))" if "s \<noteq> [] \<and> list_all is_digit s \<and> decimal_value s < 2 ^ 64"
    using parse_u64_exact that by blast
  show "parse_u64 (ascii ''18446744073709551616'') = Some 0" by (simp add: parse_u64_def ascii_def)
qed

theorem numbers_read_back_witness:
  "sc_number_at (ascii ''msgsrvd_writes_total 42'' @ [10]) 21 = 42 \<and> parse_u64 (ascii ''0042'') = Some 42"
proof -
  have d: "rev (u64_digits 42) = [52, 50]" "length (ascii ''msgsrvd_writes_total '') = 21"
    by (simp_all add: u64_digits.simps ascii_def)
  have "sc_number_at (ascii ''msgsrvd_writes_total '' @ [52, 50] @ [10]) 21 = 42"
    using numbers_read_back [of 42 "[10]" "ascii ''msgsrvd_writes_total ''" "[]" 0, unfolded d]
    by (simp add: is_digit_def ascii_def)
  moreover have "parse_u64 (ascii ''0042'') = Some 42"
    using numbers_read_back [of 0 "[]" "[]" "ascii ''0042''" 0]
    by (simp add: ascii_def is_digit_def decimal_value_def digit_value_def)
  ultimately show ?thesis by (simp add: ascii_def)
qed

section \<open>Options\<close>

definition options_ok :: "options \<Rightarrow> bool" where
  "options_ok o' \<longleftrightarrow> o_port o' \<le> 65535 \<and> o_metrics_port o' \<le> 65535 \<and> o_retain o' \<le> of_nat WAL_MAX_SEGMENTS
     \<and> o_replicas o' \<le> 2 \<and> of_nat WAL_REC_MAX_SIZE \<le> o_seg_size o'"

lemma take_flag_ok: "options_ok o' \<Longrightarrow> take_flag f v o' = Inr o'' \<Longrightarrow> options_ok o''"
  by (cases f) (auto simp: take_flag_def number_in_def options_ok_def not_less split: option.splits if_splits)

lemma parse_args_ok:
  "options_ok o' \<Longrightarrow> parse_args N as o' k = (Some o'', k') \<Longrightarrow> options_ok o'' \<and> k' = k"
proof (induction N as o' k rule: parse_args.induct)
  case (1 N o' k)
  then show ?case by simp
next
  case (2 N a as o' k)
  show ?case
  proof (cases "map_of flag_names a")
    case None
    then show ?thesis
      using 2 by (auto simp: Let_def options_ok_def split: if_splits)
  next
    case (Some f)
    then show ?thesis
      using 2 take_flag_ok [of o' f] by (auto simp: Let_def split: list.splits sum.splits)
  qed
qed



end
