(* ===== verification/Main_Program.thy ===== *)
theory Main_Program
  imports Arguments Loop_Tick
begin

text \<open>
  \<^verbatim>\<open>src/server/main.c\<close>: opening the log and reporting what is in it, serving until a signal
  or an error stops the loop, and the choice between the two. Opening a log and running the
  loop may not end, so the result is an option; the exit status is an integer. Whether the
  CPU has the checksum instruction, the static buffers and the self checks (test code) are
  parameters. Error stacks are printed in debug builds only and are left out.
\<close>

definition report_log :: "'k net \<Rightarrow> bytes \<Rightarrow> wal_open_t \<Rightarrow> nat \<Rightarrow> 'k \<Rightarrow> 'k" where
  "report_log N dir info sessions k =
     (let k = out N 1 ''msgsrvd: log '' k; k = out_text N 1 dir k;
          k = out N 1 '' segments='' k; k = out_u64 N 1 (of_nat (wo_segments info)) k;
          k = out N 1 '' records='' k; k = out_u64 N 1 (wo_records info) k;
          k = out N 1 '' first='' k; k = out_u64 N 1 (wo_first_seq info) k;
          k = out N 1 '' last='' k; k = out_u64 N 1 (wo_last_seq info) k;
          k = out N 1 '' sessions='' k; k = out_u64 N 1 (of_nat sessions) k;
          k = (if wo_torn info then out N 1 '' (a torn tail was dropped)'' k else k)
      in out N 1 NL k)"

text \<open>The scan both modes start with. The C stack slot of the log is the parameter \<open>w\<close>.\<close>

definition open_log ::
    "'k net \<Rightarrow> wal_t \<Rightarrow> bytes \<Rightarrow> nat \<Rightarrow> bytes \<Rightarrow> 'k
       \<Rightarrow> ((wal_t \<times> wal_open_t \<times> session_table_t) option \<times> 'k) option" where
  "open_log N w dir seg_size scratch k =
     (case wal_open (net_files N) w (dir @ [0]) seg_size scratch session_from_record session_table_init k of
        None \<Rightarrow> None
      | Some (r, w, info, t, k) \<Rightarrow>
          if \<not> result_ok r then
            (let k = out N 2 ''msgsrvd: cannot open the log in '' k; k = out_text N 2 dir k
             in Some (None, out N 2 NL k))
          else Some (Some (w, info, t), report_log N dir info (length (st_entries t)) k))"

definition report_key :: "'k net \<Rightarrow> wal_index_key_t \<Rightarrow> 'k \<Rightarrow> 'k" where
  "report_key N x k =
     (let k = out N 1 ''msgsrvd:   key '' k; k = out_u64 N 1 (k_key x) k;
          k = out N 1 '' records='' k; k = out_u64 N 1 (k_count x) k;
          k = out N 1 '' first='' k; k = out_u64 N 1 (k_first x) k;
          k = out N 1 '' last='' k; k = out_u64 N 1 (k_last x) k
      in out N 1 NL k)"

definition no_crc_text :: string where
  "no_crc_text = ''msgsrvd: this CPU has no SSE4.2, which CRC32C needs'' @ NL"

definition inspect_log ::
    "'k net \<Rightarrow> bool \<Rightarrow> wal_t \<Rightarrow> bytes \<Rightarrow> nat \<Rightarrow> bytes \<Rightarrow> 'k \<Rightarrow> (int \<times> 'k) option" where
  "inspect_log N crc_available w dir seg_size scratch k =
     (if \<not> crc_available then Some (1, out N 2 no_crc_text k)
      else case open_log N w dir seg_size scratch k of
        None \<Rightarrow> None
      | Some (None, k) \<Rightarrow> Some (1, k)
      | Some (Some (w, info, t), k) \<Rightarrow>
          (let ix = wal_index w;
               k = fold (report_key N) (map (\<lambda>i. the (wal_index_at ix (int i))) [0..<wal_index_count ix]) k;
               k = (if ix_unknown ix > 0 then
                      (let k = out N 1 ''msgsrvd:   and '' k; k = out_u64 N 1 (ix_unknown ix) k
                       in out N 1 ('' records whose keys did not fit the index'' @ NL) k)
                    else k);
               (_, _, k) = wal_close (net_files N) w k
           in Some (0, k)))"

text \<open>The label \<open>out_wal\<close>: close the log and return.\<close>

definition out_wal :: "'k net \<Rightarrow> int \<Rightarrow> wal_t \<Rightarrow> 'k \<Rightarrow> (int \<times> 'k) option" where
  "out_wal N rc w k = (let (_, _, k) = wal_close (net_files N) w k in Some (rc, k))"

definition report_listening :: "'k net \<Rightarrow> options \<Rightarrow> loop_t \<Rightarrow> 'k \<Rightarrow> 'k" where
  "report_listening N o' l k =
     (let k = out N 1 ''msgsrvd: listening on '' k; k = out_text N 1 (o_bind_text o') k;
          k = out N 1 '':'' k; k = out_u64 N 1 (ucast (l_port l)) k;
          k = (case o_leader o' of
                 Some leader \<Rightarrow> out_text N 1 leader (out N 1 '' replica of '' k)
               | None \<Rightarrow> out N 1 '' leader'' k);
          k = (if o_metrics_port o' > 0 then
                 out_u64 N 1 (ucast (l_metrics_port l)) (out N 1 '', metrics on '' k) else k);
          k = (if o_retain o' > 0 then
                 out N 1 '' segments'' (out_u64 N 1 (o_retain o') (out N 1 '', keeping '' k)) else k)
      in out N 1 NL k)"

text \<open>What follows once everything is set up: serve, shut down, and flush what is left.\<close>

definition serve ::
    "'k net \<Rightarrow> bytes \<Rightarrow> loop_t \<Rightarrow> 'k \<Rightarrow> (int \<times> 'k) option" where
  "serve N scratch l k =
     (case loop_run N scratch l k of
        None \<Rightarrow> None
      | Some (r, l, k) \<Rightarrow>
          if \<not> result_ok r then
            (let k = out N 2 (''msgsrvd: the event loop stopped on an error'' @ NL) k; (l, k) = loop_shutdown N l k
             in out_wal N 1 (l_wal l) k)
          else
            (let (l, k) = loop_shutdown N l k;
                 (r, w, k) = wal_sync (net_files N) (l_wal l) k in
             if \<not> result_ok r then out_wal N 1 w (out N 2 (''msgsrvd: the final flush failed'' @ NL) k)
             else
               (let k = out N 1 ''msgsrvd: stopped at sequence '' k; k = out_u64 N 1 (wal_durable_seq w) k
                in out_wal N 0 w (out N 1 NL k))))"

text \<open>\<open>loop_scratch\<close> is the loop's own static buffer, \<open>scratch\<close> the one of the scan.\<close>

definition run_server ::
    "'k net \<Rightarrow> bool \<Rightarrow> wal_t \<Rightarrow> bytes \<Rightarrow> options \<Rightarrow> bytes \<Rightarrow> bytes \<Rightarrow> 'k \<Rightarrow> (int \<times> 'k) option" where
  "run_server N crc_available w dir o' scratch loop_scratch k =
     (if \<not> crc_available then Some (1, out N 2 no_crc_text k)
      else case open_log N w dir (nat (sint (o_seg_size o'))) scratch k of
        None \<Rightarrow> None
      | Some (None, k) \<Rightarrow> Some (1, k)
      | Some (Some (w, info, t), k) \<Rightarrow>
          (let sigs = SIGMASK SIGINT OR SIGMASK SIGTERM;
               (r, k) = os_sigblock N sigs k;
               (r, sig_fd, k) = (if result_ok r then os_signalfd N sigs (SFD_CLOEXEC OR SFD_NONBLOCK) (-1) k
                                 else (r, -1, k)) in
           if \<not> result_ok r then
             out_wal N 1 w (out N 2 (''msgsrvd: cannot take a signal descriptor'' @ NL) k)
           else let leader_addr = (case o_leader o' of Some s \<Rightarrow> map_option Some (parse_addr s) | None \<Rightarrow> Some None) in
           case leader_addr of
             None \<Rightarrow> out_wal N 1 w (out N 2 (''msgsrvd: --leader wants an address like 192.0.2.13:7400'' @ NL) k)
           | Some leader \<Rightarrow>
               (let (r, l, k) = loop_init N w t (o_bind_ip o') (ucast (o_port o')) k in
                if \<not> result_ok r then
                  (let k = out N 2 (''msgsrvd: cannot start the event loop'' @ NL) k;
                       (_, k) = os_close (net_files N) sig_fd k
                   in out_wal N 1 w k)
                else let (l, k) = loop_set_signal_fd N l sig_fd k;
                         (r, l, k) = (case leader of
                            Some addr \<Rightarrow> loop_set_leader N l addr (the (o_leader o')) k
                          | None \<Rightarrow> (RESULT_OK, l, k)) in
                if \<not> result_ok r then
                  (let k = out N 2 (''msgsrvd: cannot take a timer, which a replica needs'' @ NL) k;
                       (l, k) = loop_shutdown N l k
                   in out_wal N 1 (l_wal l) k)
                else let l = loop_set_retention l (sint (ucast (o_retain o') :: u32))
                           (if leader = None then sint (ucast (o_replicas o') :: u32) else 0);
                         (r, l, k) = (if o_metrics_port o' > 0
                            then loop_set_metrics_port N l (o_bind_ip o') (ucast (o_metrics_port o')) k
                            else (RESULT_OK, l, k)) in
                if \<not> result_ok r then
                  (let k = out N 2 (''msgsrvd: cannot listen on the metrics port'' @ NL) k;
                       (l, k) = loop_shutdown N l k
                   in out_wal N 1 (l_wal l) k)
                else serve N loop_scratch l (report_listening N o' l k))))"

text \<open>\<open>selfcheck\<close> runs the in-process checks and says whether one failed.\<close>

definition main_program ::
    "'k net \<Rightarrow> bool \<Rightarrow> ('k \<Rightarrow> bool \<times> 'k) \<Rightarrow> wal_t \<Rightarrow> bytes list \<Rightarrow> bytes \<Rightarrow> bytes \<Rightarrow> 'k \<Rightarrow> (int \<times> 'k) option" where
  "main_program N crc_available selfcheck w args scratch loop_scratch k =
     (case parse_args N args default_options k of
        (None, k) \<Rightarrow> Some (2, k)
      | (Some o', k) \<Rightarrow>
          if o_selfcheck o' then
            (let (failed, k) = selfcheck k in
             if failed then Some (1, out N 2 (''msgsrvd: self-check failed'' @ NL) k)
             else Some (0, out N 1 (''msgsrvd: self-check passed'' @ NL) k))
          else case o_dir o' of
            None \<Rightarrow> Some (2, usage N k)
          | Some dir \<Rightarrow>
              if o_inspect o' then inspect_log N crc_available w dir (nat (sint (o_seg_size o'))) scratch k
              else run_server N crc_available w dir o' scratch loop_scratch k)"

end
