(* ===== verification/Os_Spare.thy ===== *)
theory Os_Spare
  imports Net
begin

text \<open>
  The wrappers of \<^verbatim>\<open>src/sys/os.h\<close> no path of the server takes: they are there for the self checks and
  for code to come. As in \<open>Os\<close> and \<open>Net\<close> the kernel is a parameter; its functions for these calls are
  added to the record. A path, like every C string, is the list of its bytes before the NUL.
\<close>

record 'k spare = "'k net" +
  sys_open :: "bytes \<Rightarrow> int \<Rightarrow> int \<Rightarrow> 'k \<Rightarrow> (int + int) \<times> 'k"
  sys_ftruncate :: "int \<Rightarrow> int \<Rightarrow> 'k \<Rightarrow> (int + unit) \<times> 'k"
  sys_mkdir :: "bytes \<Rightarrow> int \<Rightarrow> 'k \<Rightarrow> (int + unit) \<times> 'k"
  sys_rmdir :: "bytes \<Rightarrow> 'k \<Rightarrow> (int + unit) \<times> 'k"
  sys_getpid :: "'k \<Rightarrow> int \<times> 'k"
  sys_mmap :: "u64 \<Rightarrow> u64 \<Rightarrow> int \<Rightarrow> int \<Rightarrow> int \<Rightarrow> u64 \<Rightarrow> 'k \<Rightarrow> (int + u64) \<times> 'k"
  sys_munmap :: "u64 \<Rightarrow> u64 \<Rightarrow> 'k \<Rightarrow> (int + unit) \<times> 'k"
  sys_shutdown :: "int \<Rightarrow> int \<Rightarrow> 'k \<Rightarrow> (int + unit) \<times> 'k"
  sys_eventfd2 :: "u32 \<Rightarrow> int \<Rightarrow> 'k \<Rightarrow> (int + int) \<times> 'k"

definition os_open :: "'k spare \<Rightarrow> bytes \<Rightarrow> int \<Rightarrow> int \<Rightarrow> int \<Rightarrow> 'k \<Rightarrow> result_t \<times> int \<times> 'k" where
  "os_open S path flags m fd_out k = sys_value fd_out (sys_open S path flags m k)"

definition os_ftruncate :: "'k spare \<Rightarrow> int \<Rightarrow> int \<Rightarrow> 'k \<Rightarrow> result_t \<times> 'k" where
  "os_ftruncate S fd n k = sys_unit (sys_ftruncate S fd n k)"

definition os_mkdir :: "'k spare \<Rightarrow> bytes \<Rightarrow> int \<Rightarrow> 'k \<Rightarrow> result_t \<times> 'k" where
  "os_mkdir S path m k = sys_unit (sys_mkdir S path m k)"

definition os_rmdir :: "'k spare \<Rightarrow> bytes \<Rightarrow> 'k \<Rightarrow> result_t \<times> 'k" where
  "os_rmdir S path k = sys_unit (sys_rmdir S path k)"

definition os_getpid :: "'k spare \<Rightarrow> 'k \<Rightarrow> int \<times> 'k" where
  "os_getpid S k = sys_getpid S k"

definition os_mmap ::
    "'k spare \<Rightarrow> u64 \<Rightarrow> u64 \<Rightarrow> int \<Rightarrow> int \<Rightarrow> int \<Rightarrow> u64 \<Rightarrow> u64 \<Rightarrow> 'k \<Rightarrow> result_t \<times> u64 \<times> 'k" where
  "os_mmap S addr n prot flags fd from out_v k = sys_value out_v (sys_mmap S addr n prot flags fd from k)"

definition os_munmap :: "'k spare \<Rightarrow> u64 \<Rightarrow> u64 \<Rightarrow> 'k \<Rightarrow> result_t \<times> 'k" where
  "os_munmap S addr n k = sys_unit (sys_munmap S addr n k)"

definition os_shutdown :: "'k spare \<Rightarrow> int \<Rightarrow> int \<Rightarrow> 'k \<Rightarrow> result_t \<times> 'k" where
  "os_shutdown S fd how k = sys_unit (sys_shutdown S fd how k)"

definition os_eventfd :: "'k spare \<Rightarrow> u32 \<Rightarrow> int \<Rightarrow> int \<Rightarrow> 'k \<Rightarrow> result_t \<times> int \<times> 'k" where
  "os_eventfd S initval flags fd_out k = sys_value fd_out (sys_eventfd2 S initval flags k)"

text \<open>A wrapper's out-parameter changes only on success, and an errno reaches the caller unchanged.\<close>

lemma sys_value_keeps: "sys_value d a = (RESULT_ERR c e, v, k) \<Longrightarrow> v = d \<and> c = ERR_SYSCALL \<and> a = (Inl e, k)"
  by (auto simp: sys_value_def split: prod.splits sum.splits)

end
