(* ===== verification/Tiny.thy ===== *)
theory Tiny
  imports Arguments_Facts Err_Stack
begin

text \<open>
  The two freestanding demonstration programs, \<^verbatim>\<open>src/server/tiny.c\<close> and \<^verbatim>\<open>src/server/tinye.c\<close>: what
  they write to the standard output, and the exit status. The second prints an error stack; the result
  is that every 64-bit number in it is printed exactly, the least one included. The debug build's
  printer of an error stack (\<^verbatim>\<open>src/core/debug.h\<close>) is beside it.
\<close>

definition hello_text :: string where
  "hello_text = ''hello world'' @ NL"

text \<open>\<^verbatim>\<open>_start\<close> of \<^verbatim>\<open>tiny.c\<close>.\<close>

definition tiny_start :: "'k net \<Rightarrow> 'k \<Rightarrow> int \<times> 'k" where
  "tiny_start N k = (let (_, k) = os_write_raw N 1 (ascii hello_text) k in (0, k))"

definition write_str :: "'k net \<Rightarrow> string \<Rightarrow> 'k \<Rightarrow> 'k" where
  "write_str N s k = snd (os_write_raw N 1 (ascii s) k)"

text \<open>The text \<open>write_i64\<close> builds from the end of its buffer, for \<open>v\<close> in the range of an int64. The
  loop there writes no digit for 0 and the branch before it does; \<open>u64_digits\<close> writes one.\<close>

definition i64_text :: "int \<Rightarrow> bytes" where
  "i64_text v =
     (let u = (if v < 0 then of_int (- (v + 1)) + 1 else of_int v) :: u64 in
      (if v < 0 then [45] else []) @ rev (u64_digits u))"

definition write_i64 :: "'k net \<Rightarrow> int \<Rightarrow> 'k \<Rightarrow> 'k" where
  "write_i64 N v k = snd (os_write_raw N 1 (i64_text v) k)"

text \<open>A frame's strings are never null once it has been pushed; a null one would be read.\<close>

definition print_frame :: "'k net \<Rightarrow> nat \<Rightarrow> err_frame_t \<Rightarrow> 'k \<Rightarrow> 'k" where
  "print_frame N i f k =
     (let k = write_str N ''  ['' k;
          k = write_i64 N (int i) k;
          k = write_str N ''] '' k;
          k = write_str N (the (fr_file f)) k;
          k = write_str N '':'' k;
          k = write_i64 N (int (unat (fr_line f))) k;
          k = write_str N '' '' k;
          k = write_str N (the (fr_func f)) k;
          k = write_str N ''() code='' k;
          k = write_i64 N (fr_code f) k;
          k = (case fr_detail f of
                 ERR_DTL_ERRNO n \<Rightarrow> write_i64 N n (write_str N '' errno='' k)
               | ERR_DTL_FD n \<Rightarrow> write_i64 N n (write_str N '' fd='' k)
               | ERR_DTL_INT n \<Rightarrow> write_i64 N n (write_str N '' val='' k)
               | _ \<Rightarrow> k)
      in write_str N NL k)"

definition print_err :: "'k net \<Rightarrow> err_t \<Rightarrow> 'k \<Rightarrow> 'k" where
  "print_err N e k =
     (if \<not> err_has_error e then write_str N (''[err] (none)'' @ NL) k
      else let k = write_str N ''[err] '' k;
               k = write_i64 N (int (err_frame_count e)) k;
               k = write_str N ('' frames:'' @ NL) k
           in fold (\<lambda>i k. case err_frame_at e (int i) of None \<Rightarrow> k | Some f \<Rightarrow> print_frame N i f k)
                [0..<err_frame_count e] k)"

text \<open>\<^verbatim>\<open>_start\<close> of \<^verbatim>\<open>tinye.c\<close>; \<open>file\<close> is what \<^verbatim>\<open>__FILE__\<close> expands to, -1, -7 and -4 are ERR_SYSCALL,
  ERR_STORAGE and ERR_INVALID.\<close>

definition tinye_start :: "'k net \<Rightarrow> string \<Rightarrow> 'k \<Rightarrow> int \<times> 'k" where
  "tinye_start N file k =
     (let (_, k) = os_write_raw N 1 (ascii hello_text) k;
          at = (\<lambda>line code detail. \<lparr>fr_file = Some file, fr_func = Some ''_start'', fr_line = line,
            fr_code = code, fr_detail = detail\<rparr>);
          e = err_init;
          e = err_push_frame e (at 105 (-1) (ERR_DTL_ERRNO 28));
          e = err_push_frame e (at 106 (-7) (ERR_DTL_FD 7));
          e = err_push_frame e (at 107 (-4) (ERR_DTL_INT 1234))
      in (0, print_err N e k))"

text \<open>The debug build prints the same stack with printf; the text it prints.\<close>

definition dbg_detail :: "err_detail_t \<Rightarrow> bytes" where
  "dbg_detail d =
     (case d of
        ERR_DTL_ERRNO n \<Rightarrow> ascii '' errno='' @ i64_text n
      | ERR_DTL_FD n \<Rightarrow> ascii '' fd='' @ i64_text n
      | ERR_DTL_OFFSET n \<Rightarrow> ascii '' offset='' @ rev (u64_digits n)
      | ERR_DTL_SPAN s \<Rightarrow> ascii '' span(off='' @ i64_text (off s) @ ascii '',len='' @ i64_text (len s) @ ascii '')''
      | ERR_DTL_INT n \<Rightarrow> ascii '' val='' @ i64_text n
      | ERR_DTL_NONE \<Rightarrow> [])"

definition dbg_frame :: "nat \<Rightarrow> err_frame_t \<Rightarrow> bytes" where
  "dbg_frame i f =
     ascii ''  ['' @ i64_text (int i) @ ascii ''] '' @ ascii (the (fr_file f)) @ ascii '':''
     @ i64_text (int (unat (fr_line f))) @ ascii '' '' @ ascii (the (fr_func f)) @ ascii ''() code=''
     @ i64_text (fr_code f) @ dbg_detail (fr_detail f) @ ascii NL"

definition dbg_err_print :: "err_t \<Rightarrow> bytes" where
  "dbg_err_print e =
     (let count = err_frame_count e in
      if \<not> err_has_error e then ascii (''[err] (none)'' @ NL)
      else ascii ''[err] '' @ i64_text (int count) @ ascii '' frames ('' @ i64_text (int (dropped e))
        @ ascii ('' dropped):'' @ NL)
        @ concat (map (\<lambda>i. case err_frame_at e (int i) of None \<Rightarrow> [] | Some f \<Rightarrow> dbg_frame i f) [0..<count]))"

lemma i64_text_exact:
  assumes "- (2 ^ 63) \<le> v" "v < 2 ^ 63"
  shows "\<exists>ds. i64_text v = (if v < 0 then [45] else []) @ ds \<and> list_all is_digit ds \<and> int (decimal_value ds) = \<bar>v\<bar>"
proof (cases "v < 0")
  case True
  define u where "u = (of_int (- (v + 1)) + 1 :: u64)"
  have u: "u = of_int (- v)" by (simp add: u_def)
  have "(- v) mod 2 ^ 64 = - v" using assms True by (intro mod_pos_pos_trivial) simp_all
  then have "uint u = - v" unfolding u uint_word_of_int by simp
  then have "int (unat u) = \<bar>v\<bar>" using True by simp
  then show ?thesis
    using True u64_digits_value [of u] by (intro exI [of _ "rev (u64_digits u)"]) (simp add: i64_text_def u_def list_all_iff)
next
  case False
  then have "uint (of_int v :: u64) = v" using assms by (simp add: uint_word_of_int)
  then have "int (unat (of_int v :: u64)) = \<bar>v\<bar>" using False by simp
  then show ?thesis
    using False u64_digits_value [of "of_int v"] by (intro exI [of _ "rev (u64_digits (of_int v))"]) (simp add: i64_text_def list_all_iff)
qed

end
