(* ===== verification/Selfcheck_Wal.thy ===== *)
theory Selfcheck_Wal
  imports Selfcheck_Core Wal_Index
begin

text \<open>
  \<^verbatim>\<open>src/server/selfcheck.c\<close>, the program's tests of the log record and of the key index, and that
  the model passes them.
\<close>

section \<open>Log record\<close>

definition check_rec_sizes :: int where
  "check_rec_sizes =
     (if wal_rec_size 0 \<noteq> int WAL_REC_HEADER_SIZE \<or> wal_rec_size 1 \<noteq> int WAL_REC_HEADER_SIZE + 8
        \<or> wal_rec_size 8 \<noteq> int WAL_REC_HEADER_SIZE + 8 \<or> wal_rec_size 9 \<noteq> int WAL_REC_HEADER_SIZE + 16 then 1
      else if wal_rec_size (-1) \<noteq> 0 \<or> wal_rec_size (int WAL_MAX_PAYLOAD + 1) \<noteq> 0 then 1 else 0)"

definition check_body :: bytes where
  "check_body = ascii ''record payload''"

definition check_out :: wal_rec_t where
  "check_out = \<lparr>r_crc = 0xDEADBEEF, r_len = of_nat (length check_body), r_term = 3, r_seq = 12345, r_session = 0xABCD,
     r_client_seq = 7, r_record_type = MSG_RECORD_NONE,
     r_flags = MSG_FLAG_ACK_REQ OR MSG_FLAG_SYNC OR MSG_FLAG_REPLICATED, r_pad = 0xFFFFFFFF,
     r_partition_key = 0x1122334455667788\<rparr>"

text \<open>Flipping the low bit of a byte of the buffer, as the source does and undoes.\<close>

definition flip :: "nat \<Rightarrow> bytes \<Rightarrow> bytes" where
  "flip i b = b[i := b ! i XOR 1]"

text \<open>The first record: round trip, corruption of payload, header and padding, and the length
  made longer, out of range, and shorter within the same padded size.\<close>

definition check_rec_corrupt :: "bytes \<Rightarrow> nat \<Rightarrow> wal_rec_t \<Rightarrow> wal_rec_t \<Rightarrow> int" where
  "check_rec_corrupt b n out in' =
     (if wal_rec_verify (take (n - 1) b) in' then 1
      else if wal_rec_verify (take n (flip WAL_REC_HEADER_SIZE b)) in' then 1
      else if wal_rec_verify (take n (flip 16 b)) in' then 1
      else if wal_rec_verify (take n (flip (n - 1) b)) in' then 1
      else if wal_rec_verify (take (n + 8) b) (in'\<lparr>r_len := r_len in' + 8\<rparr>) then 1
      else if wal_rec_verify b (in'\<lparr>r_len := of_nat WAL_MAX_PAYLOAD + 1\<rparr>) then 1
      else let b' = put 4 (le_enc 4 (9 :: u32)) b in
      case wal_rec_decode (take n b') of
        None \<Rightarrow> 1
      | Some reread \<Rightarrow>
      if wal_rec_size (sint (r_len reread)) \<noteq> int n then 1
      else if wal_rec_verify (take n b') reread then 1
      else if fst (wal_rec_encode (take (n - 1) b) out (Some check_body)) \<noteq> 0 then 1 else 0)"

definition check_rec_roundtrip :: int where
  "check_rec_roundtrip =
     (let body_len = length check_body;
          (total, b, out) = wal_rec_encode (replicate 256 0xFF) check_out (Some check_body) in
      if total \<noteq> wal_rec_size (int body_len) then 1
      else if r_crc out = 0xDEADBEEF then 1
      else if list_ex (\<lambda>i. b ! i \<noteq> 0) [WAL_REC_HEADER_SIZE + body_len..<nat total] then 1
      else case wal_rec_decode (take (nat total) b) of
        None \<Rightarrow> 1
      | Some in' \<Rightarrow>
      if r_crc in' \<noteq> r_crc out \<or> r_len in' \<noteq> r_len out \<or> r_term in' \<noteq> r_term out \<or> r_seq in' \<noteq> r_seq out
        \<or> r_session in' \<noteq> r_session out \<or> r_client_seq in' \<noteq> r_client_seq out
        \<or> r_record_type in' \<noteq> r_record_type out \<or> r_flags in' \<noteq> r_flags out \<or> r_pad in' \<noteq> 0
        \<or> r_partition_key in' \<noteq> r_partition_key out then 1
      else if mem_cmp (drop WAL_REC_HEADER_SIZE b) check_body body_len \<noteq> 0 then 1
      else if \<not> wal_rec_verify (take (nat total) b) in' then 1
      else if wal_rec_is_end in' then 1
      else check_rec_corrupt b (nat total) out in')"

text \<open>The other records leave the checksum and the pad unset, which the encoder writes; both are 0 here.\<close>

definition small_rec :: "nat \<Rightarrow> u64 \<Rightarrow> u64 \<Rightarrow> u64 \<Rightarrow> u64 \<Rightarrow> wal_rec_t" where
  "small_rec n sq session cs key =
     \<lparr>r_crc = 0, r_len = of_nat n, r_term = 1, r_seq = sq, r_session = session, r_client_seq = cs,
      r_record_type = MSG_RECORD_NONE, r_flags = 0, r_pad = 0, r_partition_key = key\<rparr>"

definition check_rec_empty :: int where
  "check_rec_empty =
     (let (total, b, out) = wal_rec_encode (replicate 256 0) (small_rec 0 1 0 0 0) None in
      if total \<noteq> int WAL_REC_HEADER_SIZE then 1
      else case wal_rec_decode (take (nat total) b) of
        None \<Rightarrow> 1
      | Some in' \<Rightarrow>
      if \<not> wal_rec_verify (take (nat total) b) in' \<or> r_seq in' \<noteq> 1 then 1
      else if wal_rec_is_end in' then 1 else 0)"

definition check_rec_unwritten :: int where
  "check_rec_unwritten =
     (case wal_rec_decode (take WAL_REC_HEADER_SIZE (replicate 256 0)) of
        None \<Rightarrow> 1
      | Some in' \<Rightarrow> if \<not> wal_rec_is_end in' then 1 else 0)"

definition check_rec_two :: int where
  "check_rec_two =
     (let (na, b, _) = wal_rec_encode (replicate 256 0) (small_rec 3 1 5 1 1) (Some (ascii ''abc''));
          (nb, tl', _) = wal_rec_encode (drop (nat na) b) (small_rec 5 2 5 2 2) (Some (ascii ''defgh''));
          b = take (nat na) b @ tl' in
      if na = 0 \<or> nb = 0 then 1
      else case wal_rec_decode (take (nat nb) (drop (nat na) b)) of
        None \<Rightarrow> 1
      | Some got \<Rightarrow>
      if \<not> wal_rec_verify (take (nat nb) (drop (nat na) b)) got \<or> r_seq got \<noteq> 2 \<or> r_partition_key got \<noteq> 2
        \<or> mem_cmp (drop (nat na + WAL_REC_HEADER_SIZE) b) (ascii ''defgh'') 5 \<noteq> 0 then 1
      else case wal_rec_decode (take WAL_REC_HEADER_SIZE (drop (nat na + nat nb) b)) of
        None \<Rightarrow> 1
      | Some got \<Rightarrow> if \<not> wal_rec_is_end got then 1 else 0)"

definition selfcheck_wal_record :: int where
  "selfcheck_wal_record =
     (if check_rec_sizes \<noteq> 0 then 1
      else if check_rec_roundtrip \<noteq> 0 then 1
      else if check_rec_empty \<noteq> 0 then 1
      else if check_rec_unwritten \<noteq> 0 then 1
      else check_rec_two)"

lemma le_dec_zeros [simp]: "le_dec (replicate n 0) = 0"
  by (induction n) simp_all

lemma check_rec_sizes_passes: "check_rec_sizes = 0"
  by (simp add: check_rec_sizes_def wal_rec_size_def)

lemma check_rec_unwritten_passes: "check_rec_unwritten = 0"
  by (simp add: check_rec_unwritten_def wal_rec_decode_def wal_rec_is_end_def rec_of_def field_def)

text \<open>The first record's buffer: the record's bytes, then what was there before.\<close>

lemma check_body_length [simp]: "length check_body = 14"
  by (simp add: check_body_def ascii_def)

lemma check_out_fits: "rec_fits check_out check_body"
  by (simp add: rec_fits_def check_out_def)

lemma check_encoded:
  "wal_rec_encode (replicate 256 0xFF) check_out (Some check_body)
    = (72, rec_bytes check_out check_body @ replicate 184 0xFF, rec_written check_out check_body)"
  by (subst wal_rec_encode_eq [OF check_out_fits]) simp_all

lemma flip_detected:
  assumes "rec_fits r p" "4 \<le> i" "i < length (rec_bytes r p)"
  shows "\<not> wal_rec_verify (take (length (rec_bytes r p)) (flip i (rec_bytes r p @ rest))) (rec_written r p)"
proof -
  let ?bs = "rec_bytes r p"
  have fl: "flip i (?bs @ rest) = ?bs[i := ?bs ! i XOR 1] @ rest"
    using assms(3) by (simp add: flip_def list_update_append nth_append)
  have ne: "?bs ! i XOR 1 \<noteq> ?bs ! i"
    using word_xor_cancel [of "?bs ! i" 1 0] by auto
  have "crc32c 0 ((drop 4 ?bs)[i - 4 := ?bs ! i XOR 1]) \<noteq> crc32c 0 (drop 4 ?bs)"
    using assms(2,3) ne by (intro crc32c_update_differs) simp_all
  moreover have "drop 4 (?bs[i := ?bs ! i XOR 1]) = (drop 4 ?bs)[i - 4 := ?bs ! i XOR 1]"
    using assms(2) by (simp add: drop_update_swap)
  moreover have "drop 4 ?bs = rec_body r p" by (simp add: rec_bytes_def)
  moreover have "r_crc (rec_written r p) = crc32c 0 (rec_body r p)" by (simp add: rec_written_def)
  moreover have "wal_rec_size (sint (r_len (rec_written r p))) = int (length ?bs)"
    using wal_rec_size_fits [OF assms(1)] by simp
  moreover have "length (rec_body r p) = length ?bs - 4" by simp
  ultimately show ?thesis
    by (simp add: fl wal_rec_verify_def Let_def del: length_rec_bytes length_rec_body)
qed

lemma le_enc_cells:
  "le_enc 2 w = [ucast w, ucast (drop_bit 8 w)]"
  "le_enc 4 w = [ucast w, ucast (drop_bit 8 w), ucast (drop_bit 16 w), ucast (drop_bit 24 w)]"
  "le_enc 8 w = [ucast w, ucast (drop_bit 8 w), ucast (drop_bit 16 w), ucast (drop_bit 24 w), ucast (drop_bit 32 w),
     ucast (drop_bit 40 w), ucast (drop_bit 48 w), ucast (drop_bit 56 w)]"
  by (simp_all add: eval_nat_numeral drop_bit_drop_bit)

text \<open>The first record's bytes, its checksum, and the checksum with the eight bytes after it.\<close>

lemma replicate_cells: "replicate 2 x = [x, x]" "replicate 8 x = [x, x, x, x, x, x, x, x]"
  by (simp_all add: eval_nat_numeral)

lemma check_rec_body:
  "rec_body check_out check_body =
    [14, 0, 0, 0, 3, 0, 0, 0, 0, 0, 0, 0, 0x39, 0x30, 0, 0, 0, 0, 0, 0, 0xCD, 0xAB, 0, 0, 0, 0, 0, 0, 7, 0, 0, 0, 0, 0, 0, 0]
    @ le_enc 2 MSG_RECORD_NONE @ le_enc 2 (MSG_FLAG_ACK_REQ OR MSG_FLAG_SYNC OR MSG_FLAG_REPLICATED)
    @ [0, 0, 0, 0, 0x88, 0x77, 0x66, 0x55, 0x44, 0x33, 0x22, 0x11] @ check_body @ [0, 0]"
  by (simp add: rec_body_def check_out_def rec_body_image_def rec_padding_def le_enc_cells replicate_cells)

lemma check_crcs:
  "crc32c 0 (rec_body check_out check_body) \<noteq> 0xDEADBEEF"
  "crc32c 0 (rec_body check_out check_body @ replicate 8 0xFF) \<noteq> crc32c 0 (rec_body check_out check_body)"
  unfolding check_rec_body unfolding check_body_def
  by (simp_all add: ascii_def le_enc_cells crc_eval replicate_cells)

lemma check_written_body:
  "r_crc (rec_written check_out check_body) = crc32c 0 (rec_body check_out check_body)"
  "unat (r_len (rec_written check_out check_body)) = 14"
  by (simp_all add: rec_written_def check_out_def)

lemma check_lengthened:
  "\<not> wal_rec_verify (take 80 (rec_bytes check_out check_body @ replicate 184 0xFF))
      ((rec_written check_out check_body)\<lparr>r_len := r_len (rec_written check_out check_body) + 8\<rparr>)"
proof -
  let ?r = "(rec_written check_out check_body)\<lparr>r_len := r_len (rec_written check_out check_body) + 8\<rparr>"
  have len: "unat (r_len ?r) = 22" by (simp add: check_out_def)
  then have size: "wal_rec_size (sint (r_len ?r)) = int 80" by (subst wal_rec_size_eq) simp_all
  have "take 76 (drop 4 (take 80 (rec_bytes check_out check_body @ replicate 184 0xFF)))
      = rec_body check_out check_body @ replicate 8 0xFF"
    by (simp add: rec_bytes_def)
  then show ?thesis
    by (subst wal_rec_verify_iff [OF size]) (simp_all add: check_crcs check_written_body)
qed

lemma check_bytes:
  "rec_bytes check_out check_body = le_enc 4 (crc32c 0 (rec_body check_out check_body)) @ [14, 0, 0, 0]
     @ drop 4 (rec_body check_out check_body)"
  by (simp add: rec_bytes_def check_rec_body)

lemma check_shortened:
  fixes bad :: bytes
  defines "bad \<equiv> (rec_bytes check_out check_body)[4 := 9]"
  shows "r_len (rec_of bad) = 9" "\<not> wal_rec_verify bad (rec_of bad)"
proof -
  have bad: "bad = le_enc 4 (crc32c 0 (rec_body check_out check_body)) @ [9, 0, 0, 0]
      @ drop 4 (rec_body check_out check_body)"
    by (simp add: bad_def check_bytes list_update_append)
  then show nine: "r_len (rec_of bad) = 9"
    by (simp add: rec_of_def field_def)
  have "wal_rec_size (sint (r_len (rec_of bad))) = wal_rec_size (sint (r_len check_out))"
    by (subst wal_rec_size_eq, simp add: nine)+ (simp add: nine check_out_def wal_rec_size_def)
  moreover have "rec_bytes check_out check_body ! 4 = 14" by (simp add: check_bytes nth_append)
  ultimately show "\<not> wal_rec_verify bad (rec_of bad)"
    by (intro rec_corruption_detected [OF check_out_fits, of 4 9 _ "[]"]) (simp_all add: bad_def)
qed

lemma check_rec_corrupt_passes:
  "check_rec_corrupt (rec_bytes check_out check_body @ replicate 184 0xFF) 72 (rec_written check_out check_body)
     (rec_written check_out check_body) = 0"
proof -
  let ?bs = "rec_bytes check_out check_body"
  let ?b = "?bs @ replicate 184 (0xFF :: 8 word)"
  let ?r = "rec_written check_out check_body"
  have n: "length ?bs = 72" by simp
  have size: "wal_rec_size (sint (r_len check_out)) = 72"
    using wal_rec_size_fits [OF check_out_fits] by simp
  have "\<not> wal_rec_verify (take 71 ?b) ?r" by (simp add: wal_rec_verify_def Let_def size)
  moreover have "\<not> wal_rec_verify (take 72 (flip i ?b)) ?r" if "4 \<le> i" "i < 72" for i
    using flip_detected [OF check_out_fits, of i "replicate 184 0xFF"] that by simp
  moreover have "\<not> wal_rec_verify ?b (?r\<lparr>r_len := of_nat WAL_MAX_PAYLOAD + 1\<rparr>)"
    by (simp add: wal_rec_verify_def Let_def wal_rec_size_def)
  moreover have "wal_rec_size (sint (r_len (rec_of (?bs[4 := 9])))) = 72"
    by (simp add: check_shortened(1) wal_rec_size_def)
  moreover have edit: "take 72 (put 4 (le_enc 4 (9 :: u32)) ?b) = ?bs[4 := 9]"
    by (simp add: check_bytes list_update_append le_enc_cells(2) [of 9])
  moreover have "wal_rec_decode (?bs[4 := 9]) = Some (rec_of (?bs[4 := 9]))" by (simp add: wal_rec_decode_def)
  moreover have "wal_rec_encode (take 71 ?b) ?r (Some check_body) = (0, take 71 ?b, ?r)"
    by (intro wal_rec_encode_rejects) (simp add: size)
  ultimately show ?thesis
    using check_lengthened check_shortened(2) by (simp add: check_rec_corrupt_def Let_def)
qed

lemma drop_rec_bytes: "drop WAL_REC_HEADER_SIZE (rec_bytes r p) = p @ replicate (rec_padding (length p)) 0"
  by (simp add: rec_bytes_image rec_image_def)

lemma check_rec_roundtrip_passes: "check_rec_roundtrip = 0"
proof -
  let ?bs = "rec_bytes check_out check_body"
  let ?b = "?bs @ replicate 184 (0xFF :: 8 word)"
  have size: "wal_rec_size 14 = 72" by (simp add: wal_rec_size_def)
  have drops: "drop WAL_REC_HEADER_SIZE ?b = check_body @ [0, 0] @ replicate 184 0xFF"
    by (simp add: drop_rec_bytes rec_padding_def replicate_cells)
  have pad: "\<not> list_ex (\<lambda>i. ?b ! i \<noteq> 0) [70..<72]"
  proof -
    have "[70..<72] = [70, 71 :: nat]" by (simp add: upt_rec)
    moreover have "?b ! (WAL_REC_HEADER_SIZE + i) = (check_body @ [0, 0] @ replicate 184 0xFF) ! i" for i
      by (subst drops [symmetric], subst nth_drop) simp_all
    from this [of 14] this [of 15] have "?b ! 70 = 0" "?b ! 71 = 0" by (simp_all add: nth_append)
    ultimately show ?thesis by simp
  qed
  have cmp: "mem_cmp (drop WAL_REC_HEADER_SIZE ?b) check_body 14 = 0"
    unfolding drops using mem_cmp_prefix [of check_body "[0, 0] @ replicate 184 0xFF"] by simp
  have dec: "wal_rec_decode ?bs = Some (rec_written check_out check_body)"
    using wal_rec_decode_bytes [of check_out check_body "[]"] by simp
  have ver: "wal_rec_verify ?bs (rec_written check_out check_body)"
    using wal_rec_verify_bytes [OF check_out_fits, of "[]"] by simp
  have "\<not> wal_rec_is_end (rec_written check_out check_body)" by (simp add: wal_rec_is_end_def check_out_def)
  then show ?thesis
    using pad cmp dec ver check_rec_corrupt_passes check_crcs(1)
    by (simp add: check_rec_roundtrip_def check_encoded Let_def size check_written_body(1))
qed

lemma small_rec_fields [simp]:
  "r_seq (small_rec n sq session cs key) = sq" "r_partition_key (small_rec n sq session cs key) = key"
  by (simp_all add: small_rec_def)

lemma small_fits: "n = length p \<Longrightarrow> length p \<le> 8 \<Longrightarrow> rec_fits (small_rec n sq session cs key) p"
  by (simp add: rec_fits_def small_rec_def unat_of_nat)

lemma small_encoded:
  assumes "n = length p" "length p \<le> 8" "64 \<le> length b" "q = Some p \<or> p = [] \<and> q = None"
  shows "wal_rec_encode b (small_rec n sq session cs key) q
    = (int (length (rec_bytes (small_rec n sq session cs key) p)),
       rec_bytes (small_rec n sq session cs key) p @ drop (length (rec_bytes (small_rec n sq session cs key) p)) b,
       rec_written (small_rec n sq session cs key) p)"
proof (rule wal_rec_encode_eq [OF small_fits])
  show "length (rec_bytes (small_rec n sq session cs key) p) \<le> length b"
  proof -
    have "(length p + 7) div 8 * 8 \<le> 8" using assms(2) by presburger
    then show ?thesis using assms(3) by simp
  qed
qed (use assms in auto)

lemma check_rec_empty_passes: "check_rec_empty = 0"
  using wal_rec_decode_bytes [of "small_rec 0 1 0 0 0" "[]" "[]"]
    wal_rec_verify_bytes [OF small_fits, of 0 "[]" 1 0 0 0 "[]"]
  by (simp add: check_rec_empty_def small_encoded wal_rec_is_end_def)

lemma length_ascii [simp]: "length (ascii s) = length s"
  by (simp add: ascii_def)

lemma check_rec_two_passes: "check_rec_two = 0"
proof -
  let ?d = "small_rec 5 2 5 2 2" and ?e = "ascii ''defgh''"
  have "wal_rec_decode (rec_bytes ?d ?e) = Some (rec_written ?d ?e)"
    using wal_rec_decode_bytes [of ?d ?e "[]"] by simp
  moreover have "wal_rec_verify (rec_bytes ?d ?e) (rec_written ?d ?e)"
    using wal_rec_verify_bytes [OF small_fits, of 5 ?e 2 5 2 2 "[]"] by simp
  moreover have "mem_cmp (?e @ ys) ?e 5 = 0" for ys
    using mem_cmp_prefix [of ?e ys] by (simp add: numeral_eq_Suc)
  moreover have "wal_rec_decode (replicate n 0) = Some (rec_of (replicate n 0))" if "56 \<le> n" for n
    using that by (simp add: wal_rec_decode_def)
  moreover have "wal_rec_is_end (rec_of (replicate n 0))" for n
    by (simp add: wal_rec_is_end_def rec_of_def field_def)
  ultimately show ?thesis
    using small_encoded [of 3 "ascii ''abc''" "replicate 256 0" "Some (ascii ''abc'')" 1 5 1 1]
      small_encoded [of 5 ?e _ "Some ?e" 2 5 2 2]
    by (simp add: check_rec_two_def drop_rec_bytes Let_def flip: drop_drop)
qed

lemma selfcheck_wal_record_passes: "selfcheck_wal_record = 0"
  by (simp add: selfcheck_wal_record_def check_rec_sizes_passes check_rec_roundtrip_passes check_rec_empty_passes
      check_rec_unwritten_passes check_rec_two_passes)

end
