(* ===== verification/Selfcheck_Tables.thy ===== *)
theory Selfcheck_Tables
  imports Wal_Index Session
begin

text \<open>
  \<^verbatim>\<open>src/server/selfcheck.c\<close>, the program's tests of the key index and of the session table, and that
  the model passes them.
\<close>

section \<open>Key index\<close>

definition index_feed :: "wal_index_t \<Rightarrow> u64 \<Rightarrow> u64 \<Rightarrow> wal_index_t" where
  "index_feed ix key sq =
     wal_index_add ix \<lparr>r_crc = 0, r_len = 0, r_term = 0, r_seq = sq, r_session = 0, r_client_seq = 0,
       r_record_type = 0, r_flags = 0, r_pad = 0, r_partition_key = key\<rparr>"

text \<open>The loop that overfills the table: \<open>n\<close> turns are left, the next is number \<open>k\<close>.\<close>

primrec index_overfill :: "nat \<Rightarrow> nat \<Rightarrow> wal_index_t \<Rightarrow> wal_index_t" where
  "index_overfill 0 k ix = ix"
| "index_overfill (Suc n) k ix = index_overfill n (k + 1) (index_feed ix (1000 + of_nat k) (100 + of_nat k))"

definition selfcheck_wal_index :: int where
  "selfcheck_wal_index =
     (let ix = wal_index_init in
      if wal_index_count ix \<noteq> 0 \<or> \<not> wal_index_complete ix then 1
      else let ix = index_feed ix 10 1; ix = index_feed ix 20 2; ix = index_feed ix 10 3;
               ix = index_feed ix 20 4; ix = index_feed ix 10 5 in
      if wal_index_count ix \<noteq> 2 then 1
      else if wal_index_range ix 10 1 \<noteq> Some (1, 5) then 1
      else if wal_index_range ix 20 1 \<noteq> Some (2, 4) then 1
      else if map_option fst (wal_index_range ix 20 1) \<noteq> Some 2 then 1
      else if map_option fst (wal_index_range ix 20 3) \<noteq> Some 3 then 1
      else if wal_index_range ix 999 1 \<noteq> None then 1
      else if \<not> wal_index_complete ix then 1
      else let ix = index_overfill (WAL_INDEX_KEYS + 4) 0 ix in
      if wal_index_count ix \<noteq> WAL_INDEX_KEYS then 1
      else if wal_index_complete ix then 1 else 0)"

text \<open>What the loop does to the table: new keys are appended while there is room, and counted after.\<close>

lemma index_feed_new:
  assumes "key \<notin> k_key ` set (ix_keys ix)" "sq \<noteq> 0"
  shows "index_feed ix key sq = (if length (ix_keys ix) \<ge> WAL_INDEX_KEYS then ix\<lparr>ix_unknown := ix_unknown ix + 1\<rparr>
    else ix\<lparr>ix_keys := ix_keys ix @ [\<lparr>k_key = key, k_first = sq, k_last = sq, k_count = 1\<rparr>]\<rparr>)"
proof -
  have "find_key (ix_keys ix) key = None" using assms(1) by (simp add: find_key_None)
  then show ?thesis using assms(2) by (simp add: index_feed_def wal_index_add_def)
qed

definition below_key :: "nat \<Rightarrow> wal_index_t \<Rightarrow> bool" where
  "below_key k ix \<longleftrightarrow> (\<forall>x \<in> k_key ` set (ix_keys ix). unat x < 1000 + k)"

lemma index_overfill_counts:
  assumes "below_key k ix" "length (ix_keys ix) \<le> WAL_INDEX_KEYS" "k + n \<le> 2000"
  shows "length (ix_keys (index_overfill n k ix)) = min WAL_INDEX_KEYS (length (ix_keys ix) + n)
    \<and> ix_unknown (index_overfill n k ix) = ix_unknown ix + of_nat (length (ix_keys ix) + n - WAL_INDEX_KEYS)"
  using assms
proof (induction n arbitrary: k ix)
  case 0
  then show ?case by simp
next
  case (Suc n)
  let ?key = "1000 + of_nat k :: u64" and ?sq = "100 + of_nat k :: u64"
  have key: "unat ?key = 1000 + k" and sq: "unat ?sq = 100 + k"
    using Suc.prems(3) by (simp_all add: unat_word_ariths unat_of_nat)
  then have new: "?key \<notin> k_key ` set (ix_keys ix)"
    using Suc.prems(1) by (metis below_key_def less_irrefl)
  have "?sq \<noteq> 0" using sq by (metis add_is_0 unat_0 zero_neq_numeral)
  note feed = index_feed_new [OF new this]
  have "below_key (k + 1) (index_feed ix ?key ?sq)"
    using Suc.prems(1) key by (auto simp: below_key_def feed less_Suc_eq)
  then show ?case
    using Suc.IH [of "k + 1" "index_feed ix ?key ?sq"] Suc.prems(2,3)
    by (cases "length (ix_keys ix) = WAL_INDEX_KEYS") (auto simp: feed Suc_diff_le)
qed

lemma selfcheck_wal_index_passes: "selfcheck_wal_index = 0"
proof -
  define ix where "ix = index_feed (index_feed (index_feed (index_feed (index_feed wal_index_init 10 1) 20 2) 10 3) 20 4) 10 5"
  have ix: "ix_keys ix = [\<lparr>k_key = 10, k_first = 1, k_last = 5, k_count = 3\<rparr>,
      \<lparr>k_key = 20, k_first = 2, k_last = 4, k_count = 2\<rparr>]" "ix_unknown ix = 0"
    by (simp_all add: ix_def index_feed_def wal_index_add_def wal_index_init_def)
  have "below_key 0 ix" by (simp add: below_key_def ix)
  from index_overfill_counts [OF this, of 1028]
  have "length (ix_keys (index_overfill 1028 0 ix)) = 1024" "ix_unknown (index_overfill 1028 0 ix) = 6"
    by (simp_all add: ix)
  then have "wal_index_count (index_overfill 1028 0 ix) = 1024" "\<not> wal_index_complete (index_overfill 1028 0 ix)"
    by (simp_all add: wal_index_count_def wal_index_complete_def)
  then show ?thesis
    by (simp add: selfcheck_wal_index_def Let_def ix_def [symmetric])
      (simp add: wal_index_count_def wal_index_complete_def wal_index_range_def wal_index_init_def ix)
qed

section \<open>Sessions\<close>

text \<open>A session pointer is an index into the table.\<close>

abbreviation id_at :: "session_table_t \<Rightarrow> nat \<Rightarrow> u64" where "id_at t i \<equiv> se_id (st_entries t ! i)"
abbreviation mark_at :: "session_table_t \<Rightarrow> nat \<Rightarrow> u64" where "mark_at t i \<equiv> se_last (st_entries t ! i)"

abbreviation st_count :: "session_table_t \<Rightarrow> nat" where "st_count t \<equiv> length (st_entries t)"

text \<open>The blocks of \<^verbatim>\<open>selfcheck_sessions\<close>. The first two hand on the table; the 512 fresh sessions:\<close>

primrec check_fresh ::
    "('k \<Rightarrow> u64 \<times> 'k) \<Rightarrow> nat \<Rightarrow> u64 \<Rightarrow> u64 \<Rightarrow> session_table_t \<Rightarrow> 'k \<Rightarrow> int \<times> session_table_t \<times> 'k" where
  "check_fresh rnd 0 a_id b_id t k = (0, t, k)"
| "check_fresh rnd (Suc n) a_id b_id t k =
     (let (fresh, t, k) = session_create rnd t k in
      case fresh of
        None \<Rightarrow> (1, t, k)
      | Some f \<Rightarrow>
      if id_at t f = 0 then (1, t, k)
      else if mark_at t f \<noteq> 0 then (1, t, k)
      else if id_at t f = a_id \<or> id_at t f = b_id \<or> id_at t f = 7 then (1, t, k)
      else check_fresh rnd n a_id b_id t k)"

definition check_two_sessions :: "('k \<Rightarrow> u64 \<times> 'k) \<Rightarrow> 'k \<Rightarrow> int \<times> session_table_t \<times> 'k" where
  "check_two_sessions rnd k =
     (let t = session_table_init in
      if st_count t \<noteq> 0 then (1, t, k)
      else let (a', t, k) = session_create rnd t k; (b', t, k) = session_create rnd t k in
      case (a', b') of
        (Some a, Some b) \<Rightarrow>
          (let a_id = id_at t a; b_id = id_at t b in
           if a_id = 0 \<or> b_id = 0 \<or> a_id = b_id \<or> mark_at t a \<noteq> 0 \<or> st_count t \<noteq> 2 then (1, t, k)
           else if a_id \<le> of_nat SESSION_MAX \<or> b_id \<le> of_nat SESSION_MAX then (1, t, k)
           else if session_lookup t a_id \<noteq> Some a \<or> session_lookup t b_id \<noteq> Some b
             \<or> session_lookup t 0 \<noteq> None \<or> session_lookup t (a_id XOR 1) \<noteq> None then (1, t, k)
           else let t = session_observe t a_id 5 in
           if mark_at t a \<noteq> 5 then (1, t, k)
           else let t = session_observe t a_id 3 in
           if mark_at t a \<noteq> 5 then (1, t, k)
           else let t = session_observe t 7 2 in
           if st_count t \<noteq> 3 \<or> map_option (mark_at t) (session_lookup t 7) \<noteq> Some 2 then (1, t, k)
           else let (rc, t, k) = check_fresh rnd 512 a_id b_id t k in
           if rc \<noteq> 0 then (1, t, k)
           else let before = st_count t; t = session_observe t 0 4 in
           if st_count t \<noteq> before then (1, t, k) else (0, t, k))
      | _ \<Rightarrow> (1, t, k))"

text \<open>Filling the table. The ids of the first two sessions made are kept; \<open>i\<close> counts the turns.\<close>

primrec fill_sessions ::
    "('k \<Rightarrow> u64 \<times> 'k) \<Rightarrow> nat \<Rightarrow> nat \<Rightarrow> u64 \<Rightarrow> u64 \<Rightarrow> session_table_t \<Rightarrow> 'k \<Rightarrow> int \<times> u64 \<times> u64 \<times> session_table_t \<times> 'k"
  where
  "fill_sessions rnd 0 i a_id b_id t k = (0, a_id, b_id, t, k)"
| "fill_sessions rnd (Suc n) i a_id b_id t k =
     (let (made', t, k) = session_create rnd t k in
      case made' of
        None \<Rightarrow> (1, a_id, b_id, t, k)
      | Some made \<Rightarrow>
          let a_id = (if i = 0 then id_at t made else a_id); b_id = (if i = 1 then id_at t made else b_id)
          in fill_sessions rnd n (i + 1) a_id b_id t k)"

text \<open>The source writes the mark through the pointer it looked up without looking at it; a null one
  is 2 here, which no check returns.\<close>

definition check_overflow :: "('k \<Rightarrow> u64 \<times> 'k) \<Rightarrow> u64 \<Rightarrow> u64 \<Rightarrow> session_table_t \<Rightarrow> 'k \<Rightarrow> int \<times> session_table_t \<times> 'k" where
  "check_overflow rnd a_id b_id t k =
     (let t = session_table_init; (rc, a_id, b_id, t, k) = fill_sessions rnd SESSION_MAX 0 a_id b_id t k in
      if rc \<noteq> 0 then (1, t, k)
      else if st_count t \<noteq> SESSION_MAX \<or> st_evicted t \<noteq> 0 then (1, t, k)
      else case session_lookup t a_id of
        None \<Rightarrow> (2, t, k)
      | Some j \<Rightarrow>
      let t = t\<lparr>st_entries := (st_entries t)[j := (st_entries t ! j)\<lparr>se_last := 77\<rparr>]\<rparr>;
          (first', t, k) = session_create rnd t k in
      case first' of
        None \<Rightarrow> (1, t, k)
      | Some first \<Rightarrow>
      if st_count t \<noteq> SESSION_MAX \<or> st_evicted t \<noteq> 1 then (1, t, k)
      else if session_lookup t a_id \<noteq> None then (1, t, k)
      else if mark_at t first \<noteq> 0 then (1, t, k)
      else let (second, t, k) = session_create rnd t k in
      if second = None \<or> st_evicted t \<noteq> 2 then (1, t, k)
      else if session_lookup t b_id \<noteq> None then (1, t, k)
      else if session_lookup t (id_at t first) = None then (1, t, k) else (0, t, k))"

primrec observe_descending :: "nat \<Rightarrow> nat \<Rightarrow> session_table_t \<Rightarrow> session_table_t" where
  "observe_descending 0 i t = t"
| "observe_descending (Suc n) i t = observe_descending n (i + 1) (session_observe t (of_nat (100000 - i)) 1)"

definition check_arrival :: int where
  "check_arrival =
     (let t = observe_descending SESSION_MAX 0 session_table_init in
      if st_count t \<noteq> SESSION_MAX \<or> session_lookup t 100000 = None
        \<or> session_lookup t (of_nat (100000 - SESSION_MAX + 1)) = None then 1
      else let t = session_observe t 42 1 in
      if session_lookup t 42 = None then 1
      else if session_lookup t 100000 \<noteq> None then 1
      else if st_evicted t \<noteq> 1 then 1
      else let t = session_observe t (of_nat (100000 - 1)) 2; t = session_observe t 43 1 in
      if session_lookup t (of_nat (100000 - 1)) = None then 1 else 0)"

definition selfcheck_sessions :: "('k \<Rightarrow> u64 \<times> 'k) \<Rightarrow> 'k \<Rightarrow> int" where
  "selfcheck_sessions rnd k =
     (let (rc, t, k) = check_two_sessions rnd k in
      if rc \<noteq> 0 then rc
      else let (rc, t, k) = check_overflow rnd 0 0 t k in
      if rc \<noteq> 0 then rc else check_arrival)"

text \<open>A random pool that never repeats itself, for the tests to pass on.\<close>

definition even_pool :: "nat \<Rightarrow> u64 \<times> nat" where
  "even_pool k = (of_nat (5000 + 2 * k), k + 1)"

lemma pool_unat: "k \<le> 10000 \<Longrightarrow> unat (of_nat (5000 + 2 * k) :: u64) = 5000 + 2 * k"
  by (simp add: unat_of_nat del: of_nat_add of_nat_mult)

lemma pool_nonzero: "k \<le> 10000 \<Longrightarrow> (of_nat (5000 + 2 * k) :: u64) \<noteq> 0"
  using pool_unat [of k] by (metis add_is_0 unat_0 zero_neq_numeral)

definition fresh_ids :: "nat \<Rightarrow> session_table_t \<Rightarrow> bool" where
  "fresh_ids k t \<longleftrightarrow> (\<forall>s \<in> set (st_entries t). unat (se_id s) < 5000 + 2 * k)"

lemma fresh_not_in:
  assumes "fresh_ids k t" "k \<le> 10000"
  shows "of_nat (5000 + 2 * k) \<notin> se_id ` set (st_entries t)"
proof
  assume "of_nat (5000 + 2 * k) \<in> se_id ` set (st_entries t)"
  then obtain s where "s \<in> set (st_entries t)" "se_id s = of_nat (5000 + 2 * k)" by (metis imageE)
  with assms(1) pool_unat [OF assms(2)] show False unfolding fresh_ids_def by fastforce
qed

lemma draw_pool:
  assumes "fresh_ids k t" "k \<le> 10000"
  shows "draw_id even_pool t 8 k = (of_nat (5000 + 2 * k), k + 1)"
proof -
  have eight: "(8 :: nat) = Suc 7" by simp
  have "session_lookup t (of_nat (5000 + 2 * k)) = None"
    using fresh_not_in [OF assms] by (simp add: session_lookup_def find_session_None del: of_nat_add of_nat_mult)
  then show ?thesis
    using pool_nonzero [OF assms(2)]
    unfolding eight draw_id.simps(2) by (simp add: even_pool_def del: of_nat_add of_nat_mult)
qed

lemma create_appends:
  assumes "fresh_ids k t" "k \<le> 10000" "st_count t < SESSION_MAX"
  shows "session_create even_pool t k = (Some (st_count t),
    t\<lparr>st_entries := st_entries t @ [\<lparr>se_id = of_nat (5000 + 2 * k), se_last = 0, se_seen = st_next_seen t\<rparr>],
      st_next_seen := st_next_seen t + 1\<rparr>, k + 1)"
  using assms pool_nonzero [OF assms(2)]
  by (simp add: session_create_def draw_pool slot_for_new_def Let_def del: of_nat_add of_nat_mult)

lemma create_replaces:
  assumes "fresh_ids k t" "k \<le> 10000" "st_count t = SESSION_MAX" "oldest_index t < SESSION_MAX"
  shows "session_create even_pool t k = (Some (oldest_index t),
    t\<lparr>st_entries := (st_entries t)[oldest_index t :=
        \<lparr>se_id = of_nat (5000 + 2 * k), se_last = 0, se_seen = st_next_seen t\<rparr>],
      st_next_seen := st_next_seen t + 1, st_evicted := st_evicted t + 1\<rparr>, k + 1)"
  using assms pool_nonzero [OF assms(2)]
  by (cases "st_entries t ! oldest_index t")
    (simp add: session_create_def draw_pool slot_for_new_def Let_def del: of_nat_add of_nat_mult)

lemma check_fresh_passes:
  assumes "fresh_ids k t" "k + n \<le> 10000" "st_count t + n \<le> SESSION_MAX"
    and "unat a_id < 5000 + 2 * k" "unat b_id < 5000 + 2 * k"
  shows "\<exists>t' k'. check_fresh even_pool n a_id b_id t k = (0, t', k') \<and> k' = k + n"
  using assms
proof (induction n arbitrary: k t)
  case 0
  then show ?case by simp
next
  case (Suc n)
  let ?i = "of_nat (5000 + 2 * k) :: u64"
  let ?t = "t\<lparr>st_entries := st_entries t @ [\<lparr>se_id = ?i, se_last = 0, se_seen = st_next_seen t\<rparr>],
      st_next_seen := st_next_seen t + 1\<rparr>"
  have k: "k \<le> 10000" and room: "st_count t < SESSION_MAX" using Suc.prems(2,3) by simp_all
  note i = pool_unat [OF k]
  have ne: "?i \<noteq> 0" "?i \<noteq> a_id" "?i \<noteq> b_id" "?i \<noteq> 7"
    using pool_nonzero [OF k] i Suc.prems(4,5) by (auto simp del: of_nat_add of_nat_mult)
  have "fresh_ids (k + 1) ?t"
    using Suc.prems(1) i by (auto simp: fresh_ids_def simp del: of_nat_add of_nat_mult)
  then have "\<exists>t' k'. check_fresh even_pool n a_id b_id ?t (k + 1) = (0, t', k') \<and> k' = k + 1 + n"
    using Suc.prems by (intro Suc.IH) simp_all
  then show ?case
    using create_appends [OF Suc.prems(1) k room] ne by (auto simp: Let_def simp del: of_nat_add of_nat_mult)
qed

lemma check_two_sessions_passes: "\<exists>t. check_two_sessions even_pool 0 = (0, t, 514)"
proof -
  have f0: "fresh_ids 0 session_table_init" by (simp add: fresh_ids_def session_table_init_def)
  define t1 where "t1 = \<lparr>st_entries = [\<lparr>se_id = 5000, se_last = 0, se_seen = 1\<rparr>], st_next_seen = 2, st_evicted = 0\<rparr>"
  define t2 where "t2 = \<lparr>st_entries = [\<lparr>se_id = 5000, se_last = 0, se_seen = 1\<rparr>,
      \<lparr>se_id = 5002, se_last = 0, se_seen = 2\<rparr>], st_next_seen = 3, st_evicted = 0\<rparr>"
  define t3 where "t3 = \<lparr>st_entries = [\<lparr>se_id = 5000, se_last = 5, se_seen = 4\<rparr>,
      \<lparr>se_id = 5002, se_last = 0, se_seen = 2\<rparr>, \<lparr>se_id = 7, se_last = 2, se_seen = 6\<rparr>],
      st_next_seen = 7, st_evicted = 0\<rparr>"
  have c1: "session_create even_pool session_table_init 0 = (Some 0, t1, 1)"
    using create_appends [OF f0] by (simp add: session_table_init_def t1_def)
  have "fresh_ids 1 t1" by (simp add: fresh_ids_def t1_def)
  then have c2: "session_create even_pool t1 1 = (Some 1, t2, 2)"
    by (subst create_appends) (simp_all add: t1_def t2_def)
  have obs: "session_observe (session_observe (session_observe t2 5000 5) 5000 3) 7 2 = t3"
    "mark_at (session_observe t2 5000 5) 0 = 5" "mark_at (session_observe (session_observe t2 5000 5) 5000 3) 0 = 5"
    by (simp_all add: t2_def t3_def session_observe_def session_lookup_def slot_for_new_def)
  have "\<exists>t. check_fresh even_pool 512 5000 5002 t3 2 = (0, t, 514)"
    using check_fresh_passes [of 2 t3 512 5000 5002] by (simp add: fresh_ids_def t3_def)
  then obtain t where fr: "check_fresh even_pool 512 5000 5002 t3 2 = (0, t, 514)" ..
  have "id_at t2 0 = 5000" "id_at t2 1 = 5002" "mark_at t2 0 = 0" "st_count t2 = 2" "st_count t3 = 3"
    "session_lookup t2 5000 = Some 0" "session_lookup t2 5002 = Some 1" "session_lookup t2 0 = None"
    "session_lookup t2 5001 = None" "session_lookup t3 7 = Some 2" "mark_at t3 2 = 2"
    by (simp_all add: t2_def t3_def session_lookup_def)
  moreover have "session_observe t 0 4 = t" by (simp add: session_observe_def)
  ultimately show ?thesis
    using c1 c2 obs fr by (simp add: check_two_sessions_def Let_def) (simp add: session_table_init_def)
qed

text \<open>A full table as a function of the slot.\<close>

definition full_table :: "(nat \<Rightarrow> session_t) \<Rightarrow> u64 \<Rightarrow> u64 \<Rightarrow> session_table_t" where
  "full_table g seen ev = \<lparr>st_entries = map g [0..<SESSION_MAX], st_next_seen = seen, st_evicted = ev\<rparr>"

lemma full_table_fields [simp]:
  "st_count (full_table g seen ev) = SESSION_MAX" "st_evicted (full_table g seen ev) = ev"
  "st_next_seen (full_table g seen ev) = seen"
  "j < SESSION_MAX \<Longrightarrow> st_entries (full_table g seen ev) ! j = g j"
  by (simp_all add: full_table_def)

lemma full_table_update [simp]:
  "j < SESSION_MAX \<Longrightarrow> (full_table g seen ev)\<lparr>st_entries := (map g [0..<SESSION_MAX])[j := x], st_next_seen := seen',
      st_evicted := ev'\<rparr> = full_table (g(j := x)) seen' ev'"
  by (auto simp: full_table_def nth_list_update intro!: nth_equalityI)

lemma full_table_lookup: "session_lookup (full_table g seen ev) i = None \<longleftrightarrow> i = 0 \<or> (\<forall>j < SESSION_MAX. se_id (g j) \<noteq> i)"
  by (auto simp: session_lookup_def find_session_None full_table_def)

lemma slots_split: "[0..<SESSION_MAX] = 0 # 1 # [2..<SESSION_MAX]"
proof -
  have "[0..<SESSION_MAX] = 0 # [Suc 0..<SESSION_MAX]" by (rule upt_conv_Cons) simp
  moreover have "[Suc 0..<SESSION_MAX] = Suc 0 # [Suc (Suc 0)..<SESSION_MAX]" by (rule upt_conv_Cons) simp
  ultimately show ?thesis unfolding One_nat_def numeral_2_eq_2 by (rule trans [OF _ arg_cong])
qed

lemma full_table_first: "i \<noteq> 0 \<Longrightarrow> se_id (g 0) = i \<Longrightarrow> session_lookup (full_table g seen ev) i = Some 0"
  by (simp add: session_lookup_def full_table_def slots_split del: upt_Suc)

lemma full_table_second:
  "i \<noteq> 0 \<Longrightarrow> se_id (g 0) \<noteq> i \<Longrightarrow> se_id (g 1) = i \<Longrightarrow> session_lookup (full_table g seen ev) i = Some 1"
  by (simp add: session_lookup_def full_table_def slots_split del: upt_Suc)

lemma full_table_oldest:
  assumes "j < SESSION_MAX" "\<And>i. i < SESSION_MAX \<Longrightarrow> i \<noteq> j \<Longrightarrow> se_seen (g j) < se_seen (g i)"
  shows "oldest_index (full_table g seen ev) = j"
proof (rule ccontr)
  let ?o = "oldest_index (full_table g seen ev)"
  assume ne: "?o \<noteq> j"
  have ent: "st_entries (full_table g seen ev) \<noteq> []" by (simp add: full_table_def)
  have o: "?o < SESSION_MAX" using oldest_index_least [OF ent] by simp
  have le: "\<forall>s \<in> set (st_entries (full_table g seen ev)). se_seen (g ?o) \<le> se_seen s"
    using conjunct2 [OF oldest_index_least [OF ent]] by (simp only: full_table_fields(4) [OF o])
  have "g j \<in> set (st_entries (full_table g seen ev))" using assms(1) by (simp add: full_table_def)
  then have "se_seen (g ?o) \<le> se_seen (g j)" using le by blast
  then show False using assms(2) [OF o ne] by simp
qed

lemma create_full:
  assumes "fresh_ids k (full_table g seen ev)" "k \<le> 10000" "j < SESSION_MAX"
    and "\<And>i. i < SESSION_MAX \<Longrightarrow> i \<noteq> j \<Longrightarrow> se_seen (g j) < se_seen (g i)"
  shows "session_create even_pool (full_table g seen ev) k = (Some j,
    full_table (g(j := \<lparr>se_id = of_nat (5000 + 2 * k), se_last = 0, se_seen = seen\<rparr>)) (seen + 1) (ev + 1), k + 1)"
proof -
  have "oldest_index (full_table g seen ev) = j" using assms(3,4) by (rule full_table_oldest)
  then show ?thesis
    using create_replaces [OF assms(1,2)] full_table_update [OF assms(3), where g = g and seen = seen and ev = ev] assms(3)
    by (simp only: full_table_fields) (simp add: full_table_def)
qed

definition made_at :: "nat \<Rightarrow> nat \<Rightarrow> session_t" where
  "made_at k i = \<lparr>se_id = of_nat (5000 + 2 * (k + i)), se_last = 0, se_seen = of_nat (1 + i)\<rparr>"

definition filled :: "nat \<Rightarrow> nat \<Rightarrow> session_table_t" where
  "filled k n = \<lparr>st_entries = map (made_at k) [0..<n], st_next_seen = of_nat (1 + n), st_evicted = 0\<rparr>"

lemma fresh_filled: "k + n \<le> 10000 \<Longrightarrow> fresh_ids (k + n) (filled k n)"
  using pool_unat [of "k + i" for i]
  by (auto simp: fresh_ids_def filled_def made_at_def distrib_left simp del: of_nat_add of_nat_mult)

lemma create_filled:
  assumes "k + n \<le> 10000" "n < SESSION_MAX"
  shows "session_create even_pool (filled k n) (k + n) = (Some n, filled k (n + 1), k + n + 1)"
proof -
  have "st_count (filled k n) = n" by (simp add: filled_def)
  then show ?thesis
    using create_appends [OF fresh_filled [OF assms(1)] assms(1)] assms(2)
    by (simp add: filled_def made_at_def)
qed

lemma fill_sessions_rest:
  assumes "k + i + n \<le> 10000" "i + n \<le> SESSION_MAX" "2 \<le> i"
  shows "fill_sessions even_pool n i a b (filled k i) (k + i) = (0, a, b, filled k (i + n), k + i + n)"
  using assms
proof (induction n arbitrary: i)
  case 0
  then show ?case by simp
next
  case (Suc n)
  have "fill_sessions even_pool n (i + 1) a b (filled k (i + 1)) (k + (i + 1))
      = (0, a, b, filled k (i + 1 + n), k + (i + 1) + n)"
    using Suc.prems by (intro Suc.IH) simp_all
  then show ?case using Suc.prems create_filled [of k i] by simp
qed

lemma fill_sessions_passes:
  assumes "k \<le> 1000"
  shows "fill_sessions even_pool SESSION_MAX 0 a b session_table_init k
    = (0, of_nat (5000 + 2 * k), of_nat (5000 + 2 * (k + 1)), filled k SESSION_MAX, k + SESSION_MAX)"
proof -
  have "session_table_init = filled k 0" by (simp add: session_table_init_def filled_def)
  moreover have "id_at (filled k 1) 0 = of_nat (5000 + 2 * k)" "id_at (filled k 2) 1 = of_nat (5000 + 2 * (k + 1))"
    by (simp_all add: filled_def made_at_def upt_rec)
  moreover have "fill_sessions even_pool (Suc (Suc 1022)) 0 a b (filled k 0) k
      = (0, id_at (filled k 1) 0, id_at (filled k 2) 1, filled k SESSION_MAX, k + SESSION_MAX)"
    using assms create_filled [of k 0] create_filled [of k 1] fill_sessions_rest [of k 2 1022]
    unfolding fill_sessions.simps(2) [of _ "Suc 1022"] fill_sessions.simps(2) [of _ 1022]
    by (simp add: numeral_2_eq_2)
  ultimately show ?thesis by simp
qed

lemma check_overflow_passes:
  assumes k: "k \<le> 1000"
  shows "\<exists>t k'. check_overflow even_pool a b t0 k = (0, t, k')"
proof -
  let ?g = "made_at k" and ?a = "of_nat (5000 + 2 * k) :: u64" and ?b = "of_nat (5000 + 2 * (k + 1)) :: u64"
  let ?k1 = "k + SESSION_MAX"
  define marked where "marked = ?g(0 := (?g 0)\<lparr>se_last := 77\<rparr>)"
  define one where "one = marked(0 := \<lparr>se_id = of_nat (5000 + 2 * ?k1), se_last = 0, se_seen = 1025\<rparr>)"
  define two where "two = one(1 := \<lparr>se_id = of_nat (5000 + 2 * (?k1 + 1)), se_last = 0, se_seen = 1026\<rparr>)"
  have ids: "unat (se_id (?g i)) = 5000 + 2 * (k + i)" if "i < SESSION_MAX" for i
    using pool_unat [of "k + i"] k that by (simp add: made_at_def del: of_nat_add of_nat_mult)
  have seen: "unat (se_seen (?g i)) = 1 + i" if "i < SESSION_MAX" for i
    using that by (simp add: made_at_def unat_of_nat del: of_nat_add of_nat_Suc)
  have later: "unat (se_id (one 0)) = 5000 + 2 * ?k1" "unat (se_id (two 1)) = 5000 + 2 * (?k1 + 1)"
    using k pool_unat [of ?k1] pool_unat [of "?k1 + 1"] by (simp_all add: one_def two_def del: of_nat_add of_nat_mult)
  have ab: "unat ?a = 5000 + 2 * k" "unat ?b = 5000 + 2 * (k + 1)"
    using k pool_unat [of k] pool_unat [of "k + 1"] by (simp_all del: of_nat_add of_nat_mult)
  have id_one: "se_id (one i) \<noteq> ?a" if "i < SESSION_MAX" for i
  proof
    assume "se_id (one i) = ?a"
    then have "unat (se_id (one i)) = 5000 + 2 * k" using ab by simp
    then show False using ids [OF that] later(1) by (cases "i = 0") (simp_all add: one_def marked_def)
  qed
  have id_two: "se_id (two i) \<noteq> ?b" if "i < SESSION_MAX" for i
  proof
    assume "se_id (two i) = ?b"
    then have "unat (se_id (two i)) = 5000 + 2 * (k + 1)" using ab by simp
    then show False using ids [OF that] later
      by (cases "i = 0"; cases "i = 1") (simp_all add: two_def one_def marked_def)
  qed
  have filled: "filled k SESSION_MAX = full_table ?g 1025 0" by (simp add: filled_def full_table_def)
  have "session_lookup (full_table ?g 1025 0) ?a = Some 0"
    using pool_nonzero [of k] k by (intro full_table_first) (simp_all add: made_at_def)
  moreover have "fresh_ids ?k1 (full_table marked 1025 0)"
    using ids by (auto simp: fresh_ids_def full_table_def marked_def)
  then have "session_create even_pool (full_table marked 1025 0) ?k1 = (Some 0, full_table one 1026 1, ?k1 + 1)"
    using k seen create_full [of ?k1 marked 1025 0 0]
    by (simp add: one_def marked_def word_less_nat_alt)
  moreover have "fresh_ids (?k1 + 1) (full_table one 1026 1)"
    using ids later by (auto simp: fresh_ids_def full_table_def one_def marked_def)
  then have "session_create even_pool (full_table one 1026 1) (?k1 + 1) = (Some 1, full_table two 1027 2, ?k1 + 1 + 1)"
    using k seen create_full [of "?k1 + 1" one 1026 1 1]
    by (simp add: two_def one_def marked_def word_less_nat_alt)
  moreover have "session_lookup (full_table one 1026 1) ?a = None"
    unfolding full_table_lookup using id_one by blast
  moreover have "session_lookup (full_table two 1027 2) ?b = None"
    unfolding full_table_lookup using id_two by blast
  moreover have "session_lookup (full_table two 1027 2) (se_id (one 0)) = Some 0"
    using later by (intro full_table_first) (auto simp: two_def)
  moreover have "(full_table ?g 1025 0)\<lparr>st_entries := (st_entries (full_table ?g 1025 0))[0 := (?g 0)\<lparr>se_last := 77\<rparr>]\<rparr>
    = full_table marked 1025 0"
    using full_table_update [where j = 0 and g = ?g and seen = 1025 and ev = 0 and seen' = 1025 and ev' = 0
      and x = "(?g 0)\<lparr>se_last := 77\<rparr>"]
    unfolding marked_def by (simp add: full_table_def)
  moreover have "mark_at (full_table one 1026 1) 0 = 0" "two 0 = one 0"
    by (simp_all add: one_def two_def)
  ultimately show ?thesis
    using fill_sessions_passes [OF k, of a b]
    by (simp add: check_overflow_def Let_def filled del: of_nat_add of_nat_mult)
qed

definition met_at :: "nat \<Rightarrow> session_t" where
  "met_at i = \<lparr>se_id = of_nat (100000 - i), se_last = 1, se_seen = of_nat (2 * i + 2)\<rparr>"

definition met :: "nat \<Rightarrow> session_table_t" where
  "met n = \<lparr>st_entries = map met_at [0..<n], st_next_seen = of_nat (2 * n + 1), st_evicted = 0\<rparr>"

lemma met_unat:
  "i < SESSION_MAX \<Longrightarrow> unat (se_id (met_at i)) = 100000 - i"
  "i < SESSION_MAX \<Longrightarrow> unat (se_seen (met_at i)) = 2 * i + 2"
  by (simp add: met_at_def unat_of_nat del: of_nat_diff) (simp add: met_at_def unat_of_nat unat_word_ariths)

lemma met_new: "n < SESSION_MAX \<Longrightarrow> session_lookup (met n) (of_nat (100000 - n)) = None"
proof -
  assume n: "n < SESSION_MAX"
  have "se_id (met_at i) \<noteq> se_id (met_at n)" if "i < n" for i
    using met_unat(1) [of i] met_unat(1) [of n] that n by auto
  then have "se_id (met_at n) \<notin> se_id ` set (st_entries (met n))" by (force simp: met_def)
  moreover have "se_id (met_at n) = of_nat (100000 - n)" by (simp add: met_at_def)
  ultimately have "find_session (st_entries (met n)) (of_nat (100000 - n)) = None"
    unfolding find_session_None by (simp only: not_False_eq_True)
  then show ?thesis unfolding session_lookup_def by (rule ssubst) (rule if_cancel)
qed

lemma observe_descending_met: "i + n \<le> SESSION_MAX \<Longrightarrow> observe_descending n i (met i) = met (i + n)"
proof (induction n arbitrary: i)
  case 0
  then show ?case by simp
next
  case (Suc n)
  have "unat (se_id (met_at i)) \<noteq> 0" using met_unat(1) [of i] Suc.prems by simp
  then have "(of_nat (100000 - i) :: u64) \<noteq> 0" by (auto simp: met_at_def simp del: of_nat_diff)
  then have "session_observe (met i) (of_nat (100000 - i)) 1 = met (i + 1)"
    using Suc.prems met_new [of i] by (subst session_observe_absent)
      (simp_all add: met_def met_at_def del: of_nat_diff)
  then show ?case using Suc.IH [of "i + 1"] Suc.prems by simp
qed

lemma observe_full:
  assumes "i \<noteq> 0" "\<And>s. s < SESSION_MAX \<Longrightarrow> se_id (g s) \<noteq> i" "j < SESSION_MAX"
    and "\<And>s. s < SESSION_MAX \<Longrightarrow> s \<noteq> j \<Longrightarrow> se_seen (g j) < se_seen (g s)"
  shows "session_observe (full_table g seen ev) i cs
    = full_table (g(j := \<lparr>se_id = i, se_last = cs, se_seen = seen + 1\<rparr>)) (seen + 1 + 1) (ev + 1)"
proof -
  have "session_lookup (full_table g seen ev) i = None" using assms(2) by (simp add: full_table_lookup)
  moreover have "oldest_index (full_table g seen ev) = j" using assms(3,4) by (rule full_table_oldest)
  ultimately show ?thesis
    using assms(1,3) full_table_update [OF assms(3), where g = g and seen = seen and ev = ev]
    by (subst session_observe_evict) (simp_all add: full_table_def)
qed

lemma observe_full_present:
  assumes "i \<noteq> 0" "session_lookup (full_table g seen ev) i = Some j" "j < SESSION_MAX"
  shows "session_observe (full_table g seen ev) i cs
    = full_table (g(j := \<lparr>se_id = i, se_last = max cs (se_last (g j)), se_seen = seen\<rparr>)) (seen + 1) ev"
  unfolding session_observe_present [OF assms(1,2)] full_table_fields(3) full_table_fields(4) [OF assms(3)]
  using full_table_update [OF assms(3), where g = g and seen = seen and ev = ev] by (simp add: full_table_def)

lemma check_arrival_passes: "check_arrival = 0"
proof -
  define g1 where "g1 = met_at(0 := \<lparr>se_id = 42, se_last = 1, se_seen = 2050\<rparr>)"
  define g2 where "g2 = g1(1 := \<lparr>se_id = 99999, se_last = 2, se_seen = 2051\<rparr>)"
  define g3 where "g3 = g2(2 := \<lparr>se_id = 43, se_last = 1, se_seen = 2053\<rparr>)"
  have full: "observe_descending SESSION_MAX 0 session_table_init = full_table met_at 2049 0"
    using observe_descending_met [of 0 SESSION_MAX]
    by (simp add: met_def session_table_init_def full_table_def)
  have ne: "se_id (met_at i) \<noteq> x" if "i < SESSION_MAX" "unat x < 90000" for i x
    using met_unat(1) [OF that(1)] that by auto
  have first: "se_id (met_at 0) = 100000" "se_id (met_at 1) = 99999" by (simp_all add: met_at_def)
  have last': "\<exists>j < SESSION_MAX. se_id (met_at j) = of_nat (100000 - SESSION_MAX + 1)"
    by (intro exI [of _ 1023]) (simp add: met_at_def)
  have "session_lookup (full_table met_at 2049 0) 100000 = Some 0"
    "session_lookup (full_table met_at 2049 0) (of_nat (100000 - SESSION_MAX + 1)) \<noteq> None"
    using first last' by (simp_all add: full_table_first full_table_lookup)
  moreover have "session_observe (full_table met_at 2049 0) 42 1 = full_table g1 2051 1"
    using observe_full [of 42 met_at 0 2049 0 1] ne met_unat(2) by (simp add: g1_def word_less_nat_alt)
  moreover have "session_lookup (full_table g1 2051 1) 42 = Some 0" by (simp add: full_table_first g1_def)
  moreover have "se_id (g1 i) \<noteq> 100000" if "i < SESSION_MAX" for i
    using met_unat(1) [OF that] that by (cases "i = 0") (auto simp: g1_def)
  then have "session_lookup (full_table g1 2051 1) 100000 = None" by (simp add: full_table_lookup)
  moreover have "session_observe (full_table g1 2051 1) 99999 2 = full_table g2 2052 1"
  proof -
    have "session_lookup (full_table g1 2051 1) 99999 = Some 1"
      using first by (intro full_table_second) (simp_all add: g1_def)
    from observe_full_present [OF _ this] show ?thesis by (simp add: g2_def g1_def met_at_def)
  qed
  moreover have "session_observe (full_table g2 2052 1) 43 1 = full_table g3 2054 2"
    using observe_full [of 43 g2 2 2052 1 1] ne met_unat(2)
    by (simp add: g3_def g2_def g1_def word_less_nat_alt)
  moreover have "session_lookup (full_table g3 2054 2) 99999 = Some 1"
    by (intro full_table_second) (simp_all add: g3_def g2_def g1_def)
  ultimately show ?thesis by (simp add: check_arrival_def Let_def full)
qed

lemma selfcheck_sessions_passes: "selfcheck_sessions even_pool 0 = 0"
proof -
  obtain t where "check_two_sessions even_pool 0 = (0, t, 514)" using check_two_sessions_passes by blast
  moreover obtain t' k' where "check_overflow even_pool 0 0 t 514 = (0, t', k')"
    using check_overflow_passes [of 514 0 0 t] by auto
  ultimately show ?thesis by (simp add: selfcheck_sessions_def check_arrival_passes)
qed

end
