(* ===== verification/Selfcheck_Conn.thy ===== *)
theory Selfcheck_Conn
  imports Selfcheck_Core Conn
begin

text \<open>
  \<^verbatim>\<open>src/server/selfcheck.c\<close>, the program's tests of framing and of session order on a connection.
  The file's static buffers are arguments: \<open>cb\<close> is \<^verbatim>\<open>conn_buf\<close>, \<open>w\<close> is \<^verbatim>\<open>wire\<close> and \<open>big\<close> is
  \<^verbatim>\<open>big_buf\<close>; a case returns what it leaves in the first two. The lemmas say that the model passes,
  whatever the buffers hold at first.
\<close>

section \<open>The tests\<close>

text \<open>What every case does with received bytes: append them, then parse with four action slots.\<close>

definition feed_more :: "conn_t \<Rightarrow> bytes \<Rightarrow> conn_action_t list \<times> conn_t" where
  "feed_more c bs = (let (_, c) = conn_recv_append c bs in conn_feed c 4)"

definition wire_header :: "nat \<Rightarrow> msg_header_t \<Rightarrow> bytes \<Rightarrow> bytes" where
  "wire_header at h w = (case msg_encode_header (length w - at) h of None \<Rightarrow> w | Some img \<Rightarrow> put at img w)"

text \<open>A frame action as the tests read it: header, payload length, payload.\<close>

definition the_frame :: "conn_t \<Rightarrow> conn_action_t \<Rightarrow> (msg_header_t \<times> nat \<times> bytes) option" where
  "the_frame c a = (case a of CONN_ACTION_FRAME h p n \<Rightarrow> Some (h, n, payload_bytes c p n) | _ \<Rightarrow> None)"

definition frame_case1 :: "bytes \<Rightarrow> bytes \<Rightarrow> int \<times> bytes \<times> bytes" where
  "frame_case1 cb w =
     (let payload = ascii ''hello''; payload_len = length payload; c = conn_init cb (length cb) CONN_MODE_INTERNAL;
          h = msg_header_new MSG_OP_WRITE MSG_RECORD_NONE MSG_FLAG_ACK_REQ (of_nat payload_len) 0xAABB 7;
          w = put MSG_HEADER_SIZE payload (wire_header 0 h w);
          (as, c) = feed_more c (take (MSG_HEADER_SIZE + payload_len) w) in
      case map (the_frame c) as of
        [Some (hd', n, p)] \<Rightarrow>
          (if h_op hd' \<noteq> MSG_OP_WRITE \<or> h_record_type hd' \<noteq> MSG_RECORD_NONE \<or> h_sequence hd' \<noteq> 7
             \<or> n \<noteq> payload_len \<or> mem_cmp p payload payload_len \<noteq> 0 \<or> buf_len c \<noteq> buf_off c \<or> closed c
           then (1, buf c, w) else (0, buf c, w))
      | _ \<Rightarrow> (1, buf c, w))"

definition frame_case1b :: "bytes \<Rightarrow> bytes \<Rightarrow> int \<times> bytes \<times> bytes" where
  "frame_case1b cb w =
     (let c = conn_init cb (length cb) CONN_MODE_INTERNAL; first = ascii ''first''; second = ascii ''second-and-longer'';
          at = 0; l1 = length first; l2 = length second;
          h = msg_header_new MSG_OP_WRITE MSG_RECORD_NONE MSG_FLAG_ACK_REQ (of_nat l1) 0 1;
          w = put (at + MSG_HEADER_SIZE) first (wire_header at h w); at = at + (MSG_HEADER_SIZE + l1);
          h = msg_header_new MSG_OP_WRITE MSG_RECORD_NONE MSG_FLAG_ACK_REQ (of_nat l2) 0 2;
          w = put (at + MSG_HEADER_SIZE) second (wire_header at h w); at = at + (MSG_HEADER_SIZE + l2);
          h = msg_header_new MSG_OP_WRITE MSG_RECORD_NONE MSG_FLAG_ACK_REQ 1024 0 3;
          w = wire_header at h w; at = at + MSG_HEADER_SIZE;
          w = mem_set 256 w at 0x5A; at = at + 256;
          (as, c) = feed_more c (take at w) in
      case map (the_frame c) as of
        [Some (_, n1, p1), Some (_, n2, p2)] \<Rightarrow>
          (if n1 \<noteq> l1 \<or> n2 \<noteq> l2 \<or> mem_cmp p1 first l1 \<noteq> 0 \<or> mem_cmp p2 second l2 \<noteq> 0 then (1, buf c, w)
           else let c = conn_compact c in
           if buf_len c \<noteq> MSG_HEADER_SIZE + 256 \<or> buf_off c \<noteq> 0 then (1, buf c, w) else (0, buf c, w))
      | _ \<Rightarrow> (1, buf c, w))"

text \<open>The loops that feed one byte at a time and expect nothing: \<open>n\<close> turns are left, the next byte is
  number \<open>i\<close>.\<close>

primrec feed_bytes :: "(conn_t \<Rightarrow> bool) \<Rightarrow> nat \<Rightarrow> nat \<Rightarrow> bytes \<Rightarrow> conn_t \<Rightarrow> int \<times> conn_t" where
  "feed_bytes bad 0 i w c = (0, c)"
| "feed_bytes bad (Suc n) i w c =
     (let (as, c) = feed_more c [w ! i] in
      if as \<noteq> [] \<or> bad c then (1, c) else feed_bytes bad n (i + 1) w c)"

definition frame_case2 :: "bytes \<Rightarrow> bytes \<Rightarrow> int \<times> bytes \<times> bytes" where
  "frame_case2 cb w =
     (let payload_len = length (ascii ''hello''); c = conn_init cb (length cb) CONN_MODE_INTERNAL;
          i = MSG_HEADER_SIZE + payload_len - 1; (rc, c) = feed_bytes closed i 0 w c in
      if rc \<noteq> 0 then (1, buf c, w)
      else let (as, c) = feed_more c [w ! i] in
      case map (the_frame c) as of
        [Some (_, n, _)] \<Rightarrow>
          (if n \<noteq> payload_len \<or> buf_len c \<noteq> buf_off c \<or> closed c then (1, buf c, w) else (0, buf c, w))
      | _ \<Rightarrow> (1, buf c, w))"

text \<open>The refusals: an error reply with the code, a CLOSE, and the connection closed. Cases 3 and 5 do
  not look at the sequence echoed, and case 6 not at the second action's type.\<close>

definition frame_case3 :: "bytes \<Rightarrow> bytes \<Rightarrow> int \<times> bytes \<times> bytes" where
  "frame_case3 cb w =
     (let c = conn_init cb (length cb) CONN_MODE_INTERNAL;
          w = mem_zero MSG_HEADER_SIZE w 0; w = w[0 := 0xDE, 1 := 0xAD, 2 := 0xBE, 3 := 0xEF];
          (as, c) = feed_more c (take MSG_HEADER_SIZE w) in
      case as of
        [CONN_ACTION_REPLY_ERR code _, CONN_ACTION_CLOSE] \<Rightarrow>
          (if code \<noteq> MSG_ERR_BAD_MAGIC \<or> \<not> closed c then (1, buf c, w) else (0, buf c, w))
      | _ \<Rightarrow> (1, buf c, w))"

definition frame_case4 :: "bytes \<Rightarrow> bytes \<Rightarrow> int \<times> bytes \<times> bytes" where
  "frame_case4 cb w =
     (let c = conn_init cb (length cb) CONN_MODE_INTERNAL;
          h = msg_header_new MSG_OP_WRITE MSG_RECORD_NONE 0 (of_nat (length cb)) 0 99; w = wire_header 0 h w;
          (as, c) = feed_more c (take MSG_HEADER_SIZE w) in
      case as of
        [CONN_ACTION_REPLY_ERR code sq, CONN_ACTION_CLOSE] \<Rightarrow>
          (if code \<noteq> MSG_ERR_PAYLOAD_TOO_BIG \<or> sq \<noteq> 99 \<or> \<not> closed c then (1, buf c, w) else (0, buf c, w))
      | _ \<Rightarrow> (1, buf c, w))"

definition frame_case5 :: "bytes \<Rightarrow> bytes \<Rightarrow> int \<times> bytes" where
  "frame_case5 big w =
     (let c = conn_init big (length big) CONN_MODE_INTERNAL;
          h = msg_header_new MSG_OP_WRITE MSG_RECORD_NONE 0 (of_nat MSG_MAX_PAYLOAD + 1) 0 100; w = wire_header 0 h w;
          (as, c) = feed_more c (take MSG_HEADER_SIZE w) in
      case as of
        [CONN_ACTION_REPLY_ERR code _, CONN_ACTION_CLOSE] \<Rightarrow>
          (if code \<noteq> MSG_ERR_PAYLOAD_TOO_BIG \<or> \<not> closed c then (1, w) else (0, w))
      | _ \<Rightarrow> (1, w))"

definition frame_case6 :: "bytes \<Rightarrow> bytes \<Rightarrow> int \<times> bytes \<times> bytes" where
  "frame_case6 cb w =
     (let c = conn_init cb (length cb) CONN_MODE_INTERNAL;
          h = (msg_header_new MSG_OP_WRITE MSG_RECORD_NONE 0 0 0 5)\<lparr>h_version := 1\<rparr>; w = wire_header 0 h w;
          (as, c) = feed_more c (take MSG_HEADER_SIZE w) in
      case as of
        [CONN_ACTION_REPLY_ERR code _, _] \<Rightarrow>
          (if code \<noteq> MSG_ERR_BAD_VERSION \<or> \<not> closed c then (1, buf c, w) else (0, buf c, w))
      | _ \<Rightarrow> (1, buf c, w))"

definition selfcheck_conn_framing :: "bytes \<Rightarrow> bytes \<Rightarrow> bytes \<Rightarrow> int \<times> bytes \<times> bytes" where
  "selfcheck_conn_framing big cb w =
     (let (rc, cb, w) = frame_case1 cb w in
      if rc \<noteq> 0 then (rc, cb, w) else let (rc, cb, w) = frame_case1b cb w in
      if rc \<noteq> 0 then (rc, cb, w) else let (rc, cb, w) = frame_case2 cb w in
      if rc \<noteq> 0 then (rc, cb, w) else let (rc, cb, w) = frame_case3 cb w in
      if rc \<noteq> 0 then (rc, cb, w) else let (rc, cb, w) = frame_case4 cb w in
      if rc \<noteq> 0 then (rc, cb, w) else let (rc, w) = frame_case5 big w in
      if rc \<noteq> 0 then (rc, cb, w) else frame_case6 cb w)"

definition session_case1 :: "bytes \<Rightarrow> bytes \<Rightarrow> int \<times> bytes \<times> bytes" where
  "session_case1 cb w =
     (let c = conn_init cb (length cb) CONN_MODE_CLIENT;
          h = msg_header_new MSG_OP_WRITE MSG_RECORD_NONE MSG_FLAG_ACK_REQ 0 0 1; w = wire_header 0 h w;
          (as, c) = feed_more c (take MSG_HEADER_SIZE w) in
      case as of
        [CONN_ACTION_REPLY_ERR code sq, CONN_ACTION_CLOSE] \<Rightarrow>
          (if code \<noteq> MSG_ERR_NO_SESSION \<or> sq \<noteq> 1 \<or> \<not> closed c then (1, buf c, w) else (0, buf c, w))
      | _ \<Rightarrow> (1, buf c, w))"

text \<open>Cases 2 and 3 share a connection.\<close>

definition session_case23 :: "bytes \<Rightarrow> bytes \<Rightarrow> int \<times> bytes \<times> bytes" where
  "session_case23 cb w =
     (let c = conn_init cb (length cb) CONN_MODE_CLIENT; (hello_len, w) = build_hello w 0 (ascii ''cli'') in
      if hello_len = 0 then (1, buf c, w)
      else let h = msg_header_new MSG_OP_WRITE MSG_RECORD_NONE MSG_FLAG_ACK_REQ 0 0xBEEF 1;
               w = wire_header hello_len h w;
               (as, c) = feed_more c (take (hello_len + MSG_HEADER_SIZE) w) in
      case map (the_frame c) as of
        [Some (h1, _), Some (h2, _)] \<Rightarrow>
          (if h_op h1 \<noteq> MSG_OP_HELLO \<or> h_op h2 \<noteq> MSG_OP_WRITE \<or> h_partition_key h2 \<noteq> 0xBEEF \<or> \<not> opened c \<or> closed c
           then (1, buf c, w)
           else let (as, c) = feed_more c (take hello_len w) in
           case as of
             [CONN_ACTION_REPLY_ERR code _, CONN_ACTION_CLOSE] \<Rightarrow>
               (if code \<noteq> MSG_ERR_NO_SESSION \<or> \<not> closed c then (1, buf c, w) else (0, buf c, w))
           | _ \<Rightarrow> (1, buf c, w))
      | _ \<Rightarrow> (1, buf c, w))"

definition session_case4 :: "bytes \<Rightarrow> bytes \<Rightarrow> int \<times> bytes \<times> bytes" where
  "session_case4 cb w =
     (let c = conn_init cb (length cb) CONN_MODE_CLIENT; (hello_len, w) = build_hello w 0 (ascii ''cli'');
          i = hello_len - 1; (rc, c) = feed_bytes (\<lambda>c. opened c \<or> closed c) i 0 w c in
      if rc \<noteq> 0 then (1, buf c, w)
      else let (as, c) = feed_more c [w ! i] in
      case map (the_frame c) as of
        [Some (h, _)] \<Rightarrow>
          (if h_op h \<noteq> MSG_OP_HELLO \<or> \<not> opened c \<or> closed c then (1, buf c, w) else (0, buf c, w))
      | _ \<Rightarrow> (1, buf c, w))"

definition session_case5 :: "bytes \<Rightarrow> bytes \<Rightarrow> int \<times> bytes \<times> bytes" where
  "session_case5 cb w =
     (let c = conn_init cb (length cb) CONN_MODE_INTERNAL;
          h = msg_header_new MSG_OP_WRITE MSG_RECORD_NONE 0 0 0 1; w = wire_header 0 h w;
          (as, c) = feed_more c (take MSG_HEADER_SIZE w) in
      case map (the_frame c) as of
        [Some (h, _)] \<Rightarrow> (if h_op h \<noteq> MSG_OP_WRITE \<or> closed c then (1, buf c, w) else (0, buf c, w))
      | _ \<Rightarrow> (1, buf c, w))"

definition selfcheck_conn_session :: "bytes \<Rightarrow> bytes \<Rightarrow> int \<times> bytes \<times> bytes" where
  "selfcheck_conn_session cb w =
     (let (rc, cb, w) = session_case1 cb w in
      if rc \<noteq> 0 then (rc, cb, w) else let (rc, cb, w) = session_case23 cb w in
      if rc \<noteq> 0 then (rc, cb, w) else let (rc, cb, w) = session_case4 cb w in
      if rc \<noteq> 0 then (rc, cb, w) else session_case5 cb w)"

section \<open>The model passes them\<close>

lemma conn_recv_append_keeps:
  "conn_recv_append c bs = (n, c') \<Longrightarrow>
     closed c' = closed c \<and> opened c' = opened c \<and> mode c' = mode c \<and> buf_cap c' = buf_cap c"
  by (auto simp: conn_recv_append_def conn_compact_def Let_def split: if_splits)

lemma append_room:
  assumes "conn_inv c" "\<not> closed c" "length (unparsed c) + length bs \<le> buf_cap c"
  shows "\<exists>c'. conn_recv_append c bs = (length bs, c') \<and> conn_inv c' \<and> unparsed c' = unparsed c @ bs
    \<and> \<not> closed c' \<and> opened c' = opened c \<and> mode c' = mode c \<and> buf_cap c' = buf_cap c"
proof -
  obtain n c' where a: "conn_recv_append c bs = (n, c')" by (metis surj_pair)
  note inv = conn_recv_append_inv [OF assms(1) a]
  then have "n = length bs" using assms(2,3) by simp
  with a inv assms(2) conn_recv_append_keeps [OF a] show ?thesis by auto
qed

text \<open>Frames in the buffer come out with their payloads; what is left of the stream stays.\<close>

definition as_read :: "frame \<Rightarrow> (msg_header_t \<times> nat \<times> bytes) option" where
  "as_read f = Some (fst f, length (snd f), snd f)"

lemma feed_more_frames:
  assumes inv: "conn_inv c" and cap: "buf_cap c < 2 ^ 31" and open': "\<not> closed c"
    and at: "unparsed c @ bs = concat (map frame_bytes fs) @ take k (frame_bytes g)"
    and fit: "length (unparsed c) + length bs \<le> buf_cap c" and k: "k < length (frame_bytes g)"
    and ok: "\<forall>f \<in> set (fs @ [g]). frame_ok (buf_cap c) f" and ord: "order_ok (mode c) (opened c) (fs @ [g])"
    and few: "length fs \<le> 4"
  shows "\<exists>as c'. feed_more c bs = (as, c') \<and> map (the_frame c') as = map as_read fs
    \<and> conn_inv c' \<and> buf_cap c' = buf_cap c \<and> mode c' = mode c \<and> \<not> closed c'
    \<and> opened c' = (opened c \<or> (\<exists>f \<in> set fs. frame_opens f)) \<and> unparsed c' = take k (frame_bytes g)"
proof -
  obtain c1 where c1: "conn_recv_append c bs = (length bs, c1)" "conn_inv c1" "unparsed c1 = unparsed c @ bs"
      "\<not> closed c1" "opened c1 = opened c" "mode c1 = mode c" "buf_cap c1 = buf_cap c"
    using append_room [OF inv open' fit] by blast
  have le: "buf_off c1 \<le> buf_len c1" using c1(2) by (simp add: conn_inv_def)
  have cap1: "buf_cap c1 < 2 ^ 31" using cap c1(7) by simp
  have at1: "drop (buf_off c1) (take (buf_len c1) (buf c1)) = concat (map frame_bytes fs) @ take k (frame_bytes g)"
    using c1(3) at by (simp add: unparsed_def [of c1])
  obtain as where as: "conn_feed_loop 4 c1 (buf_off c1) =
      (as, c1\<lparr>opened := opened c1 \<or> (\<exists>f \<in> set (take 4 fs). frame_opens f)\<rparr>,
       buf_off c1 + length (concat (map frame_bytes (take 4 fs))))"
      "map (resolve c1) as = map Some (take 4 fs)"
    using conn_feed_loop_frames [OF c1(2) cap1 le at1 k, of 4] ok ord unfolding c1(5-7) by blast
  obtain c' where feed: "conn_feed c1 4 = (as, c')" and
      c': "c' = c1\<lparr>opened := opened c1 \<or> (\<exists>f \<in> set fs. frame_opens f),
        buf_off := buf_off c1 + length (concat (map frame_bytes fs))\<rparr>"
    using as(1) c1(4) few by (auto simp: conn_feed_def)
  have fin: "conn_inv c'" "\<forall>a \<in> set as. action_in_bounds c' a"
    using conn_feed_inv [OF c1(2) feed] by simp_all
  have "resolve c1 = resolve c'"
    by (auto simp: c' resolve_def payload_bytes_def fun_eq_iff split: conn_action_t.splits option.splits)
  then have res: "map (resolve c') as = map Some fs" using as(2) few by simp
  have read: "the_frame c' a = (case resolve c' a of None \<Rightarrow> None | Some f \<Rightarrow> as_read f)" if "a \<in> set as" for a
  proof (cases a)
    case (CONN_ACTION_FRAME h p n)
    have "action_in_bounds c' a" using fin that by blast
    then have "length (payload_bytes c' p n) = n"
      using fin(1) CONN_ACTION_FRAME by (auto simp: action_in_bounds_def payload_bytes_def conn_inv_def split: option.splits)
    then show ?thesis using CONN_ACTION_FRAME by (simp add: the_frame_def as_read_def)
  qed (simp_all add: the_frame_def resolve_def)
  have "map (the_frame c') as = map (\<lambda>r. case r of None \<Rightarrow> None | Some f \<Rightarrow> as_read f) (map (resolve c') as)"
    using read by simp
  also have "\<dots> = map as_read fs" unfolding res by simp
  finally have "map (the_frame c') as = map as_read fs" .
  moreover have "unparsed c' = take k (frame_bytes g)"
  proof -
    have "drop (length (concat (map frame_bytes fs))) (unparsed c1) = take k (frame_bytes g)"
      using c1(3) at by simp
    then show ?thesis by (simp add: c' unparsed_def add.commute)
  qed
  ultimately show ?thesis
    using c1 feed fin by (auto simp: feed_more_def c')
qed

lemma header_of_append: "MSG_HEADER_SIZE \<le> length xs \<Longrightarrow> header_of (xs @ ys) = header_of xs"
  by (simp add: header_of_def field_def)

text \<open>A header with a fault ends the connection.\<close>

lemma feed_more_fatal:
  assumes inv: "conn_inv c" and open': "\<not> closed c" and fit: "length (unparsed c) + length bs \<le> buf_cap c"
    and big: "MSG_HEADER_SIZE \<le> length (unparsed c @ bs)"
    and fault: "header_fault c (header_of (unparsed c @ bs)) = Some (code, q)"
  shows "\<exists>c'. feed_more c bs = ([CONN_ACTION_REPLY_ERR code q, CONN_ACTION_CLOSE], c') \<and> closed c' \<and> length (buf c') = buf_cap c"
proof -
  obtain c1 where c1: "conn_recv_append c bs = (length bs, c1)" "conn_inv c1" "unparsed c1 = unparsed c @ bs"
      "\<not> closed c1" "opened c1 = opened c" "mode c1 = mode c" "buf_cap c1 = buf_cap c"
    using append_room [OF inv open' fit] by blast
  have le: "buf_off c1 \<le> buf_len c1" using c1(2) by (simp add: conn_inv_def)
  have "header_of (drop (buf_off c1) (buf c1)) = header_of (unparsed c1)"
    using big unfolding drop_received [OF c1(2) le] unparsed_def [of c1, symmetric] c1(3)
    by (rule header_of_append)
  moreover have "header_fault c1 = header_fault c" by (simp add: header_fault_def fun_eq_iff c1(5-7))
  ultimately have "header_fault c1 (header_of (drop (buf_off c1) (buf c1))) = Some (code, q)"
    using fault c1(3) by simp
  moreover have "\<not> buf_len c1 - buf_off c1 < MSG_HEADER_SIZE"
    using big c1(2) unfolding c1(3)[symmetric] by (simp add: unparsed_def conn_inv_def)
  ultimately have "conn_feed c1 (Suc 3) = ([CONN_ACTION_REPLY_ERR code q, CONN_ACTION_CLOSE],
      c1\<lparr>closed := True, buf_off := buf_len c1\<rparr>)"
    using c1(4) unfolding conn_feed_def conn_feed_loop.simps(2) by (simp add: emit_fatal_def)
  then show ?thesis using c1 by (simp add: feed_more_def conn_inv_def)
qed

lemma feed_bytes_quiet:
  assumes "conn_inv c" "buf_cap c < 2 ^ 31" "\<not> closed c" "unparsed c = take i (frame_bytes f)"
    and "i + n < length (frame_bytes f)" "frame_ok (buf_cap c) f" "order_ok (mode c) (opened c) [f]"
    and "\<And>j. j < i + n \<Longrightarrow> w ! j = frame_bytes f ! j"
    and "\<And>d. \<not> closed d \<Longrightarrow> opened d = opened c \<Longrightarrow> \<not> bad d"
  shows "\<exists>c'. feed_bytes bad n i w c = (0, c') \<and> conn_inv c' \<and> \<not> closed c' \<and> opened c' = opened c
    \<and> mode c' = mode c \<and> buf_cap c' = buf_cap c \<and> unparsed c' = take (i + n) (frame_bytes f)"
  using assms
proof (induction n arbitrary: i c)
  case 0
  then show ?case by simp
next
  case (Suc n)
  have "unparsed c @ [w ! i] = take (Suc i) (frame_bytes f)"
    using Suc.prems(4,5,8) by (simp add: take_Suc_conv_app_nth del: length_frame_bytes)
  moreover have "length (unparsed c) + length [w ! i] \<le> buf_cap c"
    using Suc.prems(4,5,6) by (simp add: frame_ok_def)
  ultimately obtain c1 where c1: "feed_more c [w ! i] = ([], c1)" "conn_inv c1" "buf_cap c1 = buf_cap c" "mode c1 = mode c"
      "\<not> closed c1" "opened c1 = opened c" "unparsed c1 = take (Suc i) (frame_bytes f)"
    using feed_more_frames [OF Suc.prems(1-3), of "[w ! i]" "[]" "Suc i" f] Suc.prems(5-7) by auto
  have "\<exists>c'. feed_bytes bad n (Suc i) w c1 = (0, c') \<and> conn_inv c' \<and> \<not> closed c' \<and> opened c' = opened c1
    \<and> mode c' = mode c1 \<and> buf_cap c' = buf_cap c1 \<and> unparsed c' = take (Suc i + n) (frame_bytes f)"
    by (rule Suc.IH) (use Suc.prems c1 in simp_all)
  then show ?case using c1 Suc.prems(9) [OF c1(5,6)] by simp
qed

lemma wire_header_eq [simp]:
  "at + MSG_HEADER_SIZE \<le> length w \<Longrightarrow> wire_header at h w = take at w @ header_image h @ drop (at + MSG_HEADER_SIZE) w"
  using le_diff_conv2 [of at "length w" MSG_HEADER_SIZE] by (auto simp: wire_header_def msg_encode_header_def)

lemma fresh_conn:
  "length b = cap \<Longrightarrow> conn_inv (conn_init b cap m) \<and> \<not> closed (conn_init b cap m) \<and> unparsed (conn_init b cap m) = []
     \<and> opened (conn_init b cap m) = False \<and> mode (conn_init b cap m) = m \<and> buf_cap (conn_init b cap m) = cap"
  by (simp add: conn_init_def conn_inv_def unparsed_def)

definition write_frame :: "u16 \<Rightarrow> bytes \<Rightarrow> u64 \<Rightarrow> u64 \<Rightarrow> frame" where
  "write_frame fl p key sq = (msg_header_new MSG_OP_WRITE MSG_RECORD_NONE fl (of_nat (length p)) key sq, p)"

lemma write_frame_ok: "length p \<le> 2000 \<Longrightarrow> frame_ok 4096 (write_frame fl p key sq)"
  by (simp add: frame_ok_def write_frame_def msg_header_valid_def msg_header_new_def unat_of_nat word_less_nat_alt)

lemma write_frame_opens: "\<not> frame_opens (write_frame fl p key sq)"
  by (simp add: frame_opens_def write_frame_def msg_header_new_def opening_op_def)

lemma no_bytes_left: "conn_inv c \<Longrightarrow> unparsed c = [] \<Longrightarrow> buf_len c = buf_off c"
  by (auto simp: conn_inv_def unparsed_def)

lemma mem_cmp_self [simp]: "length xs = n \<Longrightarrow> mem_cmp xs xs n = 0"
  using mem_cmp_prefix [of xs "[]"] by simp

lemma frame_case1_passes:
  assumes "length cb = 4096" "length w = 4096"
  shows "\<exists>cb' w'. frame_case1 cb w = (0, cb', w') \<and> length cb' = 4096 \<and> length w' = 4096"
proof -
  define p where "p = ascii ''hello''"
  have p: "length p = 5" by (simp add: p_def ascii_def)
  let ?f = "write_frame MSG_FLAG_ACK_REQ p 0xAABB 7" and ?c = "conn_init cb 4096 CONN_MODE_INTERNAL"
  note c = fresh_conn [OF assms(1), of CONN_MODE_INTERNAL]
  have ok: "\<forall>f \<in> set ([?f] @ [?f]). frame_ok (buf_cap ?c) f" using c p by (simp add: write_frame_ok)
  have "order_ok (mode ?c) (opened ?c) ([?f] @ [?f])" using c by (simp add: order_ok_def)
  then obtain as c' where feed: "feed_more ?c (frame_bytes ?f) = (as, c')" "map (the_frame c') as = map as_read [?f]"
      "conn_inv c'" "buf_cap c' = 4096" "\<not> closed c'" "unparsed c' = []"
    using feed_more_frames [of ?c "frame_bytes ?f" "[?f]" 0 ?f] c ok p by (auto simp: write_frame_def)
  let ?w = "frame_bytes ?f @ drop 37 w"
  have "frame_case1 cb w = (0, buf c', ?w)"
    using feed no_bytes_left [OF feed(3,6)] assms p
    by (simp add: frame_case1_def p_def [symmetric] Let_def as_read_def)
      (simp add: frame_bytes_def write_frame_def msg_header_new_def)
  then show ?thesis using feed(3,4) assms p by (simp add: conn_inv_def write_frame_def)
qed

lemma frame_case1b_passes:
  assumes "length cb = 4096" "length w = 4096"
  shows "\<exists>cb' w'. frame_case1b cb w = (0, cb', w') \<and> length cb' = 4096 \<and> length w' = 4096
    \<and> take 37 w' = frame_bytes (write_frame MSG_FLAG_ACK_REQ (ascii ''first'') 0 1)"
proof -
  define p1 where "p1 = ascii ''first''"
  define p2 where "p2 = ascii ''second-and-longer''"
  have p: "length p1 = 5" "length p2 = 17" by (simp_all add: p1_def p2_def ascii_def)
  let ?f = "write_frame MSG_FLAG_ACK_REQ p1 0 1" and ?g = "write_frame MSG_FLAG_ACK_REQ p2 0 2"
    and ?h = "write_frame MSG_FLAG_ACK_REQ (replicate 1024 0x5A) 0 3" and ?c = "conn_init cb 4096 CONN_MODE_INTERNAL"
  let ?bs = "concat (map frame_bytes [?f, ?g]) @ take 288 (frame_bytes ?h)"
  note c = fresh_conn [OF assms(1), of CONN_MODE_INTERNAL]
  have ok: "\<forall>f \<in> set ([?f, ?g] @ [?h]). frame_ok (buf_cap ?c) f" using c p by (simp add: write_frame_ok)
  have "order_ok (mode ?c) (opened ?c) ([?f, ?g] @ [?h])" using c by (simp add: order_ok_def)
  then obtain as c' where feed: "feed_more ?c ?bs = (as, c')" "map (the_frame c') as = map as_read [?f, ?g]"
      "conn_inv c'" "buf_cap c' = 4096" "unparsed c' = take 288 (frame_bytes ?h)"
    using feed_more_frames [of ?c ?bs "[?f, ?g]" 288 ?h] c ok p by (auto simp: write_frame_def)
  have third: "take 288 (frame_bytes ?h) = header_image (fst ?h) @ replicate 256 0x5A"
    by (simp add: frame_bytes_def write_frame_def)
  let ?w = "?bs @ drop 374 w"
  have len: "buf_len (conn_compact c') = 288" "buf_off (conn_compact c') = 0" "length (buf (conn_compact c')) = 4096"
  proof -
    have inv: "conn_inv (conn_compact c')" and off: "buf_off (conn_compact c') = 0"
      and un: "unparsed (conn_compact c') = take 288 (frame_bytes ?h)" and cap: "buf_cap (conn_compact c') = 4096"
      using conn_compact_inv [OF feed(3)] feed(4,5) by simp_all
    from off show "buf_off (conn_compact c') = 0" .
    have "length (unparsed (conn_compact c')) = 288" unfolding un third by simp
    then show "buf_len (conn_compact c') = 288" using inv off by (simp add: unparsed_def conn_inv_def)
    show "length (buf (conn_compact c')) = 4096" using inv cap by (simp add: conn_inv_def)
  qed
  have "frame_case1b cb w = (0, buf (conn_compact c'), ?w)"
  proof -
    have w: "mem_set 256 (wire_header 86 (fst ?h) (put 69 p2 (wire_header 37 (fst ?g)
        (put 32 p1 (wire_header 0 (fst ?f) w))))) 118 0x5A = ?w"
      using assms p by (simp add: third frame_bytes_def) (simp add: mem_set_splice write_frame_def)
    have "take 374 ?w = ?bs" using p by (simp add: third write_frame_def)
    then show ?thesis
      using feed(1,2) len assms p w
      by (simp add: frame_case1b_def p1_def [symmetric] p2_def [symmetric] Let_def as_read_def write_frame_def
          del: wire_header_eq put_splice)
  qed
  then show ?thesis using len assms p by (simp add: third p1_def) (simp add: write_frame_def)
qed

text \<open>One byte at a time: all but the last byte of a frame, then the last.\<close>

lemma feed_bytes_frame:
  assumes c: "conn_inv c" "buf_cap c < 2 ^ 31" "\<not> closed c" "unparsed c = []"
    and ok: "\<forall>x \<in> set ([f] @ [g]). frame_ok (buf_cap c) x" and ord: "order_ok (mode c) (opened c) ([f] @ [g])"
    and w: "take (length (frame_bytes f)) w = frame_bytes f" and n: "Suc n = length (frame_bytes f)"
    and bad: "\<And>d. \<not> closed d \<Longrightarrow> opened d = opened c \<Longrightarrow> \<not> bad d"
  shows "\<exists>c1 as c'. feed_bytes bad n 0 w c = (0, c1) \<and> feed_more c1 [w ! n] = (as, c') \<and> map (the_frame c') as = [as_read f]
    \<and> conn_inv c' \<and> \<not> closed c' \<and> opened c' = (opened c \<or> frame_opens f) \<and> buf_cap c' = buf_cap c \<and> unparsed c' = []"
proof -
  have nth: "w ! j = frame_bytes f ! j" if "j < Suc n" for j
    using w n that by (metis nth_take)
  have ord1: "order_ok (mode c) (opened c) [f]" using ord by (auto simp: order_ok_def)
  obtain c1 where c1: "feed_bytes bad n 0 w c = (0, c1)" "conn_inv c1" "\<not> closed c1" "opened c1 = opened c" "mode c1 = mode c"
      "buf_cap c1 = buf_cap c" "unparsed c1 = take n (frame_bytes f)"
    using feed_bytes_quiet [OF c(1-3), of 0 f n w bad] c(4) n ok ord1 nth bad by auto
  have all: "unparsed c1 @ [w ! n] = frame_bytes f"
    using c1(7) n nth by (metis lessI take_Suc_conv_app_nth take_all order_refl)
  have fit: "length (unparsed c1) + length [w ! n] \<le> buf_cap c1"
    using ok c1(6,7) n by (simp add: frame_ok_def)
  have cap1: "buf_cap c1 < 2 ^ 31" using c(2) c1(6) by simp
  obtain as c' where "feed_more c1 [w ! n] = (as, c')" "map (the_frame c') as = map as_read [f]"
    "conn_inv c'" "\<not> closed c'" "opened c' = (opened c \<or> frame_opens f)" "buf_cap c' = buf_cap c" "unparsed c' = []"
    using feed_more_frames [OF c1(2) cap1 c1(3), of "[w ! n]" "[f]" 0 g] all fit ok ord c1(4-6)
    by auto
  with c1(1) show ?thesis by auto
qed

lemma frame_case2_passes:
  assumes "length cb = 4096" "take 37 w = frame_bytes (write_frame fl p key sq)" "length p = 5"
  shows "\<exists>cb'. frame_case2 cb w = (0, cb', w) \<and> length cb' = 4096"
proof -
  let ?f = "write_frame fl p key sq" and ?c = "conn_init cb 4096 CONN_MODE_INTERNAL"
  note c = fresh_conn [OF assms(1), of CONN_MODE_INTERNAL]
  have "\<forall>f \<in> set ([?f] @ [?f]). frame_ok (buf_cap ?c) f" using c assms(3) by (simp add: write_frame_ok)
  moreover have "order_ok (mode ?c) (opened ?c) ([?f] @ [?f])" using c by (simp add: order_ok_def)
  moreover have "length (frame_bytes ?f) = 37" using assms(3) by (simp add: write_frame_def)
  ultimately obtain c1 as c' where feed: "feed_bytes closed 36 0 w ?c = (0, c1)" "feed_more c1 [w ! 36] = (as, c')"
      "map (the_frame c') as = [as_read ?f]" "conn_inv c'" "\<not> closed c'" "buf_cap c' = 4096" "unparsed c' = []"
    using feed_bytes_frame [of ?c ?f ?f w 36 closed] c assms(2) by auto
  have "length (ascii ''hello'') = 5" by (simp add: ascii_def)
  then show ?thesis
    using feed no_bytes_left [OF feed(4,7)] assms(1,3)
    by (simp add: frame_case2_def Let_def as_read_def conn_inv_def write_frame_def)
qed

lemma feed_fresh_fatal:
  assumes "length b = cap" "MSG_HEADER_SIZE \<le> length bs" "length bs \<le> cap"
    and "header_fault (conn_init b cap m) (header_of bs) = Some (code, q)"
  shows "\<exists>c'. feed_more (conn_init b cap m) bs = ([CONN_ACTION_REPLY_ERR code q, CONN_ACTION_CLOSE], c')
    \<and> closed c' \<and> length (buf c') = cap"
  using feed_more_fatal [of "conn_init b cap m" bs code q] fresh_conn [OF assms(1), of m] assms(2-4) by simp

lemma header_of_image [simp]: "header_of (header_image h) = h"
  using header_codec.of_image [of h "[]"] by simp

lemma frame_case3_passes:
  assumes "length cb = 4096" "length w = 4096"
  shows "\<exists>cb' w'. frame_case3 cb w = (0, cb', w') \<and> length cb' = 4096 \<and> length w' = 4096"
proof -
  let ?h = "[0xDE, 0xAD, 0xBE, 0xEF] @ replicate 28 0 :: bytes"
  have w: "(mem_zero MSG_HEADER_SIZE w 0)[0 := 0xDE, 1 := 0xAD, 2 := 0xBE, 3 := 0xEF] = ?h @ drop 32 w"
    using assms(2) by (simp add: mem_zero_def mem_set_splice) (simp add: numeral_eq_Suc)
  have "header_fault (conn_init cb 4096 CONN_MODE_INTERNAL) (header_of ?h) = Some (MSG_ERR_BAD_MAGIC, 0)"
    by (simp add: header_fault_def header_of_def field_def)
  then obtain c' where "feed_more (conn_init cb 4096 CONN_MODE_INTERNAL) ?h
      = ([CONN_ACTION_REPLY_ERR MSG_ERR_BAD_MAGIC 0, CONN_ACTION_CLOSE], c')" "closed c'" "length (buf c') = 4096"
    using feed_fresh_fatal [OF assms(1), of ?h CONN_MODE_INTERNAL MSG_ERR_BAD_MAGIC 0] by auto
  then show ?thesis using assms by (simp add: frame_case3_def w Let_def del: One_nat_def)
qed

lemma feed_header_fatal:
  assumes "length b = cap" "32 \<le> cap" "header_fault (conn_init b cap m) h = Some (code, q)"
  shows "\<exists>c'. feed_more (conn_init b cap m) (header_image h) = ([CONN_ACTION_REPLY_ERR code q, CONN_ACTION_CLOSE], c')
    \<and> closed c' \<and> length (buf c') = cap"
  using feed_fresh_fatal [OF assms(1), of "header_image h" m code q] assms(2,3) by simp

lemma frame_case4_passes:
  assumes "length cb = 4096" "length w = 4096"
  shows "\<exists>cb' w'. frame_case4 cb w = (0, cb', w') \<and> length cb' = 4096 \<and> length w' = 4096"
  using feed_header_fatal [OF assms(1), of CONN_MODE_INTERNAL "msg_header_new MSG_OP_WRITE MSG_RECORD_NONE 0 4096 0 99"
      MSG_ERR_PAYLOAD_TOO_BIG 99] assms
  by (auto simp: frame_case4_def Let_def header_fault_def msg_header_new_def conn_init_def)

lemma frame_case5_passes:
  assumes "length big = MSG_MAX_PAYLOAD + 64" "length w = 4096"
  shows "\<exists>w'. frame_case5 big w = (0, w') \<and> length w' = 4096"
  using feed_header_fatal [OF assms(1), of CONN_MODE_INTERNAL
      "msg_header_new MSG_OP_WRITE MSG_RECORD_NONE 0 (of_nat MSG_MAX_PAYLOAD + 1) 0 100" MSG_ERR_PAYLOAD_TOO_BIG 100] assms
  by (auto simp: frame_case5_def Let_def header_fault_def msg_header_new_def conn_init_def)

lemma frame_case6_passes:
  assumes "length cb = 4096" "length w = 4096"
  shows "\<exists>cb' w'. frame_case6 cb w = (0, cb', w') \<and> length cb' = 4096 \<and> length w' = 4096"
  using feed_header_fatal [OF assms(1), of CONN_MODE_INTERNAL
      "(msg_header_new MSG_OP_WRITE MSG_RECORD_NONE 0 0 0 5)\<lparr>h_version := 1\<rparr>" MSG_ERR_BAD_VERSION 5] assms
  by (auto simp: frame_case6_def Let_def header_fault_def msg_header_new_def conn_init_def)

lemma selfcheck_conn_framing_passes:
  assumes "length big = MSG_MAX_PAYLOAD + 64" "length cb = 4096" "length w = 4096"
  shows "\<exists>cb' w'. selfcheck_conn_framing big cb w = (0, cb', w') \<and> length cb' = 4096 \<and> length w' = 4096"
proof -
  obtain b1 w1 where 1: "frame_case1 cb w = (0, b1, w1)" "length b1 = 4096" "length w1 = 4096"
    using frame_case1_passes assms(2,3) by blast
  obtain b2 w2 where 2: "frame_case1b b1 w1 = (0, b2, w2)" "length b2 = 4096" "length w2 = 4096"
      "take 37 w2 = frame_bytes (write_frame MSG_FLAG_ACK_REQ (ascii ''first'') 0 1)"
    using frame_case1b_passes [OF 1(2,3)] by blast
  have "length (ascii ''first'') = 5" by (simp add: ascii_def)
  then obtain b3 where 3: "frame_case2 b2 w2 = (0, b3, w2)" "length b3 = 4096"
    using frame_case2_passes [OF 2(2,4)] by blast
  obtain b4 w4 where 4: "frame_case3 b3 w2 = (0, b4, w4)" "length b4 = 4096" "length w4 = 4096"
    using frame_case3_passes [OF 3(2) 2(3)] by blast
  obtain b5 w5 where 5: "frame_case4 b4 w4 = (0, b5, w5)" "length b5 = 4096" "length w5 = 4096"
    using frame_case4_passes [OF 4(2,3)] by blast
  obtain w6 where 6: "frame_case5 big w5 = (0, w6)" "length w6 = 4096"
    using frame_case5_passes [OF assms(1) 5(3)] by blast
  show ?thesis
    using 1(1) 2(1) 3(1) 4(1) 5(1) 6(1) frame_case6_passes [OF 5(2) 6(2)]
    by (simp add: selfcheck_conn_framing_def)
qed

section \<open>Session order\<close>

lemma session_case1_passes:
  assumes "length cb = 4096" "length w = 4096"
  shows "\<exists>cb' w'. session_case1 cb w = (0, cb', w') \<and> length cb' = 4096 \<and> length w' = 4096"
  using feed_header_fatal [OF assms(1), of CONN_MODE_CLIENT "msg_header_new MSG_OP_WRITE MSG_RECORD_NONE MSG_FLAG_ACK_REQ 0 0 1"
      MSG_ERR_NO_SESSION 1] assms
  by (auto simp: session_case1_def Let_def header_fault_def msg_header_new_def conn_init_def opening_op_def)

definition cli_hello :: frame where
  "cli_hello = (msg_header_new MSG_OP_HELLO MSG_RECORD_NONE MSG_FLAG_ACK_REQ 19 0 0,
     hello_image \<lparr>hello_session = 0, hello_name_len = 3, hello_pad0 = 0, hello_pad1 = 0\<rparr> @ ascii ''cli'')"

lemma cli_hello_frame:
  "frame_ok 4096 cli_hello" "frame_opens cli_hello" "h_op (fst cli_hello) = MSG_OP_HELLO"
  "length (frame_bytes cli_hello) = 51"
  by (simp_all add: cli_hello_def frame_ok_def msg_header_valid_def msg_header_new_def frame_opens_def opening_op_def
      ascii_def)

lemma build_cli_hello: "length w = 4096 \<Longrightarrow> build_hello w 0 (ascii ''cli'') = (51, frame_bytes cli_hello @ drop 51 w)"
  by (subst build_hello_eq) (simp_all add: cli_hello_def frame_bytes_def ascii_def)

lemma session_case23_passes:
  assumes "length cb = 4096" "length w = 4096"
  shows "\<exists>cb' w'. session_case23 cb w = (0, cb', w') \<and> length cb' = 4096 \<and> length w' = 4096"
proof -
  let ?f = "write_frame MSG_FLAG_ACK_REQ [] 0xBEEF 1" and ?c = "conn_init cb 4096 CONN_MODE_CLIENT"
  let ?bs = "frame_bytes cli_hello @ frame_bytes ?f"
  note c = fresh_conn [OF assms(1), of CONN_MODE_CLIENT] and h = cli_hello_frame
  have ok: "\<forall>f \<in> set ([cli_hello, ?f] @ [?f]). frame_ok (buf_cap ?c) f" using c h by (simp add: write_frame_ok)
  have "order_ok (mode ?c) (opened ?c) ([cli_hello, ?f] @ [?f])" using c h by (simp add: order_ok_def write_frame_opens)
  moreover have "length (frame_bytes ?f) = 32" by (simp add: write_frame_def)
  ultimately obtain as c' where feed: "feed_more ?c ?bs = (as, c')" "map (the_frame c') as = map as_read [cli_hello, ?f]"
      "conn_inv c'" "buf_cap c' = 4096" "mode c' = CONN_MODE_CLIENT" "\<not> closed c'" "opened c'" "unparsed c' = []"
    using feed_more_frames [of ?c ?bs "[cli_hello, ?f]" 0 ?f] c ok h by (auto simp del: length_frame_bytes)
  have "header_fault c' (header_of (frame_bytes cli_hello)) = Some (MSG_ERR_NO_SESSION, 0)"
  proof -
    have "header_of (frame_bytes cli_hello) = fst cli_hello" by (simp add: frame_bytes_def header_codec.of_image)
    then show ?thesis
      using feed(4,5,7) by (simp add: header_fault_def cli_hello_def msg_header_new_def opening_op_def)
  qed
  then obtain d where d: "feed_more c' (frame_bytes cli_hello) = ([CONN_ACTION_REPLY_ERR MSG_ERR_NO_SESSION 0, CONN_ACTION_CLOSE], d)"
      "closed d" "length (buf d) = 4096"
    using feed_more_fatal [OF feed(3,6), of "frame_bytes cli_hello" MSG_ERR_NO_SESSION 0] feed(4,8) h
    by (auto simp del: length_frame_bytes)
  let ?w = "?bs @ drop 83 w"
  have wire': "wire_header 51 (fst ?f) (frame_bytes cli_hello @ drop 51 w) = ?w"
    using assms(2) h(4) by (simp add: frame_bytes_def [of ?f] del: length_frame_bytes) (simp add: write_frame_def)
  have take83: "take 83 ?w = ?bs" "take 51 ?w = frame_bytes cli_hello"
    using h(4) by (simp_all add: write_frame_def del: length_frame_bytes) (simp add: frame_bytes_def)
  have "session_case23 cb w = (0, buf d, ?w)"
    using feed(1,2,6,7) d wire' take83 assms(1) h(3)
    by (simp add: session_case23_def build_cli_hello [OF assms(2)] Let_def as_read_def write_frame_def msg_header_new_def
        del: wire_header_eq)
  moreover have "length ?w = 4096" using assms(2) h(4) by (simp add: write_frame_def del: length_frame_bytes) (simp add: frame_bytes_def)
  ultimately show ?thesis using d by blast
qed

lemma session_case4_passes:
  assumes "length cb = 4096" "length w = 4096"
  shows "\<exists>cb' w'. session_case4 cb w = (0, cb', w') \<and> length cb' = 4096 \<and> length w' = 4096"
proof -
  let ?f = "write_frame 0 [] 0 0" and ?c = "conn_init cb 4096 CONN_MODE_CLIENT" and ?w = "frame_bytes cli_hello @ drop 51 w"
  note c = fresh_conn [OF assms(1), of CONN_MODE_CLIENT] and h = cli_hello_frame
  have "\<forall>f \<in> set ([cli_hello] @ [?f]). frame_ok (buf_cap ?c) f" using c h by (simp add: write_frame_ok)
  moreover have "order_ok (mode ?c) (opened ?c) ([cli_hello] @ [?f])" using c h by (simp add: order_ok_def write_frame_opens)
  moreover have "take 51 ?w = frame_bytes cli_hello" using h(4) by (simp del: length_frame_bytes)
  ultimately obtain c1 as c' where feed: "feed_bytes (\<lambda>c. opened c \<or> closed c) 50 0 ?w ?c = (0, c1)"
      "feed_more c1 [?w ! 50] = (as, c')" "map (the_frame c') as = [as_read cli_hello]" "conn_inv c'" "\<not> closed c'"
      "opened c'" "buf_cap c' = 4096"
    using feed_bytes_frame [of ?c cli_hello ?f ?w 50 "\<lambda>c. opened c \<or> closed c"] c h by (auto simp del: length_frame_bytes)
  then show ?thesis
    using assms h by (simp add: session_case4_def build_cli_hello Let_def as_read_def conn_inv_def del: length_frame_bytes)
qed

lemma session_case5_passes:
  assumes "length cb = 4096" "length w = 4096"
  shows "\<exists>cb' w'. session_case5 cb w = (0, cb', w')"
proof -
  let ?f = "write_frame 0 [] 0 1" and ?c = "conn_init cb 4096 CONN_MODE_INTERNAL"
  note c = fresh_conn [OF assms(1), of CONN_MODE_INTERNAL]
  have ok: "\<forall>f \<in> set ([?f] @ [?f]). frame_ok (buf_cap ?c) f" using c by (simp add: write_frame_ok)
  have "order_ok (mode ?c) (opened ?c) ([?f] @ [?f])" using c by (simp add: order_ok_def)
  then obtain as c' where "feed_more ?c (frame_bytes ?f) = (as, c')" "map (the_frame c') as = map as_read [?f]" "\<not> closed c'"
    using feed_more_frames [of ?c "frame_bytes ?f" "[?f]" 0 ?f] c ok by (auto simp: write_frame_def)
  then show ?thesis
    using assms by (simp add: session_case5_def Let_def as_read_def write_frame_def frame_bytes_def msg_header_new_def)
qed

lemma selfcheck_conn_session_passes:
  assumes "length cb = 4096" "length w = 4096"
  shows "\<exists>cb' w'. selfcheck_conn_session cb w = (0, cb', w')"
proof -
  obtain b1 w1 where 1: "session_case1 cb w = (0, b1, w1)" "length b1 = 4096" "length w1 = 4096"
    using session_case1_passes assms by blast
  obtain b2 w2 where 2: "session_case23 b1 w1 = (0, b2, w2)" "length b2 = 4096" "length w2 = 4096"
    using session_case23_passes [OF 1(2,3)] by blast
  obtain b3 w3 where 3: "session_case4 b2 w2 = (0, b3, w3)" "length b3 = 4096" "length w3 = 4096"
    using session_case4_passes [OF 2(2,3)] by blast
  show ?thesis
    using 1(1) 2(1) 3(1) session_case5_passes [OF 3(2,3)] by (simp add: selfcheck_conn_session_def)
qed

end
