(* ===== verification/Selfcheck_Segment.thy ===== *)
theory Selfcheck_Segment
  imports Wal_Mem Os_Spare Selfcheck_Core
begin

text \<open>
  \<^verbatim>\<open>src/server/selfcheck.c\<close>, the program's test of one log segment against a real file system, and
  the directory helpers all tests on files share. A test is a function of the kernel: it answers
  whether it passed. What it prints is left out.
\<close>

section \<open>A directory to test in\<close>

function tmp_digits :: "u32 \<Rightarrow> bytes" where
  "tmp_digits v = (if v > 0 then tmp_digits (v div 10) @ [48 + ucast (v mod 10)] else [])"
  by pat_completeness auto
termination
  by (relation "measure unat") (auto simp: word_less_nat_alt unat_div)

declare tmp_digits.simps [simp del]

definition tmp_append_u32 :: "bytes \<Rightarrow> u32 \<Rightarrow> bytes" where
  "tmp_append_u32 out v = out @ (if v = 0 then [48] else tmp_digits v)"

text \<open>A path is its bytes before the NUL.\<close>

definition seg_tmp_path :: "'k spare \<Rightarrow> u32 \<Rightarrow> 'k \<Rightarrow> bytes \<times> 'k" where
  "seg_tmp_path S tag k =
     (let (pid, k) = os_getpid S k
      in (tmp_append_u32 (tmp_append_u32 (ascii ''/tmp/msgsrvd-selfcheck-'') (word_of_int pid) @ [45]) tag, k))"

definition open_dir :: "'k spare \<Rightarrow> bytes \<Rightarrow> 'k \<Rightarrow> result_t \<times> int \<times> 'k" where
  "open_dir S path k = os_openat (net_files S) AT_FDCWD (path @ [0]) OPEN_DIRECTORY k"

abbreviation MODE_0700 :: int where "MODE_0700 \<equiv> 448"

definition dot_name :: "bytes \<Rightarrow> bool" where
  "dot_name nm \<longleftrightarrow> nm ! 0 = 46 \<and> (nm ! 1 = 0 \<or> (nm ! 1 = 46 \<and> nm ! 2 = 0))"

text \<open>The names of one listing are removed; a name is handed on with its NUL.\<close>

function destroy_walk :: "'k kernel \<Rightarrow> int \<Rightarrow> bytes \<Rightarrow> nat \<Rightarrow> nat \<Rightarrow> 'k \<Rightarrow> 'k" where
  "destroy_walk K fd dbuf n o' k =
     (if o' < n then
        (let reclen = unat (field DIRENT64_RECLEN_OFF 2 (drop o' dbuf) :: u16) in
         if reclen < DIRENT64_NAME_OFF \<or> o' + reclen > n then k
         else let nm = drop (o' + DIRENT64_NAME_OFF) dbuf;
                  k = (if \<not> dot_name nm then snd (os_unlinkat K fd (takeWhile (\<lambda>c. c \<noteq> 0) nm @ [0]) k) else k)
              in destroy_walk K fd dbuf n (o' + reclen) k)
      else k)"
  by pat_completeness auto
termination
  by (relation "measure (\<lambda>(K, fd, dbuf, n, o', k). n - o')") auto

declare destroy_walk.simps [simp del]

partial_function (option) destroy_loop :: "'k kernel \<Rightarrow> int \<Rightarrow> bytes \<times> 'k \<Rightarrow> 'k option" where
  "destroy_loop K fd st =
     (let (r, block, k) = os_getdents64 K fd (length (fst st)) (snd st) in
      if \<not> result_ok r \<or> block = [] then Some k
      else let dbuf = block @ drop (length block) (fst st)
           in destroy_loop K fd (dbuf, destroy_walk K fd dbuf (length block) 0 k))"

definition tmp_dir_destroy :: "'k spare \<Rightarrow> bytes \<Rightarrow> 'k \<Rightarrow> 'k option" where
  "tmp_dir_destroy S path k =
     (let (r, fd, k) = open_dir S path k in
      if \<not> result_ok r then Some k
      else map_option (\<lambda>k. snd (os_rmdir S path (snd (os_close (net_files S) fd k))))
             (destroy_loop (net_files S) fd (replicate 4096 0, k)))"

definition tmp_touch :: "'k spare \<Rightarrow> bytes \<Rightarrow> bytes \<Rightarrow> 'k \<Rightarrow> bool \<times> 'k" where
  "tmp_touch S dir_path name k =
     (let K = net_files S; (r, dir_fd, k) = open_dir S dir_path k in
      if \<not> result_ok r then (False, k)
      else let (r, fd, k) = os_openat K dir_fd (name @ [0]) OPEN_CREATE k in
      if \<not> result_ok r then (False, snd (os_close K dir_fd k))
      else (True, snd (os_close K dir_fd (snd (os_close K fd k)))))"

definition tmp_corrupt :: "'k spare \<Rightarrow> bytes \<Rightarrow> u64 \<Rightarrow> nat \<Rightarrow> 'k \<Rightarrow> bool \<times> 'k" where
  "tmp_corrupt S dir_path base_seq offset k =
     (let K = net_files S; (r, dir_fd, k) = open_dir S dir_path k in
      if \<not> result_ok r then (False, k)
      else let (r, fd, k) = os_openat K dir_fd (wal_seg_name base_seq) OPEN_RDWR k;
               (ok, k) =
                 (if result_ok r then
                    (let (r, b, k) = os_pread K fd 1 (int offset) k;
                         (ok, k) =
                           (if result_ok r \<and> length b = 1 then
                              (let (r, k) = os_pwrite_full K fd [b ! 0 XOR 1] offset k in (result_ok r, k))
                            else (False, k))
                     in (ok, snd (os_close K fd k)))
                  else (False, k))
           in (ok, snd (os_close K dir_fd k)))"

definition seg_fill_rec :: "u32 \<Rightarrow> u64 \<Rightarrow> u64 \<Rightarrow> u64 \<Rightarrow> wal_rec_t" where
  "seg_fill_rec len' session client_seq key =
     \<lparr>r_crc = 0, r_len = len', r_term = 1, r_seq = 0, r_session = session, r_client_seq = client_seq,
      r_record_type = MSG_RECORD_NONE, r_flags = MSG_FLAG_ACK_REQ OR MSG_FLAG_SYNC, r_pad = 0, r_partition_key = key\<rparr>"

text \<open>The static buffers. What the scratch buffer holds before a call never matters.\<close>

abbreviation check_scratch :: bytes where "check_scratch \<equiv> replicate 4096 0"
abbreviation check_payload :: bytes where "check_payload \<equiv> replicate 64 0x5A"

section \<open>Segment\<close>

definition check_seg_names :: bool where
  "check_seg_names =
     (let name = wal_seg_name 1 in
      if name ! (WAL_SEG_DIGITS - 1) \<noteq> 49 \<or> name ! 0 \<noteq> 48 \<or> name ! WAL_SEG_DIGITS \<noteq> 46
        \<or> name ! (WAL_SEG_NAME_MAX - 1) \<noteq> 0 then False
      else let name = wal_seg_name 4021 in
      if name ! (WAL_SEG_DIGITS - 4) \<noteq> 52 \<or> name ! (WAL_SEG_DIGITS - 3) \<noteq> 48 \<or> name ! (WAL_SEG_DIGITS - 2) \<noteq> 50
        \<or> name ! (WAL_SEG_DIGITS - 1) \<noteq> 49 \<or> name ! (WAL_SEG_DIGITS - 5) \<noteq> 48 then False
      else True)"

definition seg_put :: "'k kernel \<Rightarrow> wal_seg_t \<Rightarrow> wal_rec_t \<Rightarrow> 'k \<Rightarrow> result_t \<times> wal_seg_t \<times> wal_rec_t \<times> 'k" where
  "seg_put K s r k = wal_seg_append K s r (Some check_payload) check_scratch k"

primrec append_counted :: "'k kernel \<Rightarrow> nat list \<Rightarrow> wal_seg_t \<Rightarrow> 'k \<Rightarrow> bool \<times> wal_seg_t \<times> 'k" where
  "append_counted K [] s k = (True, s, k)"
| "append_counted K (i # is') s k =
     (let (r, s, rec', k) = seg_put K s (seg_fill_rec 24 7 (of_nat (i + 1)) 0xF00D) k in
      if \<not> result_ok r then (False, s, k)
      else if r_seq rec' \<noteq> of_nat (i + 1) then (False, s, k)
      else append_counted K is' s k)"

text \<open>A segment variable that has not been filled in.\<close>

abbreviation seg_unset :: wal_seg_t where "seg_unset \<equiv> seg_reset (-1) (-1) 0 0"

definition recover_plain :: "'k kernel \<Rightarrow> wal_seg_t \<Rightarrow> nat \<Rightarrow> 'k \<Rightarrow> result_t \<times> wal_seg_t \<times> wal_seg_scan_t option \<times> 'k" where
  "recover_plain K s scratch_len k =
     (let (r, s, scan, _, k) = wal_seg_recover K s scratch_len (\<lambda>_ c. c) () k in (r, s, scan, k))"

definition check_seg_reopen :: "'k kernel \<Rightarrow> int \<Rightarrow> int \<Rightarrow> wal_seg_t \<Rightarrow> 'k \<Rightarrow> bool \<times> 'k" where
  "check_seg_reopen K dir_fd expect_off s k =
     (let (_, s, k) = wal_seg_close K s k;
          (r, s, k) = wal_seg_open K s dir_fd 1 4096 k in
      if \<not> result_ok r then (False, k)
      else let (r, s, scan, k) = recover_plain K s 4096 k in
      if \<not> result_ok r then (False, k)
      else let scan = the scan in
      if sc_records scan \<noteq> 3 \<or> sc_last_seq scan \<noteq> 3 \<or> sc_torn scan \<or> int (sc_end_off scan) \<noteq> expect_off
        \<or> s_next_seq s \<noteq> 4 \<or> s_durable_seq s \<noteq> 3 then (False, k)
      else (True, snd (snd (wal_seg_close K s k))))"

definition check_seg_basic :: "'k kernel \<Rightarrow> int \<Rightarrow> 'k \<Rightarrow> bool \<times> 'k" where
  "check_seg_basic K dir_fd k =
     (let (r, s, k) = wal_seg_create K seg_unset dir_fd 1 4096 k in
      if \<not> result_ok r then (False, k)
      else if s_next_seq s \<noteq> 1 \<or> s_durable_seq s \<noteq> 0 \<or> s_write_off s \<noteq> 0 then (False, k)
      else let (r, far, k) = os_pread K (s_fd s) (int WAL_REC_HEADER_SIZE) (4096 - int WAL_REC_HEADER_SIZE) k in
      if \<not> result_ok r \<or> length far \<noteq> WAL_REC_HEADER_SIZE then (False, k)
      else if list_ex (\<lambda>c. c \<noteq> 0) far then (False, k)
      else let (r, _, k) = wal_seg_create K seg_unset dir_fd 1 4096 k in
      if result_ok r then (False, k)
      else let (ok, s, k) = append_counted K [0..<3] s k; expect_off = 3 * wal_rec_size 24 in
      if \<not> ok then (False, k)
      else if int (s_write_off s) \<noteq> expect_off \<or> s_next_seq s \<noteq> 4 then (False, k)
      else if s_durable_seq s \<noteq> 0 then (False, k)
      else let (r, s, k) = wal_seg_sync K s k in
      if \<not> result_ok r \<or> s_durable_seq s \<noteq> 3 \<or> s_synced_off s \<noteq> s_write_off s then (False, k)
      else let (r, s, k) = wal_seg_sync K s k in
      if \<not> result_ok r \<or> s_durable_seq s \<noteq> 3 then (False, k)
      else check_seg_reopen K dir_fd expect_off s k)"

text \<open>Records of the first session appended one after the other; \<open>append_any\<close> ignores what an append answers.\<close>

primrec append_checked :: "'k kernel \<Rightarrow> nat list \<Rightarrow> wal_seg_t \<Rightarrow> 'k \<Rightarrow> bool \<times> wal_seg_t \<times> 'k" where
  "append_checked K [] s k = (True, s, k)"
| "append_checked K (i # is') s k =
     (let (r, s, _, k) = seg_put K s (seg_fill_rec 24 1 (of_nat (i + 1)) 1) k in
      if \<not> result_ok r then (False, s, k) else append_checked K is' s k)"

primrec append_any :: "'k kernel \<Rightarrow> nat list \<Rightarrow> wal_seg_t \<Rightarrow> 'k \<Rightarrow> wal_seg_t \<times> 'k" where
  "append_any K [] s k = (s, k)"
| "append_any K (i # is') s k =
     (let (_, s, _, k) = seg_put K s (seg_fill_rec 24 1 (of_nat (i + 1)) 1) k in append_any K is' s k)"

definition check_seg_reuse :: "'k kernel \<Rightarrow> int \<Rightarrow> wal_seg_t \<Rightarrow> 'k \<Rightarrow> bool \<times> 'k" where
  "check_seg_reuse K dir_fd s k =
     (let (r, s, rec', k) = seg_put K s (seg_fill_rec 24 1 3 1) k in
      if \<not> result_ok r \<or> r_seq rec' \<noteq> 1002 then (False, k)
      else let (_, s, k) = wal_seg_sync K s k;
               (_, s, k) = wal_seg_close K s k;
               (r, s, k) = wal_seg_open K s dir_fd 1000 4096 k in
      if \<not> result_ok r then (False, k)
      else let (r, s, scan, k) = recover_plain K s 4096 k in
      if \<not> result_ok r then (False, k)
      else if sc_records (the scan) \<noteq> 3 \<or> sc_last_seq (the scan) \<noteq> 1002 \<or> sc_torn (the scan) then (False, k)
      else (True, snd (snd (wal_seg_close K s k))))"

definition check_seg_torn :: "'k kernel \<Rightarrow> int \<Rightarrow> 'k \<Rightarrow> bool \<times> 'k" where
  "check_seg_torn K dir_fd k =
     (let (r, s, k) = wal_seg_create K seg_unset dir_fd 1000 4096 k in
      if \<not> result_ok r then (False, k)
      else let (ok, s, k) = append_checked K [0..<3] s k in
      if \<not> ok then (False, k)
      else let (_, s, k) = wal_seg_sync K s k;
               third_off = 2 * wal_rec_size 24;
               (_, s, k) = wal_seg_close K s k;
               (r, s, k) = wal_seg_open K s dir_fd 1000 4096 k in
      if \<not> result_ok r then (False, k)
      else let (r, k) = os_pwrite_full K (s_fd s) [0] (nat third_off + WAL_REC_HEADER_SIZE) k in
      if \<not> result_ok r then (False, k)
      else let (r, s, scan, k) = recover_plain K s 4096 k in
      if \<not> result_ok r then (False, k)
      else let scan = the scan in
      if sc_records scan \<noteq> 2 \<or> sc_last_seq scan \<noteq> 1001 \<or> \<not> sc_torn scan \<or> int (sc_end_off scan) \<noteq> third_off
        \<or> s_next_seq s \<noteq> 1002 \<or> int (s_write_off s) \<noteq> third_off then (False, k)
      else check_seg_reuse K dir_fd s k)"

definition check_seg_stale :: "'k kernel \<Rightarrow> int \<Rightarrow> 'k \<Rightarrow> bool \<times> 'k" where
  "check_seg_stale K dir_fd k =
     (let (r, s, k) = wal_seg_create K seg_unset dir_fd 2000 4096 k; rec_size = wal_rec_size 24 in
      if \<not> result_ok r then (False, k)
      else let (s, k) = append_any K [0..<2] s k;
               (_, s, k) = wal_seg_sync K s k;
               (total', scratch, _) = wal_rec_encode check_scratch ((seg_fill_rec 24 1 3 1)\<lparr>r_seq := 99\<rparr>) (Some check_payload);
               (ok, k) = (if total' = 0 then (False, k)
                          else let (r, k) = os_pwrite_full K (s_fd s) (take (nat total') scratch) (nat (2 * rec_size)) k
                               in (result_ok r, k)) in
      if \<not> ok then (False, k)
      else let (_, s, k) = wal_seg_sync K s k;
               (_, s, k) = wal_seg_close K s k;
               (r, s, k) = wal_seg_open K s dir_fd 2000 4096 k in
      if \<not> result_ok r then (False, k)
      else let (r, s, scan, k) = recover_plain K s 4096 k in
      if \<not> result_ok r then (False, k)
      else let scan = the scan in
      if sc_records scan \<noteq> 2 \<or> \<not> sc_torn scan \<or> int (sc_end_off scan) \<noteq> 2 * rec_size then (False, k)
      else (True, snd (snd (wal_seg_close K s k))))"

definition check_seg_overrun :: "'k kernel \<Rightarrow> int \<Rightarrow> 'k \<Rightarrow> bool \<times> 'k" where
  "check_seg_overrun K dir_fd k =
     (let cap = 4096;
          (r, s, k) = wal_seg_create K seg_unset dir_fd 5000 cap k in
      if \<not> result_ok r then (False, k)
      else let (s, k) = append_any K [0..<2] s k;
               (_, s, k) = wal_seg_sync K s k;
               plant_off = nat (2 * wal_rec_size 24);
               header = rec_image ((seg_fill_rec (of_nat cap) 1 3 1)\<lparr>r_seq := 5002\<rparr>);
               (r, k) = os_pwrite_full K (s_fd s) header plant_off k in
      if \<not> result_ok r then (False, k)
      else let (_, s, k) = wal_seg_sync K s k;
               (_, s, k) = wal_seg_close K s k;
               (r, s, k) = wal_seg_open K s dir_fd 5000 cap k in
      if \<not> result_ok r then (False, k)
      else let (r, s, scan, k) = recover_plain K s 4096 k in
      if \<not> result_ok r then (False, k)
      else let scan = the scan in
      if sc_records scan \<noteq> 2 \<or> \<not> sc_torn scan \<or> sc_end_off scan \<noteq> plant_off then (False, k)
      else (True, snd (snd (wal_seg_close K s k))))"

text \<open>\<open>None\<close> when \<^verbatim>\<open>wal_seg_fits\<close> and the append disagree.\<close>

primrec append_fitting :: "'k kernel \<Rightarrow> nat list \<Rightarrow> nat \<Rightarrow> wal_seg_t \<Rightarrow> 'k \<Rightarrow> nat option \<times> wal_seg_t \<times> 'k" where
  "append_fitting K [] appended s k = (Some appended, s, k)"
| "append_fitting K (i # is') appended s k =
     (let fits = wal_seg_fits s 24;
          (r, s, _, k) = seg_put K s (seg_fill_rec 24 1 (of_nat (i + 1)) 1) k in
      if result_ok r then
        (if \<not> fits then (None, s, k) else append_fitting K is' (appended + 1) s k)
      else if fits then (None, s, k)
      else append_fitting K is' appended s k)"

definition check_seg_full :: "'k kernel \<Rightarrow> int \<Rightarrow> 'k \<Rightarrow> bool \<times> 'k" where
  "check_seg_full K dir_fd k =
     (let cap = nat (wal_rec_size 24 * 3);
          (r, s, k) = wal_seg_create K seg_unset dir_fd 3000 cap k in
      if \<not> result_ok r then (False, k)
      else case append_fitting K [0..<5] 0 s k of
        (None, s, k) \<Rightarrow> (False, k)
      | (Some appended, s, k) \<Rightarrow>
          if appended \<noteq> 3 \<or> s_write_off s \<noteq> cap then (False, k)
          else (True, snd (snd (wal_seg_close K s k))))"

definition check_seg_block :: "'k kernel \<Rightarrow> int \<Rightarrow> 'k \<Rightarrow> bool \<times> 'k" where
  "check_seg_block K dir_fd k =
     (let block = nat (2 * wal_rec_size 24) + WAL_REC_HEADER_SIZE + 4;
          (r, s, k) = wal_seg_create K seg_unset dir_fd 4000 4096 k in
      if \<not> result_ok r then (False, k)
      else let (s, k) = append_any K [0..<9] s k;
               (_, s, k) = wal_seg_sync K s k;
               (_, s, k) = wal_seg_close K s k;
               (r, s, k) = wal_seg_open K s dir_fd 4000 4096 k in
      if \<not> result_ok r then (False, k)
      else let (r, s, scan, k) = recover_plain K s block k in
      if \<not> result_ok r then (False, k)
      else let scan = the scan in
      if sc_records scan \<noteq> 9 \<or> sc_last_seq scan \<noteq> 4008 \<or> sc_torn scan then (False, k)
      else let (r, s, _, k) = recover_plain K s WAL_REC_HEADER_SIZE k in
      if result_ok r then (False, k)
      else (True, snd (snd (wal_seg_close K s k))))"

text \<open>The checks in turn, up to the first that fails.\<close>

primrec run_checks :: "('k \<Rightarrow> bool \<times> 'k) list \<Rightarrow> 'k \<Rightarrow> bool \<times> 'k" where
  "run_checks [] k = (True, k)"
| "run_checks (c # cs) k = (let (ok, k) = c k in if ok then run_checks cs k else (False, k))"

definition selfcheck_wal_segment :: "'k spare \<Rightarrow> 'k \<Rightarrow> (int \<times> 'k) option" where
  "selfcheck_wal_segment S k =
     (let K = net_files S; (dir_path, k) = seg_tmp_path S 0 k; (r, k) = os_mkdir S dir_path MODE_0700 k in
      if \<not> result_ok r then Some (1, k)
      else let (r, dir_fd, k) = open_dir S dir_path k in
      if \<not> result_ok r then Some (1, snd (os_rmdir S dir_path k))
      else let (ok, k) =
             (if check_seg_names then
                run_checks [check_seg_basic K dir_fd, check_seg_torn K dir_fd, check_seg_stale K dir_fd,
                  check_seg_overrun K dir_fd, check_seg_full K dir_fd, check_seg_block K dir_fd] k
              else (False, k));
             k = (if dir_fd \<ge> 0 then snd (os_close K dir_fd k) else k)
           in map_option (\<lambda>k. (if ok then 0 else 1, k)) (tmp_dir_destroy S dir_path k))"

end
