(* ===== verification/Selfcheck_Segment_Runs.thy ===== *)
theory Selfcheck_Segment_Runs
  imports Selfcheck_Segment
begin

text \<open>
  The segment test run on the file system in memory: every case of it passes. A case creates one file
  behind those of the cases before it; \<open>with_file\<close> is that file, \<open>seg_with\<close> the segment that writes it, and
  \<open>grow\<close> the records appended so far. One lemma says what an append does to the three, and recovery is
  the scan of \<open>Wal_Segment\<close> over the bytes.
\<close>

section \<open>The file system\<close>

text \<open>The file system holds one directory, the one made last.\<close>

abbreviation empty_dir :: mem_fs where
  "empty_dir \<equiv> \<lparr>mf_files = [], mf_listed = False\<rparr>"

definition mem_spare :: "mem_fs spare" where
  "mem_spare = net.extend net_example
     (spare.fields (\<lambda>_ _ _ k. (Inr 3, k)) (\<lambda>_ _ k. (Inr (), k)) (\<lambda>_ _ k. (Inr (), \<lparr>mf_files = [], mf_listed = False\<rparr>)) (\<lambda>_ k. (Inr (), k)) (\<lambda>k. (4242, k))
       (\<lambda>_ _ _ _ _ _ k. (Inl 12, k)) (\<lambda>_ _ k. (Inr (), k)) (\<lambda>_ _ k. (Inr (), k)) (\<lambda>_ _ k. (Inr 8, k)))"

lemma mem_spare_simps [simp]:
  "net_files mem_spare = mem_kernel" "os_getpid mem_spare k = (4242, k)" "os_mkdir mem_spare path m k = (RESULT_OK, empty_dir)"
  "os_rmdir mem_spare path k = (RESULT_OK, k)"
  by (simp_all add: mem_spare_def net.defs spare.defs net_example_def os_getpid_def os_mkdir_def os_rmdir_def sys_unit_def)

lemma mem_open_dir [simp]: "open_dir mem_spare path k = (RESULT_OK, 3, k)"
  by (simp add: open_dir_def os_openat_def mem_kernel_def)

lemma mem_close [simp]: "os_close mem_kernel fd k = (RESULT_OK, k)"
  by (simp add: os_close_def mem_kernel_def)

lemma destroy_walk_listed: "mf_listed (destroy_walk mem_kernel fd dbuf n o' k) = mf_listed k"
proof (induction "mem_kernel" fd dbuf n o' k rule: destroy_walk.induct)
  case (1 fd dbuf n o' k)
  have "mf_listed (snd (os_unlinkat mem_kernel fd nm k)) = mf_listed k" for nm k
    by (simp add: os_unlinkat_def mem_kernel_def split: option.splits)
  with 1 show ?case by (subst destroy_walk.simps) (simp add: Let_def)
qed

lemma mem_dir_destroyed: "\<exists>k'. tmp_dir_destroy mem_spare path k = Some k'"
proof -
  have stop: "destroy_loop mem_kernel 3 (bs, k2) = Some (k2\<lparr>mf_listed := False\<rparr>)" if "mf_listed k2" for bs k2
    using that by (subst destroy_loop.simps) (simp add: os_getdents64_def mem_kernel_def)
  have "\<exists>k'. destroy_loop mem_kernel 3 (bs, k) = Some k'" for bs
  proof (cases "mf_listed k")
    case False
    then show ?thesis using stop destroy_walk_listed
      by (subst destroy_loop.simps) (simp add: os_getdents64_def mem_kernel_def [THEN arg_cong [where f = sys_getdents64]] Let_def)
  qed (use stop in blast)
  then show ?thesis by (auto simp: tmp_dir_destroy_def)
qed

section \<open>One segment and its file\<close>

definition with_file :: "mem_fs \<Rightarrow> u64 \<Rightarrow> bytes \<Rightarrow> mem_fs" where
  "with_file k base bs = k\<lparr>mf_files := mf_files k @ [(wal_seg_name base, bs)]\<rparr>"

definition seg_with :: "mem_fs \<Rightarrow> u64 \<Rightarrow> nat \<Rightarrow> entry list \<Rightarrow> nat \<Rightarrow> u64 \<Rightarrow> wal_seg_t" where
  "seg_with k base cap es synced durable =
     \<lparr>s_fd = 10 + int (length (mf_files k)), s_dir_fd = 3, s_base_seq = base, s_next_seq = base + of_nat (length es),
      s_durable_seq = durable, s_capacity = cap, s_write_off = length (disk es), s_synced_off = synced\<rparr>"

lemma seg_with_fields [simp]:
  "s_fd (seg_with k base cap es syn dur) = 10 + int (length (mf_files k))" "s_next_seq (seg_with k base cap es syn dur) = base + of_nat (length es)"
  "s_durable_seq (seg_with k base cap es syn dur) = dur" "s_write_off (seg_with k base cap es syn dur) = length (disk es)"
  "s_synced_off (seg_with k base cap es syn dur) = syn" "s_capacity (seg_with k base cap es syn dur) = cap"
  by (simp_all add: seg_with_def)

definition absent :: "mem_fs \<Rightarrow> u64 \<Rightarrow> bool" where
  "absent k base \<longleftrightarrow> mf_find (wal_seg_name base) (mf_files k) 0 = None"

lemma with_file_simps [simp]:
  "mf_index (10 + int (length (mf_files k))) (with_file k base bs) = Some (length (mf_files k))"
  "mf_view (with_file k base bs) (10 + int (length (mf_files k))) = bs"
  "mf_store (length (mf_files k)) bs' (with_file k base bs) = with_file k base bs'"
  "mf_files (with_file k base bs) ! length (mf_files k) = (wal_seg_name base, bs)"
  "mf_listed (with_file k base bs) = mf_listed k"
  by (simp_all add: with_file_def mf_index_def mf_view_def mf_store_def)

lemma find_append:
  "mf_find name (fs @ gs) 0 = (case mf_find name fs 0 of Some i \<Rightarrow> Some i | None \<Rightarrow> map_option ((+) (length fs)) (mf_find name gs 0))"
  by (cases "mf_find name gs 0"; induction fs) (auto simp: mf_find_Cons simp del: mf_find.simps(2) split: option.splits)

lemma absent_with_file:
  "base \<noteq> 0 \<Longrightarrow> base' \<noteq> 0 \<Longrightarrow> base \<noteq> base' \<Longrightarrow> absent k base' \<Longrightarrow> absent (with_file k base bs) base'"
  using seg_name_inj [of base base'] by (auto simp: absent_def with_file_def find_append mf_find_Cons simp del: mf_find.simps(2))

lemma created:
  assumes "absent k base" "base \<noteq> 0" "WAL_REC_HEADER_SIZE \<le> cap"
  shows "wal_seg_create mem_kernel s 3 base cap k = (RESULT_OK, seg_with k base cap [] 0 (base - 1), with_file k base (replicate cap 0))"
  using mem_seg_create [of base cap k s 3] assms by (simp add: absent_def seg_reset_def seg_with_def with_file_def)

lemma opened:
  assumes "absent k base" "base \<noteq> 0" "WAL_REC_HEADER_SIZE \<le> cap"
  shows "wal_seg_open mem_kernel s 3 base cap (with_file k base bs) = (RESULT_OK, seg_with k base cap [] 0 (base - 1), with_file k base bs)"
proof -
  have "mf_find (wal_seg_name base) (mf_files (with_file k base bs)) 0 = Some (length (mf_files k))"
    using assms(1) by (simp add: absent_def with_file_def find_append)
  from mem_seg_open [OF assms(2,3) this] show ?thesis by (simp add: seg_reset_def seg_with_def)
qed

lemma closed_again: "wal_seg_close mem_kernel (seg_with k base cap es syn dur) j = (RESULT_OK, (seg_with k base cap es syn dur)\<lparr>s_fd := -1\<rparr>, j)"
  by (simp add: mem_seg_close seg_with_def)

lemma synced:
  "syn = length (disk es) \<longrightarrow> dur = base + of_nat (length es) - 1 \<Longrightarrow>
   wal_seg_sync mem_kernel (seg_with k base cap es syn dur) j =
     (RESULT_OK, seg_with k base cap es (length (disk es)) (base + of_nat (length es) - 1), j)"
  by (simp add: mem_seg_sync seg_with_def)

lemma planted:
  assumes "bs \<noteq> []"
  shows "os_pwrite_full mem_kernel (10 + int (length (mf_files k))) bs at (with_file k base f) = (RESULT_OK, with_file k base (write_at at bs f))"
  using assms mem_pwrite_full [of "10 + int (length (mf_files k))" "with_file k base f"]
  by simp

section \<open>Appending\<close>

lemma entry_fits: "rec_fits (seg_fill_rec 24 session c key) (replicate 24 0x5A)"
  by (simp add: seg_fill_rec_def rec_fits_def)

definition grown :: "u64 \<Rightarrow> entry list \<Rightarrow> wal_rec_t \<Rightarrow> entry list" where
  "grown base es r = es @ [(r\<lparr>r_seq := base + of_nat (length es)\<rparr>, replicate 24 0x5A)]"

lemma grown_simps [simp]:
  "length (grown base es r) = Suc (length es)" "length (disk (grown base es r)) = length (disk es) + 80"
  by (simp_all add: grown_def)

lemma grown_run:
  "seq_run base es \<Longrightarrow> base + of_nat (length es) \<noteq> 0 \<Longrightarrow> rec_fits r (replicate 24 0x5A) \<Longrightarrow> seq_run base (grown base es r)"
  by (simp add: grown_def seq_run_append rec_fits_def)

lemma put_appends:
  assumes "length (disk es) + 80 \<le> cap"
  shows "seg_put mem_kernel (seg_with k base cap es syn dur) (seg_fill_rec 24 session c key) (with_file k base (disk es @ rest)) =
    (RESULT_OK, seg_with k base cap (grown base es (seg_fill_rec 24 session c key)) syn dur,
     rec_written ((seg_fill_rec 24 session c key)\<lparr>r_seq := base + of_nat (length es)\<rparr>) (replicate 24 0x5A),
     with_file k base (disk (grown base es (seg_fill_rec 24 session c key)) @ drop 80 rest))"
proof -
  let ?r = "seg_fill_rec 24 session c key" and ?p = "replicate 24 (0x5A :: u8)"
  have pay: "check_payload = ?p @ replicate 40 0x5A" by (simp flip: replicate_add)
  have len: "length (rec_bytes r ?p) = 80" for r by simp
  have w: "write_at (length (disk es)) (rec_bytes r ?p) (disk es @ rest) = disk es @ rec_bytes r ?p @ drop 80 rest" for r
    using len [of r] by (cases "rec_bytes r ?p") (simp_all add: write_at_def)
  have nx: "base + of_nat (length es) + 1 = base + (1 + of_nat (length es))" by simp
  show ?thesis
    using mem_seg_append [of "seg_with k base cap es syn dur" "with_file k base (disk es @ rest)" "length (mf_files k)" ?r ?p check_scratch]
      assms entry_fits [of session c key]
    unfolding seg_put_def pay wal_seg_append_prefix [OF entry_fits]
    by (simp add: seg_with_def grown_def w nx)
qed


text \<open>A run of appends with room for all of them.\<close>

definition grown_all :: "u64 \<Rightarrow> entry list \<Rightarrow> nat list \<Rightarrow> entry list" where
  "grown_all base es is' = fold (\<lambda>i es. grown base es (seg_fill_rec 24 1 (of_nat (i + 1)) 1)) is' es"

lemma grown_all_simps [simp]:
  "grown_all base es [] = es"
  "grown_all base es (i # is') = grown_all base (grown base es (seg_fill_rec 24 1 (of_nat (i + 1)) 1)) is'"
  "length (grown_all base es is') = length es + length is'"
  "length (disk (grown_all base es is')) = length (disk es) + 80 * length is'"
proof -
  show "length (grown_all base es is') = length es + length is'" "length (disk (grown_all base es is')) = length (disk es) + 80 * length is'"
    by (induction is' arbitrary: es) (simp_all add: grown_all_def)
qed (simp_all add: grown_all_def)

lemma grown_all_run:
  "seq_run base es \<Longrightarrow> 0 < unat base \<Longrightarrow> unat base + length es + length is' < 2 ^ 64 \<Longrightarrow> seq_run base (grown_all base es is')"
proof (induction is' arbitrary: es)
  case (Cons i is')
  have "unat (base + of_nat (length es)) = unat base + length es"
    using Cons.prems(3) unat_of_nat64 [of "unat base + length es"] by simp
  then have "base + of_nat (length es) \<noteq> 0" using Cons.prems(2) by (metis unat_0 add_is_0 less_irrefl)
  with Cons.prems grown_run [OF _ _ entry_fits] show ?case by (simp add: Cons.IH)
qed simp

lemma puts_append:
  assumes "length (disk es) + 80 * length is' \<le> cap"
  shows "append_checked mem_kernel is' (seg_with k base cap es syn dur) (with_file k base (disk es @ rest)) =
      (True, seg_with k base cap (grown_all base es is') syn dur, with_file k base (disk (grown_all base es is') @ drop (80 * length is') rest))"
    "append_any mem_kernel is' (seg_with k base cap es syn dur) (with_file k base (disk es @ rest)) =
      (seg_with k base cap (grown_all base es is') syn dur, with_file k base (disk (grown_all base es is') @ drop (80 * length is') rest))"
proof -
  have "append_checked mem_kernel is' (seg_with k base cap es syn dur) (with_file k base (disk es @ rest)) =
      (True, seg_with k base cap (grown_all base es is') syn dur, with_file k base (disk (grown_all base es is') @ drop (80 * length is') rest))
    \<and> append_any mem_kernel is' (seg_with k base cap es syn dur) (with_file k base (disk es @ rest)) =
      (seg_with k base cap (grown_all base es is') syn dur, with_file k base (disk (grown_all base es is') @ drop (80 * length is') rest))"
    using assms by (induction is' arbitrary: es rest) (simp_all add: put_appends result_ok_def add.commute del: disk_simps)
  then show "append_checked mem_kernel is' (seg_with k base cap es syn dur) (with_file k base (disk es @ rest)) =
      (True, seg_with k base cap (grown_all base es is') syn dur, with_file k base (disk (grown_all base es is') @ drop (80 * length is') rest))"
    "append_any mem_kernel is' (seg_with k base cap es syn dur) (with_file k base (disk es @ rest)) =
      (seg_with k base cap (grown_all base es is') syn dur, with_file k base (disk (grown_all base es is') @ drop (80 * length is') rest))"
    by simp_all
qed

section \<open>Recovery\<close>

lemma size24: "wal_rec_size 24 = 80"
  by (simp add: wal_rec_size_def)

lemma scan_tail:
  assumes "seq_run base es" "scan_ref (disk es @ rest) (length (disk es)) (base + of_nat (length es)) = ([], length (disk es), t)"
  shows "scan_ref (disk es @ rest) 0 base = (map read_back es, length (disk es), t)"
  using scan_ref_run [OF assms(1), of "[]" rest] assms(2) by simp

lemma recovered_room:
  assumes "scan_room (disk es @ rest) sl B" "0 \<in> B" "WAL_REC_HEADER_SIZE \<le> sl" "cap = length (disk es @ rest)"
    and "seq_run base es" "scan_ref (disk es @ rest) (length (disk es)) (base + of_nat (length es)) = ([], length (disk es), t)"
  shows "recover_plain mem_kernel (seg_with k base cap [] 0 dur) sl (with_file k base (disk es @ rest)) =
    (RESULT_OK, seg_with k base cap es (length (disk es)) (base + of_nat (length es) - 1),
     Some \<lparr>sc_records = of_nat (length es), sc_last_seq = base + of_nat (length es) - 1, sc_end_off = length (disk es), sc_torn = t\<rparr>,
     with_file k base (disk es @ rest))"
  using mem_seg_recover_room [of "seg_with k base cap [] 0 dur" "with_file k base (disk es @ rest)" sl B
      "map read_back es" "length (disk es)" t "\<lambda>_ c. c" "()"]
    assms scan_tail [OF assms(5,6)]
  by (simp add: recover_plain_def seg_with_def)

lemma recovered:
  assumes "length (disk es @ rest) = 4096"
    and "seq_run base es" "scan_ref (disk es @ rest) (length (disk es)) (base + of_nat (length es)) = ([], length (disk es), t)"
  shows "recover_plain mem_kernel (seg_with k base 4096 [] 0 dur) 4096 (with_file k base (disk es @ rest)) =
    (RESULT_OK, seg_with k base 4096 es (length (disk es)) (base + of_nat (length es) - 1),
     Some \<lparr>sc_records = of_nat (length es), sc_last_seq = base + of_nat (length es) - 1, sc_end_off = length (disk es), sc_torn = t\<rparr>,
     with_file k base (disk es @ rest))"
  using assms by (intro recovered_room [OF scan_room_max UNIV_I]) simp_all

lemma scan_zeros: "scan_ref (disk es @ replicate n 0) (length (disk es)) e = ([], length (disk es), False)"
  by (rule scan_ref_clean) simp

lemma scan_stops:
  assumes "WAL_REC_HEADER_SIZE \<le> length rest" "rec_of rest = r" "r_seq r \<noteq> 0" "wal_rec_size (sint (r_len r)) = int n"
    and "length rest < n \<or> \<not> wal_rec_verify rest r \<or> r_seq r \<noteq> e"
  shows "scan_ref (pre @ rest) (length pre) e = ([], length pre, True)"
  using assms by (subst scan_ref.simps) (auto simp: Let_def wal_rec_is_end_def)

lemma write_at_byte: "i < length f \<Longrightarrow> write_at i [b] f = f[i := b]"
  by (simp add: write_at_def upd_conv_take_nth_drop)

lemma write_at_tail: "length bs \<le> n \<Longrightarrow> bs \<noteq> [] \<Longrightarrow> write_at (length xs) bs (xs @ replicate n 0) = xs @ bs @ replicate (n - length bs) 0"
  by (simp add: write_at_def)

lemma rec_of_bytes: "rec_of (rec_bytes r p @ rest) = rec_written r p"
  using wal_rec_decode_bytes [of r p rest] by (simp add: wal_rec_decode_def split: if_splits)

text \<open>What every case starts with: an empty segment, and records in it.\<close>

abbreviation filled :: "u64 \<Rightarrow> nat \<Rightarrow> entry list" where
  "filled base n \<equiv> grown_all base [] [0..<n]"

lemma started:
  assumes "absent k base" "base \<noteq> 0" "80 * n \<le> cap" "WAL_REC_HEADER_SIZE \<le> cap"
  shows "wal_seg_create mem_kernel s 3 base cap k = (RESULT_OK, seg_with k base cap [] 0 (base - 1), with_file k base (replicate cap 0))"
    "append_checked mem_kernel [0..<n] (seg_with k base cap [] 0 (base - 1)) (with_file k base (replicate cap 0)) =
      (True, seg_with k base cap (filled base n) 0 (base - 1), with_file k base (disk (filled base n) @ replicate (cap - 80 * n) 0))"
    "append_any mem_kernel [0..<n] (seg_with k base cap [] 0 (base - 1)) (with_file k base (replicate cap 0)) =
      (seg_with k base cap (filled base n) 0 (base - 1), with_file k base (disk (filled base n) @ replicate (cap - 80 * n) 0))"
  using created [of k base cap s] puts_append [of "[]" "[0..<n]" cap k base 0 "base - 1" "replicate cap 0"] assms by simp_all

lemmas case_simps = synced closed_again planted result_ok_def size24 Let_def

text \<open>A record with its first payload byte changed ends the scan there.\<close>

lemma damaged_tail:
  assumes "r_len r = 24" "r_seq r \<noteq> 0" "v \<noteq> 0x5A"
    and "bad = (rec_bytes r (replicate 24 0x5A) @ rest)[56 := v]"
  shows "scan_ref (pre @ bad) (length pre) e = ([], length pre, True)"
proof -
  let ?p = "replicate 24 (0x5A :: u8)"
  have fits: "rec_fits r ?p" using assms(1) by (simp add: rec_fits_def)
  have "take 56 bad = take 56 (rec_bytes r ?p @ rest)" by (simp add: assms(4))
  then have hd: "rec_of bad = rec_written r ?p" using rec_of_bytes [of r ?p] by (metis rec_of_take order_refl)
  have "v \<noteq> rec_bytes r ?p ! 56" using assms(3) by (simp add: rec_bytes_image nth_append)
  with fits hd have "\<not> wal_rec_verify bad (rec_written r ?p)"
    using rec_corruption_detected [of r ?p 56 v bad rest] assms(4) by simp
  then show ?thesis
    using scan_stops [of bad "rec_written r ?p" 80 e pre] hd assms by (simp add: wal_rec_size_def)
qed

section \<open>The cases\<close>

lemma basic_passes:
  assumes "absent k 1"
  shows "\<exists>bs. check_seg_basic mem_kernel 3 k = (True, with_file k 1 bs)"
proof -
  define es where "es = grown 1 (grown 1 (grown 1 [] (seg_fill_rec 24 7 1 0xF00D)) (seg_fill_rec 24 7 2 0xF00D)) (seg_fill_rec 24 7 3 0xF00D)"
  have run: "seq_run 1 es" by (simp add: es_def grown_def entry_fits seg_fill_rec_def rec_fits_def)
  have es: "length es = 3" "length (disk es) = 240" by (simp_all add: es_def)
  define z where "z n = replicate n (0 :: u8)" for n
  have far: "os_pread mem_kernel (10 + int (length (mf_files k))) 56 4040 (with_file k 1 (z 4096)) = (RESULT_OK, z 56, with_file k 1 (z 4096))"
    by (simp add: os_pread_def mem_kernel_def z_def)
  have again: "wal_seg_create mem_kernel seg_unset 3 1 4096 (with_file k 1 bs) = (RESULT_ERR ERR_SYSCALL 17, seg_unset, with_file k 1 bs)" for bs
    using assms by (intro mem_seg_create_again) (simp_all add: absent_def with_file_def find_append)
  have puts: "append_counted mem_kernel [0..<3] (seg_with k 1 4096 [] 0 0) (with_file k 1 (z 4096)) =
      (True, seg_with k 1 4096 es 0 0, with_file k 1 (disk es @ z 3856))"
  proof -
    have three: "[0..<3] = [0, 1, 2]" by (simp add: upt_rec)
    have z: "drop 80 (z 4096) = z 4016" "drop 80 (z 4016) = z 3936" "drop 80 (z 3936) = z 3856" by (simp_all add: z_def)
    with put_appends [of "[]" 4096 k 1 0 0 7 1 "0xF00D" "z 4096"]
    have first: "seg_put mem_kernel (seg_with k 1 4096 [] 0 0) (seg_fill_rec 24 7 1 0xF00D) (with_file k 1 (z 4096)) =
        (RESULT_OK, seg_with k 1 4096 (grown 1 [] (seg_fill_rec 24 7 1 0xF00D)) 0 0,
         rec_written ((seg_fill_rec 24 7 1 0xF00D)\<lparr>r_seq := 1\<rparr>) (replicate 24 0x5A),
         with_file k 1 (disk (grown 1 [] (seg_fill_rec 24 7 1 0xF00D)) @ z 4016))" by simp
    show ?thesis unfolding three
      by (simp add: first put_appends z result_ok_def es_def)
  qed
  have re: "recover_plain mem_kernel (seg_with k 1 4096 [] 0 0) 4096 (with_file k 1 (disk es @ z 3856)) =
    (RESULT_OK, seg_with k 1 4096 es 240 3, Some \<lparr>sc_records = 3, sc_last_seq = 3, sc_end_off = 240, sc_torn = False\<rparr>,
     with_file k 1 (disk es @ z 3856))"
    using recovered [of es "z 3856" 1 False k 0] run scan_zeros [of es 3856] es by (simp add: z_def)
  have cr: "wal_seg_create mem_kernel seg_unset 3 1 4096 k = (RESULT_OK, seg_with k 1 4096 [] 0 0, with_file k 1 (z 4096))"
    using created [of k 1 4096 seg_unset] assms by (simp add: z_def)
  have zero: "\<not> list_ex (\<lambda>c. c \<noteq> 0) (z n)" "length (z n) = n" for n by (simp_all add: z_def list_ex_iff)
  have "check_seg_basic mem_kernel 3 k = (True, with_file k 1 (disk es @ z 3856))"
    using opened [of k 1 4096] assms es
    by (simp add: cr far zero again puts re es synced closed_again result_ok_def size24 check_seg_basic_def check_seg_reopen_def Let_def)
  then show ?thesis by blast
qed

lemma torn_passes:
  assumes "absent k 1000"
  shows "\<exists>bs. check_seg_torn mem_kernel 3 k = (True, with_file k 1000 bs)"
proof -
  let ?r = "(seg_fill_rec 24 1 3 1)\<lparr>r_seq := 1002\<rparr>" and ?p = "replicate 24 (0x5A :: u8)"
  define bad where "bad = (rec_bytes ?r ?p @ replicate 3856 0)[56 := 0]"
  define es2 where "es2 = filled 1000 2"
  define es3 where "es3 = filled 1000 3"
  have three: "[0..<3] = [0..<2] @ [2]" by (simp add: upt_rec)
  have es3: "es3 = es2 @ [(?r, ?p)]" unfolding es2_def es3_def three by (simp add: grown_all_def grown_def upt_rec)
  have grown: "grown 1000 es2 (seg_fill_rec 24 1 3 1) = es3" by (simp add: es3 grown_def) (simp add: es2_def)
  have es: "length es2 = 2" "length (disk es2) = 160" "length es3 = 3" "length (disk es3) = 240" by (simp_all add: es2_def es3_def)
  have run: "seq_run 1000 es2" "seq_run 1000 es3" by (simp_all add: es2_def es3_def grown_all_run)
  have len: "length bad = 3936" "drop 80 bad = replicate 3856 0" by (simp_all add: bad_def)
  have hit: "write_at 216 [0] (disk es3 @ replicate 3856 0) = disk es2 @ bad"
    using es by (simp add: write_at_byte es3 bad_def list_update_append)
  have stop: "scan_ref (disk es2 @ bad) 160 1002 = ([], 160, True)"
    using damaged_tail [of ?r 0 bad "replicate 3856 0" "disk es2" 1002] es by (simp add: bad_def seg_fill_rec_def)
  have re: "recover_plain mem_kernel (seg_with k 1000 4096 [] 0 999) 4096 (with_file k 1000 (disk es2 @ bad)) =
    (RESULT_OK, seg_with k 1000 4096 es2 160 1001, Some \<lparr>sc_records = 2, sc_last_seq = 1001, sc_end_off = 160, sc_torn = True\<rparr>,
     with_file k 1000 (disk es2 @ bad))"
    using recovered [of es2 bad 1000 True k 999] run stop es len by simp
  have re3: "recover_plain mem_kernel (seg_with k 1000 4096 [] 0 999) 4096 (with_file k 1000 (disk es3 @ replicate 3856 0)) =
    (RESULT_OK, seg_with k 1000 4096 es3 240 1002, Some \<lparr>sc_records = 3, sc_last_seq = 1002, sc_end_off = 240, sc_torn = False\<rparr>,
     with_file k 1000 (disk es3 @ replicate 3856 0))"
    using recovered [of es3 "replicate 3856 0" 1000 False k 999] run scan_zeros [of es3 3856] es by simp
  have put: "seg_put mem_kernel (seg_with k 1000 4096 es2 160 1001) (seg_fill_rec 24 1 3 1) (with_file k 1000 (disk es2 @ bad)) =
    (RESULT_OK, seg_with k 1000 4096 es3 160 1001, rec_written ?r ?p, with_file k 1000 (disk es3 @ replicate 3856 0))"
    using put_appends [of es2 4096 k 1000 160 1001 1 3 1 bad] grown es len by simp
  have "check_seg_torn mem_kernel 3 k = (True, with_file k 1000 (disk es3 @ replicate 3856 0))"
    using started [of k 1000 3 4096] opened [of k 1000 4096] assms es hit
    by (simp add: es3_def [symmetric] re re3 put case_simps check_seg_torn_def check_seg_reuse_def)
  then show ?thesis by blast
qed

lemma stale_passes:
  assumes "absent k 2000"
  shows "\<exists>bs. check_seg_stale mem_kernel 3 k = (True, with_file k 2000 bs)"
proof -
  let ?r = "(seg_fill_rec 24 1 3 1)\<lparr>r_seq := 99\<rparr>" and ?p = "replicate 24 (0x5A :: u8)"
  define es where "es = filled 2000 2"
  define rest where "rest = rec_bytes ?r ?p @ replicate 3856 0"
  have es: "length es = 2" "length (disk es) = 160" "seq_run 2000 es" by (simp_all add: es_def grown_all_run)
  have fits: "rec_fits ?r ?p" by (simp add: rec_fits_def seg_fill_rec_def)
  have "check_payload = ?p @ replicate 40 0x5A" by (simp flip: replicate_add)
  then have enc: "wal_rec_encode check_scratch ?r (Some check_payload) = (80, rec_bytes ?r ?p @ replicate 4016 0, rec_written ?r ?p)"
    using wal_rec_encode_eq [OF fits, of check_scratch "Some ?p"] by (simp only: wal_rec_encode_prefix [OF fits]) simp
  have ne: "rec_bytes ?r ?p \<noteq> []" by (auto dest: arg_cong [where f = length])
  then have plant: "write_at 160 (rec_bytes ?r ?p) (disk es @ replicate 3936 0) = disk es @ rest"
    using write_at_tail [of "rec_bytes ?r ?p" 3936 "disk es"] es by (simp add: rest_def)
  have stop: "scan_ref (disk es @ rest) 160 2002 = ([], 160, True)"
    using scan_stops [of rest "rec_written ?r ?p" 80 2002 "disk es"] es
    by (simp add: rest_def rec_of_bytes seg_fill_rec_def wal_rec_size_def)
  have re: "recover_plain mem_kernel (seg_with k 2000 4096 [] 0 1999) 4096 (with_file k 2000 (disk es @ rest)) =
    (RESULT_OK, seg_with k 2000 4096 es 160 2001, Some \<lparr>sc_records = 2, sc_last_seq = 2001, sc_end_off = 160, sc_torn = True\<rparr>,
     with_file k 2000 (disk es @ rest))"
    using recovered [of es rest 2000 True k 1999] stop es by (simp add: rest_def)
  have "check_seg_stale mem_kernel 3 k = (True, with_file k 2000 (disk es @ rest))"
    using started [of k 2000 2 4096] opened [of k 2000 4096] assms es plant ne
    by (simp add: es_def [symmetric] re enc case_simps check_seg_stale_def)
  then show ?thesis by blast
qed

lemma overrun_passes:
  assumes "absent k 5000"
  shows "\<exists>bs. check_seg_overrun mem_kernel 3 k = (True, with_file k 5000 bs)"
proof -
  let ?r = "(seg_fill_rec 4096 1 3 1)\<lparr>r_seq := 5002\<rparr>"
  define es where "es = filled 5000 2"
  define rest where "rest = rec_image ?r @ replicate 3880 0"
  have es: "length es = 2" "length (disk es) = 160" "seq_run 5000 es" by (simp_all add: es_def grown_all_run)
  have len: "length (rec_image ?r) = 56" by (simp add: rec_image_def)
  then have ne: "rec_image ?r \<noteq> []" by (metis list.size(3) zero_neq_numeral)
  with len have plant: "write_at 160 (rec_image ?r) (disk es @ replicate 3936 0) = disk es @ rest"
    using write_at_tail [of "rec_image ?r" 3936 "disk es"] es by (simp add: rest_def)
  have stop: "scan_ref (disk es @ rest) 160 5002 = ([], 160, True)"
    using scan_stops [of rest ?r 4152 5002 "disk es"] es
    by (simp add: rest_def rec_codec.of_image seg_fill_rec_def wal_rec_size_def)
  have re: "recover_plain mem_kernel (seg_with k 5000 4096 [] 0 4999) 4096 (with_file k 5000 (disk es @ rest)) =
    (RESULT_OK, seg_with k 5000 4096 es 160 5001, Some \<lparr>sc_records = 2, sc_last_seq = 5001, sc_end_off = 160, sc_torn = True\<rparr>,
     with_file k 5000 (disk es @ rest))"
    using recovered [of es rest 5000 True k 4999] stop es by (simp add: rest_def)
  have "check_seg_overrun mem_kernel 3 k = (True, with_file k 5000 (disk es @ rest))"
    using started [of k 5000 2 4096] opened [of k 5000 4096] assms es plant ne
    by (simp add: es_def [symmetric] re case_simps check_seg_overrun_def)
  then show ?thesis by blast
qed

lemma put_refused:
  assumes "cap < length (disk es) + 80"
  shows "\<exists>r. seg_put mem_kernel (seg_with k base cap es syn dur) (seg_fill_rec 24 session c key) j =
    (RESULT_ERR ERR_STORAGE 0, seg_with k base cap es syn dur, r, j)"
proof -
  have "check_payload = replicate 24 0x5A @ replicate 40 0x5A" by (simp flip: replicate_add)
  then show ?thesis
    using mem_seg_append_full [of "seg_fill_rec 24 session c key" "replicate 24 0x5A" check_scratch "seg_with k base cap es syn dur" j]
      assms entry_fits [of session c key]
    by (simp only: seg_put_def wal_seg_append_prefix [OF entry_fits]) simp
qed

lemma fits_room: "wal_seg_fits (seg_with k base cap es syn dur) 24 \<longleftrightarrow> length (disk es) + 80 \<le> cap"
  by (auto simp: wal_seg_fits_def size24 Let_def)

lemma fitting_puts:
  assumes "length (disk es) + 80 * length is' \<le> cap"
  shows "append_fitting mem_kernel (is' @ js) n (seg_with k base cap es syn dur) (with_file k base (disk es @ rest)) =
    append_fitting mem_kernel js (n + length is') (seg_with k base cap (grown_all base es is') syn dur)
      (with_file k base (disk (grown_all base es is') @ drop (80 * length is') rest))"
  using assms
  by (induction is' arbitrary: es rest n) (simp_all add: put_appends fits_room result_ok_def add.commute del: disk_simps)

lemma fitting_refused:
  assumes "cap < length (disk es) + 80"
  shows "append_fitting mem_kernel js n (seg_with k base cap es syn dur) j = (Some n, seg_with k base cap es syn dur, j)"
proof (induction js)
  case (Cons i js)
  obtain r where "seg_put mem_kernel (seg_with k base cap es syn dur) (seg_fill_rec 24 1 (of_nat (i + 1)) 1) j =
    (RESULT_ERR ERR_STORAGE 0, seg_with k base cap es syn dur, r, j)" using put_refused [OF assms] by blast
  with Cons assms show ?case by (simp add: fits_room result_ok_def)
qed simp

lemma full_passes:
  assumes "absent k 3000"
  shows "\<exists>bs. check_seg_full mem_kernel 3 k = (True, with_file k 3000 bs)"
proof -
  have five: "[0..<5] = [0..<3] @ [3, 4]" by (simp add: upt_rec)
  have "append_fitting mem_kernel [0..<5] 0 (seg_with k 3000 240 [] 0 2999) (with_file k 3000 (replicate 240 0)) =
    (Some 3, seg_with k 3000 240 (filled 3000 3) 0 2999, with_file k 3000 (disk (filled 3000 3)))"
    unfolding five using fitting_puts [of "[]" "[0..<3]" 240 "[3, 4]" 0 k 3000 0 2999 "replicate 240 0"] by (simp add: fitting_refused del: append_fitting.simps(2))
  then have "check_seg_full mem_kernel 3 k = (True, with_file k 3000 (disk (filled 3000 3)))"
    using started [of k 3000 3 240] assms by (simp add: case_simps check_seg_full_def)
  then show ?thesis by blast
qed

text \<open>A buffer of two records and a piece: the scan starts again behind the records it has read whole.\<close>

lemma scan_room_run:
  assumes "seq_run base es" "\<forall>(r, p) \<in> set es. length (rec_bytes r p) \<le> sl" "\<forall>b \<in> set rest. b = 0"
  shows "scan_room (disk es @ rest) sl ((\<lambda>n. length (disk (take n es))) ` {..length es})"
  unfolding scan_room_def
proof (intro ballI impI)
  fix a assume a: "a \<in> (\<lambda>n. length (disk (take n es))) ` {..length es}" "a + WAL_REC_HEADER_SIZE \<le> length (disk es @ rest)"
  then obtain n where n: "n \<le> length es" "a = length (disk (take n es))" by auto
  have split: "disk es = disk (take n es) @ disk (drop n es)" by (simp flip: disk_simps(3))
  then have dr: "drop a (disk es @ rest) = disk (drop n es) @ rest" by (simp add: n(2))
  let ?P = "let r = rec_of (drop a (disk es @ rest)); size' = wal_rec_size (sint (r_len r)) in
      \<not> wal_rec_is_end r \<longrightarrow> size' \<noteq> 0 \<longrightarrow> int a + size' \<le> int (length (disk es @ rest)) \<longrightarrow>
      size' \<le> int sl \<and> (wal_rec_verify (drop a (disk es @ rest)) r \<longrightarrow> a + nat size' \<in> (\<lambda>n. length (disk (take n es))) ` {..length es})"
  show ?P
  proof (cases "n = length es")
    case True
    have "wal_rec_is_end (rec_of rest)"
      using scan_ref_clean [OF assms(3), of "[]" 1] a(2) dr n True
      by (subst (asm) scan_ref.simps) (auto simp: Let_def split: if_splits prod.splits)
    then show ?thesis using True by (simp add: dr del: drop_append)
  next
    case False
    with n(1) have lt: "n < length es" by simp
    obtain r p where e: "es ! n = (r, p)" by fastforce
    have d: "drop n es = (r, p) # drop (Suc n) es" using lt e by (metis Cons_nth_drop_Suc)
    have mem: "(r, p) \<in> set es" using lt e by (metis nth_mem)
    have "seq_run (base + of_nat (length (take n es))) (drop n es)"
      using assms(1) seq_run_append [of base "take n es" "drop n es"] by simp
    then have "rec_fits r p" by (simp add: d)
    then have size: "wal_rec_size (sint (r_len r)) = int (length (rec_bytes r p))" by (rule wal_rec_size_fits)
    have "a + length (rec_bytes r p) = length (disk (take (Suc n) es))"
      using lt e n(2) by (simp add: take_Suc_conv_app_nth del: length_rec_bytes)
    then have "a + length (rec_bytes r p) \<in> (\<lambda>n. length (disk (take n es))) ` {..length es}" using lt by (intro image_eqI [of _ _ "Suc n"]) simp_all
    moreover have "length (rec_bytes r p) \<le> sl" using assms(2) mem by auto
    ultimately show ?thesis using size by (simp add: dr d rec_of_bytes Let_def del: length_rec_bytes drop_append)
  qed
qed

lemma block_passes:
  assumes "absent k 4000"
  shows "\<exists>bs. check_seg_block mem_kernel 3 k = (True, with_file k 4000 bs)"
proof -
  define es where "es = filled 4000 9"
  let ?f = "disk es @ replicate 3376 0"
  have es: "length es = 9" "length (disk es) = 720" "seq_run 4000 es" by (simp_all add: es_def grown_all_run)
  have "\<forall>e \<in> set (grown_all base fs is'). length (snd e) = 24" if "\<forall>e \<in> set fs. length (snd e) = 24" for base fs is'
    using that
  proof (induction is' arbitrary: fs)
    case (Cons i is')
    have "\<forall>e \<in> set (grown base fs (seg_fill_rec 24 1 (of_nat (i + 1)) 1)). length (snd e) = 24"
      using Cons.prems by (simp add: grown_def)
    from Cons.IH [OF this] show ?case by simp
  qed simp
  then have len24: "\<forall>e \<in> set es. length (snd e) = 24" unfolding es_def by (metis empty_iff list.set(1))
  then have "\<forall>(r, p) \<in> set es. length (rec_bytes r p) \<le> 220" by fastforce
  then have room: "scan_room ?f 220 ((\<lambda>n. length (disk (take n es))) ` {..length es})"
    by (intro scan_room_run [OF es(3)]) simp_all
  have re: "recover_plain mem_kernel (seg_with k 4000 4096 [] 0 3999) 220 (with_file k 4000 ?f) =
    (RESULT_OK, seg_with k 4000 4096 es 720 4008, Some \<lparr>sc_records = 9, sc_last_seq = 4008, sc_end_off = 720, sc_torn = False\<rparr>,
     with_file k 4000 ?f)"
    using recovered_room [OF room _ _ _ es(3), of 4096 False k 3999] scan_zeros [of es 3376] es by force
  have small: "\<exists>sz. recover_plain mem_kernel (seg_with k 4000 4096 es 720 4008) 56 (with_file k 4000 ?f) =
    (RESULT_ERR ERR_NOMEM sz, seg_with k 4000 4096 es 720 4008, None, with_file k 4000 ?f)"
  proof -
    obtain r p es' where e: "es = (r, p) # es'" using es(1) by (cases es) auto
    have fit: "rec_fits r p" "r_seq r = 4000" using es(3) by (simp_all add: e)
    have "length p = 24" using len24 e by simp
    then have size: "wal_rec_size (sint (r_len r)) = 80" using wal_rec_size_fits [OF fit(1)] by simp
    obtain ys where "?f = rec_image (rec_written r p) @ ys" by (simp add: e rec_bytes_image)
    then have tk: "take 56 ?f = rec_image (rec_written r p)" "length (rec_image (rec_written r p)) = 56" by (simp_all add: rec_image_def)
    have hd: "rec_of (rec_image (rec_written r p)) = rec_written r p" by (rule rec_codec.of_image_exact)
    have rd: "os_pread_full mem_kernel (10 + int (length (mf_files k))) 56 0 (with_file k 4000 ?f) = (RESULT_OK, take 56 ?f, with_file k 4000 ?f)"
      using mem_pread_full [of "10 + int (length (mf_files k))" 56 0 "with_file k 4000 ?f"] by simp
    show ?thesis
      using rd unfolding tk
      by (simp add: recover_plain_def wal_seg_recover_def seg_recover_loop.simps [of mem_kernel] seg_scan_block.simps [of _ "rec_image (rec_written r p)"]
          tk hd size fit wal_rec_is_end_def result_ok_def Let_def seg_with_def)
  qed
  then obtain sz where small: "recover_plain mem_kernel (seg_with k 4000 4096 es 720 4008) 56 (with_file k 4000 ?f) =
    (RESULT_ERR ERR_NOMEM sz, seg_with k 4000 4096 es 720 4008, None, with_file k 4000 ?f)" by blast
  have "check_seg_block mem_kernel 3 k = (True, with_file k 4000 ?f)"
    using started [of k 4000 9 4096] opened [of k 4000 4096] assms es
    by (simp add: es_def [symmetric] re small case_simps check_seg_block_def)
  then show ?thesis by blast
qed

section \<open>The whole test\<close>

lemma check_seg_names_passes: "check_seg_names"
  by (simp add: check_seg_names_def wal_seg_name_def Let_def) code_simp

lemma selfcheck_wal_segment_passes:
  "\<exists>k'. selfcheck_wal_segment mem_spare k = Some (0, k')"
proof -
  define k0 where "k0 = empty_dir"
  have a: "absent k0 b" for b by (simp add: absent_def k0_def)
  obtain f1 where c1: "check_seg_basic mem_kernel 3 k0 = (True, with_file k0 1 f1)" using basic_passes [OF a] by blast
  let ?k1 = "with_file k0 1 f1"
  obtain f2 where c2: "check_seg_torn mem_kernel 3 ?k1 = (True, with_file ?k1 1000 f2)" using torn_passes [of ?k1] a absent_with_file by auto
  let ?k2 = "with_file ?k1 1000 f2"
  obtain f3 where c3: "check_seg_stale mem_kernel 3 ?k2 = (True, with_file ?k2 2000 f3)" using stale_passes [of ?k2] a absent_with_file by auto
  let ?k3 = "with_file ?k2 2000 f3"
  obtain f4 where c4: "check_seg_overrun mem_kernel 3 ?k3 = (True, with_file ?k3 5000 f4)" using overrun_passes [of ?k3] a absent_with_file by auto
  let ?k4 = "with_file ?k3 5000 f4"
  obtain f5 where c5: "check_seg_full mem_kernel 3 ?k4 = (True, with_file ?k4 3000 f5)" using full_passes [of ?k4] a absent_with_file by auto
  let ?k5 = "with_file ?k4 3000 f5"
  obtain f6 where c6: "check_seg_block mem_kernel 3 ?k5 = (True, with_file ?k5 4000 f6)" using block_passes [of ?k5] a absent_with_file by auto
  obtain path where path: "seg_tmp_path mem_spare 0 k = (path, k)" by (simp add: seg_tmp_path_def Let_def)
  obtain k' where "tmp_dir_destroy mem_spare path (with_file ?k5 4000 f6) = Some k'"
    using mem_dir_destroyed by blast
  then show ?thesis
    by (simp add: selfcheck_wal_segment_def path k0_def [symmetric] check_seg_names_passes c1 c2 c3 c4 c5 c6 result_ok_def Let_def)
qed

end
