(* ===== verification/Selfcheck_Log.thy ===== *)
theory Selfcheck_Log
  imports Selfcheck_Segment Wal_Read
begin

text \<open>
  \<^verbatim>\<open>src/server/selfcheck.c\<close>, the program's test of the whole log: rollover, reopening, retention, and
  the four ways a directory can be damaged. Every case runs in a directory of its own; what it
  answers is whether it passed, the log as it left it (the exit for failures closes it) and the
  kernel. \<open>None\<close> is an opening that never ends.
\<close>

section \<open>Appending\<close>

primrec put_records :: "'k kernel \<Rightarrow> nat list \<Rightarrow> wal_t \<Rightarrow> 'k \<Rightarrow> result_t \<times> wal_t \<times> 'k" where
  "put_records K [] w k = (RESULT_OK, w, k)"
| "put_records K (i # is') w k =
     (let (r, w, _, k) = wal_append K w (seg_fill_rec 24 1 (of_nat (i + 1)) 1) (Some check_payload) check_scratch k in
      if \<not> result_ok r then (r, w, k) else put_records K is' w k)"

definition wal_put :: "'k kernel \<Rightarrow> wal_t \<Rightarrow> nat \<Rightarrow> 'k \<Rightarrow> result_t \<times> wal_t \<times> 'k" where
  "wal_put K w n k =
     (let (r, w, k) = put_records K [0..<n] w k in
      if \<not> result_ok r then (r, w, k) else wal_sync K w k)"

section \<open>The cases\<close>

type_synonym 'k case_end = "(bool \<times> wal_t \<times> 'k) option"

definition open_then ::
    "'k kernel \<Rightarrow> bytes \<Rightarrow> nat \<Rightarrow> wal_t \<Rightarrow> 'k \<Rightarrow> (result_t \<Rightarrow> wal_open_t \<Rightarrow> wal_t \<Rightarrow> 'k \<Rightarrow> 'k case_end) \<Rightarrow> 'k case_end" where
  "open_then K dir cap w k f =
     (case wal_open K w (dir @ [0]) cap check_scratch (\<lambda>_ c. c) () k of
        None \<Rightarrow> None
      | Some (r, w, info, _, k) \<Rightarrow> f r info w k)"

abbreviation check_cap :: nat where "check_cap \<equiv> nat (wal_rec_size 24 * 3)"

definition case_left :: "'k kernel \<Rightarrow> bytes \<Rightarrow> wal_t \<Rightarrow> 'k \<Rightarrow> 'k case_end" where
  "case_left K dir w k =
     open_then K dir check_cap w k (\<lambda>r info w k.
       if \<not> result_ok r \<or> wo_segments info \<noteq> 1 \<or> wo_first_seq info \<noteq> 10 \<or> wo_last_seq info \<noteq> 10 \<or> wo_records info \<noteq> 1
       then Some (False, w, k)
       else let (_, w, k) = wal_close K w k in Some (True, w, k))"

definition case_retain :: "'k kernel \<Rightarrow> bytes \<Rightarrow> wal_t \<Rightarrow> 'k \<Rightarrow> 'k case_end" where
  "case_retain K dir w k =
     (let (r, w, removed, k) = wal_retain K w 7 k in
      if \<not> result_ok r \<or> removed \<noteq> 2 \<or> wal_segments w \<noteq> 2 \<or> wal_first_seq w \<noteq> 7 then Some (False, w, k)
      else let (r, w, removed, k) = wal_retain K w 7 k in
      if \<not> result_ok r \<or> removed \<noteq> 0 then Some (False, w, k)
      else let (r, w, removed, k) = wal_retain K w 1000 k in
      if \<not> result_ok r \<or> wal_segments w \<noteq> 1 \<or> wal_first_seq w \<noteq> 10 then Some (False, w, k)
      else let (_, w, k) = wal_close K w k in case_left K dir w k)"

definition case_reopen :: "'k kernel \<Rightarrow> bytes \<Rightarrow> wal_t \<Rightarrow> 'k \<Rightarrow> 'k case_end" where
  "case_reopen K dir w k =
     open_then K dir check_cap w k (\<lambda>r info w k.
       if \<not> result_ok r then Some (False, w, k)
       else if wo_created info \<or> wo_segments info \<noteq> 4 \<or> wo_records info \<noteq> 10 \<or> wo_first_seq info \<noteq> 1
         \<or> wo_last_seq info \<noteq> 10 \<or> wo_torn info \<or> wal_next_seq w \<noteq> 11 then Some (False, w, k)
       else case_retain K dir w k)"

definition case_rollover :: "'k kernel \<Rightarrow> bytes \<Rightarrow> wal_t \<Rightarrow> 'k \<Rightarrow> 'k case_end" where
  "case_rollover K dir w k =
     open_then K dir check_cap w k (\<lambda>r info w k.
       if \<not> result_ok r then Some (False, w, k)
       else if \<not> wo_created info \<or> wo_segments info \<noteq> 1 \<or> wo_first_seq info \<noteq> 1 \<or> wo_last_seq info \<noteq> 0
         \<or> wo_records info \<noteq> 0 \<or> wal_next_seq w \<noteq> 1 \<or> wal_durable_seq w \<noteq> 0 then Some (False, w, k)
       else let (r, w, k) = wal_put K w 10 k in
       if \<not> result_ok r then Some (False, w, k)
       else if wal_segments w \<noteq> 4 \<or> w_seg_base w ! 0 \<noteq> 1 \<or> w_seg_base w ! 1 \<noteq> 4 \<or> w_seg_base w ! 2 \<noteq> 7
         \<or> w_seg_base w ! 3 \<noteq> 10 then Some (False, w, k)
       else if wal_next_seq w \<noteq> 11 \<or> wal_durable_seq w \<noteq> 10 then Some (False, w, k)
       else let before = wal_segments w;
                (r, w, _, k) = wal_append K w (seg_fill_rec (of_nat check_cap) 1 99 1) (Some check_payload) check_scratch k in
       if result_ok r then Some (False, w, k)
       else if wal_segments w \<noteq> before then Some (False, w, k)
       else let (_, w, k) = wal_close K w k in case_reopen K dir w k)"

text \<open>How the cases on damage begin: a log of \<open>n\<close> records, closed again.\<close>

definition filled_then ::
    "'k kernel \<Rightarrow> bytes \<Rightarrow> nat \<Rightarrow> nat \<Rightarrow> wal_t \<Rightarrow> 'k \<Rightarrow> (wal_t \<Rightarrow> bool) \<Rightarrow> (wal_t \<Rightarrow> 'k \<Rightarrow> 'k case_end) \<Rightarrow> 'k case_end" where
  "filled_then K dir cap n w k ok f =
     open_then K dir cap w k (\<lambda>r info w k.
       if \<not> result_ok r then Some (False, w, k)
       else let (r, w, k) = wal_put K w n k in
       if \<not> result_ok r then Some (False, w, k)
       else if \<not> ok w then Some (False, w, k)
       else let (_, w, k) = wal_close K w k in f w k)"

definition case_torn_reopen :: "'k kernel \<Rightarrow> bytes \<Rightarrow> wal_t \<Rightarrow> 'k \<Rightarrow> 'k case_end" where
  "case_torn_reopen K dir w k =
     open_then K dir check_cap w k (\<lambda>r info w k.
       if \<not> result_ok r then Some (False, w, k)
       else if \<not> wo_torn info \<or> wo_last_seq info \<noteq> 7 \<or> wo_records info \<noteq> 7 \<or> wal_next_seq w \<noteq> 8 then Some (False, w, k)
       else let (r, w, k) = wal_put K w 1 k in
       if \<not> result_ok r \<or> wal_durable_seq w \<noteq> 8 then Some (False, w, k)
       else let (_, w, k) = wal_close K w k in Some (True, w, k))"

definition case_torn :: "'k spare \<Rightarrow> bytes \<Rightarrow> wal_t \<Rightarrow> 'k \<Rightarrow> 'k case_end" where
  "case_torn S dir w k =
     filled_then (net_files S) dir check_cap 8 w k (\<lambda>_. True) (\<lambda>w k.
       let (ok, k) = tmp_corrupt S dir 7 (nat (wal_rec_size 24) + WAL_REC_HEADER_SIZE) k in
       if \<not> ok then Some (False, w, k) else case_torn_reopen (net_files S) dir w k)"

text \<open>An opening that must fail.\<close>

definition refused :: "'k kernel \<Rightarrow> bytes \<Rightarrow> nat \<Rightarrow> wal_t \<Rightarrow> 'k \<Rightarrow> 'k case_end" where
  "refused K dir cap w k = open_then K dir cap w k (\<lambda>r info w k. Some (\<not> result_ok r, w, k))"

definition case_middle :: "'k spare \<Rightarrow> bytes \<Rightarrow> wal_t \<Rightarrow> 'k \<Rightarrow> 'k case_end" where
  "case_middle S dir w k =
     filled_then (net_files S) dir check_cap 8 w k (\<lambda>_. True) (\<lambda>w k.
       let (ok, k) = tmp_corrupt S dir 4 WAL_REC_HEADER_SIZE k in
       if \<not> ok then Some (False, w, k) else refused (net_files S) dir check_cap w k)"

definition case_gap :: "'k spare \<Rightarrow> bytes \<Rightarrow> wal_t \<Rightarrow> 'k \<Rightarrow> 'k case_end" where
  "case_gap S dir w k =
     filled_then (net_files S) dir check_cap 8 w k (\<lambda>_. True) (\<lambda>w k.
       let K = net_files S; (r, dfd, k) = open_dir S dir k in
       if \<not> result_ok r then Some (False, w, k)
       else let (r, k) = os_unlinkat K dfd (wal_seg_name 4) k in
       if \<not> result_ok r then Some (False, w, k)
       else refused K dir check_cap w (snd (os_close K dfd k)))"

definition bogus_header :: bytes where
  "bogus_header = rec_image ((seg_fill_rec 0 1 1 1)\<lparr>r_seq := 4, r_crc := 0xDEADBEEF\<rparr>)"

definition case_tail :: "'k spare \<Rightarrow> bytes \<Rightarrow> wal_t \<Rightarrow> 'k \<Rightarrow> 'k case_end" where
  "case_tail S dir w k =
     (let roomy = nat (wal_rec_size 24 * 3) + WAL_REC_HEADER_SIZE + 4 in
      filled_then (net_files S) dir roomy 4 w k (\<lambda>w. wal_segments w = 2 \<and> w_seg_base w ! 1 = 4) (\<lambda>w k.
        let K = net_files S; (r, dfd, k) = open_dir S dir k in
        if \<not> result_ok r then Some (False, w, k)
        else let (r, sfd, k) = os_openat K dfd (wal_seg_name 1) OPEN_RDWR k in
        if \<not> result_ok r then Some (False, w, k)
        else let (r, k) = os_pwrite_full K sfd bogus_header (nat (wal_rec_size 24 * 3)) k in
        if \<not> result_ok r then Some (False, w, k)
        else let k = snd (os_close K dfd (snd (os_close K sfd k)))
             in refused K dir roomy w k))"

definition decoys :: "bytes list" where
  "decoys = [ascii ''notasegment'', ascii ''00000000000000000001.seg.tmp'', ascii ''0000000000000000000x.seg'',
     ascii ''00000000000000000000.seg'']"

primrec touch_all :: "'k spare \<Rightarrow> bytes \<Rightarrow> bytes list \<Rightarrow> 'k \<Rightarrow> bool \<times> 'k" where
  "touch_all S dir [] k = (True, k)"
| "touch_all S dir (nm # nms) k = (let (ok, k) = tmp_touch S dir nm k in if \<not> ok then (False, k) else touch_all S dir nms k)"

definition case_decoys :: "'k spare \<Rightarrow> bytes \<Rightarrow> wal_t \<Rightarrow> 'k \<Rightarrow> 'k case_end" where
  "case_decoys S dir w k =
     (let (ok, k) = touch_all S dir decoys k in
      if \<not> ok then Some (False, w, k)
      else open_then (net_files S) dir check_cap w k (\<lambda>r info w k.
        if \<not> result_ok r \<or> \<not> wo_created info \<or> wo_segments info \<noteq> 1 \<or> wo_first_seq info \<noteq> 1 then Some (False, w, k)
        else let (_, w, k) = wal_close (net_files S) w k in Some (True, w, k)))"

section \<open>The test\<close>

definition wal_case ::
    "'k spare \<Rightarrow> u32 \<Rightarrow> (bytes \<Rightarrow> wal_t \<Rightarrow> 'k \<Rightarrow> 'k case_end) \<Rightarrow> wal_t \<Rightarrow> 'k \<Rightarrow> 'k case_end" where
  "wal_case S tag body w k =
     (let (dir, k) = seg_tmp_path S tag k; (r, k) = os_mkdir S dir MODE_0700 k in
      if \<not> result_ok r then Some (False, w, k)
      else case body dir w k of
        None \<Rightarrow> None
      | Some (ok, w, k) \<Rightarrow>
          (let (w, k) = (if ok then (w, k) else (let (_, w, k) = wal_close (net_files S) w k in (w, k)))
           in map_option (\<lambda>k. (ok, w, k)) (tmp_dir_destroy S dir k)))"

primrec wal_cases ::
    "'k spare \<Rightarrow> (u32 \<times> (bytes \<Rightarrow> wal_t \<Rightarrow> 'k \<Rightarrow> 'k case_end)) list \<Rightarrow> wal_t \<Rightarrow> 'k \<Rightarrow> 'k case_end" where
  "wal_cases S [] w k = Some (True, w, k)"
| "wal_cases S (c # cs) w k =
     (case wal_case S (fst c) (snd c) w k of
        None \<Rightarrow> None
      | Some (ok, w, k) \<Rightarrow> if ok then wal_cases S cs w k else Some (False, w, k))"

text \<open>The log variable starts out with whatever the stack holds.\<close>

definition selfcheck_wal :: "'k spare \<Rightarrow> wal_t \<Rightarrow> 'k \<Rightarrow> (int \<times> 'k) option" where
  "selfcheck_wal S w k =
     map_option (\<lambda>(ok, _, k). (if ok then 0 else 1, k))
       (wal_cases S [(1, case_rollover (net_files S)), (2, case_torn S), (3, case_middle S), (4, case_gap S),
          (6, case_tail S), (5, case_decoys S)] w k)"

end
