(* ===== verification/Selfcheck_Log_Fs.thy ===== *)
theory Selfcheck_Log_Fs
  imports Selfcheck_Log Selfcheck_Segment_Runs Wal_Listing
begin

text \<open>
  A whole log on the file system in memory. \<open>log_fs\<close> is a directory of segment files, \<open>log_at\<close> the log
  whose last file is the active segment, \<open>fill\<close> what a run of appends makes of the two. Opening is one
  scan per file; a damaged directory is refused because the reference \<open>scan_log\<close> of \<open>Wal_Open\<close>
  refuses it.
\<close>

section \<open>A directory of segments\<close>

text \<open>A removed file keeps its place without a name: base 0.\<close>

definition log_fs :: "(u64 \<times> bytes) list \<Rightarrow> mem_fs" where
  "log_fs segs = \<lparr>mf_files = map (\<lambda>(b, f). (if b = 0 then [] else wal_seg_name b, f)) segs, mf_listed = False\<rparr>"

abbreviation live :: "(u64 \<times> bytes) list \<Rightarrow> u64 list" where
  "live segs \<equiv> filter (\<lambda>b. b \<noteq> 0) (map fst segs)"

lemma log_fs_simps [simp]: "mf_files (log_fs []) = []" "length (mf_files (log_fs segs)) = length segs" "\<not> mf_listed (log_fs segs)"
  by (simp_all add: log_fs_def)

lemma with_file_log: "b \<noteq> 0 \<Longrightarrow> with_file (log_fs pre) b f = log_fs (pre @ [(b, f)])"
  by (simp add: with_file_def log_fs_def)

lemma name_not_empty: "wal_seg_name b \<noteq> []"
  using length_wal_seg_name [of b] by fastforce

lemma find_absent: "b \<noteq> 0 \<Longrightarrow> b \<notin> fst ` set pre \<Longrightarrow> mf_find (wal_seg_name b) (mf_files (log_fs pre)) 0 = None"
proof (induction pre)
  case (Cons x pre)
  then show ?case using seg_name_inj [of _ b] name_not_empty [of b]
    by (cases x) (auto simp: log_fs_def mf_find_Cons simp del: mf_find.simps(2))
qed simp

lemma absent_log: "b \<noteq> 0 \<Longrightarrow> b \<notin> fst ` set pre \<Longrightarrow> absent (log_fs pre) b"
  by (simp add: absent_def find_absent)

lemma find_log:
  assumes "b \<noteq> 0" "b \<notin> fst ` set A"
  shows "mf_find (wal_seg_name b) (mf_files (log_fs (A @ (b, f) # B))) 0 = Some (length A)"
proof -
  have "mf_files (log_fs (A @ (b, f) # B)) = mf_files (log_fs A) @ (wal_seg_name b, f) # mf_files (log_fs B)"
    using assms(1) by (simp add: log_fs_def)
  then show ?thesis using find_absent [OF assms] by (simp add: find_append mf_find_Cons del: mf_find.simps(2))
qed

lemma log_fs_at [simp]:
  "mf_index (10 + int (length A)) (log_fs (A @ (b, f) # B)) = Some (length A)"
  "mf_view (log_fs (A @ (b, f) # B)) (10 + int (length A)) = f"
  by (simp_all add: log_fs_def mf_index_def mf_view_def nth_append)

lemma log_fs_store: "mf_store (length A) f' (log_fs (A @ (b, f) # B)) = log_fs (A @ (b, f') # B)"
  by (simp add: log_fs_def mf_store_def nth_append list_update_append)

lemma mem_open_file:
  assumes "b \<noteq> 0" "b \<notin> fst ` set A"
  shows "os_openat mem_kernel dir (wal_seg_name b) OPEN_RDWR (log_fs (A @ (b, f) # B)) = (RESULT_OK, 10 + int (length A), log_fs (A @ (b, f) # B))"
  using find_log [OF assms] by (simp add: os_openat_def mem_kernel_def)

lemma mem_unlink:
  assumes "b \<noteq> 0" "b \<notin> fst ` set A"
  shows "os_unlinkat mem_kernel dir (wal_seg_name b) (log_fs (A @ (b, f) # B)) = (RESULT_OK, log_fs (A @ (0, f) # B))"
  using find_log [OF assms, of f B] by (simp add: os_unlinkat_def mem_kernel_def) (simp add: log_fs_def nth_append list_update_append)

section \<open>Appending\<close>

definition log_at :: "(u64 \<times> bytes) list \<Rightarrow> u64 \<Rightarrow> nat \<Rightarrow> entry list \<Rightarrow> nat \<Rightarrow> u64 \<Rightarrow> wal_index_t \<Rightarrow> wal_t" where
  "log_at pre base cap es syn dur ix =
     \<lparr>w_dir_fd = 3, w_seg_capacity = cap, w_active = seg_with (log_fs pre) base cap es syn dur,
      w_seg_base = live pre @ [base], w_index = ix\<rparr>"

definition log_disk :: "(u64 \<times> bytes) list \<Rightarrow> u64 \<Rightarrow> nat \<Rightarrow> entry list \<Rightarrow> mem_fs" where
  "log_disk pre base cap es = with_file (log_fs pre) base (disk es @ replicate (cap - length (disk es)) 0)"

abbreviation rec_no :: "nat \<Rightarrow> wal_rec_t" where
  "rec_no i \<equiv> seg_fill_rec 24 1 (of_nat (i + 1)) 1"

lemma log_appends_over:
  assumes "length (disk es) + 80 \<le> cap"
  shows "\<exists>ix' r'. wal_append mem_kernel (log_at pre base cap es syn dur ix) (rec_no i) (Some check_payload) check_scratch
      (with_file (log_fs pre) base (disk es @ rest)) =
    (RESULT_OK, log_at pre base cap (grown base es (rec_no i)) syn dur ix', r',
     with_file (log_fs pre) base (disk (grown base es (rec_no i)) @ drop 80 rest))"
proof -
  have size: "wal_rec_size (sint (r_len (rec_no i))) = 80" "sint (r_len (rec_no i)) = 24" by (simp_all add: seg_fill_rec_def size24)
  then show ?thesis using assms put_appends [OF assms, of "log_fs pre" base syn dur 1 "of_nat (i + 1)" 1 rest]
    by (simp add: wal_append_def seg_put_def log_at_def fits_room result_ok_def Let_def)
qed

lemma log_appends:
  assumes "length (disk es) + 80 \<le> cap"
  shows "\<exists>ix' r'. wal_append mem_kernel (log_at pre base cap es syn dur ix) (rec_no i) (Some check_payload) check_scratch (log_disk pre base cap es) =
    (RESULT_OK, log_at pre base cap (grown base es (rec_no i)) syn dur ix', r', log_disk pre base cap (grown base es (rec_no i)))"
  using log_appends_over [OF assms, of pre base syn dur ix i "replicate (cap - length (disk es)) 0"] assms by (simp add: log_disk_def)

lemma log_rolls_over:
  assumes "cap < length (disk es) + 80" "80 \<le> cap" "syn = length (disk es) \<longrightarrow> dur = base + of_nat (length es) - 1"
    and "base + of_nat (length es) \<noteq> 0" "base + of_nat (length es) \<notin> insert base (fst ` set pre)" "base \<noteq> 0"
    and "length pre < 1023"
  shows "\<exists>ix' r'. let f = disk es @ replicate (cap - length (disk es)) 0; base' = base + of_nat (length es); es' = grown base' [] (rec_no i) in
    wal_append mem_kernel (log_at pre base cap es syn dur ix) (rec_no i) (Some check_payload) check_scratch (log_disk pre base cap es) =
    (RESULT_OK, log_at (pre @ [(base, f)]) base' cap es' 0 (base' - 1) ix', r', log_disk (pre @ [(base, f)]) base' cap es')"
proof -
  define base' where "base' = base + of_nat (length es)"
  define pre' where "pre' = pre @ [(base, disk es @ replicate (cap - length (disk es)) 0)]"
  have size: "wal_rec_size (sint (r_len (rec_no i))) = 80" "sint (r_len (rec_no i)) = 24" by (simp_all add: seg_fill_rec_def size24)
  have cnt: "length (filter ((\<lambda>b. b \<noteq> 0) \<circ> fst) pre) < 1023" using assms(7) by (rule le_less_trans [OF length_filter_le])
  have abs: "absent (log_fs pre') base'" using assms(4,5) by (intro absent_log) (auto simp: base'_def pre'_def)
  have k: "log_disk pre base cap es = log_fs pre'" using assms(6) by (simp add: log_disk_def with_file_log pre'_def)
  have roll: "wal_rollover mem_kernel (log_at pre base cap es syn dur ix) (log_fs pre') =
      (RESULT_OK, log_at pre' base' cap [] 0 (base' - 1) ix, log_disk pre' base' cap [])"
    using assms cnt abs created [OF abs, of cap]
    by (simp add: wal_rollover_def wal_sync_def log_at_def case_simps base'_def [symmetric] log_disk_def) (simp add: pre'_def)
  obtain ix' r' where app: "wal_append mem_kernel (log_at pre' base' cap [] 0 (base' - 1) ix) (rec_no i) (Some check_payload) check_scratch
      (log_disk pre' base' cap []) = (RESULT_OK, log_at pre' base' cap (grown base' [] (rec_no i)) 0 (base' - 1) ix', r',
      log_disk pre' base' cap (grown base' [] (rec_no i)))"
    using log_appends [of "[]" cap pre' base' 0 "base' - 1" ix i] assms(2) by auto
  have "wal_append mem_kernel (log_at pre base cap es syn dur ix) (rec_no i) (Some check_payload) check_scratch (log_fs pre') =
      wal_append mem_kernel (log_at pre' base' cap [] 0 (base' - 1) ix) (rec_no i) (Some check_payload) check_scratch (log_disk pre' base' cap [])"
    using size assms(1,2) roll by (simp add: wal_append_def fits_room result_ok_def) (simp add: log_at_def fits_room)
  then show ?thesis using app unfolding Let_def k base'_def [symmetric] pre'_def [symmetric] by auto
qed

text \<open>The files behind a run of appends: the closed ones, the active one's base and its records.\<close>

primrec fill :: "nat \<Rightarrow> nat list \<Rightarrow> (u64 \<times> bytes) list \<times> u64 \<times> entry list \<Rightarrow> (u64 \<times> bytes) list \<times> u64 \<times> entry list" where
  "fill cap [] st = st"
| "fill cap (i # is') st =
     (case st of (pre, base, es) \<Rightarrow>
        fill cap is' (if length (disk es) + 80 \<le> cap then (pre, base, grown base es (rec_no i))
          else (pre @ [(base, disk es @ replicate (cap - length (disk es)) 0)], base + of_nat (length es),
                grown (base + of_nat (length es)) [] (rec_no i))))"

definition flush_marks :: "u64 \<Rightarrow> entry list \<Rightarrow> nat \<Rightarrow> u64 \<Rightarrow> bool" where
  "flush_marks base es syn dur \<longleftrightarrow> syn \<le> length (disk es) \<and> (syn = length (disk es) \<longrightarrow> dur = base + of_nat (length es) - 1)"

lemma put_records_fill:
  assumes "80 \<le> cap" "unat base + length es + length is' < 2 ^ 64" "base \<noteq> 0" "\<forall>b \<in> fst ` set pre. b < base"
    and "length pre + length is' < 1024" "flush_marks base es syn dur" "fill cap is' (pre, base, es) = (pre1, base1, es1)"
  shows "\<exists>syn1 dur1 ix1. put_records mem_kernel is' (log_at pre base cap es syn dur ix) (log_disk pre base cap es) =
    (RESULT_OK, log_at pre1 base1 cap es1 syn1 dur1 ix1, log_disk pre1 base1 cap es1) \<and> flush_marks base1 es1 syn1 dur1"
  using assms(2-)
proof (induction is' arbitrary: pre base es syn dur ix)
  case Nil
  then show ?case by auto
next
  case (Cons i is')
  show ?case
  proof (cases "length (disk es) + 80 \<le> cap")
    case True
    obtain ix' r' where a: "wal_append mem_kernel (log_at pre base cap es syn dur ix) (rec_no i) (Some check_payload) check_scratch
        (log_disk pre base cap es) = (RESULT_OK, log_at pre base cap (grown base es (rec_no i)) syn dur ix', r',
        log_disk pre base cap (grown base es (rec_no i)))" using log_appends [OF True] by blast
    have fm: "flush_marks base (grown base es (rec_no i)) syn dur" using Cons.prems(5) by (simp add: flush_marks_def)
    show ?thesis
      using Cons.IH [of base "grown base es (rec_no i)" pre syn dur ix'] Cons.prems True a fm by (simp add: result_ok_def)
  next
    case False
    define base' where "base' = base + of_nat (length es)"
    define pre' where "pre' = pre @ [(base, disk es @ replicate (cap - length (disk es)) 0)]"
    have "es \<noteq> []" using False assms(1) by auto
    then have pos: "0 < length es" by simp
    have un: "unat base' = unat base + length es" using Cons.prems(1) unat_of_nat64 [of "unat base + length es"] by (simp add: base'_def)
    then have lt: "base < base'" "base' \<noteq> 0" using pos by (auto simp: word_less_nat_alt)
    have notin: "base' \<notin> insert base (fst ` set pre)" using lt Cons.prems(3) by (metis insert_iff less_asym less_irrefl)
    obtain ix' r' where a: "wal_append mem_kernel (log_at pre base cap es syn dur ix) (rec_no i) (Some check_payload) check_scratch
        (log_disk pre base cap es) = (RESULT_OK, log_at pre' base' cap (grown base' [] (rec_no i)) 0 (base' - 1) ix', r',
        log_disk pre' base' cap (grown base' [] (rec_no i)))"
      using log_rolls_over [of cap es syn dur base pre i ix] False assms(1) Cons.prems(2,4,5) lt notin
      unfolding base'_def [symmetric] pre'_def [symmetric] Let_def flush_marks_def by auto
    have fm: "flush_marks base' (grown base' [] (rec_no i)) 0 (base' - 1)" by (simp add: flush_marks_def)
    have below: "\<forall>b \<in> fst ` set pre'. b < base'" using Cons.prems(3) lt(1) by (auto simp: pre'_def)
    have "unat base' + length (grown base' [] (rec_no i)) + length is' < 2 ^ 64" using Cons.prems(1) pos un by simp
    moreover have "length pre' + length is' < 1024" using Cons.prems(4) by (simp add: pre'_def)
    moreover have "fill cap is' (pre', base', grown base' [] (rec_no i)) = (pre1, base1, es1)"
      using Cons.prems(6) False by (simp add: base'_def pre'_def)
    ultimately show ?thesis using Cons.IH [OF _ lt(2) below _ fm] a by (simp add: result_ok_def)
  qed
qed

lemma wal_put_fill:
  assumes "80 \<le> cap" "unat base + length es + n < 2 ^ 64" "base \<noteq> 0" "\<forall>b \<in> fst ` set pre. b < base"
    and "length pre + n < 1024" "flush_marks base es syn dur" "fill cap [0..<n] (pre, base, es) = (pre1, base1, es1)"
  shows "\<exists>ix1. wal_put mem_kernel (log_at pre base cap es syn dur ix) n (log_disk pre base cap es) =
    (RESULT_OK, log_at pre1 base1 cap es1 (length (disk es1)) (base1 + of_nat (length es1) - 1) ix1, log_disk pre1 base1 cap es1)"
proof -
  have "\<exists>syn1 dur1 ix1. put_records mem_kernel [0..<n] (log_at pre base cap es syn dur ix) (log_disk pre base cap es) =
    (RESULT_OK, log_at pre1 base1 cap es1 syn1 dur1 ix1, log_disk pre1 base1 cap es1) \<and> flush_marks base1 es1 syn1 dur1"
    by (rule put_records_fill [OF assms(1) _ assms(3,4) _ assms(6,7)]) (use assms(2,5) in simp_all)
  then obtain syn1 dur1 ix1 where "put_records mem_kernel [0..<n] (log_at pre base cap es syn dur ix) (log_disk pre base cap es) =
    (RESULT_OK, log_at pre1 base1 cap es1 syn1 dur1 ix1, log_disk pre1 base1 cap es1)" "flush_marks base1 es1 syn1 dur1" by blast
  then show ?thesis
    by (intro exI [of _ ix1]) (auto simp: wal_put_def result_ok_def wal_sync_def log_at_def synced flush_marks_def)
qed

section \<open>Opening\<close>

lemma live_split: "sorted_wrt (<) (live (A @ (b, f) # B)) \<Longrightarrow> b \<noteq> 0 \<Longrightarrow> b \<notin> fst ` set A"
  by (auto simp: sorted_wrt_append)

lemma dirent_base_hole: "dirent_base (mf_dirent []) = None"
  by (simp add: dirent_base_def mf_dirent_def seg_name_parse_def)

lemma log_listing:
  "List.map_filter dirent_base (map mf_dirent (map fst (mf_files (log_fs segs)))) = live segs"
proof (induction segs)
  case (Cons x segs)
  then show ?case
    by (cases "fst x = 0") (simp_all add: log_fs_def List.map_filter_def mem_dirent_base dirent_base_hole case_prod_beta)
qed (simp add: List.map_filter_def)

lemma log_lists:
  assumes "segs \<noteq> []" "length segs \<le> 93"
  shows "lists_dir mem_kernel fd 4096 (\<lambda>k'. k' = log_fs segs) [map mf_dirent (map fst (mf_files (log_fs segs)))] (log_fs segs)"
proof (rule mem_lists_names)
  show "\<forall>name \<in> set (map fst (mf_files (log_fs segs))). length name \<noteq> 24 \<and> length name < 256"
    by (auto simp: log_fs_def split: if_splits)
  have "sum_list (map (\<lambda>f. 19 + length (fst f)) (mf_files (log_fs segs))) \<le> 44 * length segs"
    by (induction segs) (auto simp: log_fs_def)
  then show "sum_list (map (\<lambda>f. 19 + length (fst f)) (mf_files (log_fs segs))) \<le> 4096" using assms(2) by simp
  show "mf_files (log_fs segs) \<noteq> []" using assms(1) by (simp add: log_fs_def)
qed simp

lemma log_table:
  assumes "segs \<noteq> []" "length segs \<le> 93" "sorted_wrt (<) (live segs)"
  shows "seg_table_load mem_kernel w check_scratch (log_fs segs) = Some (RESULT_OK, w\<lparr>w_seg_base := live segs\<rparr>, log_fs segs)"
proof -
  let ?ds = "map mf_dirent (map fst (mf_files (log_fs segs)))"
  have bases: "listed_bases [?ds] = live segs" using log_listing [of segs] by simp
  have l: "lists_dir mem_kernel (w_dir_fd w) (length check_scratch) (\<lambda>k'. k' = log_fs segs) [?ds] (log_fs segs)"
    using log_lists [OF assms(1,2)] by (simp del: lists_dir.simps)
  have d: "distinct (live segs)" "length (live segs) \<le> 1024"
    using assms(2,3) le_trans [OF length_filter_le [of "\<lambda>b. b \<noteq> 0" "map fst segs"]] by (simp_all add: strict_sorted_iff)
  obtain bs where loop: "seg_table_loop mem_kernel (w_dir_fd w) (check_scratch, [], log_fs segs) = Some (RESULT_OK, bs, log_fs segs)"
    and bs: "sorted_wrt (<) bs" "set bs = set (live segs)"
    using seg_table_loop_spec [OF l, of "[]"] d unfolding bases by auto
  have "bs = live segs" by (rule strict_sorted_equal [OF assms(3) bs(1,2)])
  then show ?thesis by (simp add: seg_table_load_def loop)
qed

text \<open>Whole segments that follow each other up to the last.\<close>

primrec follow :: "nat \<Rightarrow> u64 \<Rightarrow> (u64 \<times> entry list) list \<Rightarrow> u64 \<Rightarrow> bool" where
  "follow cap e [] base \<longleftrightarrow> e = base"
| "follow cap e (x # xs) base \<longleftrightarrow> fst x = e \<and> e \<noteq> 0 \<and> seq_run e (snd x) \<and> length (disk (snd x)) \<le> cap
     \<and> follow cap (e + of_nat (length (snd x))) xs base"

definition seg_file :: "nat \<Rightarrow> u64 \<times> entry list \<Rightarrow> u64 \<times> bytes" where
  "seg_file cap x = (fst x, disk (snd x) @ replicate (cap - length (disk (snd x))) 0)"

abbreviation in_order :: "(u64 \<times> entry list) list \<Rightarrow> entry list" where
  "in_order xs \<equiv> concat (map snd xs)"

lemma log_recover:
  assumes "56 \<le> cap" "cap \<le> 4096" "length f = cap" "scan_ref f 0 b = (map read_back es, e, t)" "e = length (disk es)"
  shows "\<exists>ix. wal_seg_recover mem_kernel (seg_with (log_fs A) b cap [] 0 (b - 1)) 4096 (wal_scan_record cb) (ix0, ctx) (log_fs (A @ (b, f) # B)) =
    (RESULT_OK, seg_with (log_fs A) b cap es e (b + of_nat (length es) - 1),
     Some \<lparr>sc_records = of_nat (length es), sc_last_seq = b + of_nat (length es) - 1, sc_end_off = e, sc_torn = t\<rparr>,
     (ix, fold cb (map read_back es) ctx), log_fs (A @ (b, f) # B))"
  using mem_seg_recover [of "seg_with (log_fs A) b cap [] 0 (b - 1)" 4096 "log_fs (A @ (b, f) # B)" "map read_back es" e t
      "wal_scan_record cb" "(ix0, ctx)"] assms
  by (simp add: buffer_fits_def fold_pair seg_with_def)

lemma log_opens_file:
  assumes "b \<noteq> 0" "56 \<le> cap" "b \<notin> fst ` set A"
  shows "wal_seg_open mem_kernel s 3 b cap (log_fs (A @ (b, f) # B)) = (RESULT_OK, seg_with (log_fs A) b cap [] 0 (b - 1), log_fs (A @ (b, f) # B))"
  using mem_seg_open [OF assms(1,2) find_log [OF assms(1,3)], of s 3 f B] by (simp add: seg_reset_def seg_with_def)

lemma log_open_segs:
  assumes "56 \<le> cap" "cap \<le> 4096" "base \<noteq> 0" "length f = cap" "scan_ref f 0 base = (map read_back es, length (disk es), t)"
    and "follow cap e xs base" "sorted_wrt (<) (live (A @ map (seg_file cap) xs @ [(base, f)]))" "w_dir_fd w = 3" "w_seg_capacity w = cap"
  shows "\<exists>ix. open_segs mem_kernel 4096 cb (map fst xs @ [base]) w e n torn ctx (log_fs (A @ map (seg_file cap) xs @ [(base, f)])) =
    (RESULT_OK, w\<lparr>w_active := seg_with (log_fs (A @ map (seg_file cap) xs)) base cap es (length (disk es)) (base + of_nat (length es) - 1), w_index := ix\<rparr>,
     base + of_nat (length es), n + of_nat (length (in_order xs)) + of_nat (length es), t,
     fold cb (map read_back (in_order xs @ es)) ctx, log_fs (A @ map (seg_file cap) xs @ [(base, f)]))"
  using assms(6-)
proof (induction xs arbitrary: A w e n ctx)
  case Nil
  have "base \<notin> fst ` set A" using live_split [of A base f "[]"] Nil.prems(2) assms(3) by simp
  note op = log_opens_file [OF assms(3,1) this, of _ f "[]"]
  obtain ix where "wal_seg_recover mem_kernel (seg_with (log_fs A) base cap [] 0 (base - 1)) 4096 (wal_scan_record cb) (w_index w, ctx)
      (log_fs (A @ [(base, f)])) = (RESULT_OK, seg_with (log_fs A) base cap es (length (disk es)) (base + of_nat (length es) - 1),
     Some \<lparr>sc_records = of_nat (length es), sc_last_seq = base + of_nat (length es) - 1, sc_end_off = length (disk es), sc_torn = t\<rparr>,
     (ix, fold cb (map read_back es) ctx), log_fs (A @ [(base, f)]))"
    using log_recover [OF assms(1,2,4,5) refl, of A cb "w_index w" ctx "[]"] by blast
  with op Nil.prems show ?case by (intro exI [of _ ix]) (simp add: result_ok_def open_segs.simps)
next
  case (Cons x xs)
  obtain b es1 where x: "x = (b, es1)" by fastforce
  let ?f = "disk es1 @ replicate (cap - length (disk es1)) 0"
  let ?B = "map (seg_file cap) xs @ [(base, f)]"
  have c: "b = e" "b \<noteq> 0" "seq_run b es1" "length (disk es1) \<le> cap" "follow cap (b + of_nat (length es1)) xs base"
    using Cons.prems(1) by (auto simp: x)
  have sf: "seg_file cap (e, es1) = (e, disk es1 @ replicate (cap - length (disk es1)) 0)" by (simp add: seg_file_def)
  have files: "A @ map (seg_file cap) (x # xs) @ [(base, f)] = A @ (b, ?f) # ?B" using sf c(1) by (simp add: x)
  have "b \<notin> fst ` set A" using live_split [of A b ?f ?B] Cons.prems(2) c(2) unfolding files by simp
  note op = log_opens_file [OF c(2) assms(1) this, of _ ?f ?B]
  have sc: "scan_ref ?f 0 b = (map read_back es1, length (disk es1), False)" using scan_tail [OF c(3) scan_zeros] .
  have lf: "length ?f = cap" using c(4) by simp
  obtain ix where rc: "wal_seg_recover mem_kernel (seg_with (log_fs A) b cap [] 0 (b - 1)) 4096 (wal_scan_record cb) (w_index w, ctx)
      (log_fs (A @ (b, ?f) # ?B)) = (RESULT_OK, seg_with (log_fs A) b cap es1 (length (disk es1)) (b + of_nat (length es1) - 1),
     Some \<lparr>sc_records = of_nat (length es1), sc_last_seq = b + of_nat (length es1) - 1, sc_end_off = length (disk es1), sc_torn = False\<rparr>,
     (ix, fold cb (map read_back es1) ctx), log_fs (A @ (b, ?f) # ?B))"
    using log_recover [OF assms(1,2) lf sc refl, of A cb "w_index w" ctx ?B] by blast
  have files2: "A @ (b, ?f) # ?B = (A @ [(b, ?f)]) @ ?B" by simp
  have s2: "sorted_wrt (<) (live ((A @ [(b, ?f)]) @ map (seg_file cap) xs @ [(base, f)]))" using Cons.prems(2) unfolding files files2 .
  obtain ix2 where "open_segs mem_kernel 4096 cb (map fst xs @ [base]) (w\<lparr>w_index := ix\<rparr>) (b + of_nat (length es1)) (n + of_nat (length es1)) torn
      (fold cb (map read_back es1) ctx) (log_fs ((A @ [(b, ?f)]) @ ?B)) =
    (RESULT_OK, w\<lparr>w_index := ix, w_active := seg_with (log_fs ((A @ [(b, ?f)]) @ map (seg_file cap) xs)) base cap es (length (disk es)) (base + of_nat (length es) - 1), w_index := ix2\<rparr>,
     base + of_nat (length es), n + of_nat (length es1) + of_nat (length (in_order xs)) + of_nat (length es), t,
     fold cb (map read_back (in_order xs @ es)) (fold cb (map read_back es1) ctx), log_fs ((A @ [(b, ?f)]) @ ?B))"
    using Cons.IH [OF c(5) s2, of "w\<lparr>w_index := ix\<rparr>" "n + of_nat (length es1)" "fold cb (map read_back es1) ctx"] Cons.prems(3,4) by auto
  with op rc c(1) Cons.prems(3,4) show ?case
    by (intro exI [of _ ix2]) (simp add: x sf result_ok_def closed_again open_segs.simps add.assoc)
qed

lemma follow_nonzero: "follow cap e xs base \<Longrightarrow> 0 \<notin> fst ` set xs"
  by (induction xs arbitrary: e) auto

lemma follow_live: "follow cap e xs base \<Longrightarrow> live (map (seg_file cap) xs) = map fst xs"
  using follow_nonzero [of cap e xs base] by (induction xs arbitrary: e) (auto simp: seg_file_def)

lemma follow_head: "follow cap e xs base \<Longrightarrow> (map fst xs @ [base]) ! 0 = e"
  by (cases xs) auto

lemma mem_open_path: "os_openat mem_kernel AT_FDCWD path OPEN_DIRECTORY k = (RESULT_OK, 3, k)"
  by (simp add: os_openat_def mem_kernel_def)

lemma log_opens:
  assumes "56 \<le> cap" "cap \<le> 4096" "base \<noteq> 0" "length f = cap" "scan_ref f 0 base = (map read_back es, length (disk es), t)"
    and "follow cap e xs base" "segs = A @ map (seg_file cap) xs @ [(base, f)]" "sorted_wrt (<) (live segs)" "fst ` set A \<subseteq> {0}"
    and "length segs \<le> 93"
  shows "\<exists>ix. wal_open mem_kernel w path cap check_scratch cb ctx (log_fs segs) =
    Some (RESULT_OK, log_at (A @ map (seg_file cap) xs) base cap es (length (disk es)) (base + of_nat (length es) - 1) ix,
      \<lparr>wo_segments = Suc (length xs), wo_created = False, wo_torn = t, wo_first_seq = e, wo_last_seq = base + of_nat (length es) - 1,
       wo_records = of_nat (length (in_order xs)) + of_nat (length es)\<rparr>,
      fold cb (map read_back (in_order xs @ es)) ctx, log_fs segs)"
proof -
  have lv: "live A = []" using assms(9) by (auto simp: filter_empty_conv)
  then have live: "live (A @ map (seg_file cap) xs) = map fst xs" "live segs = map fst xs @ [base]"
    using follow_live [OF assms(6)] assms(3) by (simp_all add: assms(7))
  define w0 where "w0 = w\<lparr>w_dir_fd := -1, w_seg_capacity := cap, w_seg_base := [],
      w_active := (w_active w)\<lparr>s_fd := -1\<rparr>, w_index := wal_index_init\<rparr>"
  let ?w1 = "w0\<lparr>w_dir_fd := 3, w_seg_base := map fst xs @ [base]\<rparr>"
  let ?s = "seg_with (log_fs (A @ map (seg_file cap) xs)) base cap es (length (disk es)) (base + of_nat (length es) - 1)"
  have tab: "seg_table_load mem_kernel (w0\<lparr>w_dir_fd := 3\<rparr>) check_scratch (log_fs segs) = Some (RESULT_OK, ?w1, log_fs segs)"
    using log_table [of segs "w0\<lparr>w_dir_fd := 3\<rparr>"] assms(8,10) live by (simp add: assms(7))
  have w1: "w_dir_fd ?w1 = 3" "w_seg_capacity ?w1 = cap" "w_seg_base ?w1 = map fst xs @ [base]" by (simp_all add: w0_def)
  from log_open_segs [OF assms(1-6) assms(8) [unfolded assms(7)] w1(1,2), of cb 0 False ctx] obtain ix
    where segs: "open_segs mem_kernel 4096 cb (map fst xs @ [base]) ?w1 e 0 False ctx (log_fs segs) =
      (RESULT_OK, ?w1\<lparr>w_active := ?s, w_index := ix\<rparr>,
       base + of_nat (length es), of_nat (length (in_order xs)) + of_nat (length es), t,
       fold cb (map read_back (in_order xs @ es)) ctx, log_fs segs)" unfolding assms(7) by auto
  have res: "?w1\<lparr>w_active := ?s, w_index := ix\<rparr> = log_at (A @ map (seg_file cap) xs) base cap es (length (disk es)) (base + of_nat (length es) - 1) ix"
    unfolding log_at_def live(1) by (simp add: w0_def)
  have caps: "\<not> cap < 56" using assms(1) by simp
  show ?thesis
    unfolding wal_open_def Let_def w0_def [symmetric]
    by (intro exI [of _ ix])
      (simp add: caps mem_open_path result_ok_def tab w1 segs follow_head [OF assms(6)] flip: res)
qed

text \<open>A directory without segments gets its first.\<close>

lemma log_opens_new:
  assumes "56 \<le> cap" "lists_dir mem_kernel 3 4096 (\<lambda>k'. k' = k) dss k" "listed_bases dss = []" "absent k 1"
  shows "wal_open mem_kernel w path cap check_scratch cb ctx k =
    Some (RESULT_OK, \<lparr>w_dir_fd = 3, w_seg_capacity = cap, w_active = seg_with k 1 cap [] 0 0, w_seg_base = [1], w_index = wal_index_init\<rparr>,
      \<lparr>wo_segments = 1, wo_created = True, wo_torn = False, wo_first_seq = 1, wo_last_seq = 0, wo_records = 0\<rparr>, ctx,
      with_file k 1 (replicate cap 0))"
proof -
  have l: "lists_dir mem_kernel 3 (length check_scratch) (\<lambda>k'. k' = k) dss k" using assms(2) by simp
  have loop: "seg_table_loop mem_kernel 3 (check_scratch, [], k) = Some (RESULT_OK, [], k)"
    using seg_table_loop_spec [OF l, of "[]"] assms(3) by auto
  show ?thesis
    using created [OF assms(4), of cap] assms(1)
    by (simp add: wal_open_def mem_open_path seg_table_load_def loop result_ok_def Let_def)
qed

lemma log_opens_empty:
  assumes "56 \<le> cap"
  shows "wal_open mem_kernel w path cap check_scratch cb ctx empty_dir =
    Some (RESULT_OK, log_at [] 1 cap [] 0 0 wal_index_init,
      \<lparr>wo_segments = 1, wo_created = True, wo_torn = False, wo_first_seq = 1, wo_last_seq = 0, wo_records = 0\<rparr>, ctx,
      log_disk [] 1 cap [])"
proof -
  have "lists_dir mem_kernel 3 4096 (\<lambda>k'. k' = empty_dir) [] empty_dir" by (simp add: mem_kernel_def)
  from log_opens_new [OF assms this, of w path cb ctx] show ?thesis
    by (simp add: List.map_filter_def absent_def log_at_def log_disk_def log_fs_def)
qed

text \<open>A directory the reference refuses is refused.\<close>

lemma log_files:
  assumes "b \<noteq> 0" "b \<notin> fst ` set A"
  shows "mem_files (log_fs (A @ (b, f) # B)) (wal_seg_name b) = f"
  using find_log [OF assms, of f B] by (simp add: mem_files_def) (simp add: log_fs_def nth_append)

lemma log_refused:
  assumes "56 \<le> cap" "cap \<le> 4096" "live segs \<noteq> []" "length segs \<le> 93" "sorted_wrt (<) (live segs)"
    and "\<forall>b \<in> set (live segs). cap \<le> length (mem_files (log_fs segs) (wal_seg_name b))"
    and "scan_log (mem_files (log_fs segs)) cap (live segs) (hd (live segs)) False = None"
  shows "\<exists>w' k'. refused mem_kernel dir cap w (log_fs segs) = Some (True, w', k')"
proof -
  let ?ds = "map mf_dirent (map fst (mf_files (log_fs segs)))" and ?sc = "replicate 4096 (0 :: u8)"
  obtain r w' out k' where op: "wal_open mem_kernel w (dir @ [0]) cap ?sc (\<lambda>_ c. c) () (log_fs segs) = Some (r, w', out, (), k')"
    using wal_open_returns [OF mem_kernel_dir_finite, of w "dir @ [0]" cap ?sc "\<lambda>_ c. c" "()" "log_fs segs"] by auto
  have dir: "sys_openat mem_kernel AT_FDCWD (dir @ [0]) OPEN_DIRECTORY (log_fs segs) = (Inr 3, log_fs segs)" by (simp add: mem_kernel_def)
  have "segs \<noteq> []" using assms(3) by auto
  from lists_dir_mono [OF log_lists [OF this assms(4)], of "\<lambda>k'. mf_files k' = mf_files (log_fs segs)"]
  have l: "lists_dir mem_kernel 3 (length ?sc) (\<lambda>k'. mf_files k' = mf_files (log_fs segs)) [?ds] (log_fs segs)"
    by (simp del: lists_dir.simps)
  have lb: "listed_bases [?ds] = live segs" using log_listing [of segs] by simp
  have d: "distinct (live segs)" "length (live segs) \<le> 1024"
    using assms(4,5) le_trans [OF length_filter_le [of "\<lambda>b. b \<noteq> 0" "map fst segs"]] by (simp_all add: strict_sorted_iff)
  have fit: "buffer_fits cap (length ?sc)" using assms(1,2) by (simp add: buffer_fits_def)
  have sc: "WAL_REC_HEADER_SIZE \<le> length ?sc" by simp
  have listed: "distinct (listed_bases [?ds])" "set (listed_bases [?ds]) = set (live segs)" using d(1) unfolding lb by simp_all
  obtain w1 k2 e n t where segs: "open_segs mem_kernel (length ?sc) (\<lambda>_ c. c) (live segs) w1 (hd (live segs)) 0 False () k2 = (r, w', e, n, t, (), k')"
    and w1: "w_seg_capacity w1 = cap" "mf_files k2 = mf_files (log_fs segs)"
    using wal_open_segments [OF dir l listed assms(5,3) d(2) assms(1) sc op] by auto
  have pre: "56 \<le> w_seg_capacity w1" "0 \<notin> set (live segs)"
    "\<forall>b \<in> set (live segs). w_seg_capacity w1 \<le> length (mem_files (log_fs segs) (wal_seg_name b))"
    using assms(1,6) by (auto simp: w1)
  from open_segs_spec [OF mem_kernel_reads mem_log_on_disk fit pre w1(2) segs w1(1)] have "r \<noteq> RESULT_OK"
    using assms(7) by (auto simp only: w1 option.distinct)
  then show ?thesis unfolding refused_def open_then_def op by (simp add: result_ok_def)
qed

end
