(* ===== verification/Selfcheck_Log_Runs.thy ===== *)
theory Selfcheck_Log_Runs
  imports Selfcheck_Log_Fs
begin

text \<open>
  The program's test of the whole log run on the file system in memory: every case of it passes.
\<close>

section \<open>The cases\<close>

lemma check_cap_eq: "check_cap = 240"
  by (simp add: size24)

lemma mem_wal_close: "\<exists>r w'. wal_close mem_kernel w k = (r, w', k)"
  by (simp add: wal_close_def mem_seg_close close_dir_def Let_def)

lemma log_disk_files: "base \<noteq> 0 \<Longrightarrow> log_disk pre base cap es = log_fs (pre @ [seg_file cap (base, es)])"
  by (simp add: log_disk_def with_file_log seg_file_def)

lemma filled_runs:
  assumes "80 \<le> cap" "fill cap [0..<n] ([], 1, []) = (pre1, base1, es1)" "n < 1000" "base1 \<noteq> 0"
    and "\<And>ix. ok (log_at pre1 base1 cap es1 (length (disk es1)) (base1 + of_nat (length es1) - 1) ix)"
  shows "\<exists>w'. filled_then mem_kernel dir cap n w empty_dir ok f = f w' (log_fs (pre1 @ [seg_file cap (base1, es1)]))"
proof -
  have op: "wal_open mem_kernel w (dir @ [0]) cap check_scratch (\<lambda>_ c. c) () empty_dir =
    Some (RESULT_OK, log_at [] 1 cap [] 0 0 wal_index_init,
      \<lparr>wo_segments = 1, wo_created = True, wo_torn = False, wo_first_seq = 1, wo_last_seq = 0, wo_records = 0\<rparr>, (), log_disk [] 1 cap [])"
    using log_opens_empty [of cap w "dir @ [0]" "\<lambda>_ c. c" "()"] assms(1) by simp
  obtain ix where put: "wal_put mem_kernel (log_at [] 1 cap [] 0 0 wal_index_init) n (log_disk [] 1 cap []) =
    (RESULT_OK, log_at pre1 base1 cap es1 (length (disk es1)) (base1 + of_nat (length es1) - 1) ix, log_disk pre1 base1 cap es1)"
    using wal_put_fill [OF assms(1) _ _ _ _ _ assms(2), of 0 0 wal_index_init] assms(3) by (auto simp: flush_marks_def)
  obtain r w' where cl: "wal_close mem_kernel (log_at pre1 base1 cap es1 (length (disk es1)) (base1 + of_nat (length es1) - 1) ix)
      (log_fs (pre1 @ [seg_file cap (base1, es1)])) = (r, w', log_fs (pre1 @ [seg_file cap (base1, es1)]))" using mem_wal_close by blast
  show ?thesis
    using assms(4,5) unfolding filled_then_def open_then_def op
    by (intro exI [of _ w']) (simp add: put cl result_ok_def log_disk_files [OF assms(4)])
qed

lemma corrupted:
  assumes "b \<noteq> 0" "b \<notin> fst ` set A" "at < length f"
  shows "tmp_corrupt mem_spare dir b at (log_fs (A @ (b, f) # B)) = (True, log_fs (A @ (b, f[at := f ! at XOR 1]) # B))"
proof -
  have rd: "os_pread mem_kernel (10 + int (length A)) 1 (int at) (log_fs (A @ (b, f) # B)) = (RESULT_OK, [f ! at], log_fs (A @ (b, f) # B))"
    using assms(3) by (simp add: os_pread_def mem_kernel_def) (metis One_nat_def Cons_nth_drop_Suc take_Suc_Cons take_0)
  have wr: "os_pwrite_full mem_kernel (10 + int (length A)) [v] at (log_fs (A @ (b, f) # B)) = (RESULT_OK, log_fs (A @ (b, f[at := v]) # B))" for v
    using mem_pwrite_full [of "10 + int (length A)" "log_fs (A @ (b, f) # B)" "length A" "[v]" at] assms(3)
    by (simp add: log_fs_store write_at_byte) (simp add: log_fs_def nth_append log_fs_store [unfolded log_fs_def] write_at_byte)
  show ?thesis by (simp add: tmp_corrupt_def mem_open_file [OF assms(1,2)] rd wr result_ok_def Let_def)
qed

lemma fills:
  "fill 240 [0..<8] ([], 1, []) = (map (seg_file 240) [(1, grown_all 1 [] [0, 1, 2]), (4, grown_all 4 [] [3, 4, 5])], 7, grown_all 7 [] [6, 7])"
  "fill 240 [0..<10] ([], 1, []) = (map (seg_file 240) [(1, grown_all 1 [] [0, 1, 2]), (4, grown_all 4 [] [3, 4, 5]),
     (7, grown_all 7 [] [6, 7, 8])], 10, grown_all 10 [] [9])"
  "fill 300 [0..<4] ([], 1, []) = (map (seg_file 300) [(1, grown_all 1 [] [0, 1, 2])], 4, grown_all 4 [] [3])"
  by (simp_all add: upt_rec seg_file_def)

lemma run_all: "0 < unat base \<Longrightarrow> unat base + length is' < 2 ^ 64 \<Longrightarrow> seq_run base (grown_all base [] is')"
  by (rule grown_all_run) simp_all

text \<open>Eight records: two closed segments and one with room.\<close>

abbreviation two_segs :: "(u64 \<times> entry list) list" where
  "two_segs \<equiv> [(1, grown_all 1 [] [0, 1, 2]), (4, grown_all 4 [] [3, 4, 5])]"

lemma two_segs:
  "follow 240 1 two_segs 7" "fst ` set (map (seg_file 240) two_segs) = {1, 4}" "live (map (seg_file 240) two_segs) = [1, 4]"
  "length (map (seg_file 240) two_segs) = 2" "length (in_order two_segs) = 6"
  by (simp_all add: run_all seg_file_def del: grown_all_simps(2))

definition pre_segs :: "(u64 \<times> bytes) list" where
  "pre_segs = map (seg_file 240) two_segs"

lemmas pre_segs = two_segs(2-4) [folded pre_segs_def]

text \<open>The log of seven records and a torn eighth opens, and takes the next append in its place.\<close>

lemma torn_reopened:
  assumes "seq_run 7 es" "length es = 1" "length (disk es) = 80" "length bad = 160"
    and "scan_ref (disk es @ bad) (length (disk es)) 8 = ([], length (disk es), True)"
  shows "\<exists>w' k'. case_torn_reopen mem_kernel dir w1 (log_fs (pre_segs @ [(7, disk es @ bad)])) = Some (True, w', k')"
proof -
  let ?segs = "pre_segs @ [(7, disk es @ bad)]"
  note es = assms(2,3,1)
  have sc: "scan_ref (disk es @ bad) 0 7 = (map read_back es, length (disk es), True)"
    using scan_tail [OF es(3), of bad True] assms(2,3,5) by simp
  have srt: "sorted_wrt (<) (live ?segs)" using pre_segs by simp
  have lb: "length (disk es @ bad) = 240" using assms(3,4) by simp
  obtain ix where op: "wal_open mem_kernel w1 (dir @ [0]) 240 check_scratch (\<lambda>_ c. c) () (log_fs ?segs) =
    Some (RESULT_OK, log_at pre_segs 7 240 es 80 7 ix,
      \<lparr>wo_segments = 3, wo_created = False, wo_torn = True, wo_first_seq = 1, wo_last_seq = 7, wo_records = 7\<rparr>, (), log_fs ?segs)"
    using log_opens [OF _ _ _ lb sc two_segs(1), of ?segs "[]" w1 "dir @ [0]" "\<lambda>_ c. c" "()"] srt es two_segs(5) pre_segs
    unfolding append_Nil pre_segs_def [symmetric] by auto
  have k: "log_fs ?segs = with_file (log_fs pre_segs) 7 (disk es @ bad)" by (simp add: with_file_log)
  define es2 where "es2 = grown 7 es (rec_no 0)"
  have es2: "length es2 = 2" "length (disk es2) = 160" using es by (simp_all add: es2_def)
  obtain ix2 r2 where ap: "wal_append mem_kernel (log_at pre_segs 7 240 es 80 7 ix) (rec_no 0) (Some check_payload) check_scratch
      (with_file (log_fs pre_segs) 7 (disk es @ bad)) = (RESULT_OK, log_at pre_segs 7 240 es2 80 7 ix2, r2,
      with_file (log_fs pre_segs) 7 (disk es2 @ drop 80 bad))"
    using log_appends_over [of es 240 pre_segs 7 80 7 ix 0 bad] es unfolding es2_def by auto
  have put: "wal_put mem_kernel (log_at pre_segs 7 240 es 80 7 ix) 1 (log_fs ?segs) =
      (RESULT_OK, log_at pre_segs 7 240 es2 160 8 ix2, with_file (log_fs pre_segs) 7 (disk es2 @ drop 80 bad))"
    using ap es2 unfolding k by (simp add: wal_put_def result_ok_def wal_sync_def log_at_def synced)
  obtain r3 w3 where cl: "wal_close mem_kernel (log_at pre_segs 7 240 es2 160 8 ix2) (with_file (log_fs pre_segs) 7 (disk es2 @ drop 80 bad))
      = (r3, w3, with_file (log_fs pre_segs) 7 (disk es2 @ drop 80 bad))" using mem_wal_close by blast
  have marks: "wal_next_seq (log_at pre_segs 7 240 es 80 7 ix) = 8" "wal_durable_seq (log_at pre_segs 7 240 es2 160 8 ix2) = 8"
    using es by (simp_all add: wal_next_seq_def wal_durable_seq_def log_at_def)
  show ?thesis
    unfolding case_torn_reopen_def open_then_def check_cap_eq op by (simp add: marks put [unfolded One_nat_def] cl result_ok_def)
qed

lemma case_torn_passes: "\<exists>w' k'. case_torn mem_spare dir w empty_dir = Some (True, w', k')"
proof -
  let ?r = "(rec_no 7)\<lparr>r_seq := 8\<rparr>" and ?p = "replicate 24 (0x5A :: u8)"
  define es where "es = grown_all 7 [] [6]"
  define bad where "bad = (rec_bytes ?r ?p @ replicate 80 0)[56 := 0x5B]"
  define f where "f = disk (es @ [(?r, ?p)]) @ replicate 80 0"
  let ?segs = "pre_segs @ [(7, disk es @ bad)]"
  have es: "length es = 1" "length (disk es) = 80" "seq_run 7 es" by (simp_all add: es_def run_all del: grown_all_simps(2))
  have two: "grown_all 7 [] [6, 7] = es @ [(?r, ?p)]" by (simp add: es_def) (simp add: grown_def)
  have f: "f ! 136 = 0x5A" "length f = 240" using es by (simp_all add: f_def nth_append rec_bytes_image rec_padding_def)
  have hit: "f[136 := f ! 136 XOR 1] = disk es @ bad"
    using es by (simp add: f) (simp add: f_def list_update_append bad_def)
  have fe: "seg_file 240 (7, grown_all 7 [] [6, 7]) = (7, f)"
    using es by (simp only: two) (simp add: seg_file_def f_def)
  have cor: "tmp_corrupt mem_spare dir 7 136 (log_fs (pre_segs @ [(7, f)])) = (True, log_fs ?segs)"
    using corrupted [of 7 pre_segs 136 f dir "[]"] hit f pre_segs by simp
  let ?F = "\<lambda>w k. let (ok, k) = tmp_corrupt mem_spare dir 7 136 k in if \<not> ok then Some (False, w, k) else case_torn_reopen (net_files mem_spare) dir w k"
  have "\<exists>w1. filled_then mem_kernel dir 240 8 w empty_dir (\<lambda>_. True) ?F = ?F w1 (log_fs (pre_segs @ [(7, f)]))"
    using filled_runs [OF _ fills(1), of "\<lambda>_. True" dir w ?F] unfolding fe pre_segs_def by simp
  then obtain w1 where fl: "case_torn mem_spare dir w empty_dir = case_torn_reopen mem_kernel dir w1 (log_fs ?segs)"
    using cor by (auto simp: case_torn_def size24)
  have "scan_ref (disk es @ bad) (length (disk es)) 8 = ([], length (disk es), True)"
    using damaged_tail [of ?r "0x5B" bad "replicate 80 0" "disk es"] by (simp add: bad_def seg_fill_rec_def)
  then show ?thesis unfolding fl using es by (intro torn_reopened) (simp_all add: bad_def)
qed

text \<open>The three files of eight records, and what is refused of them.\<close>

definition whole_file :: "nat \<Rightarrow> u64 \<Rightarrow> nat list \<Rightarrow> bytes" where
  "whole_file cap b is' = snd (seg_file cap (b, grown_all b [] is'))"

lemma seg_file_whole: "seg_file cap (b, grown_all b [] is') = (b, whole_file cap b is')"
  by (simp add: whole_file_def seg_file_def)

lemma length_whole: "80 * length is' \<le> cap \<Longrightarrow> length (whole_file cap b is') = cap"
  by (simp add: whole_file_def seg_file_def)

lemma pre_segs_files: "pre_segs = [(1, whole_file 240 1 [0, 1, 2]), (4, whole_file 240 4 [3, 4, 5])]"
  by (simp add: pre_segs_def seg_file_whole del: grown_all_simps(2))

lemma files_of_three:
  fixes f1 f2 f3 :: bytes
  assumes "b2 \<noteq> 0" "1 < b2" "b2 < 7"
  defines "files \<equiv> mem_files (log_fs [(1, f1), (b2, f2), (7, f3)])"
  shows "files (wal_seg_name 1) = f1" "files (wal_seg_name b2) = f2" "files (wal_seg_name 7) = f3"
  using log_files [of 1 "[]" f1 "[(b2, f2), (7, f3)]"] log_files [of b2 "[(1, f1)]" f2 "[(7, f3)]"]
    log_files [of 7 "[(1, f1), (b2, f2)]" f3 "[]"] assms by auto

lemma filled_eight:
  "\<exists>w'. filled_then mem_kernel dir 240 8 w empty_dir (\<lambda>_. True) f = f w' (log_fs
     [(1, whole_file 240 1 [0, 1, 2]), (4, whole_file 240 4 [3, 4, 5]), (7, whole_file 240 7 [6, 7])])"
  using filled_runs [OF _ fills(1), of "\<lambda>_. True" dir w f]
  unfolding pre_segs_def [symmetric] pre_segs_files seg_file_whole by simp

lemma case_middle_passes: "\<exists>w' k'. case_middle mem_spare dir w empty_dir = Some (True, w', k')"
proof -
  let ?r = "(rec_no 3)\<lparr>r_seq := 4\<rparr>" and ?p = "replicate 24 (0x5A :: u8)"
  define f1 where "f1 = whole_file 240 1 [0, 1, 2]"
  define f4 where "f4 = whole_file 240 4 [3, 4, 5]"
  define f7 where "f7 = whole_file 240 7 [6, 7]"
  have len: "length f1 = 240" "length f4 = 240" "length f7 = 240" by (simp_all add: f1_def f4_def f7_def length_whole)
  obtain x y where "grown_all 4 [] [3, 4, 5] = [(?r, ?p), x, y]" by (simp add: grown_def)
  then obtain rest where f4: "f4 = rec_bytes ?r ?p @ rest" by (simp add: f4_def whole_file_def seg_file_def)
  define bad where "bad = f4[56 := 0x5B]"
  let ?segs = "[(1, f1), (4, bad), (7, f7)]"
  have "f4 ! 56 = 0x5A" by (simp add: f4 nth_append rec_bytes_image rec_padding_def)
  then have cor: "tmp_corrupt mem_spare dir 4 56 (log_fs [(1, f1), (4, f4), (7, f7)]) = (True, log_fs ?segs)"
    using corrupted [of 4 "[(1, f1)]" 56 f4 dir "[(7, f7)]"] len by (simp add: bad_def)
  let ?F = "\<lambda>w k. let (ok, k) = tmp_corrupt mem_spare dir 4 56 k in if \<not> ok then Some (False, w, k) else refused (net_files mem_spare) dir check_cap w k"
  obtain w1 where "filled_then mem_kernel dir 240 8 w empty_dir (\<lambda>_. True) ?F = ?F w1 (log_fs [(1, f1), (4, f4), (7, f7)])"
    using filled_eight [of dir w ?F] unfolding f1_def [symmetric] f4_def [symmetric] f7_def [symmetric] by blast
  then have fl: "case_middle mem_spare dir w empty_dir = refused mem_kernel dir 240 w1 (log_fs ?segs)"
    using cor by (simp add: case_middle_def size24)
  have lb: "length bad = 240" using len by (simp add: bad_def)
  have files: "mem_files (log_fs ?segs) (wal_seg_name 1) = f1" "mem_files (log_fs ?segs) (wal_seg_name 4) = bad"
    "mem_files (log_fs ?segs) (wal_seg_name 7) = f7" by (rule files_of_three; simp)+
  have "scan_ref bad 0 4 = ([], 0, True)"
    using damaged_tail [of ?r "0x5B" bad rest "[]" 4] by (simp add: bad_def f4 seg_fill_rec_def)
  then have "scan_log (mem_files (log_fs ?segs)) 240 ([1] @ 4 # [7]) 1 False = None"
    using files(2) lb by (intro scan_log_torn) simp_all
  then have "\<exists>w' k'. refused mem_kernel dir 240 w1 (log_fs ?segs) = Some (True, w', k')"
    using files len lb by (intro log_refused) simp_all
  then show ?thesis unfolding fl .
qed

lemma case_gap_passes: "\<exists>w' k'. case_gap mem_spare dir w empty_dir = Some (True, w', k')"
proof -
  define f1 where "f1 = whole_file 240 1 [0, 1, 2]"
  define f4 where "f4 = whole_file 240 4 [3, 4, 5]"
  define f7 where "f7 = whole_file 240 7 [6, 7]"
  have len: "length f1 = 240" "length f7 = 240" by (simp_all add: f1_def f7_def length_whole)
  let ?segs = "[(1, f1), (0, f4), (7, f7)]"
  have un: "os_unlinkat mem_kernel 3 (wal_seg_name 4) (log_fs [(1, f1), (4, f4), (7, f7)]) = (RESULT_OK, log_fs ?segs)"
    using mem_unlink [of 4 "[(1, f1)]" 3 f4 "[(7, f7)]"] by simp
  let ?F = "\<lambda>w k. let K = net_files mem_spare; (r, dfd, k) = open_dir mem_spare dir k in
       if \<not> result_ok r then Some (False, w, k)
       else let (r, k) = os_unlinkat K dfd (wal_seg_name 4) k in
       if \<not> result_ok r then Some (False, w, k)
       else refused K dir check_cap w (snd (os_close K dfd k))"
  obtain w1 where "filled_then mem_kernel dir 240 8 w empty_dir (\<lambda>_. True) ?F = ?F w1 (log_fs [(1, f1), (4, f4), (7, f7)])"
    using filled_eight [of dir w ?F] unfolding f1_def [symmetric] f4_def [symmetric] f7_def [symmetric] by blast
  then have fl: "case_gap mem_spare dir w empty_dir = refused mem_kernel dir 240 w1 (log_fs ?segs)"
    using un by (simp add: case_gap_def size24 result_ok_def)
  have files: "mem_files (log_fs ?segs) (wal_seg_name 1) = f1" "mem_files (log_fs ?segs) (wal_seg_name 7) = f7"
    using log_files [of 1 "[]" f1 "[(0, f4), (7, f7)]"] log_files [of 7 "[(1, f1), (0, f4)]" f7 "[]"] by simp_all
  have run: "seq_run 1 (grown_all 1 [] [0, 1, 2])" by (rule run_all) simp_all
  have "scan_ref f1 0 1 = (map read_back (grown_all 1 [] [0, 1, 2]), 240, False)"
    using scan_tail [OF run scan_zeros [of _ 0]] by (simp add: f1_def whole_file_def seg_file_def del: grown_all_simps(2))
  then have "scan_log (mem_files (log_fs ?segs)) 240 [1, 7] 1 False = None" using files len by (simp del: grown_all_simps(2))
  then have "\<exists>w' k'. refused mem_kernel dir 240 w1 (log_fs ?segs) = Some (True, w', k')"
    using files len by (intro log_refused) simp_all
  then show ?thesis unfolding fl .
qed

text \<open>The checksum register over the bogus header, byte by byte.\<close>

lemma bogus_register:
  "ia32_crc32qi 0xFFFFFFFF 0 = 0xAD82ACAE" "ia32_crc32qi 0xAD82ACAE 0 = 0xE9E882D" "ia32_crc32qi 0xE9E882D 0 = 0x9F9B5C85"
  "ia32_crc32qi 0x9F9B5C85 0 = 0xB798B438" "ia32_crc32qi 0xB798B438 1 = 0x48E60AC9" "ia32_crc32qi 0x48E60AC9 0 = 0xBB771B02"
  "ia32_crc32qi 0xBB771B02 0 = 0xE18007EC" "ia32_crc32qi 0xE18007EC 0 = 0xAE92E7CD" "ia32_crc32qi 0xAE92E7CD 0 = 0x7C0BF8F0"
  "ia32_crc32qi 0x7C0BF8F0 0 = 0xF312648D" "ia32_crc32qi 0xF312648D 0 = 0x3D2D65CF" "ia32_crc32qi 0x3D2D65CF 0 = 0x9DA33785"
  "ia32_crc32qi 0x9DA33785 4 = 0x70001B4C" "ia32_crc32qi 0x70001B4C 0 = 0xC48D277" "ia32_crc32qi 0xC48D277 0 = 0xA55E7834"
  "ia32_crc32qi 0xA55E7834 0 = 0xF7DC80D6" "ia32_crc32qi 0xF7DC80D6 0 = 0xF585DAC3" "ia32_crc32qi 0xF585DAC3 0 = 0xD02850EA"
  "ia32_crc32qi 0xD02850EA 0 = 0x8802A872" "ia32_crc32qi 0x8802A872 0 = 0x902B2652" "ia32_crc32qi 0x902B2652 1 = 0x42E50201"
  "ia32_crc32qi 0x42E50201 0 = 0xF2296601" "ia32_crc32qi 0xF2296601 0 = 0xF299AA65" "ia32_crc32qi 0xF299AA65 0 = 0x54C51ED4"
  "ia32_crc32qi 0x54C51ED4 0 = 0x141DB3AA" "ia32_crc32qi 0x141DB3AA 0 = 0xC9BD802D" "ia32_crc32qi 0xC9BD802D 0 = 0x9F5C7F8D"
  "ia32_crc32qi 0x9F5C7F8D 0 = 0x3D412BD4" "ia32_crc32qi 0x3D412BD4 1 = 0xE61FB49C" "ia32_crc32qi 0xE61FB49C 0 = 0xDF0D2C73"
  "ia32_crc32qi 0xDF0D2C73 0 = 0x6217AAD5" "ia32_crc32qi 0x6217AAD5 0 = 0xE640E21D" "ia32_crc32qi 0xE640E21D 0 = 0xAF90CB5E"
  "ia32_crc32qi 0xAF90CB5E 0 = 0xFDF2F53F" "ia32_crc32qi 0xFDF2F53F 0 = 0x6E0D8760" "ia32_crc32qi 0x6E0D8760 0 = 0x61A89EE5"
  "ia32_crc32qi 0x61A89EE5 0 = 0xD6A01498" "ia32_crc32qi 0xD6A01498 0 = 0x18A704CC" "ia32_crc32qi 0x18A704CC 3 = 0x9D86BDE4"
  "ia32_crc32qi 0x9D86BDE4 0 = 0x2437B9B8" "ia32_crc32qi 0x2437B9B8 0 = 0x38E81DBF" "ia32_crc32qi 0x38E81DBF 0 = 0xEC3EA6F0"
  "ia32_crc32qi 0xEC3EA6F0 0 = 0xF38251D3" "ia32_crc32qi 0xF38251D3 0 = 0xC070900E" "ia32_crc32qi 0xC070900E 1 = 0x5ED34CB4"
  "ia32_crc32qi 0x5ED34CB4 0 = 0x75D1369A" "ia32_crc32qi 0x75D1369A 0 = 0xF93F0519" "ia32_crc32qi 0xF93F0519 0 = 0x681523A6"
  "ia32_crc32qi 0x681523A6 0 = 0x8482476D" "ia32_crc32qi 0x8482476D 0 = 0xDE6A5DF6" "ia32_crc32qi 0xDE6A5DF6 0 = 0xD511E2C0"
  "ia32_crc32qi 0xD511E2C0 0 = 0xC3583726"
  by (simp_all add: crc_eval)

lemma bogus_not_verified: "\<not> wal_rec_verify (bogus_header @ rest) (rec_of (bogus_header @ rest))"
proof -
  let ?r = "(seg_fill_rec 0 1 1 1)\<lparr>r_seq := 4, r_crc := 0xDEADBEEF\<rparr>"
  have r: "rec_of (bogus_header @ rest) = ?r" by (simp only: bogus_header_def rec_codec.of_image)
  have size: "wal_rec_size (sint (r_len ?r)) = int 56" by (simp add: seg_fill_rec_def wal_rec_size_def)
  have len: "length bogus_header = 56" by (simp add: bogus_header_def)
  have body: "take (56 - 4) (drop 4 (bogus_header @ rest)) = rec_body_image ?r"
    by (simp add: bogus_header_def rec_image_def)
  have ones: "- 1 = (0xFFFFFFFF :: u32)" by simp
  have "rec_body_image ?r = [0, 0, 0, 0, 1, 0, 0, 0, 0, 0, 0, 0, 4, 0, 0, 0, 0, 0, 0, 0, 1, 0, 0, 0, 0, 0, 0, 0, 1, 0, 0, 0, 0, 0, 0, 0, 0, 0, 3, 0, 0, 0, 0, 0, 1, 0, 0, 0, 0, 0, 0, 0]"
    by code_simp
  moreover have "crc32c 0 [0, 0, 0, 0, 1, 0, 0, 0, 0, 0, 0, 0, 4, 0, 0, 0, 0, 0, 0, 0, 1, 0, 0, 0, 0, 0, 0, 0, 1, 0, 0, 0, 0, 0, 0, 0, 0, 0, 3, 0, 0, 0, 0, 0, 1, 0, 0, 0, 0, 0, 0, 0] \<noteq> 0xDEADBEEF"
    by (simp add: crc32c_eq ones bogus_register)
  ultimately have "crc32c 0 (rec_body_image ?r) \<noteq> 0xDEADBEEF" by simp
  then show ?thesis
    using wal_rec_verify_iff [OF size _ _, of "bogus_header @ rest"] len unfolding r body by simp
qed

lemma tail_planted:
  fixes f1 f4 :: bytes
  assumes "length f1 = 300"
  shows "os_openat mem_kernel 3 (wal_seg_name 1) OPEN_RDWR (log_fs [(1, f1), (4, f4)]) = (RESULT_OK, 10, log_fs [(1, f1), (4, f4)])"
    "os_pwrite_full mem_kernel 10 bogus_header 240 (log_fs [(1, f1), (4, f4)]) = (RESULT_OK, log_fs [(1, write_at 240 bogus_header f1), (4, f4)])"
proof -
  show "os_openat mem_kernel 3 (wal_seg_name 1) OPEN_RDWR (log_fs [(1, f1), (4, f4)]) = (RESULT_OK, 10, log_fs [(1, f1), (4, f4)])"
    using mem_open_file [of 1 "[]" 3 f1 "[(4, f4)]"] by simp
  have "length bogus_header = 56" by (simp add: bogus_header_def)
  then have "bogus_header \<noteq> []" by (metis list.size(3) zero_neq_numeral)
  moreover have "mf_index 10 (log_fs [(1, f1), (4, f4)]) = Some 0" "snd (mf_files (log_fs [(1, f1), (4, f4)]) ! 0) = f1"
    by (simp_all add: log_fs_def mf_index_def)
  moreover have "mf_store 0 g (log_fs [(1, f1), (4, f4)]) = log_fs [(1, g), (4, f4)]" for g using log_fs_store [of "[]" g 1 f1 "[(4, f4)]"] by simp
  ultimately show "os_pwrite_full mem_kernel 10 bogus_header 240 (log_fs [(1, f1), (4, f4)]) = (RESULT_OK, log_fs [(1, write_at 240 bogus_header f1), (4, f4)])"
    using mem_pwrite_full [of 10 "log_fs [(1, f1), (4, f4)]" 0 bogus_header 240] by simp
qed

lemma case_tail_passes: "\<exists>w' k'. case_tail mem_spare dir w empty_dir = Some (True, w', k')"
proof -
  define es where "es = grown_all 1 [] [0, 1, 2]"
  define rest where "rest = bogus_header @ replicate 4 0"
  define f1 where "f1 = whole_file 300 1 [0, 1, 2]"
  define f4 where "f4 = whole_file 300 4 [3]"
  have len: "length f1 = 300" "length f4 = 300" by (simp_all add: f1_def f4_def length_whole)
  have es: "length es = 3" "length (disk es) = 240" "seq_run 1 es" by (simp_all add: es_def run_all del: grown_all_simps(2))
  have bh: "length bogus_header = 56" by (simp add: bogus_header_def)
  then have ne: "bogus_header \<noteq> []" by (metis list.size(3) zero_neq_numeral)
  have f1: "f1 = disk es @ replicate 60 0" using es unfolding f1_def whole_file_def es_def [symmetric] by (simp add: seg_file_def)
  let ?segs = "[(1, disk es @ rest), (4, f4)]"
  have "write_at 240 bogus_header f1 = disk es @ rest" using write_at_tail [of bogus_header 60 "disk es"] bh ne es by (simp add: f1 rest_def)
  note op = tail_planted(1) [OF len(1), of f4] and pl = tail_planted(2) [OF len(1), of f4, unfolded this]
  let ?ok = "\<lambda>w. wal_segments w = 2 \<and> w_seg_base w ! 1 = 4"
  let ?F = "\<lambda>w k. let K = net_files mem_spare; (r, dfd, k) = open_dir mem_spare dir k in
        if \<not> result_ok r then Some (False, w, k)
        else let (r, sfd, k) = os_openat K dfd (wal_seg_name 1) OPEN_RDWR k in
        if \<not> result_ok r then Some (False, w, k)
        else let (r, k) = os_pwrite_full K sfd bogus_header (nat (wal_rec_size 24 * 3)) k in
        if \<not> result_ok r then Some (False, w, k)
        else let k = snd (os_close K dfd (snd (os_close K sfd k)))
             in refused K dir 300 w k"
  have "\<exists>w1. filled_then mem_kernel dir 300 4 w empty_dir ?ok ?F = ?F w1 (log_fs [(1, f1), (4, f4)])"
    using filled_runs [OF _ fills(3), of ?ok dir w ?F]
    unfolding list.map seg_file_whole f1_def f4_def by (simp add: log_at_def wal_segments_def)
  then obtain w1 where "filled_then mem_kernel dir 300 4 w empty_dir ?ok ?F = ?F w1 (log_fs [(1, f1), (4, f4)])" by blast
  then have fl: "case_tail mem_spare dir w empty_dir = refused mem_kernel dir 300 w1 (log_fs ?segs)"
    using op pl by (simp add: case_tail_def size24 result_ok_def)
  have rest: "length rest = 60" "rec_of rest = (seg_fill_rec 0 1 1 1)\<lparr>r_seq := 4, r_crc := 0xDEADBEEF\<rparr>"
    by (simp add: rest_def bh) (simp only: rest_def bogus_header_def rec_codec.of_image)
  have "scan_ref (disk es @ rest) (length (disk es)) 4 = ([], length (disk es), True)"
    using scan_stops [OF _ rest(2), of 56 4 "disk es"] bogus_not_verified [of "replicate 4 0"] rest
    by (simp add: seg_fill_rec_def wal_rec_size_def flip: rest_def)
  then have sc: "scan_ref (disk es @ rest) 0 1 = (map read_back es, 240, True)"
    using scan_tail [OF es(3), of rest True] es by simp
  have files: "mem_files (log_fs ?segs) (wal_seg_name 1) = disk es @ rest" "mem_files (log_fs ?segs) (wal_seg_name 4) = f4"
    using log_files [of 1 "[]" "disk es @ rest" "[(4, f4)]"] log_files [of 4 "[(1, disk es @ rest)]" f4 "[]"] by simp_all
  have lr: "length (disk es @ rest) = 300" using es rest by simp
  have "scan_log (mem_files (log_fs ?segs)) 300 ([] @ 1 # [4]) 1 False = None"
    using files(1) lr sc by (intro scan_log_torn) simp_all
  then have "\<exists>w' k'. refused mem_kernel dir 300 w1 (log_fs ?segs) = Some (True, w', k')"
    using files len lr by (intro log_refused) simp_all
  then show ?thesis unfolding fl .
qed

text \<open>Names that are no segments.\<close>

lemma find_none: "mf_find name fs 0 = None \<longleftrightarrow> name \<notin> fst ` set fs"
  by (induction fs) (auto simp: mf_find_Cons simp del: mf_find.simps(2))

lemma touched:
  "(nm @ [0]) \<notin> fst ` set (mf_files k) \<Longrightarrow> tmp_touch mem_spare dir nm k = (True, k\<lparr>mf_files := mf_files k @ [(nm @ [0], [])]\<rparr>)"
  by (simp add: tmp_touch_def os_openat_def mem_kernel_def [THEN arg_cong [where f = sys_openat]] find_none [symmetric] result_ok_def Let_def)

lemma touched_all:
  "distinct nms \<Longrightarrow> \<forall>nm \<in> set nms. (nm @ [0]) \<notin> fst ` set (mf_files k) \<Longrightarrow>
     touch_all mem_spare dir nms k = (True, k\<lparr>mf_files := mf_files k @ map (\<lambda>nm. (nm @ [0], [])) nms\<rparr>)"
proof (induction nms arbitrary: k)
  case (Cons nm nms)
  let ?k = "k\<lparr>mf_files := mf_files k @ [(nm @ [0], [])]\<rparr>"
  have "\<forall>nm \<in> set nms. (nm @ [0]) \<notin> fst ` set (mf_files ?k)" using Cons.prems by auto
  with Cons.IH [of ?k] Cons.prems show ?case by (simp add: touched)
qed simp

lemma decoy_facts:
  "distinct decoys" "\<forall>nm \<in> set decoys. length (nm @ [0]) \<noteq> 24 \<and> length (nm @ [0]) < 256"
  "sum_list (map (\<lambda>nm. 20 + length nm) decoys) \<le> 4096" "wal_seg_name 1 \<notin> (\<lambda>nm. nm @ [0]) ` set decoys"
  "List.map_filter dirent_base (map (\<lambda>nm. mf_dirent (nm @ [0])) decoys) = []"
  by code_simp+

lemma case_decoys_passes: "\<exists>w' k'. case_decoys mem_spare dir w empty_dir = Some (True, w', k')"
proof -
  define k where "k = \<lparr>mf_files = map (\<lambda>nm. (nm @ [0], [])) decoys, mf_listed = False\<rparr>"
  have touch: "touch_all mem_spare dir decoys empty_dir = (True, k)" using touched_all [OF decoy_facts(1), of empty_dir dir] by (simp add: k_def)
  have l: "lists_dir mem_kernel 3 4096 (\<lambda>k'. k' = k) [map mf_dirent (map fst (mf_files k))] k"
    using decoy_facts(2,3) by (intro mem_lists_names) (auto simp: k_def o_def decoys_def)
  have "listed_bases [map mf_dirent (map fst (mf_files k))] = []" using decoy_facts(5) by (simp add: k_def o_def)
  moreover have "absent k 1" using decoy_facts(4) by (auto simp: absent_def find_none k_def)
  ultimately have op: "wal_open mem_kernel w (dir @ [0]) 240 check_scratch (\<lambda>_ c. c) () k =
    Some (RESULT_OK, \<lparr>w_dir_fd = 3, w_seg_capacity = 240, w_active = seg_with k 1 240 [] 0 0, w_seg_base = [1], w_index = wal_index_init\<rparr>,
      \<lparr>wo_segments = 1, wo_created = True, wo_torn = False, wo_first_seq = 1, wo_last_seq = 0, wo_records = 0\<rparr>, (),
      with_file k 1 (replicate 240 0))"
    using log_opens_new [OF _ l, of 240 w "dir @ [0]" "\<lambda>_ c. c" "()"] by simp
  obtain r w' k' where cl: "wal_close mem_kernel \<lparr>w_dir_fd = 3, w_seg_capacity = 240, w_active = seg_with k 1 240 [] 0 0, w_seg_base = [1],
      w_index = wal_index_init\<rparr> (with_file k 1 (replicate 240 0)) = (r, w', k')" by (metis prod_cases3)
  show ?thesis unfolding case_decoys_def touch mem_spare_simps open_then_def check_cap_eq by (simp only: op prod.case option.case Let_def) (simp add: result_ok_def cl)
qed

text \<open>Ten records: three closed segments and one record in the fourth.\<close>

abbreviation three_segs :: "(u64 \<times> entry list) list" where
  "three_segs \<equiv> [(1, grown_all 1 [] [0, 1, 2]), (4, grown_all 4 [] [3, 4, 5]), (7, grown_all 7 [] [6, 7, 8])]"

lemma mem_retain_unlink_front:
  assumes "\<forall>b \<in> fst ` set xs. b \<noteq> 0" "distinct (map fst xs)" "fst ` set A \<subseteq> {0}"
  shows "retain_unlink mem_kernel dir (map fst xs) i (log_fs (A @ xs @ B)) =
    (RESULT_OK, i + length xs, log_fs (A @ map (\<lambda>(b, f). (0, f)) xs @ B))"
  using assms
proof (induction xs arbitrary: A i)
  case (Cons x xs)
  obtain b f where x: "x = (b, f)" by fastforce
  have b: "b \<noteq> 0" using Cons.prems(1) by (simp add: x)
  moreover have "b \<notin> fst ` set A" using b Cons.prems(3) by blast
  ultimately have un: "os_unlinkat mem_kernel dir (wal_seg_name b) (log_fs (A @ (b, f) # xs @ B)) = (RESULT_OK, log_fs (A @ (0, f) # xs @ B))"
    by (rule mem_unlink)
  have "\<forall>b \<in> fst ` set xs. b \<noteq> 0" "distinct (map fst xs)" "fst ` set (A @ [(0, f)]) \<subseteq> {0}" using Cons.prems by auto
  from Cons.IH [OF this, of "Suc i"]
  have ih: "retain_unlink mem_kernel dir (map fst xs) (Suc i) (log_fs (A @ (0, f) # xs @ B)) =
      (RESULT_OK, Suc i + length xs, log_fs (A @ (0, f) # map (\<lambda>(b, f). (0, f)) xs @ B))" by (simp only: append_assoc append_Cons append_Nil)
  show ?case by (simp add: x un ih result_ok_def)
qed simp

lemma mem_fsync: "os_fsync mem_kernel fd k = (RESULT_OK, k)"
  by (simp add: os_fsync_def mem_kernel_def)

lemma mem_retain:
  assumes "retain_drop keep (w_seg_base w) = length xs" "w_seg_base w = map fst xs @ bs" "xs \<noteq> []"
    and "\<forall>b \<in> fst ` set xs. b \<noteq> 0" "distinct (map fst xs)" "fst ` set A \<subseteq> {0}"
  shows "wal_retain mem_kernel w keep (log_fs (A @ xs @ B)) =
    (RESULT_OK, w\<lparr>w_seg_base := bs\<rparr>, length xs, log_fs (A @ map (\<lambda>(b, f). (0, f)) xs @ B))"
  using assms mem_retain_unlink_front [OF assms(4-6), of "w_dir_fd w" 0 B]
  by (simp add: wal_retain_def mem_fsync result_ok_def Let_def)

lemma case_left_passes:
  assumes "fst ` set A \<subseteq> {0}" "length A \<le> 3"
  shows "\<exists>w' k'. case_left mem_kernel dir w (log_fs (A @ [(10, whole_file 240 10 [9])])) = Some (True, w', k')"
proof -
  define es where "es = grown_all 10 [] [9]"
  have es: "length es = 1" "length (disk es) = 80" "seq_run 10 es" by (simp_all add: es_def run_all del: grown_all_simps(2))
  have f: "whole_file 240 10 [9] = disk es @ replicate 160 0" using es unfolding whole_file_def es_def [symmetric] by (simp add: seg_file_def)
  have sc: "scan_ref (disk es @ replicate 160 0) 0 10 = (map read_back es, length (disk es), False)" using scan_tail [OF es(3) scan_zeros] .
  have lf: "length (disk es @ replicate 160 (0 :: u8)) = 240" using es by simp
  have lv: "live A = []" using assms(1) by (auto simp: filter_empty_conv)
  let ?segs = "A @ [(10, disk es @ replicate 160 0)]"
  obtain ix where op: "wal_open mem_kernel w (dir @ [0]) 240 check_scratch (\<lambda>_ c. c) () (log_fs ?segs) =
    Some (RESULT_OK, log_at A 10 240 es 80 10 ix,
      \<lparr>wo_segments = 1, wo_created = False, wo_torn = False, wo_first_seq = 10, wo_last_seq = 10, wo_records = 1\<rparr>, (), log_fs ?segs)"
    using log_opens [OF _ _ _ lf sc, of 10 "[]" ?segs A w "dir @ [0]" "\<lambda>_ c. c" "()"] es lv assms by auto
  obtain r w' where cl: "wal_close mem_kernel (log_at A 10 240 es 80 10 ix) (log_fs ?segs) = (r, w', log_fs ?segs)" using mem_wal_close by blast
  show ?thesis unfolding f case_left_def open_then_def check_cap_eq op by (simp add: result_ok_def cl)
qed

lemma case_retain_passes:
  fixes f1 f4 f7 :: bytes
  assumes "w_seg_base w = [1, 4, 7, 10]"
  defines "segs \<equiv> [(1, f1), (4, f4), (7, f7), (10, whole_file 240 10 [9])]"
  shows "\<exists>w' k'. case_retain mem_kernel dir w (log_fs segs) = Some (True, w', k')"
proof -
  let ?f10 = "whole_file 240 10 [9]"
  have r1: "wal_retain mem_kernel w 7 (log_fs segs) = (RESULT_OK, w\<lparr>w_seg_base := [7, 10]\<rparr>, 2, log_fs [(0, f1), (0, f4), (7, f7), (10, ?f10)])"
    using mem_retain [of 7 w "[(1, f1), (4, f4)]" "[7, 10]" "[]" "[(7, f7), (10, ?f10)]"] assms by simp
  have r2: "wal_retain mem_kernel (w\<lparr>w_seg_base := [7, 10]\<rparr>) 7 k = (RESULT_OK, w\<lparr>w_seg_base := [7, 10]\<rparr>, 0, k)" for k
    by (simp add: wal_retain_def)
  have r3: "wal_retain mem_kernel (w\<lparr>w_seg_base := [7, 10]\<rparr>) 1000 (log_fs [(0, f1), (0, f4), (7, f7), (10, ?f10)]) =
      (RESULT_OK, w\<lparr>w_seg_base := [10]\<rparr>, 1, log_fs ([(0, f1), (0, f4), (0, f7)] @ [(10, ?f10)]))"
    using mem_retain [of 1000 "w\<lparr>w_seg_base := [7, 10]\<rparr>" "[(7, f7)]" "[10]" "[(0, f1), (0, f4)]" "[(10, ?f10)]"] by simp
  let ?k = "log_fs ([(0, f1), (0, f4), (0, f7)] @ [(10, ?f10)])"
  obtain r w2 where cl: "wal_close mem_kernel (w\<lparr>w_seg_base := [10]\<rparr>) ?k = (r, w2, ?k)" using mem_wal_close by blast
  have fin: "\<exists>w' k'. case_left mem_kernel dir w2 ?k = Some (True, w', k')" by (rule case_left_passes) simp_all
  show ?thesis
    using fin unfolding case_retain_def r1 prod.case Let_def
    by (simp add: r2 r3 cl result_ok_def wal_segments_def wal_first_seq_def del: append_Cons append_Nil)
qed

definition three_files :: "(u64 \<times> bytes) list" where
  "three_files = map (seg_file 240) three_segs"

lemma three_files:
  "three_files = [(1, whole_file 240 1 [0, 1, 2]), (4, whole_file 240 4 [3, 4, 5]), (7, whole_file 240 7 [6, 7, 8])]"
  by (simp add: three_files_def seg_file_whole del: grown_all_simps(2))

lemma three_segs:
  "follow 240 1 three_segs 10" "live three_files = [1, 4, 7]" "length three_files = 3" "length (in_order three_segs) = 9"
  by (simp_all add: run_all three_files_def seg_file_def del: grown_all_simps(2))

lemma case_reopen_passes:
  "\<exists>w' k'. case_reopen mem_kernel dir w (log_fs (three_files @ [(10, whole_file 240 10 [9])])) = Some (True, w', k')"
proof -
  define es where "es = grown_all 10 [] [9]"
  have es: "length es = 1" "length (disk es) = 80" "seq_run 10 es" by (simp_all add: es_def run_all del: grown_all_simps(2))
  have f: "whole_file 240 10 [9] = disk es @ replicate 160 0" using es unfolding whole_file_def es_def [symmetric] by (simp add: seg_file_def)
  have sc: "scan_ref (disk es @ replicate 160 0) 0 10 = (map read_back es, length (disk es), False)" using scan_tail [OF es(3) scan_zeros] .
  have lf: "length (disk es @ replicate 160 (0 :: u8)) = 240" using es by simp
  let ?segs = "three_files @ [(10, whole_file 240 10 [9])]"
  have srt: "sorted_wrt (<) (live ?segs)" using three_segs(2) by simp
  obtain ix where op: "wal_open mem_kernel w (dir @ [0]) 240 check_scratch (\<lambda>_ c. c) () (log_fs ?segs) =
    Some (RESULT_OK, log_at three_files 10 240 es 80 10 ix,
      \<lparr>wo_segments = 4, wo_created = False, wo_torn = False, wo_first_seq = 1, wo_last_seq = 10, wo_records = 10\<rparr>, (), log_fs ?segs)"
    using log_opens [OF _ _ _ lf sc three_segs(1), of ?segs "[]" w "dir @ [0]" "\<lambda>_ c. c" "()"] srt es three_segs(3,4)
    unfolding append_Nil three_files_def [symmetric] f by auto
  have base: "w_seg_base (log_at three_files 10 240 es 80 10 ix) = [1, 4, 7, 10]" "wal_next_seq (log_at three_files 10 240 es 80 10 ix) = 11"
    using three_segs(2) es by (simp_all add: log_at_def wal_next_seq_def)
  have "\<exists>w' k'. case_retain mem_kernel dir (log_at three_files 10 240 es 80 10 ix) (log_fs ?segs) = Some (True, w', k')"
    using case_retain_passes [OF base(1), of dir "whole_file 240 1 [0, 1, 2]" "whole_file 240 4 [3, 4, 5]" "whole_file 240 7 [6, 7, 8]"]
    by (simp only: three_files append_Cons append_Nil)
  then show ?thesis unfolding case_reopen_def open_then_def check_cap_eq op by (simp add: base(2) result_ok_def)
qed

lemma case_rollover_passes: "\<exists>w' k'. case_rollover mem_kernel dir w empty_dir = Some (True, w', k')"
proof -
  define es where "es = grown_all 10 [] [9]"
  have es: "length es = 1" "length (disk es) = 80" by (simp_all add: es_def)
  have op: "wal_open mem_kernel w (dir @ [0]) 240 check_scratch (\<lambda>_ c. c) () empty_dir =
    Some (RESULT_OK, log_at [] 1 240 [] 0 0 wal_index_init,
      \<lparr>wo_segments = 1, wo_created = True, wo_torn = False, wo_first_seq = 1, wo_last_seq = 0, wo_records = 0\<rparr>, (), log_disk [] 1 240 [])"
    using log_opens_empty [of 240 w "dir @ [0]" "\<lambda>_ c. c" "()"] by simp
  let ?k = "log_fs (three_files @ [(10, whole_file 240 10 [9])])"
  have k: "log_disk three_files 10 240 es = ?k" by (simp add: log_disk_files es_def seg_file_whole del: grown_all_simps(2))
  obtain ix where put: "wal_put mem_kernel (log_at [] 1 240 [] 0 0 wal_index_init) 10 (log_disk [] 1 240 []) =
    (RESULT_OK, log_at three_files 10 240 es 80 10 ix, ?k)"
    using wal_put_fill [OF _ _ _ _ _ _ fills(2), of 0 0 wal_index_init] es
    unfolding three_files_def [symmetric] es_def [symmetric] k by (auto simp: flush_marks_def)
  let ?w = "log_at three_files 10 240 es 80 10 ix" and ?big = "seg_fill_rec 240 1 99 1"
  have base: "w_seg_base ?w = [1, 4, 7, 10]" "wal_next_seq ?w = 11" "wal_durable_seq ?w = 10" "wal_segments ?w = 4"
    using three_segs(2) es by (simp_all add: log_at_def wal_next_seq_def wal_durable_seq_def wal_segments_def)
  have fresh: "wal_next_seq (log_at [] 1 240 [] 0 0 wal_index_init) = 1" "wal_durable_seq (log_at [] 1 240 [] 0 0 wal_index_init) = 0"
    by (simp_all add: log_at_def wal_next_seq_def wal_durable_seq_def)
  have big: "wal_append mem_kernel ?w ?big (Some check_payload) check_scratch ?k = (RESULT_ERR ERR_INVALID 0, ?w, ?big, ?k)"
    by (simp add: wal_append_def seg_fill_rec_def wal_rec_size_def log_at_def)
  obtain r w1 where cl: "wal_close mem_kernel ?w ?k = (r, w1, ?k)" using mem_wal_close by blast
  show ?thesis
    using case_reopen_passes [of dir w1] unfolding case_rollover_def open_then_def check_cap_eq op
    by (simp add: base fresh put big cl result_ok_def)
qed

section \<open>The whole test\<close>

lemma wal_case_passes:
  assumes "\<And>dir w. \<exists>w' k'. body dir w empty_dir = Some (True, w', k')"
  shows "\<exists>w' k'. wal_case mem_spare tag body w k = Some (True, w', k')"
proof -
  obtain dir k1 where d: "seg_tmp_path mem_spare tag k = (dir, k1)" by fastforce
  obtain w' k' where "body dir w empty_dir = Some (True, w', k')" using assms by blast
  moreover obtain k2 where "tmp_dir_destroy mem_spare dir k' = Some k2" using mem_dir_destroyed by blast
  ultimately show ?thesis by (simp add: wal_case_def d result_ok_def)
qed

lemma wal_cases_pass:
  assumes "\<forall>c \<in> set cs. \<forall>dir w. \<exists>w' k'. snd c dir w empty_dir = Some (True, w', k')"
  shows "\<exists>w' k'. wal_cases mem_spare cs w k = Some (True, w', k')"
  using assms
proof (induction cs arbitrary: w k)
  case (Cons c cs)
  obtain w1 k1 where "wal_case mem_spare (fst c) (snd c) w k = Some (True, w1, k1)"
    using wal_case_passes [of "snd c" "fst c" w k] Cons.prems by auto
  with Cons show ?case by simp
qed simp

lemma selfcheck_wal_passes: "\<exists>k'. selfcheck_wal mem_spare w k = Some (0, k')"
proof -
  let ?cs = "[(1, case_rollover (net_files mem_spare)), (2, case_torn mem_spare), (3, case_middle mem_spare), (4, case_gap mem_spare),
    (6, case_tail mem_spare), (5, case_decoys mem_spare)]"
  have "\<forall>c \<in> set ?cs. \<forall>dir w. \<exists>w' k'. snd c dir w empty_dir = Some (True, w', k')"
    by (simp add: case_rollover_passes case_torn_passes case_middle_passes case_gap_passes case_tail_passes case_decoys_passes)
  from wal_cases_pass [OF this, of w k] show ?thesis by (auto simp: selfcheck_wal_def simp del: mem_spare_simps)
qed

end
