(* ===== verification/Selfcheck.thy ===== *)
theory Selfcheck
  imports Selfcheck_Wal Selfcheck_Tables Selfcheck_Conn Selfcheck_Segment_Runs Selfcheck_Log_Runs
begin

text \<open>
  The program's tests of itself (\<^verbatim>\<open>src/server/selfcheck.c\<close>) that touch no socket, together: the
  model of the program passes every one of them, those on files over the file system in memory.
\<close>

lemma selfchecks_all:
  assumes "312 \<le> cap" "cap < 2 ^ 31" "length big = MSG_MAX_PAYLOAD + 64" "length cb = 4096" "length w = 4096"
  shows "fst (selfcheck_arena (arena_init cap) base) = 0 \<and> selfcheck_crc32c True = 0 \<and> selfcheck_header = 0
    \<and> selfcheck_payloads = 0 \<and> selfcheck_wal_record = 0 \<and> selfcheck_wal_index = 0
    \<and> (let (rc, cb, w) = selfcheck_conn_framing big cb w in rc = 0 \<and> fst (selfcheck_conn_session cb w) = 0)
    \<and> selfcheck_sessions even_pool 0 = 0 \<and> fst (selfcheck_err file err_init) = 0
    \<and> (\<exists>k'. selfcheck_wal_segment mem_spare k = Some (0, k'))
    \<and> (\<exists>k'. selfcheck_wal mem_spare wal k = Some (0, k'))"
proof -
  obtain cb' w' where f: "selfcheck_conn_framing big cb w = (0, cb', w')" "length cb' = 4096" "length w' = 4096"
    using selfcheck_conn_framing_passes [OF assms(3-5)] by blast
  obtain cb'' w'' where s: "selfcheck_conn_session cb' w' = (0, cb'', w'')"
    using selfcheck_conn_session_passes [OF f(2,3)] by blast
  show ?thesis
    using selfcheck_arena_passes [OF assms(1,2)] f(1) s selfcheck_wal_segment_passes [of k] selfcheck_wal_passes [of wal k]
    by (simp add: selfcheck_crc32c_passes selfcheck_header_passes selfcheck_payloads_passes selfcheck_wal_record_passes
        selfcheck_wal_index_passes selfcheck_sessions_passes selfcheck_err_passes)
qed

text \<open>C32. The model passes the program's tests of itself: the arena, the checksum and its published values,
  the frame header, the payload codecs, the log record under corruption, the key index overfilled,
  the framing of a connection and the order of a session (in that order, over buffers left by the one
  before), the session table filled and overflowed with a random pool that does not repeat, the
  error stack, and one log segment on a file system in memory: created, filled, flushed, reopened,
  torn, planted with a stale record and an overlong one, overfilled and scanned in small blocks; and the
  whole log on it: rolled over, reopened, cut by retention, torn in its last segment, and refused when
  damaged before that, when a segment is missing, and when the tail of a middle one is torn. The static
  buffers may hold anything at first.\<close>

theorem selfchecks_pass:
  assumes "312 \<le> cap" "cap < 2 ^ 31" "length big = MSG_MAX_PAYLOAD + 64" "length cb = 4096" "length w = 4096"
  shows "fst (selfcheck_arena (arena_init cap) base) = 0 \<and> selfcheck_crc32c True = 0 \<and> selfcheck_header = 0
    \<and> selfcheck_payloads = 0 \<and> selfcheck_wal_record = 0 \<and> selfcheck_wal_index = 0
    \<and> (let (rc, cb, w) = selfcheck_conn_framing big cb w in rc = 0 \<and> fst (selfcheck_conn_session cb w) = 0)
    \<and> selfcheck_sessions even_pool 0 = 0 \<and> fst (selfcheck_err file err_init) = 0
    \<and> (\<exists>k'. selfcheck_wal_segment mem_spare k = Some (0, k'))
    \<and> (\<exists>k'. selfcheck_wal mem_spare wal k = Some (0, k'))"
  by (rule selfchecks_all [OF assms])

theorem selfchecks_pass_witness:
  "fst (selfcheck_arena (arena_init 4096) []) = 0 \<and> selfcheck_sessions even_pool 0 = 0
    \<and> fst (selfcheck_conn_framing (replicate (MSG_MAX_PAYLOAD + 64) 0) (replicate 4096 0) (replicate 4096 0)) = 0
    \<and> (\<exists>k'. selfcheck_wal_segment mem_spare fs_example = Some (0, k')) \<and> (\<exists>k'. selfcheck_wal mem_spare wal_blank fs_example = Some (0, k'))"
  using selfchecks_pass [of 4096 "replicate (MSG_MAX_PAYLOAD + 64) 0" "replicate 4096 0" "replicate 4096 0" "[]" "''selfcheck.c''" fs_example wal_blank]
  by (simp add: case_prod_beta Let_def)

end
