(* ===== verification/Spec2Isabelle.thy ===== *)
theory Spec2Isabelle
  imports Core_Mem Err_Stack Crc32c Msg Conn Wal_Record Wal_Index Os Wal_Segment Wal Wal_Open Wal_Mem Wal_Listing Wal_Crash Wal_Torn Wal_Read Session Net Fmt
    Loop_State Metrics Scrape Loop_Frames Loop_Push Loop_Events Loop_Tick Loop_Inv Loop_Steps Loop_Peers Loop_Acks Loop_Writes
    Loop_Delivery Loop_Replication Loop_Retain Loop_Metrics Arguments Arguments_Facts Main_Program Os_Spare Tiny Selfcheck
begin

text \<open>
  A verification library for msgsrvd, a message server whose clients' writes go to a
  write-ahead log before they are acknowledged, on one node or on a leader and its replicas.
  All paths are under \<^verbatim>\<open>src/\<close>.

  \<^bold>\<open>The program.\<close> One thread runs \<^verbatim>\<open>loop_run\<close> (\<^verbatim>\<open>server/loop.c\<close>). Every pass waits for readiness
  (epoll), accepts connections, receives bytes and cuts them into frames (\<^verbatim>\<open>proto/conn.c\<close>),
  handles each frame (HELLO, WRITE, READ, SUBSCRIBE, REPL_START, REPL_ACK, PING), appends what is
  written to the log (\<^verbatim>\<open>wal/\<close>), flushes the log once, and only then stages what the flush
  makes true: acknowledgements, records for subscribers, records for replicas. A follower dials
  its leader and appends the leader's records unchanged. A small second endpoint serves metrics.
  \<^verbatim>\<open>server/main.c\<close> parses arguments, opens the log and starts the loop.

  \<^bold>\<open>Theories, in the order of the code's layers.\<close>
    \<^item> Prelude: lemmas on byte lists, little-endian words and option steps the others share.
    \<^item> Core_Mem (\<^verbatim>\<open>core/types.h, mem.h, arena.h\<close>), Err_Stack (\<^verbatim>\<open>core/err.h\<close>), Fmt (\<^verbatim>\<open>core/fmt.h\<close>).
    \<^item> Crc32c (\<^verbatim>\<open>core/crc32c.c\<close>): the two crc32 instructions as the shift register they are,
      the quadword loop, and its equality with the byte-at-a-time checksum.
    \<^item> Msg (\<^verbatim>\<open>proto/msg.h\<close>): the frame header, the payload structs, their codecs. The locale
      \<open>codec\<close> states the two laws of a fixed-size codec and is interpreted on each of them, and on
      the log's record header.
    \<^item> Conn (\<^verbatim>\<open>proto/conn.c\<close>): receive buffer and framing.
    \<^item> Wal_Record, Wal_Index, Wal_Segment, Wal (with the proofs about opening in Wal_Open) and
      Wal_Read (\<^verbatim>\<open>wal/\<close>): records, the key index (locale \<open>key_index\<close>), one segment file, the
      log as a directory of segments, retention and cursors. Wal_Mem runs the log on the file
      system in memory, Wal_Listing is the directory listing, Wal_Crash the log across a crash and
      Wal_Torn what a torn tail left in place can do to it.
    \<^item> Session (\<^verbatim>\<open>server/session.c\<close>): the table deduplication is keyed on.
    \<^item> Os, Net and Os_Spare (\<^verbatim>\<open>sys/os.h\<close> over \<^verbatim>\<open>sys/syscall.h, linux.h\<close>): the typed operations over a
      kernel that is a record of functions on an arbitrary state; Os_Spare has those the server
      itself never calls.
    \<^item> Loop_State (\<^verbatim>\<open>loop.h\<close> and the helpers of \<^verbatim>\<open>loop.c\<close>), Loop_Frames (frame handlers), Loop_Push
      (subscribers, both ends of the replication stream, acknowledgements, retention), Metrics and
      Scrape, Loop_Events (sockets), Loop_Tick (one pass, \<^verbatim>\<open>loop_run\<close>, start and stop).
    \<^item> Loop_Inv, Loop_Steps, Loop_Peers, Loop_Acks, Loop_Writes, Loop_Delivery,
      Loop_Replication, Loop_Retain, Loop_Metrics: what is proved of the loop.
    \<^item> Arguments and Main_Program (\<^verbatim>\<open>server/main.c\<close>), with what is proved of the arguments in
      Arguments_Facts.
    \<^item> Selfcheck_Core, Selfcheck_Wal, Selfcheck_Tables, Selfcheck_Conn, Selfcheck_Segment and
      Selfcheck_Log (with their runs on the file system in memory in Selfcheck_Segment_Runs,
      Selfcheck_Log_Fs and Selfcheck_Log_Runs), Selfcheck (\<^verbatim>\<open>server/selfcheck.c\<close>): the program's
      tests of itself that touch no socket.
    \<^item> Tiny (\<^verbatim>\<open>server/tiny.c, tinye.c, core/debug.h\<close>): the two demonstration programs and the
      printers of an error stack.

  \<^bold>\<open>How state and operations correspond.\<close> A C struct is a record with the struct's fields; an
  operation takes the structs it may change and the kernel state \<open>k\<close> and returns them, with its
  result first. Sequences, session ids and keys are 64-bit words and flags 16-bit words, with the
  machine's wrap-around; byte counts and offsets are \<open>nat\<close>, except where the code's \<open>int32_t\<close>
  arithmetic can overflow or go negative, which is \<open>int\<close> with the test or the wrap written out.
  A nullable pointer is an option, a caller's buffer is a byte list of the same length, a pointer
  into a table is an index. Pushes onto the error stack are diagnostics no code branches on and
  are not threaded through the other components; the stack itself is Err_Stack.

  \<^bold>\<open>What is shown.\<close> Round trips of every codec and of segment names, numbers and text; framing of
  a byte stream cut anywhere; recovery after a crash, which keeps every flushed record, of one
  segment and of a whole log that rolled over (Wal_Crash), and the one state it leads to from which a
  rollover makes the log unopenable (Wal_Torn); the segment table, cursors, retention and the key index against their specifications; the session
  table against a recency list. For the loop: every index and buffer stays in range in every
  state it reaches (Loop_Inv); the replica marks stay exact, so no two slots share one and none
  leaks (Loop_Peers); no acknowledgement is staged before it is true, and every one that can be
  given is given (Loop_Acks); writes are stored exactly once (Loop_Writes); subscribers and
  followers get the log's records, whole and in order (Loop_Delivery), and what a leader reads from its log's bytes is what its
  follower's log becomes (Loop_Replication); retention deletes only what every expected replica
  confirmed (Loop_Retain); the metrics document is never cut short (Loop_Metrics). The model also
  passes the program's own tests (Selfcheck). Loop_Steps proves the passage from single steps to a
  whole pass once, in the locales \<open>quiet_invariant\<close> and \<open>pass_invariant\<close>, which the other two interpret.

  \<^bold>\<open>Termination.\<close> The loops are total functions with their own measures (receive, parse, append,
  scan, retry loops included), except \<open>loop_run\<close>, which ends when the program is stopped and is a
  partial function whose value \<open>None\<close> is not returning, and the loop over directory entries,
  which ends when the listing does (\<open>dir_finite\<close>). A retry loop over EINTR is bounded as in the
  code. \<open>PASS_ROOM\<close> is the number of bytes a pass can parse and so bounds the records it appends:
  a pass from a sequence within \<open>PASS_ROOM\<close> of \<open>2 ^ 64\<close> is excluded where sequences must not wrap.

  \<^bold>\<open>What the kernel is assumed to do,\<close> each as a named hypothesis of the theorems that use it:
  \<open>epoll_data_ok\<close> (epoll hands back the data it was given), \<open>dir_finite\<close> (a directory listing
  ends), \<open>lists_dir\<close> (a listing is whole directory records, in blocks of any size), \<open>file_reads\<close>
  (reading a file returns its bytes, in pieces of any size), \<open>file_writes\<close>, \<open>file_flushes\<close> and
  \<open>file_creates\<close> (a write stores a prefix in that file only, flushing changes no contents, a new file
  is empty and preallocation fills it with zeros), \<open>log_on_disk\<close> (opening a segment by its name gives
  the file of that name). \<open>mem_kernel\<close> and \<open>net_example\<close> are instances. Crashes are modelled on the file's bytes: what was synced stays.

  \<^bold>\<open>Not modelled.\<close> The raw system call instructions (the kernel is a parameter), the cpuid probe for
  the crc32 instruction, the printf calls of debug builds other than the error stack's, and the self
  checks that script clients, leaders and followers over loopback sockets and epoll (\<^verbatim>\<open>selfcheck_loop\<close>,
  \<^verbatim>\<open>selfcheck_epoll\<close>, \<^verbatim>\<open>selfcheck_session_recovery\<close>, \<^verbatim>\<open>selfcheck_send_failure\<close>, \<^verbatim>\<open>selfcheck_replication\<close>,
  the two retention checks and \<^verbatim>\<open>selfcheck_metrics\<close>): they pass or fail with a kernel that delivers to
  one socket what another sent, which is not this code, and what they exercise is proved for every
  kernel in the theories above. \<^verbatim>\<open>selfcheck_session_retention\<close> is left out because it hangs on the
  machine's random pool not repeating in 256 draws. \<^verbatim>\<open>selfcheck_run\<close>, which calls all of them, is a
  parameter of \<open>main_program\<close>.
\<close>

end
